(* ===== verification/Prelude.thy ===== *)
theory Prelude
  imports Main "HOL-Library.Word" "HOL-Library.Sublist"
begin

section \<open>Prelude: shared types, collections and interfaces\<close>

text \<open>
  What every component of the NetworkModuleTest development shares: the names of the
  machine integers of the C++ code, the outcome of an operation that may block, the
  collections of facts the component proofs unfold, the little-endian byte layout that
  \<open>#pragma pack(push, 1)\<close> structs have on the wire, and the contract of a FIFO queue
  (\<open>fifo\<close>), which the queues of the program implement and their clients rely on.
\<close>

subsection \<open>Machine integers\<close>

type_synonym u8 = "8 word"
type_synonym u16 = "16 word"
type_synonym u32 = "32 word"
type_synonym u64 = "64 word"
type_synonym size_t = "64 word"

type_synonym byte = "8 word"

text \<open>
  Facts collections: \<open>ops\<close> holds the definitions of operations that a proof about one
  call unfolds, \<open>invs\<close> the definitions of invariants.
\<close>

named_theorems ops \<open>definitions of operations, for proofs about a single call\<close>
named_theorems invs \<open>definitions of invariants\<close>

subsection \<open>Operations that may block\<close>

text \<open>
  A call that waits on a condition variable either goes on waiting (the mutex is released,
  no state changes) or returns. One evaluation of the call is a value of this type.
\<close>

datatype 'r wait = Blocked | Returned 'r

text \<open>
  \<open>std::condition_variable::wait_until(lock, deadline, pred)\<close>, evaluated once with the
  mutex held: it returns \<open>true\<close> as soon as the predicate holds, \<open>false\<close> when the deadline has
  passed and the predicate still does not hold, and otherwise waits. \<open>wait(lock, pred)\<close> is
  the case in which the deadline never passes.
\<close>

definition cv_wait :: "bool \<Rightarrow> bool \<Rightarrow> bool wait" where
  "cv_wait expired p = (if p then Returned True else if expired then Returned False else Blocked)"

lemma cv_wait_simps [simp]:
  "cv_wait expired True = Returned True"
  "cv_wait True False = Returned False"
  "cv_wait False False = Blocked"
  by (simp_all add: cv_wait_def)

lemma cv_wait_eq_iff [simp]:
  "cv_wait e p = Returned True \<longleftrightarrow> p"
  "cv_wait e p = Returned False \<longleftrightarrow> \<not> p \<and> e"
  "cv_wait e p = Blocked \<longleftrightarrow> \<not> p \<and> \<not> e"
  by (auto simp: cv_wait_def)

subsection \<open>Lists updated by index\<close>

lemma nth_update_if: "j < length xs \<Longrightarrow> xs[i := x] ! j = (if i = j then x else xs ! j)"
  by (cases "i < length xs") auto

lemma set_update_D: "y \<in> set (xs[i := x]) \<Longrightarrow> y = x \<or> y \<in> set xs"
  by (auto dest: subsetD [OF set_update_subset_insert])

text \<open>A sum of per-element counters after one element changes.\<close>

lemma sum_list_map_update:
  fixes f :: "'a \<Rightarrow> 'b::ab_group_add"
  assumes "i < length xs"
  shows "sum_list (map f (xs[i := x])) = sum_list (map f xs) - f (xs ! i) + f x"
proof -
  have "sum_list (map f xs) = sum_list (map f (take i xs @ xs ! i # drop (Suc i) xs))"
    using assms by (simp only: id_take_nth_drop [symmetric])
  then show ?thesis using assms by (simp add: upd_conv_take_nth_drop algebra_simps)
qed

lemma sum_list_map_0: "(\<And>x. x \<in> set xs \<Longrightarrow> f x = 0) \<Longrightarrow> sum_list (map f xs) = (0::'b::monoid_add)"
  by (induction xs) auto

lemma sum_list_replicate_0 [simp]: "sum_list (replicate n (0::'b::monoid_add)) = 0"
  by (induction n) auto

lemma of_nat_size_0_iff: "n < 2 ^ 64 \<Longrightarrow> (of_nat n :: size_t) = 0 \<longleftrightarrow> n = 0"
  by (auto simp: word_of_nat_eq_0_iff dest: dvd_imp_le)

lemma unat_of_nat_diff: "a \<le> b \<Longrightarrow> b < 2 ^ 64 \<Longrightarrow> unat (of_nat b - of_nat a :: u64) = b - a"
  by (simp add: of_nat_diff [symmetric] unat_of_nat del: of_nat_diff)

lemma counter_balance:
  fixes s :: "'a::ab_group_add"
  assumes "s' = s + p + l - p'" and "t' = t - p + p'"
  shows "s' + t' = s + t + l"
  unfolding assms by (simp add: algebra_simps)

subsection \<open>Little-endian bytes\<close>

text \<open>
  The packed structs of the wire protocol are sent as they lie in memory, and every
  supported target is little-endian. \<open>le_bytes n w\<close> are the \<open>n\<close> low bytes of \<open>w\<close>, least
  significant first; \<open>le_word\<close> reads them back.
\<close>

fun le_bytes :: "nat \<Rightarrow> 'a::len word \<Rightarrow> byte list" where
  "le_bytes 0 w = []"
| "le_bytes (Suc n) w = ucast w # le_bytes n (drop_bit 8 w)"

fun le_word :: "byte list \<Rightarrow> 'a::len word" where
  "le_word [] = 0"
| "le_word (b # bs) = or (ucast b) (push_bit 8 (le_word bs))"

lemma le_bytes_numeral: "le_bytes (numeral k) w = ucast w # le_bytes (pred_numeral k) (drop_bit 8 w)"
  by (simp add: numeral_eq_Suc)

lemma length_le_bytes [simp]: "length (le_bytes n w) = n"
  by (induction n arbitrary: w) simp_all

lemma bit_le_word_le_bytes:
  "bit (le_word (le_bytes n w) :: 'a::len word) i \<longleftrightarrow> i < 8 * n \<and> bit (w :: 'a word) i"
proof (induction n arbitrary: w i)
  case 0
  then show ?case by simp
next
  case (Suc n)
  show ?case
  proof (cases "i < LENGTH('a)")
    case False
    then show ?thesis by (auto dest: bit_imp_le_length)
  next
    case True
    then show ?thesis
      by (auto simp: bit_or_iff bit_push_bit_iff bit_ucast_iff Suc.IH bit_drop_bit_eq not_less
          dest: bit_imp_le_length)
  qed
qed

lemma le_word_le_bytes [simp]:
  assumes "LENGTH('a) \<le> 8 * n"
  shows "(le_word (le_bytes n w) :: 'a::len word) = w"
  by (rule bit_eqI) (use assms in \<open>auto simp: bit_le_word_le_bytes\<close>)

subsection \<open>The FIFO contracts\<close>

text \<open>
  A machine that stores elements and is driven by operations of any kind: one operation
  returns the elements it accepted, the elements it handed out (both in order) and the new
  state. \<open>run_machine\<close> runs a sequence of operations.
\<close>

fun run_machine :: "('op \<Rightarrow> 'q \<Rightarrow> 'a list \<times> 'a list \<times> 'q) \<Rightarrow> 'op list \<Rightarrow> 'q \<Rightarrow>
    'a list \<times> 'a list \<times> 'q" where
  "run_machine step [] q = ([], [], q)"
| "run_machine step (x # xs) q =
     (case step x q of (acc, out, q') \<Rightarrow>
      case run_machine step xs q' of (acc', out', q'') \<Rightarrow> (acc @ acc', out @ out', q''))"

locale fifo_machine =
  fixes view :: "'q \<Rightarrow> 'a list"
    and wf :: "'q \<Rightarrow> bool"
    and step :: "'op \<Rightarrow> 'q \<Rightarrow> 'a list \<times> 'a list \<times> 'q"
  assumes step_fifo: "wf q \<Longrightarrow> step x q = (acc, out, q') \<Longrightarrow> out @ view q' = view q @ acc"
    and step_wf: "wf q \<Longrightarrow> step x q = (acc, out, q') \<Longrightarrow> wf q'"
begin

text \<open>
  The client's view of the contract: what was handed out, followed by what is still stored,
  is what was stored at the start followed by what was accepted. Nothing is lost,
  duplicated or reordered, whatever the sequence of operations.
\<close>

lemma run_fifo:
  "wf q \<Longrightarrow> run_machine step xs q = (acc, out, q') \<Longrightarrow> out @ view q' = view q @ acc"
proof (induction xs arbitrary: q acc out q')
  case Nil
  then show ?case by simp
next
  case (Cons x xs)
  obtain a o1 q1 where s: "step x q = (a, o1, q1)" using prod_cases3 by blast
  obtain a' o2 q2 where r: "run_machine step xs q1 = (a', o2, q2)" using prod_cases3 by blast
  have "o1 @ view q1 = view q @ a" using Cons.prems(1) s by (rule step_fifo)
  moreover have "o2 @ view q2 = view q1 @ a'"
    using Cons.IH [OF step_wf [OF Cons.prems(1) s] r] .
  ultimately show ?case using Cons.prems(2) s r by simp (metis append.assoc)
qed

lemma run_wf: "wf q \<Longrightarrow> run_machine step xs q = (acc, out, q') \<Longrightarrow> wf q'"
  by (induction xs arbitrary: q acc out q') (fastforce split: prod.splits dest: step_wf)+

text \<open>From an empty machine, the elements handed out are a prefix of those accepted.\<close>

lemma run_prefix:
  assumes "wf q" and "view q = []" and "run_machine step xs q = (acc, out, q')"
  shows "prefix out acc"
  using run_fifo [OF assms(1,3)] assms(2) by (auto simp: prefix_def)

end

text \<open>
  The smaller contract of a queue with one way in and one way out. It gives the contract
  above for the machine of these two operations.
\<close>

datatype 'a qop = QPush 'a | QPop

definition qstep :: "('a \<Rightarrow> 'q \<Rightarrow> bool \<times> 'q) \<Rightarrow> ('q \<Rightarrow> 'a option \<times> 'q) \<Rightarrow> 'a qop \<Rightarrow> 'q \<Rightarrow>
    'a list \<times> 'a list \<times> 'q" where
  "qstep push pop x q =
     (case x of
        QPush v \<Rightarrow> (case push v q of (ok, q') \<Rightarrow> ((if ok then [v] else []), [], q'))
      | QPop \<Rightarrow> (case pop q of (r, q') \<Rightarrow> ([], (case r of None \<Rightarrow> [] | Some v \<Rightarrow> [v]), q')))"

locale fifo =
  fixes view :: "'q \<Rightarrow> 'a list"
    and wf :: "'q \<Rightarrow> bool"
    and push :: "'a \<Rightarrow> 'q \<Rightarrow> bool \<times> 'q"
    and pop :: "'q \<Rightarrow> 'a option \<times> 'q"
  assumes push_accept: "wf q \<Longrightarrow> push x q = (True, q') \<Longrightarrow> view q' = view q @ [x] \<and> wf q'"
    and push_reject: "wf q \<Longrightarrow> push x q = (False, q') \<Longrightarrow> view q' = view q \<and> wf q'"
    and pop_some: "wf q \<Longrightarrow> pop q = (Some x, q') \<Longrightarrow> view q = x # view q' \<and> wf q'"
    and pop_none: "wf q \<Longrightarrow> pop q = (None, q') \<Longrightarrow> view q = [] \<and> view q' = [] \<and> wf q'"

sublocale fifo \<subseteq> pq: fifo_machine view wf "qstep push pop"
proof unfold_locales
  fix q x acc out q'
  assume q: "wf q" and s: "qstep push pop x q = (acc, out, q')"
  show "out @ view q' = view q @ acc" and "wf q'"
    using s push_accept [OF q] push_reject [OF q] pop_some [OF q] pop_none [OF q]
    by (auto simp: qstep_def split: qop.splits prod.splits if_splits option.splits)
qed

lemma unat_widen: "unat (ucast (x :: u32) :: u64) = unat x"
  by transfer (simp add: take_bit_take_bit)

end
