(* ===== verification/Exec_Queue.thy ===== *)
theory Exec_Queue
  imports Prelude
begin

section \<open>ExecutionQueue, Channel and SafeQueue\<close>

text \<open>
  The mutex-protected FIFO queues of the engine: \<open>Concurrency/ExecutionQueue.h\<close> (bounded,
  with a back-pressure policy and a shutdown that lets the consumer drain),
  \<open>Concurrency/Channel.h\<close> (its typed facade) and \<open>Utils/SafeQueue.h\<close>.

  Every operation takes the mutex once, so it is one atomic function on the queue's record.
  A call that waits on a condition variable is evaluated with the deadline's state as an
  argument (\<open>expired\<close>): \<^const>\<open>Blocked\<close> means that the call goes on waiting and
  has changed nothing. Notifications need no state: a waiter may re-evaluate its predicate
  at any time.
\<close>

subsection \<open>ExecutionQueue: state\<close>

datatype BackpressurePolicy = RejectNewest | Block

record ExecutionQueueOptions =
  mBackpressure :: BackpressurePolicy
  mCapacity :: size_t

record 't ExecutionQueue =
  eqOptions :: ExecutionQueueOptions
  eqShutdown :: bool
  eqSize :: size_t
  eqQueue :: "'t list"

definition default_options :: ExecutionQueueOptions where
  "default_options = \<lparr>mBackpressure = RejectNewest, mCapacity = 0\<rparr>"

definition EQ_new :: "ExecutionQueueOptions \<Rightarrow> 't ExecutionQueue" where
  "EQ_new options = \<lparr>eqOptions = options, eqShutdown = False, eqSize = 0, eqQueue = []\<rparr>"

abbreviation eqCap :: "'t ExecutionQueue \<Rightarrow> nat" where
  "eqCap q \<equiv> unat (mCapacity (eqOptions q))"

subsection \<open>ExecutionQueue: operations\<close>

text \<open>\<open>mQueue.push\<close> with its counter, and \<open>mQueue.pop\<close> with its counter.\<close>

definition EQ_enqueue :: "'t \<Rightarrow> 't ExecutionQueue \<Rightarrow> 't ExecutionQueue" where
  "EQ_enqueue v q = q\<lparr>eqQueue := eqQueue q @ [v], eqSize := eqSize q + 1\<rparr>"

definition EQ_dequeue :: "'t ExecutionQueue \<Rightarrow> 't ExecutionQueue" where
  "EQ_dequeue q = q\<lparr>eqQueue := tl (eqQueue q), eqSize := eqSize q - 1\<rparr>"

definition EQ_TryPushImpl :: "'t \<Rightarrow> 't ExecutionQueue \<Rightarrow> bool \<times> 't ExecutionQueue" where
  "EQ_TryPushImpl v q =
     (if eqShutdown q then (False, q)
      else if 0 < eqCap q \<and> eqCap q \<le> length (eqQueue q) then (False, q)
      else (True, EQ_enqueue v q))"

definition EQ_TryPush :: "'t \<Rightarrow> 't ExecutionQueue \<Rightarrow> bool \<times> 't ExecutionQueue" where
  "EQ_TryPush v q = (if eqShutdown q then (False, q) else EQ_TryPushImpl v q)"

definition EQ_canPush :: "'t ExecutionQueue \<Rightarrow> bool" where
  "EQ_canPush q \<longleftrightarrow> eqShutdown q \<or> eqCap q = 0 \<or> length (eqQueue q) < eqCap q"

definition EQ_PushBlocking ::
    "'t \<Rightarrow> int \<Rightarrow> bool \<Rightarrow> 't ExecutionQueue \<Rightarrow> bool wait \<times> 't ExecutionQueue" where
  "EQ_PushBlocking v timeoutMs expired q =
     (case cv_wait (0 \<le> timeoutMs \<and> expired) (EQ_canPush q) of
        Blocked \<Rightarrow> (Blocked, q)
      | Returned ok \<Rightarrow>
          if \<not> ok then (Returned False, q)
          else if eqShutdown q then (Returned False, q)
          else (Returned True, EQ_enqueue v q))"

definition EQ_Push ::
    "'t \<Rightarrow> int \<Rightarrow> bool \<Rightarrow> 't ExecutionQueue \<Rightarrow> bool wait \<times> 't ExecutionQueue" where
  "EQ_Push v timeoutMs expired q =
     (if mBackpressure (eqOptions q) = RejectNewest
      then (case EQ_TryPush v q of (ok, q') \<Rightarrow> (Returned ok, q'))
      else EQ_PushBlocking v timeoutMs expired q)"

definition EQ_TryPop :: "'t ExecutionQueue \<Rightarrow> 't option \<times> 't ExecutionQueue" where
  "EQ_TryPop q =
     (case eqQueue q of
        [] \<Rightarrow> (None, q)
      | x # _ \<Rightarrow> (Some x, EQ_dequeue q))"

text \<open>
  The loop of \<open>PopWait\<close>: while the queue is not shut down, wait for an item; after a
  shutdown, hand out what was queued before it. (The branch in which the wait succeeds with
  an empty queue and no shutdown would evaluate the loop again; the predicate excludes it.)
\<close>

definition EQ_hasItem :: "'t ExecutionQueue \<Rightarrow> bool" where
  "EQ_hasItem q \<longleftrightarrow> eqShutdown q \<or> eqQueue q \<noteq> []"

definition EQ_PopWait ::
    "int \<Rightarrow> bool \<Rightarrow> 't ExecutionQueue \<Rightarrow> 't option wait \<times> 't ExecutionQueue" where
  "EQ_PopWait timeoutMs expired q =
     (if \<not> eqShutdown q then
        (case cv_wait (0 \<le> timeoutMs \<and> expired) (EQ_hasItem q) of
           Blocked \<Rightarrow> (Blocked, q)
         | Returned ok \<Rightarrow>
             if \<not> ok then (Returned None, q)
             else (case eqQueue q of
                     [] \<Rightarrow> (Blocked, q)
                   | x # _ \<Rightarrow> (Returned (Some x), EQ_dequeue q)))
      else (case eqQueue q of
              [] \<Rightarrow> (Returned None, q)
            | x # _ \<Rightarrow> (Returned (Some x), EQ_dequeue q)))"

definition EQ_Pop ::
    "int \<Rightarrow> bool \<Rightarrow> 't ExecutionQueue \<Rightarrow> 't option wait \<times> 't ExecutionQueue" where
  "EQ_Pop timeoutMs expired q =
     (case EQ_TryPop q of
        (Some x, q') \<Rightarrow> (Returned (Some x), q')
      | (None, q') \<Rightarrow>
          if timeoutMs = 0 then (Returned None, q') else EQ_PopWait timeoutMs expired q')"

definition EQ_Shutdown :: "'t ExecutionQueue \<Rightarrow> 't ExecutionQueue" where
  "EQ_Shutdown q = (if eqShutdown q then q else q\<lparr>eqShutdown := True\<rparr>)"

definition EQ_IsShutdown :: "'t ExecutionQueue \<Rightarrow> bool" where
  "EQ_IsShutdown q = eqShutdown q"

definition EQ_Size :: "'t ExecutionQueue \<Rightarrow> size_t" where
  "EQ_Size q = eqSize q"

definition EQ_Empty :: "'t ExecutionQueue \<Rightarrow> bool" where
  "EQ_Empty q \<longleftrightarrow> EQ_Size q = 0"

definition EQ_Capacity :: "'t ExecutionQueue \<Rightarrow> size_t" where
  "EQ_Capacity q = mCapacity (eqOptions q)"

lemmas EQ_push_defs = EQ_TryPushImpl_def EQ_TryPush_def EQ_canPush_def EQ_PushBlocking_def
  EQ_Push_def EQ_enqueue_def
lemmas EQ_pop_defs = EQ_TryPop_def EQ_hasItem_def EQ_PopWait_def EQ_Pop_def EQ_dequeue_def

subsection \<open>ExecutionQueue: invariant and refinement\<close>

text \<open>
  The counter read without the mutex is the number of queued items, and a bounded queue
  never holds more than its capacity.
\<close>

definition EQ_inv :: "'t ExecutionQueue \<Rightarrow> bool" where
  [invs]: "EQ_inv q \<longleftrightarrow> eqSize q = of_nat (length (eqQueue q)) \<and>
     (0 < eqCap q \<longrightarrow> length (eqQueue q) \<le> eqCap q)"

lemma EQ_inv_new [simp]: "EQ_inv (EQ_new options)"
  by (simp add: invs EQ_new_def)

lemma EQ_inv_enqueue:
  "EQ_inv q \<Longrightarrow> (0 < eqCap q \<longrightarrow> length (eqQueue q) < eqCap q) \<Longrightarrow> EQ_inv (EQ_enqueue v q)"
  by (auto simp: invs EQ_enqueue_def)

lemma EQ_inv_dequeue: "EQ_inv q \<Longrightarrow> eqQueue q \<noteq> [] \<Longrightarrow> EQ_inv (EQ_dequeue q)"
  by (cases "eqQueue q") (auto simp: invs EQ_dequeue_def)

lemma EQ_view [simp]:
  "eqQueue (EQ_new options) = []"
  "eqQueue (EQ_enqueue v q) = eqQueue q @ [v]"
  "eqQueue (EQ_dequeue q) = tl (eqQueue q)"
  "eqQueue (EQ_Shutdown q) = eqQueue q"
  "eqShutdown (EQ_enqueue v q) = eqShutdown q"
  "eqShutdown (EQ_dequeue q) = eqShutdown q"
  "eqShutdown (EQ_Shutdown q)"
  "eqOptions (EQ_enqueue v q) = eqOptions q"
  "eqOptions (EQ_dequeue q) = eqOptions q"
  "eqOptions (EQ_Shutdown q) = eqOptions q"
  by (auto simp: EQ_new_def EQ_enqueue_def EQ_dequeue_def EQ_Shutdown_def)

lemma EQ_inv_Shutdown [simp]: "EQ_inv q \<Longrightarrow> EQ_inv (EQ_Shutdown q)"
  by (simp add: invs EQ_Shutdown_def)

text \<open>What a push does, on every branch, for any policy.\<close>

lemma EQ_TryPush_cases:
  "EQ_TryPush v q =
     (if eqShutdown q \<or> (0 < eqCap q \<and> eqCap q \<le> length (eqQueue q)) then (False, q)
      else (True, EQ_enqueue v q))"
  by (simp add: EQ_TryPush_def EQ_TryPushImpl_def)

lemma EQ_Push_cases:
  "EQ_Push v timeoutMs expired q =
     (if eqShutdown q then (Returned False, q)
      else if eqCap q = 0 \<or> length (eqQueue q) < eqCap q then (Returned True, EQ_enqueue v q)
      else if mBackpressure (eqOptions q) = RejectNewest \<or> (0 \<le> timeoutMs \<and> expired)
           then (Returned False, q)
      else (Blocked, q))"
  by (auto simp: EQ_Push_def EQ_TryPush_cases EQ_PushBlocking_def EQ_canPush_def cv_wait_def)

text \<open>What a pop does, on every branch.\<close>

lemma EQ_Pop_cases:
  "EQ_Pop timeoutMs expired q =
     (case eqQueue q of
        x # _ \<Rightarrow> (Returned (Some x), EQ_dequeue q)
      | [] \<Rightarrow> if timeoutMs = 0 \<or> eqShutdown q \<or> (0 \<le> timeoutMs \<and> expired)
              then (Returned None, q) else (Blocked, q))"
  by (auto simp: EQ_Pop_def EQ_TryPop_def EQ_PopWait_def EQ_hasItem_def cv_wait_def
      split: list.splits)

text \<open>The operations as a machine: one element per call of the public interface.\<close>

datatype 't eq_op =
    EqTryPush 't
  | EqPush 't int bool
  | EqTryPop
  | EqPop int bool
  | EqShutdown

fun EQ_step :: "'t eq_op \<Rightarrow> 't ExecutionQueue \<Rightarrow> 't list \<times> 't list \<times> 't ExecutionQueue" where
  "EQ_step (EqTryPush v) q =
     (case EQ_TryPush v q of (ok, q') \<Rightarrow> ((if ok then [v] else []), [], q'))"
| "EQ_step (EqPush v t e) q =
     (case EQ_Push v t e q of (r, q') \<Rightarrow> ((if r = Returned True then [v] else []), [], q'))"
| "EQ_step EqTryPop q =
     (case EQ_TryPop q of (r, q') \<Rightarrow> ([], (case r of None \<Rightarrow> [] | Some x \<Rightarrow> [x]), q'))"
| "EQ_step (EqPop t e) q =
     (case EQ_Pop t e q of (r, q') \<Rightarrow>
        ([], (case r of Returned (Some x) \<Rightarrow> [x] | _ \<Rightarrow> []), q'))"
| "EQ_step EqShutdown q = ([], [], EQ_Shutdown q)"

lemma EQ_step_fifo:
  "EQ_step x q = (acc, out, q') \<Longrightarrow> out @ eqQueue q' = eqQueue q @ acc"
  by (cases x) (auto simp: EQ_TryPush_cases EQ_Push_cases EQ_Pop_cases EQ_TryPop_def
      split: if_splits list.splits)

lemma EQ_step_inv:
  "EQ_inv q \<Longrightarrow> EQ_step x q = (acc, out, q') \<Longrightarrow> EQ_inv q'"
  by (cases x) (auto simp: EQ_TryPush_cases EQ_Push_cases EQ_Pop_cases EQ_TryPop_def
      intro: EQ_inv_enqueue EQ_inv_dequeue split: if_splits list.splits)

interpretation eq: fifo_machine eqQueue EQ_inv EQ_step
  by unfold_locales (auto dest: EQ_step_fifo EQ_step_inv)

text \<open>The same queue through its two non-blocking operations.\<close>

interpretation eqtry: fifo eqQueue EQ_inv EQ_TryPush EQ_TryPop
  by unfold_locales
    (auto simp: EQ_TryPush_cases EQ_TryPop_def intro: EQ_inv_enqueue EQ_inv_dequeue
      split: if_splits list.splits)

subsection \<open>ExecutionQueue: properties\<close>

text \<open>
  C31: whatever sequence of \<open>TryPush\<close>, \<open>Push\<close>, \<open>TryPop\<close>, \<open>Pop\<close> and \<open>Shutdown\<close> calls a new
  ExecutionQueue serves, and whatever its policy, the items handed out followed by the items
  still queued are exactly the accepted items in the order of acceptance; the lock-free
  counter equals the number of queued items and a bounded queue never exceeds its capacity.
\<close>

theorem eq_history:
  assumes "run_machine EQ_step xs (EQ_new options) = (acc, out, q)"
  shows "out @ eqQueue q = acc \<and> EQ_Size q = of_nat (length (eqQueue q)) \<and>
    (0 < eqCap q \<longrightarrow> length (eqQueue q) \<le> eqCap q)"
  using eq.run_fifo [OF EQ_inv_new assms] eq.run_wf [OF EQ_inv_new assms]
  by (simp add: invs EQ_Size_def)

theorem eq_history_witness:
  "run_machine EQ_step [EqPush (7::nat) 0 True, EqTryPush 8, EqTryPush 9, EqTryPop]
     (EQ_new \<lparr>mBackpressure = Block, mCapacity = 2\<rparr>) =
     ([7, 8], [7], \<lparr>eqOptions = \<lparr>mBackpressure = Block, mCapacity = 2\<rparr>, eqShutdown = False,
       eqSize = 1, eqQueue = [8]\<rparr>) \<and> [7] @ [8::nat] = [7, 8]"
proof -
  have r: "run_machine EQ_step [EqPush (7::nat) 0 True, EqTryPush 8, EqTryPush 9, EqTryPop]
     (EQ_new \<lparr>mBackpressure = Block, mCapacity = 2\<rparr>) =
     ([7, 8], [7], \<lparr>eqOptions = \<lparr>mBackpressure = Block, mCapacity = 2\<rparr>, eqShutdown = False,
       eqSize = 1, eqQueue = [8]\<rparr>)"
    by (simp add: EQ_push_defs EQ_pop_defs EQ_new_def)
  show ?thesis using eq_history [OF r] r by simp
qed

lemma EQ_step_shutdown:
  assumes "eqShutdown q" and "EQ_step x q = (acc, out, q')"
  shows "acc = [] \<and> eqShutdown q'"
  using assms by (cases x) (auto simp: EQ_TryPush_cases EQ_Push_cases EQ_Pop_cases EQ_TryPop_def
      split: if_splits list.splits)

lemma EQ_run_shutdown:
  "eqShutdown q \<Longrightarrow> run_machine EQ_step xs q = (acc, out, q') \<Longrightarrow> acc = [] \<and> eqShutdown q'"
proof (induction xs arbitrary: q acc out q')
  case Nil
  then show ?case by simp
next
  case (Cons x xs)
  obtain a o1 q1 where s: "EQ_step x q = (a, o1, q1)" using prod_cases3 by blast
  obtain a' o2 q2 where r: "run_machine EQ_step xs q1 = (a', o2, q2)" using prod_cases3 by blast
  have "a = [] \<and> eqShutdown q1" using Cons.prems(1) s by (rule EQ_step_shutdown)
  moreover from this have "a' = [] \<and> eqShutdown q2" using Cons.IH r by blast
  ultimately show ?case using Cons.prems(2) s r by simp
qed

lemma EQ_drain:
  "eqShutdown q \<Longrightarrow> eqQueue q = items \<Longrightarrow>
   \<exists>q'. run_machine EQ_step (replicate (length items) (EqPop t e)) q = ([], items, q') \<and>
        eqQueue q' = [] \<and> eqShutdown q'"
proof (induction items arbitrary: q)
  case Nil
  then show ?case by simp
next
  case (Cons x items)
  from Cons.prems have "eqShutdown (EQ_dequeue q)" and "eqQueue (EQ_dequeue q) = items"
    by simp_all
  from Cons.IH [OF this] obtain q' where
    "run_machine EQ_step (replicate (length items) (EqPop t e)) (EQ_dequeue q) = ([], items, q')"
    "eqQueue q' = []" "eqShutdown q'" by blast
  with Cons.prems show ?case by (simp add: EQ_Pop_cases)
qed

text \<open>
  a shutdown loses nothing that was accepted before it. After \<open>Shutdown\<close> no operation
  sequence gets another item accepted, and as many \<open>Pop\<close> calls as there are queued items
  return exactly these items in order, without blocking, whatever the timeout; after them
  \<open>Pop\<close> returns false at once instead of waiting.
\<close>

theorem eq_shutdown_drains:
  fixes q :: "'t ExecutionQueue"
  defines "s \<equiv> EQ_Shutdown q"
  shows "(\<exists>q'. run_machine EQ_step (replicate (length (eqQueue q)) (EqPop t e)) s =
            ([], eqQueue q, q') \<and> EQ_Pop t e q' = (Returned None, q')) \<and>
         fst (run_machine EQ_step xs s) = []"
proof
  have "eqShutdown s" and "eqQueue s = eqQueue q" by (simp_all add: s_def)
  from EQ_drain [OF this] obtain q' where
    "run_machine EQ_step (replicate (length (eqQueue q)) (EqPop t e)) s = ([], eqQueue q, q')"
    "eqQueue q' = []" "eqShutdown q'" by blast
  then show "\<exists>q'. run_machine EQ_step (replicate (length (eqQueue q)) (EqPop t e)) s =
            ([], eqQueue q, q') \<and> EQ_Pop t e q' = (Returned None, q')"
    by (auto simp: EQ_Pop_cases)
  show "fst (run_machine EQ_step xs s) = []"
    using EQ_run_shutdown [OF \<open>eqShutdown s\<close>] by (cases "run_machine EQ_step xs s") auto
qed

subsection \<open>Channel\<close>

record 't Channel =
  chQueue :: "'t ExecutionQueue"

definition Channel_new :: "ExecutionQueueOptions \<Rightarrow> 't Channel" where
  "Channel_new options = \<lparr>chQueue = EQ_new options\<rparr>"

definition TrySend :: "'t \<Rightarrow> 't Channel \<Rightarrow> bool \<times> 't Channel" where
  "TrySend v c = (case EQ_TryPush v (chQueue c) of (ok, q) \<Rightarrow> (ok, c\<lparr>chQueue := q\<rparr>))"

definition Channel_Send :: "'t \<Rightarrow> int \<Rightarrow> bool \<Rightarrow> 't Channel \<Rightarrow> bool wait \<times> 't Channel" where
  "Channel_Send v timeoutMs expired c =
     (case EQ_Push v timeoutMs expired (chQueue c) of (r, q) \<Rightarrow> (r, c\<lparr>chQueue := q\<rparr>))"

definition TryReceive :: "'t Channel \<Rightarrow> 't option \<times> 't Channel" where
  "TryReceive c = (case EQ_TryPop (chQueue c) of (r, q) \<Rightarrow> (r, c\<lparr>chQueue := q\<rparr>))"

definition Receive :: "int \<Rightarrow> bool \<Rightarrow> 't Channel \<Rightarrow> 't option wait \<times> 't Channel" where
  "Receive timeoutMs expired c =
     (case EQ_Pop timeoutMs expired (chQueue c) of (r, q) \<Rightarrow> (r, c\<lparr>chQueue := q\<rparr>))"

definition Channel_Shutdown :: "'t Channel \<Rightarrow> 't Channel" where
  "Channel_Shutdown c = c\<lparr>chQueue := EQ_Shutdown (chQueue c)\<rparr>"

definition Channel_IsShutdown :: "'t Channel \<Rightarrow> bool" where
  "Channel_IsShutdown c = EQ_IsShutdown (chQueue c)"

definition Channel_Size :: "'t Channel \<Rightarrow> size_t" where
  "Channel_Size c = EQ_Size (chQueue c)"

interpretation ch: fifo "\<lambda>c. eqQueue (chQueue c)" "\<lambda>c. EQ_inv (chQueue c)" TrySend TryReceive
  by unfold_locales
    (auto simp: TrySend_def TryReceive_def split: prod.splits
      dest: eqtry.push_accept eqtry.push_reject eqtry.pop_some eqtry.pop_none)

subsection \<open>SafeQueue\<close>

record 't SafeQueue =
  sqQueue :: "'t list"
  sqShutdown :: bool
  sqMaxSize :: size_t

definition SQ_new :: "size_t \<Rightarrow> 't SafeQueue" where
  "SQ_new maxSize = \<lparr>sqQueue = [], sqShutdown = False, sqMaxSize = maxSize\<rparr>"

text \<open>
  The copying \<open>Push\<close>, the moving \<open>Push\<close> and \<open>Emplace\<close> differ only in how the item is
  constructed.
\<close>

definition SQ_Push :: "'t \<Rightarrow> 't SafeQueue \<Rightarrow> bool \<times> 't SafeQueue" where
  "SQ_Push item q =
     (if 0 < unat (sqMaxSize q) \<and> unat (sqMaxSize q) \<le> length (sqQueue q) then (False, q)
      else (True, q\<lparr>sqQueue := sqQueue q @ [item]\<rparr>))"

definition SQ_Pop :: "int \<Rightarrow> bool \<Rightarrow> 't SafeQueue \<Rightarrow> 't option wait \<times> 't SafeQueue" where
  "SQ_Pop timeoutMs expired q =
     (case cv_wait (0 \<le> timeoutMs \<and> expired) (sqQueue q \<noteq> [] \<or> sqShutdown q) of
        Blocked \<Rightarrow> (Blocked, q)
      | Returned ok \<Rightarrow>
          if \<not> ok then (Returned None, q)
          else (case sqQueue q of
                  [] \<Rightarrow> (Returned None, q)
                | x # xs \<Rightarrow> (Returned (Some x), q\<lparr>sqQueue := xs\<rparr>)))"

definition SQ_Empty :: "'t SafeQueue \<Rightarrow> bool" where
  "SQ_Empty q \<longleftrightarrow> sqQueue q = []"

definition SQ_Size :: "'t SafeQueue \<Rightarrow> nat" where
  "SQ_Size q = length (sqQueue q)"

definition SQ_Shutdown :: "'t SafeQueue \<Rightarrow> 't SafeQueue" where
  "SQ_Shutdown q = q\<lparr>sqShutdown := True\<rparr>"

definition SQ_inv :: "'t SafeQueue \<Rightarrow> bool" where
  [invs]: "SQ_inv q \<longleftrightarrow>
     (0 < unat (sqMaxSize q) \<longrightarrow> length (sqQueue q) \<le> unat (sqMaxSize q))"

datatype 't sq_op = SqPush 't | SqPop int bool | SqShutdown

fun SQ_step :: "'t sq_op \<Rightarrow> 't SafeQueue \<Rightarrow> 't list \<times> 't list \<times> 't SafeQueue" where
  "SQ_step (SqPush v) q = (case SQ_Push v q of (ok, q') \<Rightarrow> ((if ok then [v] else []), [], q'))"
| "SQ_step (SqPop t e) q =
     (case SQ_Pop t e q of (r, q') \<Rightarrow>
        ([], (case r of Returned (Some x) \<Rightarrow> [x] | _ \<Rightarrow> []), q'))"
| "SQ_step SqShutdown q = ([], [], SQ_Shutdown q)"

lemma SQ_Pop_cases:
  "SQ_Pop timeoutMs expired q =
     (case sqQueue q of
        x # xs \<Rightarrow> (Returned (Some x), q\<lparr>sqQueue := xs\<rparr>)
      | [] \<Rightarrow> if sqShutdown q \<or> (0 \<le> timeoutMs \<and> expired) then (Returned None, q)
              else (Blocked, q))"
  by (auto simp: SQ_Pop_def cv_wait_def split: list.splits)

interpretation sq: fifo_machine sqQueue SQ_inv SQ_step
proof unfold_locales
  fix q :: "'a SafeQueue" and x acc out q'
  assume "SQ_inv q" and "SQ_step x q = (acc, out, q')"
  then show "out @ sqQueue q' = sqQueue q @ acc" and "SQ_inv q'"
    by (cases x; auto simp: invs SQ_Push_def SQ_Pop_cases SQ_Shutdown_def
        split: if_splits list.splits)+
qed

end
