(* ===== verification/Keyed_Dispatcher.thy ===== *)
theory Keyed_Dispatcher
  imports Exec_Queue
begin

section \<open>KeyedDispatcher\<close>

text \<open>
  \<open>Concurrency/KeyedDispatcher.h\<close>: a fixed set of workers, each with its own ExecutionQueue
  and its own thread; \<open>Dispatch(key, task)\<close> routes by \<open>key % workerCount\<close>.

  The model keeps the program points between which other threads can run. Every call of
  \<open>Dispatch\<close>, every worker thread and the one thread that wins the \<open>Shutdown\<close> race has a
  program counter; one step is one atomic action of the source (one load, one
  compare-and-swap, or one critical section). A queued element is the task tagged with its
  key: the tag is history, no operation reads it. Two more history fields, \<open>kdAccepted\<close> and
  \<open>kdExecuted\<close>, record the order in which queues accepted tasks and workers started them.
\<close>

subsection \<open>State\<close>

record kd_options =
  mWorkerCount :: nat
  mQueueOptions :: ExecutionQueueOptions
  mName :: string

record StatsSnapshot =
  mSubmitted :: size_t
  mRejected :: size_t
  mCompleted :: size_t
  mFailed :: size_t

datatype 't worker_pc =
    WTryPop          \<comment> \<open>loop head: \<open>Pop(task, 100)\<close> begins with \<open>TryPop\<close>\<close>
  | WPopLoop         \<comment> \<open>\<open>PopWait\<close>: the test of the while loop\<close>
  | WPopWait         \<comment> \<open>\<open>PopWait\<close>: waiting for an item with the mutex\<close>
  | WDrain           \<comment> \<open>\<open>PopWait\<close>: after the loop, draining\<close>
  | WCheckRunning    \<comment> \<open>\<open>Pop\<close> returned false: load \<open>mRunning\<close>\<close>
  | WCheckEmpty      \<comment> \<open>\<open>mRunning\<close> was false: load the queue size\<close>
  | WRunning 't      \<comment> \<open>executing the task\<close>
  | WExited

record 't Worker =
  wQueue :: "'t ExecutionQueue"
  wThread :: "'t worker_pc"

datatype 't disp_pc =
    DIdle
  | DEntered u64 "'t option"  \<comment> \<open>shared lock held; the task may be an empty function\<close>
  | DPush nat 't              \<comment> \<open>routed, about to call \<open>Push\<close>\<close>
  | DPushImpl nat 't          \<comment> \<open>\<open>TryPush\<close> saw no shutdown, about to lock\<close>
  | DPushed bool              \<comment> \<open>\<open>Push\<close> returned\<close>

datatype shut_pc = SIdle | SCloseQueues nat | SJoin nat | SClear | SFinished

type_synonym 'f ktask = "u64 \<times> 'f"

record 'f kd =
  kdName :: string
  kdRunning :: bool
  kdWorkers :: "'f ktask Worker list"
  kdStats :: StatsSnapshot
  kdClients :: "'f ktask disp_pc list"
  kdShutdownPc :: shut_pc
  kdAccepted :: "'f ktask list"
  kdExecuted :: "'f ktask list"

definition zero_stats :: StatsSnapshot where
  "zero_stats = \<lparr>mSubmitted = 0, mRejected = 0, mCompleted = 0, mFailed = 0\<rparr>"

text \<open>The constructor, with \<open>c\<close> threads that may call \<open>Dispatch\<close>.\<close>

definition KD_new :: "nat \<Rightarrow> 'f kd" where
  "KD_new c = \<lparr>kdName = '''', kdRunning = False, kdWorkers = [], kdStats = zero_stats,
     kdClients = replicate c DIdle, kdShutdownPc = SIdle, kdAccepted = [], kdExecuted = []\<rparr>"

subsection \<open>Operations\<close>

text \<open>\<open>Initialize\<close>; \<open>hw\<close> is \<open>std::thread::hardware_concurrency()\<close>.\<close>

definition resolved_worker_count :: "nat \<Rightarrow> kd_options \<Rightarrow> nat" where
  "resolved_worker_count hw options =
     (if mWorkerCount options = 0 then (if hw = 0 then 4 else hw) else mWorkerCount options)"

definition KD_Initialize :: "nat \<Rightarrow> kd_options \<Rightarrow> 'f kd \<Rightarrow> bool \<times> 'f kd" where
  "KD_Initialize hw options d =
     (if kdRunning d then (True, d)
      else (True, d\<lparr>kdName := mName options,
        kdWorkers := replicate (resolved_worker_count hw options)
          \<lparr>wQueue = EQ_new (mQueueOptions options), wThread = WTryPop\<rparr>,
        kdRunning := True\<rparr>))"

definition KeyToWorkerIndex :: "u64 \<Rightarrow> 'w list \<Rightarrow> nat" where
  "KeyToWorkerIndex key workers = unat key mod length workers"

text \<open>One atomic action of \<open>Dispatch\<close> in the calling thread \<open>c\<close>.\<close>

definition dispatch_next :: "int \<Rightarrow> bool \<Rightarrow> nat \<Rightarrow> 'f kd \<Rightarrow> 'f kd option" where
  "dispatch_next timeoutMs expired c d =
     (if c < length (kdClients d) then
        (case kdClients d ! c of
           DIdle \<Rightarrow> None
         | DEntered key task \<Rightarrow>
             (case task of
                Some f \<Rightarrow>
                  if kdRunning d \<and> kdWorkers d \<noteq> []
                  then Some (d\<lparr>kdClients := (kdClients d)[c := DPush (KeyToWorkerIndex key (kdWorkers d)) f]\<rparr>)
                  else Some (d\<lparr>kdClients := (kdClients d)[c := DPushed False]\<rparr>)
              | None \<Rightarrow> Some (d\<lparr>kdClients := (kdClients d)[c := DPushed False]\<rparr>))
         | DPush w t \<Rightarrow>
             (let q = wQueue (kdWorkers d ! w) in
              if mBackpressure (eqOptions q) = RejectNewest
              then Some (d\<lparr>kdClients := (kdClients d)[c := (if eqShutdown q then DPushed False else DPushImpl w t)]\<rparr>)
              else (case EQ_PushBlocking t timeoutMs expired q of
                      (Blocked, _) \<Rightarrow> None
                    | (Returned ok, q') \<Rightarrow>
                        Some (d\<lparr>kdWorkers := (kdWorkers d)[w := (kdWorkers d ! w)\<lparr>wQueue := q'\<rparr>],
                                kdClients := (kdClients d)[c := DPushed ok],
                                kdAccepted := kdAccepted d @ (if ok then [t] else [])\<rparr>)))
         | DPushImpl w t \<Rightarrow>
             (case EQ_TryPushImpl t (wQueue (kdWorkers d ! w)) of (ok, q') \<Rightarrow>
                Some (d\<lparr>kdWorkers := (kdWorkers d)[w := (kdWorkers d ! w)\<lparr>wQueue := q'\<rparr>],
                        kdClients := (kdClients d)[c := DPushed ok],
                        kdAccepted := kdAccepted d @ (if ok then [t] else [])\<rparr>))
         | DPushed ok \<Rightarrow>
             Some (d\<lparr>kdClients := (kdClients d)[c := DIdle],
                     kdStats := (if ok then (kdStats d)\<lparr>mSubmitted := mSubmitted (kdStats d) + 1\<rparr>
                                 else (kdStats d)\<lparr>mRejected := mRejected (kdStats d) + 1\<rparr>)\<rparr>))
      else None)"

text \<open>
  One atomic action of \<open>WorkerThreadFunc\<close>: \<open>worker_next\<close> is the thread's control flow and
  its effect on its own queue; \<open>KD_worker\<close> adds the counters and the history. \<open>expired\<close> says
  whether the 100 ms deadline of \<open>Pop\<close> has passed, \<open>throws\<close> whether the task throws.
\<close>

fun worker_next :: "bool \<Rightarrow> bool \<Rightarrow> 't worker_pc \<Rightarrow> 't ExecutionQueue \<Rightarrow>
    ('t worker_pc \<times> 't ExecutionQueue) option" where
  "worker_next running expired WTryPop q =
     (case EQ_TryPop q of
        (Some t, q') \<Rightarrow> Some (WRunning t, q')
      | (None, q') \<Rightarrow> Some (WPopLoop, q'))"
| "worker_next running expired WPopLoop q =
     Some (if eqShutdown q then WDrain else WPopWait, q)"
| "worker_next running expired WPopWait q =
     (case cv_wait expired (EQ_hasItem q) of
        Blocked \<Rightarrow> None
      | Returned ok \<Rightarrow>
          if \<not> ok then Some (WCheckRunning, q)
          else if eqShutdown q then Some (WDrain, q)
          else (case eqQueue q of
                  [] \<Rightarrow> Some (WPopLoop, q)
                | t # _ \<Rightarrow> Some (WRunning t, EQ_dequeue q)))"
| "worker_next running expired WDrain q =
     (case eqQueue q of
        [] \<Rightarrow> Some (WCheckRunning, q)
      | t # _ \<Rightarrow> Some (WRunning t, EQ_dequeue q))"
| "worker_next running expired WCheckRunning q =
     Some (if running then WTryPop else WCheckEmpty, q)"
| "worker_next running expired WCheckEmpty q =
     Some (if EQ_Empty q then WExited else WTryPop, q)"
| "worker_next running expired (WRunning t) q = Some (WTryPop, q)"
| "worker_next running expired WExited q = None"

fun running_task :: "'t worker_pc \<Rightarrow> 't list" where
  "running_task (WRunning t) = [t]"
| "running_task _ = []"

definition KD_worker :: "bool \<Rightarrow> bool \<Rightarrow> nat \<Rightarrow> 'f kd \<Rightarrow> 'f kd option" where
  "KD_worker expired throws w d =
     (if w < length (kdWorkers d) then
        (case worker_next (kdRunning d) expired (wThread (kdWorkers d ! w)) (wQueue (kdWorkers d ! w)) of
           None \<Rightarrow> None
         | Some (pc, q) \<Rightarrow>
             Some (d\<lparr>kdWorkers := (kdWorkers d)[w := \<lparr>wQueue = q, wThread = pc\<rparr>],
                     kdExecuted := kdExecuted d @ running_task pc,
                     kdStats :=
                       (if running_task (wThread (kdWorkers d ! w)) = [] then kdStats d
                        else if throws then (kdStats d)\<lparr>mFailed := mFailed (kdStats d) + 1\<rparr>
                        else (kdStats d)\<lparr>mCompleted := mCompleted (kdStats d) + 1\<rparr>)\<rparr>))
      else None)"

text \<open>
  \<open>Shutdown\<close>: the compare-and-swap that picks one caller, then the queues are shut down one
  by one, the threads joined one by one, and the workers cleared under the exclusive lock,
  which no \<open>Dispatch\<close> call may hold in shared mode at that moment.
\<close>

definition KD_Shutdown_cas :: "'f kd \<Rightarrow> 'f kd" where
  "KD_Shutdown_cas d = (if kdRunning d then d\<lparr>kdRunning := False, kdShutdownPc := SCloseQueues 0\<rparr> else d)"

definition KD_Shutdown_next :: "'f kd \<Rightarrow> 'f kd option" where
  "KD_Shutdown_next d =
     (case kdShutdownPc d of
        SCloseQueues i \<Rightarrow>
          if i < length (kdWorkers d)
          then Some (d\<lparr>kdWorkers := (kdWorkers d)[i := (kdWorkers d ! i)\<lparr>wQueue := EQ_Shutdown (wQueue (kdWorkers d ! i))\<rparr>],
                       kdShutdownPc := SCloseQueues (Suc i)\<rparr>)
          else Some (d\<lparr>kdShutdownPc := SJoin 0\<rparr>)
      | SJoin i \<Rightarrow>
          if i < length (kdWorkers d)
          then (if wThread (kdWorkers d ! i) = WExited then Some (d\<lparr>kdShutdownPc := SJoin (Suc i)\<rparr>) else None)
          else Some (d\<lparr>kdShutdownPc := SClear\<rparr>)
      | SClear \<Rightarrow>
          if list_all (\<lambda>p. p = DIdle) (kdClients d)
          then Some (d\<lparr>kdWorkers := [], kdShutdownPc := SFinished\<rparr>) else None
      | _ \<Rightarrow> None)"

definition KD_IsRunning :: "'f kd \<Rightarrow> bool" where
  "KD_IsRunning d = kdRunning d"

definition KD_GetWorkerCount :: "'f kd \<Rightarrow> nat" where
  "KD_GetWorkerCount d = length (kdWorkers d)"

definition KD_GetWorkerQueueSize :: "nat \<Rightarrow> 'f kd \<Rightarrow> size_t" where
  "KD_GetWorkerQueueSize i d =
     (if length (kdWorkers d) \<le> i then 0 else EQ_Size (wQueue (kdWorkers d ! i)))"

definition KD_GetStats :: "'f kd \<Rightarrow> StatsSnapshot" where
  "KD_GetStats d = kdStats d"

subsection \<open>Interleaving\<close>

text \<open>
  The scheduler's choices. \<open>KCall c key f\<close> is the entry of \<open>Dispatch\<close> in thread \<open>c\<close> (the
  shared lock is granted); the other events are one atomic action of a caller, of a worker,
  or of the shutting-down thread.
\<close>

datatype 'f kd_event =
    KCall nat u64 "'f option"
  | KDispatch nat int bool
  | KWorker nat bool bool
  | KShutdownCas
  | KShutdown

fun kd_next :: "'f kd_event \<Rightarrow> 'f kd \<Rightarrow> 'f kd option" where
  "kd_next (KCall c key f) d =
     (if c < length (kdClients d) \<and> kdClients d ! c = DIdle
      then Some (d\<lparr>kdClients := (kdClients d)[c := DEntered key (map_option (Pair key) f)]\<rparr>)
      else None)"
| "kd_next (KDispatch c timeoutMs expired) d = dispatch_next timeoutMs expired c d"
| "kd_next (KWorker w expired throws) d = KD_worker expired throws w d"
| "kd_next KShutdownCas d = Some (KD_Shutdown_cas d)"
| "kd_next KShutdown d = KD_Shutdown_next d"

fun kd_run :: "'f kd_event list \<Rightarrow> 'f kd \<Rightarrow> 'f kd option" where
  "kd_run [] d = Some d"
| "kd_run (e # es) d = (case kd_next e d of None \<Rightarrow> None | Some d' \<Rightarrow> kd_run es d')"

text \<open>The states a dispatcher can reach after \<open>Initialize\<close>.\<close>

inductive kd_reach :: "nat \<Rightarrow> kd_options \<Rightarrow> nat \<Rightarrow> 'f kd \<Rightarrow> bool"
  for hw :: nat and options :: kd_options and c :: nat where
  init: "kd_reach hw options c (snd (KD_Initialize hw options (KD_new c)))"
| step: "kd_reach hw options c d \<Longrightarrow> kd_next e d = Some d' \<Longrightarrow> kd_reach hw options c d'"

lemma kd_reach_run: "kd_reach hw options c d \<Longrightarrow> kd_run es d = Some d' \<Longrightarrow> kd_reach hw options c d'"
  by (induction es arbitrary: d) (auto split: option.splits intro: kd_reach.step)

subsection \<open>Effects of the queue actions\<close>

lemma EQ_TryPushImpl_effect:
  "EQ_TryPushImpl t q = (ok, q') \<Longrightarrow> EQ_inv q \<Longrightarrow>
   EQ_inv q' \<and> eqQueue q' = eqQueue q @ (if ok then [t] else [])"
  by (auto simp: EQ_TryPushImpl_def intro!: EQ_inv_enqueue split: if_splits)

lemma EQ_PushBlocking_effect:
  "EQ_PushBlocking t m e q = (Returned ok, q') \<Longrightarrow> EQ_inv q \<Longrightarrow>
   EQ_inv q' \<and> eqQueue q' = eqQueue q @ (if ok then [t] else [])"
  by (auto simp: EQ_PushBlocking_def EQ_canPush_def intro!: EQ_inv_enqueue
      split: if_splits wait.splits)

text \<open>A worker's action takes at most the front of its queue, and then runs it.\<close>

lemma worker_next_effect:
  "worker_next r e pc q = Some (pc', q') \<Longrightarrow> EQ_inv q \<Longrightarrow>
   EQ_inv q' \<and> eqQueue q = running_task pc' @ eqQueue q'"
  by (cases pc) (auto simp: EQ_TryPop_def intro: EQ_inv_dequeue
      split: list.splits if_splits wait.splits)

subsection \<open>Invariant\<close>

text \<open>
  \<open>kd_hist N w\<close> is the part of a history that worker \<open>w\<close> of \<open>N\<close> is responsible for. For
  every worker the accepted tasks are the started ones followed by the queued ones; a task
  runs only on the worker its key routes to. After the workers are cleared, the started
  tasks are a prefix of the accepted ones.
\<close>

definition kd_route :: "nat \<Rightarrow> 'f ktask \<Rightarrow> nat" where
  "kd_route N t = unat (fst t) mod N"

definition kd_hist :: "nat \<Rightarrow> nat \<Rightarrow> 'f ktask list \<Rightarrow> 'f ktask list" where
  "kd_hist N w xs = filter (\<lambda>t. kd_route N t = w) xs"

definition worker_ok :: "nat \<Rightarrow> 'f ktask list \<Rightarrow> 'f ktask list \<Rightarrow> nat \<Rightarrow> 'f ktask Worker \<Rightarrow> bool" where
  "worker_ok N acc exe w W \<longleftrightarrow> EQ_inv (wQueue W) \<and>
     (\<forall>t \<in> set (running_task (wThread W)). kd_route N t = w) \<and>
     kd_hist N w acc = kd_hist N w exe @ eqQueue (wQueue W)"

fun client_ok :: "nat \<Rightarrow> bool \<Rightarrow> 'f ktask disp_pc \<Rightarrow> bool" where
  "client_ok N alive (DEntered key (Some t)) \<longleftrightarrow> fst t = key"
| "client_ok N alive (DPush w t) \<longleftrightarrow> alive \<and> w = kd_route N t"
| "client_ok N alive (DPushImpl w t) \<longleftrightarrow> alive \<and> w = kd_route N t"
| "client_ok N alive _ \<longleftrightarrow> True"

definition kd_inv :: "nat \<Rightarrow> 'f kd \<Rightarrow> bool" where
  "kd_inv N d \<longleftrightarrow> 0 < N \<and>
     (kdWorkers d \<noteq> [] \<longrightarrow> length (kdWorkers d) = N) \<and>
     (\<forall>p \<in> set (kdClients d). client_ok N (kdWorkers d \<noteq> []) p) \<and>
     (\<forall>w < length (kdWorkers d). worker_ok N (kdAccepted d) (kdExecuted d) w (kdWorkers d ! w)) \<and>
     (\<forall>w. prefix (kd_hist N w (kdExecuted d)) (kd_hist N w (kdAccepted d)))"

lemma kd_hist_append [simp]: "kd_hist N w (xs @ ys) = kd_hist N w xs @ kd_hist N w ys"
  by (simp add: kd_hist_def)

lemma kd_hist_Nil [simp]: "kd_hist N w [] = []"
  by (simp add: kd_hist_def)

lemma kd_hist_single [simp]: "kd_hist N w [t] = (if kd_route N t = w then [t] else [])"
  by (simp add: kd_hist_def)

lemma worker_ok_route:
  "worker_ok N acc exe w W \<Longrightarrow> t \<in> set (eqQueue (wQueue W)) \<Longrightarrow> kd_route N t = w"
proof -
  assume W: "worker_ok N acc exe w W" and t: "t \<in> set (eqQueue (wQueue W))"
  then have "t \<in> set (kd_hist N w acc)" by (auto simp: worker_ok_def)
  then show ?thesis by (simp add: kd_hist_def)
qed

lemma kd_inv_hist_prefix:
  assumes "\<forall>w < length ws. worker_ok N acc exe w (ws ! w)" "length ws = N" "0 < N"
  shows "prefix (kd_hist N w exe) (kd_hist N w acc)"
proof (cases "w < N")
  case True
  with assms show ?thesis by (auto simp: worker_ok_def)
next
  case False
  then have "kd_hist N w exe = []"
    using \<open>0 < N\<close> by (auto simp: kd_hist_def kd_route_def filter_empty_conv)
  then show ?thesis by simp
qed

text \<open>An accepting or rejecting push into worker \<open>w\<close>'s queue.\<close>

lemma kd_inv_push:
  assumes inv: "kd_inv N d" and c: "c < length (kdClients d)"
    and al: "kdWorkers d \<noteq> []" and w: "w = kd_route N t"
    and q: "EQ_inv q'" "eqQueue q' = eqQueue (wQueue (kdWorkers d ! w)) @ (if ok then [t] else [])"
  shows "kd_inv N (d\<lparr>kdWorkers := (kdWorkers d)[w := (kdWorkers d ! w)\<lparr>wQueue := q'\<rparr>],
      kdClients := (kdClients d)[c := DPushed ok], kdAccepted := kdAccepted d @ (if ok then [t] else [])\<rparr>)"
    (is "kd_inv N ?d")
proof -
  from inv al have N: "length (kdWorkers d) = N" "0 < N" by (auto simp: kd_inv_def)
  have "worker_ok N (kdAccepted d) (kdExecuted d) v (kdWorkers d ! v)" if "v < N" for v
    using inv N that by (auto simp: kd_inv_def)
  then have ws: "\<forall>v < length (kdWorkers ?d). worker_ok N (kdAccepted ?d) (kdExecuted ?d) v (kdWorkers ?d ! v)"
    using w q N by (auto simp: worker_ok_def nth_update_if)
  have cs: "\<forall>p \<in> set (kdClients ?d). client_ok N (kdWorkers ?d \<noteq> []) p"
    using inv by (auto simp: kd_inv_def dest!: set_update_D)
  have "prefix (kd_hist N v (kdExecuted ?d)) (kd_hist N v (kdAccepted ?d))" for v
    by (rule kd_inv_hist_prefix [OF ws]) (use N in simp_all)
  with ws cs N show ?thesis unfolding kd_inv_def by simp
qed

text \<open>A change of the callers' program counters only, and of fields the invariant ignores.\<close>

lemma kd_inv_client:
  assumes "kd_inv N d" and "client_ok N (kdWorkers d \<noteq> []) p"
  shows "kd_inv N (d\<lparr>kdClients := (kdClients d)[c := p]\<rparr>)"
  using assms by (auto simp: kd_inv_def dest!: set_update_D)

lemma kd_inv_frame [simp]:
  "kd_inv N (d\<lparr>kdStats := st\<rparr>) = kd_inv N d"
  "kd_inv N (d\<lparr>kdClients := cs, kdStats := st\<rparr>) = kd_inv N (d\<lparr>kdClients := cs\<rparr>)"
  by (simp_all add: kd_inv_def)

lemma dispatch_next_inv:
  assumes inv: "kd_inv N d" and nx: "dispatch_next timeoutMs expired c d = Some d'"
  shows "kd_inv N d'"
proof -
  have c: "c < length (kdClients d)" using nx by (simp add: dispatch_next_def split: if_splits)
  then have ok: "client_ok N (kdWorkers d \<noteq> []) (kdClients d ! c)"
    using inv by (simp add: kd_inv_def)
  have wok: "EQ_inv (wQueue (kdWorkers d ! w))" if "w = kd_route N t" "kdWorkers d \<noteq> []" for w t
    using inv that by (auto simp: kd_inv_def worker_ok_def kd_route_def)
  show ?thesis
  proof (cases "kdClients d ! c")
    case DIdle
    with nx c show ?thesis by (simp add: dispatch_next_def)
  next
    case (DEntered key task)
    have "KeyToWorkerIndex key (kdWorkers d) = kd_route N t"
      if "task = Some t" "kdWorkers d \<noteq> []" for t
      using ok inv DEntered that by (simp add: KeyToWorkerIndex_def kd_route_def kd_inv_def)
    with nx c DEntered show ?thesis
      using kd_inv_client [OF inv]
      by (auto simp: dispatch_next_def split: option.splits if_splits)
  next
    case (DPush w t)
    show ?thesis
    proof (cases "mBackpressure (eqOptions (wQueue (kdWorkers d ! w))) = RejectNewest")
      case True
      with nx c DPush ok show ?thesis
        using kd_inv_client [OF inv]
        by (auto simp: dispatch_next_def Let_def)
    next
      case False
      with nx c DPush obtain ok' q' where
        q: "EQ_PushBlocking t timeoutMs expired (wQueue (kdWorkers d ! w)) = (Returned ok', q')"
        and d': "d' = d\<lparr>kdWorkers := (kdWorkers d)[w := (kdWorkers d ! w)\<lparr>wQueue := q'\<rparr>],
            kdClients := (kdClients d)[c := DPushed ok'],
            kdAccepted := kdAccepted d @ (if ok' then [t] else [])\<rparr>"
        by (auto simp: dispatch_next_def Let_def split: wait.splits prod.splits)
      have "kdWorkers d \<noteq> []" and w: "w = kd_route N t" using ok DPush by simp_all
      then show ?thesis
        unfolding d' using EQ_PushBlocking_effect [OF q wok [OF w]] by (intro kd_inv_push [OF inv c]) auto
    qed
  next
    case (DPushImpl w t)
    with nx c obtain ok' q' where
      q: "EQ_TryPushImpl t (wQueue (kdWorkers d ! w)) = (ok', q')"
      and d': "d' = d\<lparr>kdWorkers := (kdWorkers d)[w := (kdWorkers d ! w)\<lparr>wQueue := q'\<rparr>],
          kdClients := (kdClients d)[c := DPushed ok'],
          kdAccepted := kdAccepted d @ (if ok' then [t] else [])\<rparr>"
      by (auto simp: dispatch_next_def split: prod.splits)
    have "kdWorkers d \<noteq> []" and w: "w = kd_route N t" using ok DPushImpl by simp_all
    then show ?thesis
      unfolding d' using EQ_TryPushImpl_effect [OF q wok [OF w]] by (intro kd_inv_push [OF inv c]) auto
  next
    case (DPushed ok')
    with nx c show ?thesis using kd_inv_client [OF inv]
      by (auto simp: dispatch_next_def)
  qed
qed

lemma KD_worker_inv:
  assumes inv: "kd_inv N d" and nx: "KD_worker expired throws w d = Some d'"
  shows "kd_inv N d'"
proof -
  let ?W = "kdWorkers d ! w"
  from nx obtain pc q where w: "w < length (kdWorkers d)"
    and e: "worker_next (kdRunning d) expired (wThread ?W) (wQueue ?W) = Some (pc, q)"
    and ws': "kdWorkers d' = (kdWorkers d)[w := \<lparr>wQueue = q, wThread = pc\<rparr>]"
    and d': "kdExecuted d' = kdExecuted d @ running_task pc" "kdAccepted d' = kdAccepted d"
      "kdClients d' = kdClients d"
    by (auto simp: KD_worker_def split: if_splits option.splits prod.splits)
  from inv w have N: "length (kdWorkers d) = N" "0 < N" by (auto simp: kd_inv_def)
  have old: "worker_ok N (kdAccepted d) (kdExecuted d) v (kdWorkers d ! v)" if "v < N" for v
    using inv N that by (auto simp: kd_inv_def)
  with w N have W: "worker_ok N (kdAccepted d) (kdExecuted d) w ?W" by blast
  from worker_next_effect [OF e] W have q: "EQ_inv q" "eqQueue (wQueue ?W) = running_task pc @ eqQueue q"
    by (auto simp: worker_ok_def)
  have r: "kd_route N t = w" if "t \<in> set (running_task pc)" for t
    using worker_ok_route [OF W] q that by simp
  then have h: "kd_hist N v (running_task pc) = (if v = w then running_task pc else [])" for v
    by (auto simp: kd_hist_def filter_id_conv filter_empty_conv)
  have ws: "\<forall>v < length (kdWorkers d'). worker_ok N (kdAccepted d') (kdExecuted d') v (kdWorkers d' ! v)"
    using old W q r h N ws' d' by (auto simp: worker_ok_def nth_update_if)
  have "prefix (kd_hist N v (kdExecuted d')) (kd_hist N v (kdAccepted d'))" for v
    by (rule kd_inv_hist_prefix [OF ws]) (use N ws' in simp_all)
  with ws N ws' d' inv w show ?thesis by (auto simp: kd_inv_def)
qed

lemma KD_Shutdown_cas_inv: "kd_inv N d \<Longrightarrow> kd_inv N (KD_Shutdown_cas d)"
  by (simp add: KD_Shutdown_cas_def kd_inv_def)

lemma KD_Shutdown_next_inv:
  assumes inv: "kd_inv N d" and nx: "KD_Shutdown_next d = Some d'"
  shows "kd_inv N d'"
proof (cases "kdShutdownPc d")
  case (SCloseQueues i)
  show ?thesis
  proof (cases "i < length (kdWorkers d)")
    case True
    have "worker_ok N (kdAccepted d) (kdExecuted d) v
        ((kdWorkers d)[i := (kdWorkers d ! i)\<lparr>wQueue := EQ_Shutdown (wQueue (kdWorkers d ! i))\<rparr>] ! v)"
      if "v < length (kdWorkers d)" for v
      using inv that by (auto simp: kd_inv_def worker_ok_def nth_update_if)
    with True SCloseQueues nx inv show ?thesis
      by (auto simp: KD_Shutdown_next_def kd_inv_def)
  next
    case False
    with SCloseQueues nx inv show ?thesis by (auto simp: KD_Shutdown_next_def kd_inv_def)
  qed
next
  case SClear
  with nx have idle: "\<forall>p \<in> set (kdClients d). p = DIdle"
    and d': "d' = d\<lparr>kdWorkers := [], kdShutdownPc := SFinished\<rparr>"
    by (auto simp: KD_Shutdown_next_def list_all_iff split: if_splits)
  from idle have "\<forall>p \<in> set (kdClients d). client_ok N False p" by force
  with d' inv show ?thesis by (simp add: kd_inv_def)
qed (use nx inv in \<open>auto simp: KD_Shutdown_next_def kd_inv_def split: if_splits\<close>)

lemma kd_next_inv: "kd_inv N d \<Longrightarrow> kd_next e d = Some d' \<Longrightarrow> kd_inv N d'"
proof (cases e)
  case (KCall c key f)
  assume inv: "kd_inv N d" and nx: "kd_next e d = Some d'"
  have "client_ok N (kdWorkers d \<noteq> []) (DEntered key (map_option (Pair key) f))"
    by (cases f) simp_all
  from kd_inv_client [OF inv this] show ?thesis using KCall nx by (auto split: if_splits)
qed (auto dest: dispatch_next_inv KD_worker_inv KD_Shutdown_next_inv intro: KD_Shutdown_cas_inv)

lemma kd_inv_init: "kd_inv (resolved_worker_count hw options) (snd (KD_Initialize hw options (KD_new c)))"
  by (auto simp: KD_Initialize_def KD_new_def kd_inv_def resolved_worker_count_def worker_ok_def)

lemma kd_reach_inv:
  "kd_reach hw options c d \<Longrightarrow> kd_inv (resolved_worker_count hw options) d"
  by (induction rule: kd_reach.induct) (auto intro: kd_inv_init kd_next_inv)

subsection \<open>Ordering\<close>

lemma kd_hist_key:
  "0 < N \<Longrightarrow> filter (\<lambda>t. fst t = key) xs = filter (\<lambda>t. fst t = key) (kd_hist N (unat key mod N) xs)"
  by (induction xs) (auto simp: kd_hist_def kd_route_def)

lemma prefix_filter: "prefix xs ys \<Longrightarrow> prefix (filter P xs) (filter P ys)"
  by (auto simp: prefix_def)

text \<open>
  C4: tasks submitted under one key start in exactly the order in which the dispatcher
  accepted them, in every interleaving of callers, workers and shutdown: at every reachable
  state the started tasks of a key are a prefix of its accepted tasks.
\<close>

theorem kd_per_key_fifo:
  assumes "kd_reach hw options c d"
  shows "prefix (filter (\<lambda>t. fst t = key) (kdExecuted d)) (filter (\<lambda>t. fst t = key) (kdAccepted d))"
proof -
  let ?N = "resolved_worker_count hw options"
  from kd_reach_inv [OF assms] have N: "0 < ?N"
    and p: "prefix (kd_hist ?N (unat key mod ?N) (kdExecuted d)) (kd_hist ?N (unat key mod ?N) (kdAccepted d))"
    by (auto simp: kd_inv_def)
  from prefix_filter [OF p] show ?thesis using kd_hist_key [OF N] by metis
qed

text \<open>
  two workers never run tasks of the same key at the same time, so the work of one key
  (one session) is serialized without a lock.
\<close>

theorem kd_key_exclusive:
  assumes "kd_reach hw options c d"
    and "i < length (kdWorkers d)" "wThread (kdWorkers d ! i) = WRunning (key, f)"
    and "j < length (kdWorkers d)" "wThread (kdWorkers d ! j) = WRunning (key, g)"
  shows "i = j"
proof -
  let ?N = "resolved_worker_count hw options"
  from kd_reach_inv [OF assms(1)] assms(2-) have "kd_route ?N (key, f) = i" "kd_route ?N (key, g) = j"
    by (force simp: kd_inv_def worker_ok_def)+
  then show ?thesis by (simp add: kd_route_def)
qed

subsection \<open>Shutdown and the counters\<close>

text \<open>
  What the joining thread has established, and what exited threads have seen; it depends on
  the flag and the program counters only.
\<close>

fun joined :: "shut_pc \<Rightarrow> 't worker_pc list \<Rightarrow> bool" where
  "joined (SJoin i) pcs \<longleftrightarrow> (\<forall>w < length pcs. w < i \<longrightarrow> pcs ! w = WExited)"
| "joined SClear pcs \<longleftrightarrow> (\<forall>w < length pcs. pcs ! w = WExited)"
| "joined SFinished pcs \<longleftrightarrow> pcs = []"
| "joined _ pcs \<longleftrightarrow> True"

definition life_ok :: "bool \<Rightarrow> shut_pc \<Rightarrow> 't worker_pc list \<Rightarrow> bool" where
  "life_ok running spc pcs \<longleftrightarrow> (running \<longrightarrow> spc = SIdle) \<and> joined spc pcs \<and>
     (running \<longrightarrow> WCheckEmpty \<notin> set pcs \<and> WExited \<notin> set pcs)"

abbreviation kd_pcs :: "'f kd \<Rightarrow> 'f ktask worker_pc list" where
  "kd_pcs d \<equiv> map wThread (kdWorkers d)"

definition kd_life :: "'f kd \<Rightarrow> bool" where
  "kd_life d \<longleftrightarrow> life_ok (kdRunning d) (kdShutdownPc d) (kd_pcs d)"

lemma kd_pcs_push [simp]:
  "map wThread (ws[w := (ws ! w)\<lparr>wQueue := q\<rparr>]) = map wThread ws"
  by (rule nth_equalityI) (simp_all add: nth_update_if)

lemma dispatch_next_frame:
  "dispatch_next timeoutMs expired c d = Some d' \<Longrightarrow>
   kdRunning d' = kdRunning d \<and> kdShutdownPc d' = kdShutdownPc d \<and> kd_pcs d' = kd_pcs d \<and>
   kdExecuted d' = kdExecuted d"
  unfolding dispatch_next_def Let_def
  by (cases "kdClients d ! c")
    (auto split: if_splits option.splits prod.splits wait.splits)

lemma worker_next_exit:
  "worker_next r e pc q = Some (pc', q') \<Longrightarrow>
   pc \<noteq> WExited \<and> (pc' = WCheckEmpty \<longrightarrow> \<not> r) \<and>
   (pc' = WExited \<longrightarrow> pc = WCheckEmpty \<and> EQ_Empty q \<and> q' = q)"
  by (cases pc) (auto split: prod.splits option.splits wait.splits if_splits list.splits)

lemma joined_update:
  "joined s pcs \<Longrightarrow> w < length pcs \<Longrightarrow> pcs ! w \<noteq> WExited \<Longrightarrow> joined s (pcs[w := pc])"
  by (cases s) (auto simp: nth_update_if)

lemma KD_worker_cases:
  assumes "KD_worker expired throws w d = Some d'"
  obtains pc q where "w < length (kdWorkers d)"
    "worker_next (kdRunning d) expired (wThread (kdWorkers d ! w)) (wQueue (kdWorkers d ! w)) = Some (pc, q)"
    "kdWorkers d' = (kdWorkers d)[w := \<lparr>wQueue = q, wThread = pc\<rparr>]"
    "kd_pcs d' = (kd_pcs d)[w := pc]"
    "kdRunning d' = kdRunning d" "kdShutdownPc d' = kdShutdownPc d" "kdClients d' = kdClients d"
    "kdAccepted d' = kdAccepted d" "kdExecuted d' = kdExecuted d @ running_task pc"
    "mCompleted (kdStats d') + mFailed (kdStats d') = mCompleted (kdStats d) + mFailed (kdStats d) +
       of_nat (length (running_task (wThread (kdWorkers d ! w))))"
    "mSubmitted (kdStats d') = mSubmitted (kdStats d)"
  using assms unfolding KD_worker_def
  by (cases "wThread (kdWorkers d ! w)")
    (auto simp: map_update split: if_splits option.splits prod.splits)

lemma KD_worker_life:
  assumes l: "kd_life d" and nx: "KD_worker expired throws w d = Some d'"
  shows "kd_life d'"
proof -
  from nx obtain pc q where w: "w < length (kdWorkers d)"
    and e: "worker_next (kdRunning d) expired (wThread (kdWorkers d ! w)) (wQueue (kdWorkers d ! w)) = Some (pc, q)"
    and d': "kd_pcs d' = (kd_pcs d)[w := pc]" "kdRunning d' = kdRunning d" "kdShutdownPc d' = kdShutdownPc d"
    by (rule KD_worker_cases)
  note x = worker_next_exit [OF e]
  have "wThread (kdWorkers d ! w) \<in> set (kd_pcs d)" using w by simp
  with l x have r: "kdRunning d \<longrightarrow> pc \<noteq> WCheckEmpty \<and> pc \<noteq> WExited"
    unfolding kd_life_def life_ok_def by metis
  with l x w show ?thesis
    unfolding kd_life_def life_ok_def d'
    by (auto intro!: joined_update dest!: set_update_D)
qed

lemma KD_Shutdown_next_life:
  assumes "kd_life d" and "KD_Shutdown_next d = Some d'"
  shows "kd_life d'"
  using assms unfolding KD_Shutdown_next_def kd_life_def life_ok_def
  by (cases "kdShutdownPc d") (auto simp: less_Suc_eq split: if_splits)

lemma kd_next_life: "kd_life d \<Longrightarrow> kd_next e d = Some d' \<Longrightarrow> kd_life d'"
proof (cases e)
  case (KCall c key f)
  assume "kd_life d" "kd_next e d = Some d'"
  with KCall show ?thesis by (auto simp: kd_life_def split: if_splits)
next
  case (KDispatch c t x)
  assume l: "kd_life d" and "kd_next e d = Some d'"
  with KDispatch have "dispatch_next t x c d = Some d'" by simp
  from dispatch_next_frame [OF this] l show ?thesis by (simp add: kd_life_def)
next
  case KShutdownCas
  assume "kd_life d" "kd_next e d = Some d'"
  with KShutdownCas show ?thesis
    by (auto simp: kd_life_def life_ok_def KD_Shutdown_cas_def split: if_splits)
qed (auto dest: KD_worker_life KD_Shutdown_next_life)

lemma kd_life_init: "kd_life (snd (KD_Initialize hw options (KD_new c)))"
  by (simp add: kd_life_def life_ok_def KD_Initialize_def KD_new_def)

lemma kd_reach_life: "kd_reach hw options c d \<Longrightarrow> kd_life d"
  by (induction rule: kd_reach.induct) (auto intro: kd_life_init kd_next_life)

text \<open>The counters: a caller that has pushed but not counted yet, a worker that has started a task.\<close>

definition pend :: "'t disp_pc \<Rightarrow> size_t" where
  "pend p = (if p = DPushed True then 1 else 0)"

definition busy :: "'t worker_pc \<Rightarrow> size_t" where
  "busy p = of_nat (length (running_task p))"

definition kd_count :: "'f kd \<Rightarrow> bool" where
  "kd_count d \<longleftrightarrow>
     mSubmitted (kdStats d) + sum_list (map pend (kdClients d)) = of_nat (length (kdAccepted d)) \<and>
     mCompleted (kdStats d) + mFailed (kdStats d) + sum_list (map busy (kd_pcs d)) =
       of_nat (length (kdExecuted d))"

lemma dispatch_next_effect:
  assumes "dispatch_next timeoutMs expired c d = Some d'"
  shows "c < length (kdClients d) \<and> kdClients d' = (kdClients d)[c := kdClients d' ! c] \<and>
    kdAccepted d' = kdAccepted d @ drop (length (kdAccepted d)) (kdAccepted d') \<and>
    mSubmitted (kdStats d') = mSubmitted (kdStats d) + pend (kdClients d ! c) +
      of_nat (length (kdAccepted d') - length (kdAccepted d)) - pend (kdClients d' ! c) \<and>
    mCompleted (kdStats d') = mCompleted (kdStats d) \<and> mFailed (kdStats d') = mFailed (kdStats d)"
  using assms unfolding dispatch_next_def Let_def pend_def
  by (cases "kdClients d ! c") (auto split: if_splits option.splits prod.splits wait.splits)

lemma joined_clear_busy: "joined SClear pcs \<Longrightarrow> sum_list (map busy pcs) = 0"
  by (rule sum_list_map_0) (auto simp: busy_def in_set_conv_nth)

lemma kd_next_count:
  assumes c: "kd_count d" and l: "kd_life d" and nx: "kd_next e d = Some d'"
  shows "kd_count d'"
proof (cases e)
  case (KCall k key f)
  with nx c show ?thesis
    by (auto simp: kd_count_def sum_list_map_update pend_def split: if_splits)
next
  case (KDispatch k t x)
  with nx have n: "dispatch_next t x k d = Some d'" by simp
  from dispatch_next_frame [OF n] have "kd_pcs d' = kd_pcs d" "kdExecuted d' = kdExecuted d" by auto
  moreover have "of_nat (length (kdAccepted d')) =
      (of_nat (length (kdAccepted d)) + of_nat (length (kdAccepted d') - length (kdAccepted d)) :: size_t)"
    using dispatch_next_effect [OF n] by (metis length_append length_drop of_nat_add)
  moreover have "sum_list (map pend (kdClients d')) =
      sum_list (map pend (kdClients d)) - pend (kdClients d ! k) + pend (kdClients d' ! k)"
    using dispatch_next_effect [OF n] by (metis sum_list_map_update)
  moreover have "mSubmitted (kdStats d') = mSubmitted (kdStats d) + pend (kdClients d ! k) +
      of_nat (length (kdAccepted d') - length (kdAccepted d)) - pend (kdClients d' ! k)"
    using dispatch_next_effect [OF n] by blast
  ultimately show ?thesis using c dispatch_next_effect [OF n]
    counter_balance [of "mSubmitted (kdStats d')" "mSubmitted (kdStats d)"]
    by (simp add: kd_count_def)
next
  case (KWorker w x t)
  with nx have "KD_worker x t w d = Some d'" by simp
  then obtain pc q where "w < length (kdWorkers d)" "kd_pcs d' = (kd_pcs d)[w := pc]"
    "kdClients d' = kdClients d" "kdAccepted d' = kdAccepted d" "kdExecuted d' = kdExecuted d @ running_task pc"
    "mCompleted (kdStats d') + mFailed (kdStats d') = mCompleted (kdStats d) + mFailed (kdStats d) +
       of_nat (length (running_task (wThread (kdWorkers d ! w))))"
    "mSubmitted (kdStats d') = mSubmitted (kdStats d)"
    by (rule KD_worker_cases)
  with c show ?thesis by (simp add: kd_count_def sum_list_map_update busy_def algebra_simps)
next
  case KShutdownCas
  with nx c show ?thesis by (auto simp: kd_count_def KD_Shutdown_cas_def)
next
  case KShutdown
  have "sum_list (map busy (kd_pcs d)) = 0" if "kdShutdownPc d = SClear"
    using l that by (intro joined_clear_busy) (simp add: kd_life_def life_ok_def)
  with nx c KShutdown show ?thesis
    by (auto simp: kd_count_def KD_Shutdown_next_def simp del: map_map
        split: shut_pc.splits if_splits)
qed

lemma kd_count_init: "kd_count (snd (KD_Initialize hw options (KD_new c)))"
  by (simp add: kd_count_def KD_Initialize_def KD_new_def zero_stats_def pend_def busy_def)

lemma kd_reach_count: "kd_reach hw options c d \<Longrightarrow> kd_count d"
  by (induction rule: kd_reach.induct) (auto intro: kd_count_init kd_next_count kd_reach_life)

text \<open>
  the statistics agree with what happened. When no \<open>Dispatch\<close> call is in progress and no
  worker is inside a task, \<open>mSubmitted\<close> is the number of accepted tasks and
  \<open>mCompleted + mFailed\<close> the number of executed ones (as 64-bit counters).
\<close>

theorem kd_statistics:
  assumes "kd_reach hw options c d"
    and "list_all (\<lambda>p. p = DIdle) (kdClients d)"
    and "list_all (\<lambda>W. running_task (wThread W) = []) (kdWorkers d)"
  shows "mSubmitted (KD_GetStats d) = of_nat (length (kdAccepted d)) \<and>
    mCompleted (KD_GetStats d) + mFailed (KD_GetStats d) = of_nat (length (kdExecuted d))"
proof -
  have "sum_list (map pend (kdClients d)) = 0"
    using assms(2) by (intro sum_list_map_0) (auto simp: list_all_iff pend_def)
  moreover have "sum_list (map busy (kd_pcs d)) = 0"
    using assms(3) by (intro sum_list_map_0) (auto simp: list_all_iff busy_def)
  ultimately show ?thesis using kd_reach_count [OF assms(1)]
    by (simp add: kd_count_def KD_GetStats_def)
qed

text \<open>
  Executions in which no \<open>Dispatch\<close> call overlaps the shutdown: \<open>Shutdown\<close> is called when
  every caller is outside \<open>Dispatch\<close>, and nobody calls it afterwards.
\<close>

fun quiet_event :: "'f kd_event \<Rightarrow> 'f kd \<Rightarrow> bool" where
  "quiet_event (KCall c key f) d \<longleftrightarrow> kdRunning d"
| "quiet_event KShutdownCas d \<longleftrightarrow> list_all (\<lambda>p. p = DIdle) (kdClients d)"
| "quiet_event _ d \<longleftrightarrow> True"

inductive kd_quiet :: "nat \<Rightarrow> kd_options \<Rightarrow> nat \<Rightarrow> 'f kd \<Rightarrow> bool"
  for hw :: nat and options :: kd_options and c :: nat where
  init: "kd_quiet hw options c (snd (KD_Initialize hw options (KD_new c)))"
| step: "kd_quiet hw options c d \<Longrightarrow> quiet_event e d \<Longrightarrow> kd_next e d = Some d' \<Longrightarrow> kd_quiet hw options c d'"

lemma kd_quiet_reach: "kd_quiet hw options c d \<Longrightarrow> kd_reach hw options c d"
  by (induction rule: kd_quiet.induct) (auto intro: kd_reach.intros)

text \<open>
  The invariant of quiet executions: nobody is inside \<open>Dispatch\<close> once \<open>mRunning\<close> is false,
  and an exited worker has left nothing behind.
\<close>

definition kd_calm :: "nat \<Rightarrow> 'f kd \<Rightarrow> bool" where
  "kd_calm N d \<longleftrightarrow>
     (\<not> kdRunning d \<longrightarrow> (\<forall>p \<in> set (kdClients d). p = DIdle)) \<and>
     (kdRunning d \<longrightarrow> kdWorkers d \<noteq> []) \<and>
     (\<forall>w < length (kdWorkers d). wThread (kdWorkers d ! w) = WExited \<longrightarrow> eqQueue (wQueue (kdWorkers d ! w)) = []) \<and>
     (kdWorkers d = [] \<longrightarrow> (\<forall>w. kd_hist N w (kdAccepted d) = kd_hist N w (kdExecuted d)))"

lemma EQ_Empty_queue:
  assumes "EQ_inv q" "EQ_Empty q" "length (eqQueue q) < 2 ^ 64"
  shows "eqQueue q = []"
proof -
  have "(of_nat (length (eqQueue q)) :: size_t) = 0"
    using assms(1,2) by (simp add: EQ_inv_def EQ_Empty_def EQ_Size_def)
  then have "2 ^ 64 dvd length (eqQueue q)"
    by (simp add: word_of_nat_eq_0_iff)
  with assms(3) show ?thesis by (auto dest: dvd_imp_le)
qed

lemma kd_worker_queue_bound:
  assumes "kd_inv N d" "w < length (kdWorkers d)"
  shows "length (eqQueue (wQueue (kdWorkers d ! w))) \<le> length (kdAccepted d)"
proof -
  have "kd_hist N w (kdAccepted d) = kd_hist N w (kdExecuted d) @ eqQueue (wQueue (kdWorkers d ! w))"
    using assms by (auto simp: kd_inv_def worker_ok_def)
  then have "length (eqQueue (wQueue (kdWorkers d ! w))) \<le> length (kd_hist N w (kdAccepted d))" by simp
  also have "\<dots> \<le> length (kdAccepted d)" by (simp add: kd_hist_def)
  finally show ?thesis .
qed

lemma kd_calm_dispatch:
  assumes calm: "kd_calm N d" and l: "kd_life d" and nx: "dispatch_next t x k d = Some d'"
  shows "kd_calm N d'"
proof -
  note f = dispatch_next_frame [OF nx]
  have k: "k < length (kdClients d)" using dispatch_next_effect [OF nx] by blast
  have "kdClients d ! k \<noteq> DIdle" using nx k by (auto simp: dispatch_next_def)
  with calm k have r: "kdRunning d" by (auto simp: kd_calm_def)
  with l have "WExited \<notin> set (kd_pcs d')" using f by (simp add: kd_life_def life_ok_def)
  then have "wThread (kdWorkers d' ! w) \<noteq> WExited" if "w < length (kdWorkers d')" for w
    using that by (metis length_map nth_map nth_mem)
  moreover have "kdWorkers d' \<noteq> []" using calm r f by (auto simp: kd_calm_def)
  ultimately show ?thesis using r f by (auto simp: kd_calm_def)
qed

lemma kd_calm_worker:
  assumes calm: "kd_calm N d" and inv: "kd_inv N d" and b: "length (kdAccepted d) < 2 ^ 64"
    and nx: "KD_worker x t w d = Some d'"
  shows "kd_calm N d'"
proof -
  from nx obtain pc q where w: "w < length (kdWorkers d)"
    and e: "worker_next (kdRunning d) x (wThread (kdWorkers d ! w)) (wQueue (kdWorkers d ! w)) = Some (pc, q)"
    and d': "kdWorkers d' = (kdWorkers d)[w := \<lparr>wQueue = q, wThread = pc\<rparr>]"
      "kdRunning d' = kdRunning d" "kdClients d' = kdClients d"
    by (rule KD_worker_cases)
  have "EQ_inv (wQueue (kdWorkers d ! w))" using inv w by (auto simp: kd_inv_def worker_ok_def)
  then have "eqQueue q = []" if "pc = WExited"
    using worker_next_exit [OF e] that kd_worker_queue_bound [OF inv w] b
    by (auto intro: EQ_Empty_queue)
  with calm w d' show ?thesis by (auto simp: kd_calm_def nth_update_if)
qed

lemma kd_calm_shutdown:
  assumes calm: "kd_calm N d" and inv: "kd_inv N d" and l: "kd_life d"
    and nx: "KD_Shutdown_next d = Some d'"
  shows "kd_calm N d'"
proof (cases "kdShutdownPc d")
  case (SCloseQueues i)
  with nx calm show ?thesis
    by (auto simp: KD_Shutdown_next_def kd_calm_def nth_update_if split: if_splits)
next
  case SClear
  with nx have d': "d' = d\<lparr>kdWorkers := [], kdShutdownPc := SFinished\<rparr>"
    by (auto simp: KD_Shutdown_next_def split: if_splits)
  have "kd_hist N w (kdAccepted d) = kd_hist N w (kdExecuted d)" for w
  proof (cases "kdWorkers d = []")
    case True
    with calm show ?thesis by (simp add: kd_calm_def)
  next
    case False
    with inv have N: "length (kdWorkers d) = N" "0 < N" by (auto simp: kd_inv_def)
    show ?thesis
    proof (cases "w < N")
      case True
      with l SClear N have "wThread (kdWorkers d ! w) = WExited" by (simp add: kd_life_def life_ok_def)
      with True calm inv N show ?thesis by (auto simp: kd_calm_def kd_inv_def worker_ok_def)
    next
      case False
      then have "kd_hist N w xs = []" for xs :: "'a ktask list"
        using N by (auto simp: kd_hist_def kd_route_def filter_empty_conv)
      then show ?thesis by simp
    qed
  qed
  moreover have "\<not> kdRunning d" using l SClear by (auto simp: kd_life_def life_ok_def)
  ultimately show ?thesis using calm d' by (simp add: kd_calm_def)
qed (use nx calm in \<open>auto simp: KD_Shutdown_next_def kd_calm_def split: if_splits\<close>)

lemma kd_accepted_mono:
  "kd_next e d = Some d' \<Longrightarrow> length (kdAccepted d) \<le> length (kdAccepted d')"
proof (cases e)
  case (KDispatch k t x)
  assume "kd_next e d = Some d'"
  with KDispatch have "dispatch_next t x k d = Some d'" by simp
  from dispatch_next_effect [OF this] show ?thesis by (metis length_append le_add1)
qed (auto simp: KD_Shutdown_cas_def KD_Shutdown_next_def split: if_splits shut_pc.splits
    elim!: KD_worker_cases)

lemma kd_quiet_calm:
  "kd_quiet hw options c d \<Longrightarrow> length (kdAccepted d) < 2 ^ 64 \<Longrightarrow> kd_calm (resolved_worker_count hw options) d"
proof (induction rule: kd_quiet.induct)
  case init
  show ?case by (auto simp: kd_calm_def KD_Initialize_def KD_new_def resolved_worker_count_def)
next
  case (step d e d')
  let ?N = "resolved_worker_count hw options"
  have b: "length (kdAccepted d) < 2 ^ 64" using kd_accepted_mono [OF step.hyps(3)] step.prems by simp
  with step.IH have calm: "kd_calm ?N d" by simp
  have inv: "kd_inv ?N d" and l: "kd_life d"
    using kd_quiet_reach [OF step.hyps(1)] by (auto dest: kd_reach_inv kd_reach_life)
  show ?case
  proof (cases e)
    case (KCall k key f)
    with step.hyps calm show ?thesis by (auto simp: kd_calm_def split: if_splits)
  next
    case (KDispatch k t x)
    with step.hyps calm l show ?thesis by (auto intro: kd_calm_dispatch)
  next
    case (KWorker w x t)
    with step.hyps calm inv b show ?thesis by (auto intro: kd_calm_worker)
  next
    case KShutdownCas
    with step.hyps calm show ?thesis
      by (auto simp: kd_calm_def KD_Shutdown_cas_def list_all_iff split: if_splits)
  next
    case KShutdown
    with step.hyps calm inv l show ?thesis by (auto intro: kd_calm_shutdown)
  qed
qed

text \<open>
  if no \<open>Dispatch\<close> call overlaps \<open>Shutdown\<close>, then when \<open>Shutdown\<close> returns every task that
  was ever accepted has been executed, per key in order of acceptance. (Fewer than \<open>2^64\<close>
  tasks: a worker's test for an empty queue reads the 64-bit counter.)
\<close>

theorem kd_quiet_shutdown_executes_all:
  assumes "kd_quiet hw options c d" and "kdShutdownPc d = SFinished"
    and "length (kdAccepted d) < 2 ^ 64"
  shows "filter (\<lambda>t. fst t = key) (kdExecuted d) = filter (\<lambda>t. fst t = key) (kdAccepted d)"
proof -
  let ?N = "resolved_worker_count hw options"
  have "kdWorkers d = []"
    using kd_reach_life [OF kd_quiet_reach [OF assms(1)]] assms(2) by (simp add: kd_life_def life_ok_def)
  then have "kd_hist ?N w (kdAccepted d) = kd_hist ?N w (kdExecuted d)" for w
    using kd_quiet_calm [OF assms(1,3)] by (simp add: kd_calm_def)
  moreover have "0 < ?N" by (simp add: resolved_worker_count_def)
  ultimately show ?thesis using kd_hist_key [of ?N key] by metis
qed

subsection \<open>Concrete runs\<close>

text \<open>One worker and one caller, an unbounded queue that rejects when full.\<close>

definition one_worker :: kd_options where
  "one_worker = \<lparr>mWorkerCount = 1, mQueueOptions = default_options, mName = ''kd''\<rparr>"

lemmas kd_eval = KD_Initialize_def KD_new_def zero_stats_def one_worker_def default_options_def
  resolved_worker_count_def dispatch_next_def KD_worker_def KD_Shutdown_cas_def KD_Shutdown_next_def
  KeyToWorkerIndex_def Let_def EQ_push_defs EQ_pop_defs EQ_new_def EQ_Empty_def EQ_Size_def
  EQ_Shutdown_def KD_GetStats_def

text \<open>
  A finding. A task can be accepted and lost: \<open>Dispatch\<close> passes its \<open>mRunning\<close> test, \<open>Shutdown\<close>
  clears the flag, the idle worker sees it cleared with an empty queue and exits, and only
  then does \<open>Dispatch\<close> push into the queue, which is not shut down yet.
\<close>

definition lost_task_run :: "nat kd_event list" where
  "lost_task_run = [KWorker 0 False False, KWorker 0 False False, KWorker 0 True False,
     KCall 0 5 (Some 7), KDispatch 0 (- 1) False, KShutdownCas, KWorker 0 False False,
     KWorker 0 False False, KDispatch 0 (- 1) False, KDispatch 0 (- 1) False,
     KDispatch 0 (- 1) False, KShutdown, KShutdown, KShutdown, KShutdown, KShutdown]"

lemma lost_task_run_result:
  "\<exists>d. kd_run lost_task_run (snd (KD_Initialize 0 one_worker (KD_new 1))) = Some d \<and>
     kdShutdownPc d = SFinished \<and> mSubmitted (KD_GetStats d) = 1 \<and> kdAccepted d = [(5, 7)] \<and>
     kdExecuted d = []"
  by (simp add: lost_task_run_def kd_eval)

text \<open>
  without the assumption of C6 a task can be lost. There is an interleaving in which
  \<open>Dispatch\<close> returns true (the task is counted as submitted) and the dispatcher shuts down
  completely without ever executing the task.
\<close>

theorem kd_shutdown_can_lose_task:
  "\<exists>d :: nat kd. kd_reach 0 one_worker 1 d \<and> kdShutdownPc d = SFinished \<and>
     mSubmitted (KD_GetStats d) = 1 \<and> kdAccepted d = [(5, 7)] \<and> kdExecuted d = []"
  using lost_task_run_result kd_reach_run [OF kd_reach.init] by blast

text \<open>Two tasks of one key, the first of them started; used by the witnesses.\<close>

definition two_task_run :: "nat kd_event list" where
  "two_task_run = [KCall 0 5 (Some 1), KDispatch 0 0 False, KDispatch 0 0 False, KDispatch 0 0 False,
     KDispatch 0 0 False, KCall 0 5 (Some 2), KDispatch 0 0 False, KDispatch 0 0 False,
     KDispatch 0 0 False, KDispatch 0 0 False, KWorker 0 False False]"

lemma two_task_run_result:
  "\<exists>d. kd_run two_task_run (snd (KD_Initialize 0 one_worker (KD_new 1))) = Some d \<and>
     kdAccepted d = [(5, 1), (5, 2)] \<and> kdExecuted d = [(5, 1)] \<and> 0 < length (kdWorkers d) \<and>
     wThread (kdWorkers d ! 0) = WRunning (5, 1)"
  by (simp add: two_task_run_def kd_eval)

lemma two_task_reach:
  "\<exists>d :: nat kd. kd_reach 0 one_worker 1 d \<and>
     kdAccepted d = [(5, 1), (5, 2)] \<and> kdExecuted d = [(5, 1)] \<and> 0 < length (kdWorkers d) \<and>
     wThread (kdWorkers d ! 0) = WRunning (5, 1)"
  using two_task_run_result kd_reach_run [OF kd_reach.init] by blast

theorem kd_per_key_fifo_witness:
  "\<exists>d :: nat kd. kd_reach 0 one_worker 1 d \<and> kdExecuted d = [(5, 1)] \<and>
     prefix (filter (\<lambda>t. fst t = 5) (kdExecuted d)) (filter (\<lambda>t. fst t = 5) (kdAccepted d))"
proof -
  obtain d :: "nat kd" where "kd_reach 0 one_worker 1 d" "kdExecuted d = [(5, 1)]"
    using two_task_reach by blast
  with kd_per_key_fifo [of 0 one_worker 1 d 5] show ?thesis by blast
qed

theorem kd_key_exclusive_witness:
  "\<exists>d :: nat kd. kd_reach 0 one_worker 1 d \<and> wThread (kdWorkers d ! 0) = WRunning (5, 1) \<and> (0::nat) = 0"
proof -
  obtain d :: "nat kd" where r: "kd_reach 0 one_worker 1 d" and l: "0 < length (kdWorkers d)"
    and t: "wThread (kdWorkers d ! 0) = WRunning (5, 1)"
    using two_task_reach by blast
  from kd_key_exclusive [OF r l t l t] r t show ?thesis by blast
qed

text \<open>A whole life: one task is submitted, executed, and the dispatcher shuts down.\<close>

definition quiet_run :: "nat kd_event list" where
  "quiet_run = [KCall 0 5 (Some 1), KDispatch 0 0 False, KDispatch 0 0 False, KDispatch 0 0 False,
     KDispatch 0 0 False, KShutdownCas, KWorker 0 False False, KWorker 0 False False, KShutdown,
     KWorker 0 False False, KWorker 0 False False, KWorker 0 False False, KWorker 0 False False,
     KWorker 0 False False, KShutdown, KShutdown, KShutdown, KShutdown]"

fun kd_quiet_run :: "'f kd_event list \<Rightarrow> 'f kd \<Rightarrow> 'f kd option" where
  "kd_quiet_run [] d = Some d"
| "kd_quiet_run (e # es) d =
     (if quiet_event e d then (case kd_next e d of None \<Rightarrow> None | Some d' \<Rightarrow> kd_quiet_run es d') else None)"

lemma kd_quiet_run:
  "kd_quiet hw options c d \<Longrightarrow> kd_quiet_run es d = Some d' \<Longrightarrow> kd_quiet hw options c d'"
  by (induction es arbitrary: d) (auto split: option.splits if_splits intro: kd_quiet.step)

lemma quiet_run_result:
  "\<exists>d. kd_quiet_run quiet_run (snd (KD_Initialize 0 one_worker (KD_new 1))) = Some d \<and>
     kdShutdownPc d = SFinished \<and> kdAccepted d = [(5, 1)] \<and> kdWorkers d = [] \<and> kdClients d = [DIdle]"
  by (simp add: quiet_run_def kd_eval)

lemma quiet_run_reach:
  "\<exists>d :: nat kd. kd_quiet 0 one_worker 1 d \<and> kdShutdownPc d = SFinished \<and> kdAccepted d = [(5, 1)] \<and>
     kdWorkers d = [] \<and> kdClients d = [DIdle]"
  using quiet_run_result kd_quiet_run [OF kd_quiet.init] by blast

theorem kd_quiet_shutdown_executes_all_witness:
  "\<exists>d :: nat kd. kd_quiet 0 one_worker 1 d \<and> kdShutdownPc d = SFinished \<and>
     filter (\<lambda>t. fst t = 5) (kdExecuted d) = [(5, 1)]"
proof -
  obtain d :: "nat kd" where q: "kd_quiet 0 one_worker 1 d" "kdShutdownPc d = SFinished"
    and a: "kdAccepted d = [(5, 1)]" using quiet_run_reach by blast
  from a have "length (kdAccepted d) < 2 ^ 64" by simp
  from kd_quiet_shutdown_executes_all [OF q this, of 5] q a show ?thesis by auto
qed

theorem kd_statistics_witness:
  "\<exists>d :: nat kd. kd_reach 0 one_worker 1 d \<and> mSubmitted (KD_GetStats d) = 1"
proof -
  obtain d :: "nat kd" where q: "kd_quiet 0 one_worker 1 d" and a: "kdAccepted d = [(5, 1)]"
    and i: "kdWorkers d = []" "kdClients d = [DIdle]" using quiet_run_reach by blast
  from kd_statistics [OF kd_quiet_reach [OF q]] a i have "mSubmitted (KD_GetStats d) = 1" by simp
  with kd_quiet_reach [OF q] show ?thesis by blast
qed

end
