(* ===== verification/Std_Heap.thy ===== *)
theory Std_Heap
  imports Prelude "HOL-Library.Multiset"
begin

section \<open>Binary heaps in a vector\<close>

text \<open>
  \<open>std::push_heap\<close> and \<open>std::pop_heap\<close> as \<open>Concurrency/TimerQueue.cpp\<close> uses them, on a vector
  with the entry of smallest key at the front. The standard promises what the locale
  \<open>std_heap\<close> states: the heap property and the elements. The definitions below are the usual
  sift-up and sift-down; the order among entries of equal keys is theirs, the standard leaves it open.
\<close>

subsection \<open>The contract\<close>

locale std_heap =
  fixes key :: "'a \<Rightarrow> 'k::linorder"
    and heap :: "'a list \<Rightarrow> bool"
    and push :: "'a \<Rightarrow> 'a list \<Rightarrow> 'a list"
    and pop :: "'a list \<Rightarrow> 'a \<times> 'a list"
  assumes heap_Nil: "heap []"
    and heap_push: "heap xs \<Longrightarrow> heap (push x xs)"
    and mset_push: "mset (push x xs) = add_mset x (mset xs)"
    and heap_pop: "heap xs \<Longrightarrow> xs \<noteq> [] \<Longrightarrow> heap (snd (pop xs))"
    and mset_pop: "xs \<noteq> [] \<Longrightarrow> mset xs = add_mset (fst (pop xs)) (mset (snd (pop xs)))"
    and pop_front: "xs \<noteq> [] \<Longrightarrow> fst (pop xs) = hd xs"
    and front_least: "heap xs \<Longrightarrow> x \<in> set xs \<Longrightarrow> key (hd xs) \<le> key x"
begin

lemma pop_least:
  assumes "heap xs" and "xs \<noteq> []" and "x \<in> set xs"
  shows "key (fst (pop xs)) \<le> key x"
  using front_least [OF assms(1,3)] pop_front [OF assms(2)] by simp

lemma set_pop: "xs \<noteq> [] \<Longrightarrow> set xs = insert (fst (pop xs)) (set (snd (pop xs)))"
  using arg_cong [OF mset_pop, of xs set_mset] by simp

lemma set_push [simp]: "set (push x xs) = insert x (set xs)"
  using arg_cong [OF mset_push, of set_mset x xs] by simp

lemma length_pop: "xs \<noteq> [] \<Longrightarrow> length (snd (pop xs)) < length xs"
  using arg_cong [OF mset_pop, of xs size] by simp

text \<open>Taking everything out, front first.\<close>

fun drain :: "nat \<Rightarrow> 'a list \<Rightarrow> 'a list" where
  "drain 0 xs = []"
| "drain (Suc n) xs = (if xs = [] then [] else fst (pop xs) # drain n (snd (pop xs)))"

lemma drain_sorts:
  "heap xs \<Longrightarrow> length xs \<le> n \<Longrightarrow> sorted (map key (drain n xs)) \<and> mset (drain n xs) = mset xs"
proof (induction n arbitrary: xs)
  case (Suc n)
  show ?case
  proof (cases "xs = []")
    case False
    have "length (snd (pop xs)) \<le> n" using length_pop [OF False] Suc.prems(2) by simp
    note IH = Suc.IH [OF heap_pop [OF Suc.prems(1) False] this]
    then have "set (drain n (snd (pop xs))) = set (snd (pop xs))" by (metis set_mset_mset)
    then have "\<forall>x \<in> set (drain n (snd (pop xs))). key (fst (pop xs)) \<le> key x"
      using pop_least [OF Suc.prems(1) False] set_pop [OF False] by auto
    with IH mset_pop [OF False] False show ?thesis by simp
  qed simp
qed simp

end

subsection \<open>The algorithms\<close>

definition parent :: "nat \<Rightarrow> nat" where
  "parent i = (i - 1) div 2"

definition is_heap :: "('a \<Rightarrow> 'k::linorder) \<Rightarrow> 'a list \<Rightarrow> bool" where
  "is_heap key xs \<longleftrightarrow> (\<forall>i < length xs. 0 < i \<longrightarrow> key (xs ! parent i) \<le> key (xs ! i))"

definition swap_at :: "nat \<Rightarrow> nat \<Rightarrow> 'a list \<Rightarrow> 'a list" where
  "swap_at i j xs = xs[i := xs ! j, j := xs ! i]"

lemma parent_less: "0 < i \<Longrightarrow> parent i < i"
  by (simp add: parent_def)

function sift_up :: "('a \<Rightarrow> 'k::linorder) \<Rightarrow> nat \<Rightarrow> 'a list \<Rightarrow> 'a list" where
  "sift_up key i xs =
     (if 0 < i \<and> key (xs ! i) < key (xs ! parent i) then sift_up key (parent i) (swap_at i (parent i) xs) else xs)"
  by pat_completeness auto
termination by (relation "measure (\<lambda>(_, i, _). i)") (auto simp: parent_less)

definition smaller_child :: "('a \<Rightarrow> 'k::linorder) \<Rightarrow> nat \<Rightarrow> nat \<Rightarrow> 'a list \<Rightarrow> nat" where
  "smaller_child key n i xs =
     (if 2 * i + 2 < n \<and> key (xs ! (2 * i + 2)) < key (xs ! (2 * i + 1)) then 2 * i + 2 else 2 * i + 1)"

function sift_down :: "('a \<Rightarrow> 'k::linorder) \<Rightarrow> nat \<Rightarrow> nat \<Rightarrow> 'a list \<Rightarrow> 'a list" where
  "sift_down key n i xs =
     (let c = smaller_child key n i xs
      in if 2 * i + 1 < n \<and> key (xs ! c) < key (xs ! i) then sift_down key n c (swap_at i c xs) else xs)"
  by pat_completeness auto
termination by (relation "measure (\<lambda>(_, n, i, _). n - i)") (auto simp: smaller_child_def)

declare sift_up.simps [simp del] sift_down.simps [simp del]

text \<open>\<open>push_back\<close> then \<open>push_heap\<close>; \<open>pop_heap\<close> then \<open>back\<close> and \<open>pop_back\<close>.\<close>

definition push_heap :: "('a \<Rightarrow> 'k::linorder) \<Rightarrow> 'a \<Rightarrow> 'a list \<Rightarrow> 'a list" where
  "push_heap key x xs = sift_up key (length xs) (xs @ [x])"

definition pop_heap :: "('a \<Rightarrow> 'k::linorder) \<Rightarrow> 'a list \<Rightarrow> 'a \<times> 'a list" where
  "pop_heap key xs =
     (let n = length xs - 1; ys = sift_down key n 0 (swap_at 0 n xs) in (ys ! n, take n ys))"

subsection \<open>The algorithms keep the contract\<close>

lemma length_swap_at [simp]: "length (swap_at i j xs) = length xs"
  by (simp add: swap_at_def)

lemma nth_swap_at:
  "i < length xs \<Longrightarrow> j < length xs \<Longrightarrow> swap_at i j xs ! m = (if m = j then xs ! i else if m = i then xs ! j else xs ! m)"
  by (simp add: swap_at_def nth_update_if)

lemma mset_swap_at: "i < length xs \<Longrightarrow> j < length xs \<Longrightarrow> mset (swap_at i j xs) = mset xs"
  by (simp add: swap_at_def mset_swap)

lemma length_sift_up [simp]: "length (sift_up key i xs) = length xs"
  by (induction key i xs rule: sift_up.induct) (subst sift_up.simps, simp)

lemma mset_sift_up: "i < length xs \<Longrightarrow> mset (sift_up key i xs) = mset xs"
proof (induction key i xs rule: sift_up.induct)
  case (1 key i xs)
  show ?case
    using 1 parent_less [of i] by (subst sift_up.simps) (auto simp: mset_swap_at)
qed

lemma parent_cases: "0 < c \<Longrightarrow> parent c = i \<longleftrightarrow> c = 2 * i + 1 \<or> c = 2 * i + 2"
  by (auto simp: parent_def)

text \<open>
  The loop invariant of the sift-up: the heap property except between \<open>i\<close> and its parent, and
  the parent of \<open>i\<close> is no larger than the children of \<open>i\<close>.
\<close>

definition up_inv :: "('a \<Rightarrow> 'k::linorder) \<Rightarrow> nat \<Rightarrow> 'a list \<Rightarrow> bool" where
  "up_inv key i xs \<longleftrightarrow>
     (\<forall>c < length xs. 0 < c \<longrightarrow>
        (c \<noteq> i \<longrightarrow> key (xs ! parent c) \<le> key (xs ! c)) \<and>
        (parent c = i \<longrightarrow> 0 < i \<longrightarrow> key (xs ! parent i) \<le> key (xs ! c)))"

lemma up_invD:
  assumes "up_inv key i xs" and "c < length xs" and "0 < c"
  shows "c \<noteq> i \<Longrightarrow> key (xs ! parent c) \<le> key (xs ! c)"
    and "parent c = i \<Longrightarrow> 0 < i \<Longrightarrow> key (xs ! parent i) \<le> key (xs ! c)"
  using assms by (auto simp: up_inv_def)

lemma up_inv_step:
  assumes inv: "up_inv key i xs" and i: "0 < i" "i < length xs" and lt: "key (xs ! i) < key (xs ! parent i)"
  shows "up_inv key (parent i) (swap_at i (parent i) xs)"
  unfolding up_inv_def
proof (intro allI impI conjI)
  fix c
  assume c: "c < length (swap_at i (parent i) xs)" "0 < c"
  let ?p = "parent i"
  have p: "?p < i" "?p < length xs" using parent_less [OF i(1)] i(2) by auto
  note sw = nth_swap_at [OF i(2) p(2)]
  have pc: "parent c < c" using parent_less c(2) by simp
  have cl: "c < length xs" using c by simp
  note inv' = up_invD [OF inv cl c(2)]
  show "key (swap_at i ?p xs ! parent c) \<le> key (swap_at i ?p xs ! c)" if "c \<noteq> ?p"
  proof (cases "c = i")
    case True
    then show ?thesis using sw lt p by simp
  next
    case False
    then show ?thesis
      using sw that inv' lt i(1) by (cases "parent c = i"; cases "parent c = ?p") auto
  qed
  show "key (swap_at i ?p xs ! parent ?p) \<le> key (swap_at i ?p xs ! c)" if "parent c = ?p" "0 < ?p"
  proof -
    have g: "parent ?p < ?p" using parent_less that(2) by simp
    have pp: "key (xs ! parent ?p) \<le> key (xs ! ?p)" using up_invD(1) [OF inv p(2) that(2)] p by simp
    show ?thesis using sw g p pp inv'(1) that pc by (cases "c = i") (auto intro: order_trans)
  qed
qed

lemma up_inv_done:
  assumes "up_inv key i xs" and "\<not> (0 < i \<and> key (xs ! i) < key (xs ! parent i))"
  shows "is_heap key xs"
  unfolding is_heap_def
proof (intro allI impI)
  fix c
  assume "c < length xs" "0 < c"
  then show "key (xs ! parent c) \<le> key (xs ! c)" using assms up_invD(1) [OF assms(1)] by (cases "c = i") auto
qed

lemma sift_up_heap: "up_inv key i xs \<Longrightarrow> i < length xs \<Longrightarrow> is_heap key (sift_up key i xs)"
proof (induction key i xs rule: sift_up.induct)
  case (1 key i xs)
  show ?case
  proof (cases "0 < i \<and> key (xs ! i) < key (xs ! parent i)")
    case True
    then have "is_heap key (sift_up key (parent i) (swap_at i (parent i) xs))"
      using 1 parent_less [of i] by (auto intro!: "1.IH" up_inv_step)
    with True show ?thesis by (subst sift_up.simps) simp
  next
    case False
    then have "sift_up key i xs = xs" by (subst sift_up.simps) (simp only: if_False)
    with up_inv_done [OF "1.prems"(1) False] show ?thesis by simp
  qed
qed

lemma push_heap_heap: "is_heap key xs \<Longrightarrow> is_heap key (push_heap key x xs)"
  unfolding push_heap_def
  by (rule sift_up_heap) (auto simp: up_inv_def is_heap_def nth_append parent_def)

lemma mset_push_heap: "mset (push_heap key x xs) = add_mset x (mset xs)"
  by (simp add: push_heap_def mset_sift_up)

text \<open>The same for the sift-down on the first \<open>n\<close> entries.\<close>

definition down_inv :: "('a \<Rightarrow> 'k::linorder) \<Rightarrow> nat \<Rightarrow> nat \<Rightarrow> 'a list \<Rightarrow> bool" where
  "down_inv key n i xs \<longleftrightarrow>
     (\<forall>c < n. 0 < c \<longrightarrow>
        (parent c \<noteq> i \<longrightarrow> key (xs ! parent c) \<le> key (xs ! c)) \<and>
        (parent c = i \<longrightarrow> 0 < i \<longrightarrow> key (xs ! parent i) \<le> key (xs ! c)))"

lemma down_invD:
  assumes "down_inv key n i xs" and "c < n" and "0 < c"
  shows "parent c \<noteq> i \<Longrightarrow> key (xs ! parent c) \<le> key (xs ! c)"
    and "parent c = i \<Longrightarrow> 0 < i \<Longrightarrow> key (xs ! parent i) \<le> key (xs ! c)"
  using assms by (auto simp: down_inv_def)

lemma smaller_child:
  assumes "2 * i + 1 < n"
  shows "smaller_child key n i xs < n" and "parent (smaller_child key n i xs) = i"
    and "i < smaller_child key n i xs"
    and "c < n \<Longrightarrow> 0 < c \<Longrightarrow> parent c = i \<Longrightarrow> key (xs ! smaller_child key n i xs) \<le> key (xs ! c)"
proof -
  show "smaller_child key n i xs < n" "parent (smaller_child key n i xs) = i" "i < smaller_child key n i xs"
    using assms by (auto simp: smaller_child_def parent_def)
  assume "c < n" "0 < c" "parent c = i"
  then have "c = 2 * i + 1 \<or> c = 2 * i + 2" by (simp add: parent_cases)
  with \<open>c < n\<close> show "key (xs ! smaller_child key n i xs) \<le> key (xs ! c)"
    by (auto simp: smaller_child_def)
qed

lemma down_inv_step:
  assumes inv: "down_inv key n i xs" and n: "n \<le> length xs" "2 * i + 1 < n"
    and lt: "key (xs ! smaller_child key n i xs) < key (xs ! i)"
  shows "down_inv key n (smaller_child key n i xs) (swap_at i (smaller_child key n i xs) xs)"
  unfolding down_inv_def
proof (intro allI impI conjI)
  let ?s = "smaller_child key n i xs"
  note sc = smaller_child [OF n(2), where key = key and xs = xs]
  fix c
  assume c: "c < n" "0 < c"
  have il: "i < length xs" "?s < length xs" using sc(1,3) n by auto
  note sw = nth_swap_at [OF il]
  note inv' = down_invD [OF inv c]
  have pc: "parent c < c" using parent_less c(2) by simp
  show "key (swap_at i ?s xs ! parent c) \<le> key (swap_at i ?s xs ! c)" if "parent c \<noteq> ?s"
  proof (cases "parent c = i")
    case True
    then show ?thesis using sw sc lt sc(4) [OF c True] pc that by (cases "c = ?s") auto
  next
    case False
    have "0 < ?s" using sc(3) by simp
    with False show ?thesis using sw inv'(1) that sc lt down_invD(2) [OF inv sc(1)] c
      by (cases "c = i") auto
  qed
  show "key (swap_at i ?s xs ! parent ?s) \<le> key (swap_at i ?s xs ! c)" if "parent c = ?s" "0 < ?s"
    using sw sc inv'(1) that pc by auto
qed

lemma down_inv_done:
  assumes "down_inv key n i xs" and "n \<le> length xs"
    and "\<not> (2 * i + 1 < n \<and> key (xs ! smaller_child key n i xs) < key (xs ! i))"
  shows "is_heap key (take n xs)"
  unfolding is_heap_def
proof (intro allI impI)
  fix c
  assume c: "c < length (take n xs)" "0 < c"
  then have cn: "c < n" "parent c < n" using parent_less [of c] by auto
  have "key (xs ! parent c) \<le> key (xs ! c)"
  proof (cases "parent c = i")
    case True
    then have i: "2 * i + 1 < n" using cn c(2) parent_cases [of c i] by auto
    with smaller_child(4) [OF i cn(1) c(2) True, where key = key and xs = xs] assms(3) True show ?thesis by auto
  qed (use down_invD [OF assms(1) cn(1) c(2)] in simp)
  with cn show "key (take n xs ! parent c) \<le> key (take n xs ! c)" by simp
qed

lemma sift_down_facts:
  assumes "n \<le> length xs"
  shows "length (sift_down key n i xs) = length xs \<and> mset (sift_down key n i xs) = mset xs \<and>
    drop n (sift_down key n i xs) = drop n xs \<and>
    (down_inv key n i xs \<longrightarrow> is_heap key (take n (sift_down key n i xs)))"
  using assms
proof (induction key n i xs rule: sift_down.induct)
  case (1 key n i xs)
  let ?c = "smaller_child key n i xs"
  show ?case
  proof (cases "2 * i + 1 < n \<and> key (xs ! ?c) < key (xs ! i)")
    case True
    then have e: "sift_down key n i xs = sift_down key n ?c (swap_at i ?c xs)"
      by (subst sift_down.simps) (simp add: Let_def)
    note sc = smaller_child [where i = i and n = n and key = key and xs = xs]
    have l: "i < length xs" "?c < length xs" "i < n" "?c < n" using True sc "1.prems" by auto
    have "drop n (swap_at i ?c xs) = drop n xs"
      using l by (simp add: swap_at_def drop_update_cancel)
    moreover have "down_inv key n ?c (swap_at i ?c xs)" if "down_inv key n i xs"
      using down_inv_step [OF that "1.prems"] True by simp
    moreover note "1.IH" [OF refl True]
    ultimately show ?thesis using l "1.prems" unfolding e by (simp add: mset_swap_at)
  next
    case False
    then have "sift_down key n i xs = xs" by (subst sift_down.simps) (simp only: Let_def if_False)
    with down_inv_done [of key n i xs] False "1.prems" show ?thesis by simp
  qed
qed

lemma pop_heap_facts:
  assumes "xs \<noteq> []"
  shows "fst (pop_heap key xs) = hd xs"
    and "mset xs = add_mset (fst (pop_heap key xs)) (mset (snd (pop_heap key xs)))"
    and "is_heap key xs \<Longrightarrow> is_heap key (snd (pop_heap key xs))"
proof -
  define n where "n = length xs - 1"
  define zs where "zs = swap_at 0 n xs"
  define ys where "ys = sift_down key n 0 zs"
  have n: "n < length xs" "length xs = Suc n" using assms by (auto simp: n_def)
  have zs: "length zs = Suc n" "mset zs = mset xs" using n by (auto simp: zs_def mset_swap_at)
  have "zs ! n = hd xs" using n assms by (simp add: zs_def nth_swap_at hd_conv_nth)
  then have dz: "drop n zs = [hd xs]" using zs(1) by (metis Cons_nth_drop_Suc drop_all lessI order_refl)
  note sd = sift_down_facts [of n zs key 0, folded ys_def]
  have ys: "length ys = Suc n" "mset ys = mset xs" "drop n ys = [hd xs]" using sd zs dz by auto
  have e: "pop_heap key xs = (ys ! n, take n ys)" by (simp add: pop_heap_def n_def ys_def zs_def Let_def)
  have nth: "ys ! n = hd xs" using ys(1,3) by (metis hd_drop_conv_nth lessI list.sel(1))
  then show "fst (pop_heap key xs) = hd xs" by (simp add: e)
  have "mset (take n ys @ drop n ys) = mset xs" using ys(2) by simp
  then show "mset xs = add_mset (fst (pop_heap key xs)) (mset (snd (pop_heap key xs)))"
    unfolding mset_append ys(3) by (simp add: e nth)
  assume h: "is_heap key xs"
  have "down_inv key n 0 zs"
    unfolding down_inv_def
  proof (intro allI impI conjI)
    fix c
    assume c: "c < n" "0 < c" and "parent c \<noteq> 0"
    have "parent c < c" using parent_less c by simp
    then show "key (zs ! parent c) \<le> key (zs ! c)"
      using h c n \<open>parent c \<noteq> 0\<close> by (auto simp: zs_def nth_swap_at is_heap_def)
  qed simp
  then show "is_heap key (snd (pop_heap key xs))" using sd zs(1) by (simp add: e)
qed

lemma is_heap_front: "is_heap key xs \<Longrightarrow> i < length xs \<Longrightarrow> key (xs ! 0) \<le> key (xs ! i)"
proof (induction i rule: less_induct)
  case (less i)
  show ?case
  proof (cases "i = 0")
    case False
    then have p: "parent i < i" by (simp add: parent_less)
    have "key (xs ! 0) \<le> key (xs ! parent i)" using less p by simp
    also have "\<dots> \<le> key (xs ! i)" using less.prems False by (simp add: is_heap_def)
    finally show ?thesis .
  qed simp
qed

text \<open>The vector heap of the timers keeps the contract, for any key.\<close>

interpretation vec_heap: std_heap key "is_heap key" "push_heap key" "pop_heap key"
  for key :: "'a \<Rightarrow> 'k::linorder"
proof unfold_locales
  show "is_heap key []" by (simp add: is_heap_def)
  show "key (hd xs) \<le> key x" if "is_heap key xs" "x \<in> set xs" for xs x
    using that is_heap_front [of key xs] by (metis hd_conv_nth in_set_conv_nth length_pos_if_in_set length_greater_0_conv)
  show "mset xs = add_mset (fst (pop_heap key xs)) (mset (snd (pop_heap key xs)))" if "xs \<noteq> []" for xs
    using that by (rule pop_heap_facts)
qed (simp_all add: push_heap_heap mset_push_heap pop_heap_facts(1,3))

end
