(* ===== verification/Timer_Queue.thy ===== *)
theory Timer_Queue
  imports Std_Heap
begin

section \<open>TimerQueue\<close>

text \<open>
  \<open>Concurrency/TimerQueue.h\<close> and \<open>TimerQueue.cpp\<close>: one worker thread, a min-heap of entries
  ordered by their time, and a set of cancelled handles. The state has the heap, the flag, the
  handle counter and the cancelled set of the class, the program point of the worker and of a
  thread in \<open>Shutdown\<close>, and the steady clock. An action is what the code does in one critical
  section or one atomic operation; callbacks are known by their handle, and what a callback
  returns (false also when it throws) is the environment's choice.

  Times are nanoseconds. \<open>ScheduleOnce\<close> and \<open>ScheduleRepeat\<close> take their handle and push their
  entry in one action. \<open>Initialize\<close> is not called while \<open>Shutdown\<close> is running.
\<close>

subsection \<open>State\<close>

type_synonym TimerHandle = u64

record TimerEntry =
  te_handle :: TimerHandle
  te_nextFire :: nat
  te_intervalMs :: u32

datatype tq_pc =
    TNone                       \<comment> \<open>no thread\<close>
  | TTop                        \<comment> \<open>at the head of the loop, about to take the mutex\<close>
  | TPark "nat option"          \<comment> \<open>holding the mutex, the wait's predicate was false\<close>
  | TWait "nat option"          \<comment> \<open>blocked in \<open>wait\<close>, or in \<open>wait_until\<close> the given time\<close>
  | TRun TimerEntry             \<comment> \<open>inside the callback, mutex released\<close>
  | TExited

datatype tq_shut = SIdle | SNotify | SJoin | SClear

record TimerQueue =
  mHeap :: "TimerEntry list"
  mCancelledHandles :: "TimerHandle set"
  tqRunning :: bool
  mNextHandle :: u64
  mWorkerThread :: tq_pc
  tqShut :: tq_shut
  tqNow :: nat
  tqStarted :: "TimerHandle list"   \<comment> \<open>history: the callbacks started, in order\<close>

definition TQ_new :: "nat \<Rightarrow> TimerQueue" where
  "TQ_new now = \<lparr>mHeap = [], mCancelledHandles = {}, tqRunning = False, mNextHandle = 1,
     mWorkerThread = TNone, tqShut = SIdle, tqNow = now, tqStarted = []\<rparr>"

subsection \<open>Operations\<close>

definition ms :: "u32 \<Rightarrow> nat" where
  "ms d = unat d * 1000000"

text \<open>The predicates of the two waits.\<close>

definition top_pred :: "TimerQueue \<Rightarrow> bool" where
  "top_pred q \<longleftrightarrow> \<not> tqRunning q \<or> mHeap q \<noteq> []"

definition timed_pred :: "TimerQueue \<Rightarrow> bool" where
  "timed_pred q \<longleftrightarrow> \<not> tqRunning q \<or> mHeap q = [] \<or> te_nextFire (hd (mHeap q)) \<le> tqNow q"

text \<open>A notification makes a blocked worker test the predicate of the wait it is in.\<close>

definition tq_notify :: "TimerQueue \<Rightarrow> TimerQueue" where
  "tq_notify q =
     (case mWorkerThread q of
        TWait None \<Rightarrow> if top_pred q then q\<lparr>mWorkerThread := TTop\<rparr> else q
      | TWait (Some t) \<Rightarrow> if timed_pred q then q\<lparr>mWorkerThread := TTop\<rparr> else q
      | _ \<Rightarrow> q)"

fun mutex_free :: "tq_pc \<Rightarrow> bool" where
  "mutex_free (TPark _) = False"
| "mutex_free _ = True"

definition TQ_Initialize :: "TimerQueue \<Rightarrow> bool \<times> TimerQueue" where
  "TQ_Initialize q = (True, if tqRunning q then q else q\<lparr>tqRunning := True, mWorkerThread := TTop\<rparr>)"

definition PushEntry :: "TimerEntry \<Rightarrow> TimerQueue \<Rightarrow> TimerQueue" where
  "PushEntry e q = tq_notify (q\<lparr>mHeap := push_heap te_nextFire e (mHeap q)\<rparr>)"

definition PopTop :: "TimerQueue \<Rightarrow> TimerEntry \<times> TimerQueue" where
  "PopTop q = (case pop_heap te_nextFire (mHeap q) of (e, h) \<Rightarrow> (e, q\<lparr>mHeap := h\<rparr>))"

definition ScheduleOnce :: "u32 \<Rightarrow> TimerQueue \<Rightarrow> TimerHandle \<times> TimerQueue" where
  "ScheduleOnce delayMs q =
     (let handle = mNextHandle q
      in (handle, PushEntry \<lparr>te_handle = handle, te_nextFire = tqNow q + ms delayMs, te_intervalMs = 0\<rparr>
            (q\<lparr>mNextHandle := mNextHandle q + 1\<rparr>)))"

definition ScheduleRepeat :: "u32 \<Rightarrow> TimerQueue \<Rightarrow> TimerHandle \<times> TimerQueue" where
  "ScheduleRepeat intervalMs q =
     (let handle = mNextHandle q
      in (handle, PushEntry \<lparr>te_handle = handle, te_nextFire = tqNow q + ms intervalMs, te_intervalMs = intervalMs\<rparr>
            (q\<lparr>mNextHandle := mNextHandle q + 1\<rparr>)))"

definition TQ_Cancel :: "TimerHandle \<Rightarrow> TimerQueue \<Rightarrow> bool \<times> TimerQueue" where
  "TQ_Cancel handle q =
     (if handle = 0 then (False, q)
      else (True, tq_notify (q\<lparr>mCancelledHandles := insert handle (mCancelledHandles q)\<rparr>)))"

definition TQ_IsRunning :: "TimerQueue \<Rightarrow> bool" where
  "TQ_IsRunning q = tqRunning q"

text \<open>
  The worker: one pass through the critical section at the head of the loop, going to sleep,
  a timeout, and what follows a callback. \<open>None\<close>: the worker cannot move by itself.
\<close>

definition WorkerLoop_top :: "TimerQueue \<Rightarrow> TimerQueue" where
  "WorkerLoop_top q =
     (if \<not> top_pred q then q\<lparr>mWorkerThread := TPark None\<rparr>
      else if \<not> tqRunning q then q\<lparr>mWorkerThread := TExited\<rparr>
      else if mHeap q = [] then q
      else let fireTime = te_nextFire (hd (mHeap q))
           in if tqNow q < fireTime
              then (if timed_pred q then q else q\<lparr>mWorkerThread := TPark (Some fireTime)\<rparr>)
              else (case PopTop q of (entry, q') \<Rightarrow>
                if te_handle entry \<in> mCancelledHandles q'
                then q'\<lparr>mCancelledHandles := mCancelledHandles q' - {te_handle entry}\<rparr>
                else q'\<lparr>mWorkerThread := TRun entry, tqStarted := tqStarted q' @ [te_handle entry]\<rparr>))"

definition WorkerLoop_next :: "TimerQueue \<Rightarrow> TimerQueue option" where
  "WorkerLoop_next q =
     (case mWorkerThread q of
        TTop \<Rightarrow> Some (WorkerLoop_top q)
      | TPark d \<Rightarrow> Some (q\<lparr>mWorkerThread := TWait d\<rparr>)
      | TWait (Some t) \<Rightarrow> if t \<le> tqNow q then Some (q\<lparr>mWorkerThread := TTop\<rparr>) else None
      | _ \<Rightarrow> None)"

definition WorkerLoop_return :: "bool \<Rightarrow> TimerQueue \<Rightarrow> TimerQueue option" where
  "WorkerLoop_return reschedule q =
     (case mWorkerThread q of
        TRun entry \<Rightarrow>
          Some (if reschedule \<and> 0 < te_intervalMs entry
                then PushEntry (entry\<lparr>te_nextFire := tqNow q + ms (te_intervalMs entry)\<rparr>)
                       (q\<lparr>mWorkerThread := TTop\<rparr>)
                else q\<lparr>mWorkerThread := TTop\<rparr>)
      | _ \<Rightarrow> None)"

definition TQ_Shutdown_next :: "TimerQueue \<Rightarrow> TimerQueue option" where
  "TQ_Shutdown_next q =
     (case tqShut q of
        SIdle \<Rightarrow> if tqRunning q then Some (q\<lparr>tqRunning := False, tqShut := SNotify\<rparr>) else None
      | SNotify \<Rightarrow> Some (tq_notify q\<lparr>tqShut := SJoin\<rparr>)
      | SJoin \<Rightarrow> if mWorkerThread q = TExited then Some (q\<lparr>mWorkerThread := TNone, tqShut := SClear\<rparr>) else None
      | SClear \<Rightarrow> Some (q\<lparr>mHeap := [], mCancelledHandles := {}, tqShut := SIdle\<rparr>))"

datatype tq_event =
    TInit | TOnce u32 | TRepeat u32 | TCancel TimerHandle
  | TWorker | TReturn bool | TShutdown | TTick nat

fun tq_next :: "tq_event \<Rightarrow> TimerQueue \<Rightarrow> TimerQueue option" where
  "tq_next TInit q = (if tqShut q = SIdle then Some (snd (TQ_Initialize q)) else None)"
| "tq_next (TOnce d) q = (if mutex_free (mWorkerThread q) then Some (snd (ScheduleOnce d q)) else None)"
| "tq_next (TRepeat d) q = (if mutex_free (mWorkerThread q) then Some (snd (ScheduleRepeat d q)) else None)"
| "tq_next (TCancel h) q = (if mutex_free (mWorkerThread q) then Some (snd (TQ_Cancel h q)) else None)"
| "tq_next TWorker q = WorkerLoop_next q"
| "tq_next (TReturn b) q = WorkerLoop_return b q"
| "tq_next TShutdown q = TQ_Shutdown_next q"
| "tq_next (TTick n) q = Some (q\<lparr>tqNow := tqNow q + n\<rparr>)"

fun tq_run :: "tq_event list \<Rightarrow> TimerQueue \<Rightarrow> TimerQueue option" where
  "tq_run [] q = Some q"
| "tq_run (e # es) q = (case tq_next e q of None \<Rightarrow> None | Some q' \<Rightarrow> tq_run es q')"

lemma tq_run_append:
  "tq_run (es @ fs) q = (case tq_run es q of None \<Rightarrow> None | Some q' \<Rightarrow> tq_run fs q')"
  by (induction es arbitrary: q) (auto split: option.splits)

subsection \<open>Handles and the heap\<close>

text \<open>The live entries: those in the heap, and the one whose callback is running.\<close>

fun running_entry :: "tq_pc \<Rightarrow> TimerEntry list" where
  "running_entry (TRun e) = [e]"
| "running_entry _ = []"

definition live :: "TimerQueue \<Rightarrow> TimerEntry multiset" where
  "live q = mset (mHeap q) + mset (running_entry (mWorkerThread q))"

definition handles :: "TimerQueue \<Rightarrow> u64 multiset" where
  "handles q = image_mset te_handle (live q)"

definition tq_inv :: "TimerQueue \<Rightarrow> bool" where
  "tq_inv q \<longleftrightarrow> is_heap te_nextFire (mHeap q) \<and>
     (\<forall>h. count (handles q) h \<le> 1) \<and> (\<forall>h \<in># handles q. 0 < h \<and> h < mNextHandle q) \<and>
     (tqShut q = SClear \<longrightarrow> mWorkerThread q = TNone) \<and>
     (tqShut q \<noteq> SIdle \<longrightarrow> \<not> tqRunning q) \<and> (tqRunning q \<longrightarrow> tqShut q = SIdle) \<and> 0 < mNextHandle q"

lemma tq_notify_fields [simp]:
  "mHeap (tq_notify q) = mHeap q" "mCancelledHandles (tq_notify q) = mCancelledHandles q"
  "tqRunning (tq_notify q) = tqRunning q" "mNextHandle (tq_notify q) = mNextHandle q"
  "tqShut (tq_notify q) = tqShut q" "tqNow (tq_notify q) = tqNow q" "tqStarted (tq_notify q) = tqStarted q"
  "running_entry (mWorkerThread (tq_notify q)) = running_entry (mWorkerThread q)"
  "mWorkerThread (tq_notify q) = TNone \<longleftrightarrow> mWorkerThread q = TNone"
  by (auto simp: tq_notify_def split: tq_pc.splits option.splits)

text \<open>What an event may do to the live entries and the cancelled set: the cases the invariants need.\<close>

lemma PopTop_facts:
  assumes "mHeap q \<noteq> []" and "PopTop q = (e, q')"
  shows "mset (mHeap q) = add_mset e (mset (mHeap q'))" and "e = hd (mHeap q)"
    and "is_heap te_nextFire (mHeap q) \<Longrightarrow> is_heap te_nextFire (mHeap q')"
    and "q' = q\<lparr>mHeap := mHeap q'\<rparr>"
  using assms vec_heap.mset_pop [of "mHeap q" te_nextFire] vec_heap.pop_front [of "mHeap q" te_nextFire]
    vec_heap.heap_pop [of te_nextFire "mHeap q"]
  by (auto simp: PopTop_def split: prod.splits)

lemma handles_push:
  "handles (q\<lparr>mHeap := push_heap te_nextFire e (mHeap q)\<rparr>) = add_mset (te_handle e) (handles q)"
  by (simp add: handles_def live_def vec_heap.mset_push)

lemma handles_PushEntry [simp]: "handles (PushEntry e q) = add_mset (te_handle e) (handles q)"
  using handles_push [where q = q and e = e] by (simp add: PushEntry_def handles_def live_def)

lemma PushEntry_fields [simp]:
  "mHeap (PushEntry e q) = push_heap te_nextFire e (mHeap q)" "mCancelledHandles (PushEntry e q) = mCancelledHandles q"
  "tqRunning (PushEntry e q) = tqRunning q" "mNextHandle (PushEntry e q) = mNextHandle q"
  "tqShut (PushEntry e q) = tqShut q" "tqNow (PushEntry e q) = tqNow q" "tqStarted (PushEntry e q) = tqStarted q"
  "mWorkerThread (PushEntry e q) = TNone \<longleftrightarrow> mWorkerThread q = TNone"
  "running_entry (mWorkerThread (PushEntry e q)) = running_entry (mWorkerThread q)"
  by (simp_all add: PushEntry_def)

lemma handles_same:
  "mHeap q' = mHeap q \<Longrightarrow> running_entry (mWorkerThread q') = running_entry (mWorkerThread q) \<Longrightarrow> handles q' = handles q"
  by (simp add: handles_def live_def)

lemma next_handle_fresh:
  assumes "unat (mNextHandle q) < 2 ^ 64 - 1"
  shows "mNextHandle q < mNextHandle q + 1" and "unat (mNextHandle q + 1) = Suc (unat (mNextHandle q))"
proof -
  show *: "unat (mNextHandle q + 1) = Suc (unat (mNextHandle q))"
    using assms by (subst unat_add_lem [THEN iffD1]) (auto simp: unat_1)
  then show "mNextHandle q < mNextHandle q + 1" by (simp add: word_less_nat_alt)
qed

text \<open>The head of the loop, case by case.\<close>

lemma WorkerLoop_top_cases:
  obtains (park) d where "WorkerLoop_top q = q\<lparr>mWorkerThread := TPark d\<rparr>"
  | (stay) "WorkerLoop_top q = q"
  | (exit) "WorkerLoop_top q = q\<lparr>mWorkerThread := TExited\<rparr>" "\<not> tqRunning q"
  | (skip) e h where "mHeap q \<noteq> []" "PopTop q = (e, q\<lparr>mHeap := h\<rparr>)" "te_handle e \<in> mCancelledHandles q"
      "WorkerLoop_top q = q\<lparr>mHeap := h, mCancelledHandles := mCancelledHandles q - {te_handle e}\<rparr>"
  | (start) e h where "mHeap q \<noteq> []" "PopTop q = (e, q\<lparr>mHeap := h\<rparr>)" "te_handle e \<notin> mCancelledHandles q"
      "te_nextFire (hd (mHeap q)) \<le> tqNow q"
      "WorkerLoop_top q = q\<lparr>mHeap := h, mWorkerThread := TRun e, tqStarted := tqStarted q @ [te_handle e]\<rparr>"
proof (cases "\<not> top_pred q \<or> \<not> tqRunning q \<or> mHeap q = [] \<or> tqNow q < te_nextFire (hd (mHeap q))")
  case True
  then have "WorkerLoop_top q = q\<lparr>mWorkerThread := TPark None\<rparr> \<or> WorkerLoop_top q = q \<or>
      (WorkerLoop_top q = q\<lparr>mWorkerThread := TExited\<rparr> \<and> \<not> tqRunning q) \<or>
      WorkerLoop_top q = q\<lparr>mWorkerThread := TPark (Some (te_nextFire (hd (mHeap q))))\<rparr>"
    by (simp add: WorkerLoop_top_def Let_def) blast
  then show ?thesis using park stay exit by blast
next
  case False
  obtain e q' where p: "PopTop q = (e, q')" by force
  then obtain h where h: "PopTop q = (e, q\<lparr>mHeap := h\<rparr>)" by (auto simp: PopTop_def split: prod.splits)
  from False h have "WorkerLoop_top q =
      (if te_handle e \<in> mCancelledHandles q
       then q\<lparr>mHeap := h, mCancelledHandles := mCancelledHandles q - {te_handle e}\<rparr>
       else q\<lparr>mHeap := h, mWorkerThread := TRun e, tqStarted := tqStarted q @ [te_handle e]\<rparr>)"
    by (simp add: WorkerLoop_top_def)
  with False h show ?thesis by (cases "te_handle e \<in> mCancelledHandles q") (auto intro: skip start)
qed

subsection \<open>The invariant\<close>

lemma tq_invI_same:
  assumes "tq_inv q" and "handles q' = handles q" and "mHeap q' = mHeap q" and "mNextHandle q' = mNextHandle q"
    and "tqShut q' = SClear \<longrightarrow> mWorkerThread q' = TNone" and "tqRunning q' \<longleftrightarrow> tqRunning q" and "tqShut q' = tqShut q"
  shows "tq_inv q'"
  using assms by (simp add: tq_inv_def)

lemma tq_inv_schedule:
  assumes "tq_inv q" and "unat (mNextHandle q) < 2 ^ 64 - 1"
  shows "tq_inv (PushEntry \<lparr>te_handle = mNextHandle q, te_nextFire = t, te_intervalMs = i\<rparr>
    (q\<lparr>mNextHandle := mNextHandle q + 1\<rparr>))"
proof -
  have eq: "handles (q\<lparr>mNextHandle := n\<rparr>) = handles q" for n by (rule handles_same) simp_all
  have fresh: "mNextHandle q \<notin># handles q" using assms(1) by (auto simp: tq_inv_def)
  have c: "count (add_mset (mNextHandle q) (handles q)) h \<le> 1" for h
    using assms(1) fresh by (cases "h = mNextHandle q") (auto simp: tq_inv_def not_in_iff)
  note f = next_handle_fresh(1) [OF assms(2)]
  have b: "0 < h \<and> h < mNextHandle q + 1" if "h \<in># add_mset (mNextHandle q) (handles q)" for h
  proof (cases "h = mNextHandle q")
    case True
    with assms(1) f show ?thesis unfolding tq_inv_def by blast
  next
    case False
    with that assms(1) have "0 < h" "h < mNextHandle q" unfolding tq_inv_def by auto
    with less_trans [OF this(2) f] show ?thesis by blast
  qed
  have p: "0 < mNextHandle q + 1" using b [of "mNextHandle q"] less_trans by fastforce
  let ?q = "PushEntry \<lparr>te_handle = mNextHandle q, te_nextFire = t, te_intervalMs = i\<rparr>
    (q\<lparr>mNextHandle := mNextHandle q + 1\<rparr>)"
  have h: "handles ?q = add_mset (mNextHandle q) (handles q)" "mNextHandle ?q = mNextHandle q + 1"
    by (simp_all add: eq)
  have o: "is_heap te_nextFire (mHeap ?q)" "tqShut ?q = tqShut q" "tqRunning ?q = tqRunning q"
    "mWorkerThread ?q = TNone \<longleftrightarrow> mWorkerThread q = TNone"
    using assms(1) by (simp_all add: tq_inv_def vec_heap.heap_push)
  have "\<forall>h. count (handles ?q) h \<le> 1" "\<forall>h \<in># handles ?q. 0 < h \<and> h < mNextHandle ?q" "0 < mNextHandle ?q"
    unfolding h using c b p by blast+
  with assms(1) o show ?thesis unfolding tq_inv_def o(2-4) by blast
qed

lemma handles_top:
  "mWorkerThread q = TTop \<Longrightarrow> handles (WorkerLoop_top q) \<subseteq># handles q \<and>
     (is_heap te_nextFire (mHeap q) \<longrightarrow> is_heap te_nextFire (mHeap (WorkerLoop_top q)))"
  by (cases rule: WorkerLoop_top_cases [of q])
    (auto simp: handles_def live_def dest: PopTop_facts(1,3))

lemma WorkerLoop_top_fields:
  "tqRunning (WorkerLoop_top q) = tqRunning q" "mNextHandle (WorkerLoop_top q) = mNextHandle q"
  "tqShut (WorkerLoop_top q) = tqShut q" "tqNow (WorkerLoop_top q) = tqNow q"
  by (cases rule: WorkerLoop_top_cases [of q]; simp)+

lemma WorkerLoop_top_not_none: "mWorkerThread q = TTop \<Longrightarrow> mWorkerThread (WorkerLoop_top q) \<noteq> TNone"
  by (cases rule: WorkerLoop_top_cases [of q]) auto

lemma tq_inv_less:
  assumes "tq_inv q" and "handles q' \<subseteq># handles q" and "is_heap te_nextFire (mHeap q')"
    and "mNextHandle q' = mNextHandle q" and "tqShut q' = SClear \<longrightarrow> mWorkerThread q' = TNone"
    and "tqRunning q' \<longrightarrow> tqShut q' = SIdle"
  shows "tq_inv q'"
proof -
  have "count (handles q') h \<le> 1" for h
    using assms(1) mset_subset_eq_count [OF assms(2), of h] by (auto simp: tq_inv_def intro: order_trans)
  moreover have "h \<in># handles q" if "h \<in># handles q'" for h using assms(2) that by (rule mset_subset_eqD)
  ultimately show ?thesis using assms by (auto simp: tq_inv_def)
qed

lemma tq_inv_next:
  assumes "tq_next e q = Some q'" and "tq_inv q" and "unat (mNextHandle q) < 2 ^ 64 - 1"
  shows "tq_inv q'"
proof (cases e)
  case TInit
  with assms(1) have "tqShut q = SIdle" "q' = q \<or> q' = q\<lparr>tqRunning := True, mWorkerThread := TTop\<rparr>"
    by (auto simp: TQ_Initialize_def split: if_splits)
  with assms(2) show ?thesis
    by (intro tq_inv_less [OF assms(2)]) (auto simp: handles_def live_def tq_inv_def)
next
  case (TOnce d)
  with assms tq_inv_schedule [OF assms(2,3)] show ?thesis by (auto simp: ScheduleOnce_def Let_def split: if_splits)
next
  case (TRepeat d)
  with assms tq_inv_schedule [OF assms(2,3)] show ?thesis by (auto simp: ScheduleRepeat_def Let_def split: if_splits)
next
  case (TCancel h)
  with assms(1) have "q' = snd (TQ_Cancel h q)" by (simp split: if_splits)
  with assms(2) show ?thesis by (auto simp: TQ_Cancel_def tq_inv_def handles_def live_def split: if_splits)
next
  case TWorker
  show ?thesis
  proof (cases "mWorkerThread q")
    case TTop
    with TWorker assms(1) have "q' = WorkerLoop_top q" by (simp add: WorkerLoop_next_def)
    with handles_top [OF TTop] WorkerLoop_top_fields [of q] TTop assms(2) show ?thesis
      by (intro tq_inv_less [OF assms(2)]) (auto simp: tq_inv_def)
  qed (use TWorker assms in \<open>auto simp: WorkerLoop_next_def tq_inv_def handles_def live_def
      split: option.splits if_splits\<close>)
next
  case (TReturn b)
  then obtain en where en: "mWorkerThread q = TRun en"
    using assms(1) by (auto simp: WorkerLoop_return_def split: tq_pc.splits)
  have hs: "handles q = add_mset (te_handle en) (handles (q\<lparr>mWorkerThread := TTop\<rparr>))"
    by (simp add: handles_def live_def en)
  show ?thesis
  proof (rule tq_inv_less [OF assms(2)])
    show "handles q' \<subseteq># handles q"
      using TReturn assms(1) en by (auto simp: WorkerLoop_return_def hs split: if_splits)
    show "is_heap te_nextFire (mHeap q')"
      using TReturn assms(1,2) en by (auto simp: WorkerLoop_return_def tq_inv_def vec_heap.heap_push split: if_splits)
  qed (use TReturn assms(1,2) en in \<open>auto simp: WorkerLoop_return_def tq_inv_def split: if_splits\<close>)
next
  case TShutdown
  with assms(1,2) show ?thesis
    by (auto simp: TQ_Shutdown_next_def tq_inv_def handles_def live_def vec_heap.heap_Nil
        split: tq_shut.splits if_splits)
next
  case (TTick n)
  with assms(1,2) show ?thesis by (auto simp: tq_inv_def handles_def live_def)
qed

lemma tq_next_handle:
  assumes "tq_next e q = Some q'"
  shows "mNextHandle q' = mNextHandle q \<or> mNextHandle q' = mNextHandle q + 1"
  using assms by (cases e)
    (auto simp: TQ_Initialize_def ScheduleOnce_def ScheduleRepeat_def TQ_Cancel_def WorkerLoop_next_def
      WorkerLoop_return_def TQ_Shutdown_next_def WorkerLoop_top_fields Let_def
      split: if_splits tq_pc.splits option.splits tq_shut.splits)

lemma tq_next_handle_bound:
  assumes "tq_next e q = Some q'" and "unat (mNextHandle q) + Suc n < 2 ^ 64"
  shows "unat (mNextHandle q') + n < 2 ^ 64" and "mNextHandle q \<le> mNextHandle q'"
proof -
  have "unat (mNextHandle q) < 2 ^ 64 - 1" using assms(2) by simp
  note f = next_handle_fresh [OF this]
  from tq_next_handle [OF assms(1)] show "unat (mNextHandle q') + n < 2 ^ 64" "mNextHandle q \<le> mNextHandle q'"
    using f assms(2) by (auto intro: less_imp_le)
qed

lemma tq_run_inv:
  "tq_run es q = Some q' \<Longrightarrow> tq_inv q \<Longrightarrow> unat (mNextHandle q) + length es < 2 ^ 64 \<Longrightarrow> tq_inv q'"
proof (induction es arbitrary: q)
  case (Cons e es)
  then obtain q1 where q1: "tq_next e q = Some q1" "tq_run es q1 = Some q'" by (auto split: option.splits)
  from Cons.prems(3) have b: "unat (mNextHandle q) + Suc (length es) < 2 ^ 64" by simp
  then have "tq_inv q1" by (intro tq_inv_next [OF q1(1) Cons.prems(2)]) simp
  with Cons.IH [OF q1(2)] tq_next_handle_bound(1) [OF q1(1) b] show ?case by blast
qed simp

lemma tq_inv_new: "tq_inv (TQ_new now)"
  by (simp add: tq_inv_def TQ_new_def handles_def live_def vec_heap.heap_Nil)

subsection \<open>When callbacks run\<close>

text \<open>
  C17: a callback never runs early and never out of order. Whenever, in any run, the worker
  starts the callback of an entry, its time has come, it is not cancelled, it leaves the heap, and no
  entry that stays in the heap has an earlier time.
\<close>

theorem timer_fires_in_order:
  assumes "tq_run es (TQ_new now) = Some q" and "length es < 2 ^ 64 - 1"
    and "tq_next TWorker q = Some q'" and "tqStarted q' \<noteq> tqStarted q"
  shows "\<exists>e. mWorkerThread q' = TRun e \<and> te_nextFire e \<le> tqNow q \<and> te_handle e \<notin> mCancelledHandles q \<and>
    mset (mHeap q) = add_mset e (mset (mHeap q')) \<and> (\<forall>e' \<in> set (mHeap q'). te_nextFire e \<le> te_nextFire e')"
proof -
  have "unat (mNextHandle (TQ_new now)) + length es < 2 ^ 64" using assms(2) by (simp add: TQ_new_def)
  from tq_run_inv [OF assms(1) tq_inv_new this] have heap: "is_heap te_nextFire (mHeap q)" by (simp add: tq_inv_def)
  have top: "mWorkerThread q = TTop" "q' = WorkerLoop_top q"
    using assms(3,4) by (auto simp: WorkerLoop_next_def split: tq_pc.splits option.splits if_splits)
  show ?thesis
  proof (cases rule: WorkerLoop_top_cases [of q])
    case (start e h)
    note pt = PopTop_facts [OF start(1,2)]
    have "te_nextFire e \<le> te_nextFire e'" if "e' \<in> set h" for e'
    proof -
      have "e' \<in># mset (mHeap q)" using pt(1) that by simp
      then show ?thesis using vec_heap.front_least [OF heap, of e'] pt(2) by simp
    qed
    with start pt top show ?thesis by auto
  qed (use assms(4) top in simp_all)
qed

subsection \<open>Cancelling\<close>

text \<open>A handle is dead when no live entry can start under it any more.\<close>

definition dead :: "TimerHandle \<Rightarrow> TimerQueue \<Rightarrow> bool" where
  "dead h q \<longleftrightarrow> h < mNextHandle q \<and> (h \<in># handles q \<longrightarrow> h \<in> mCancelledHandles q)"

lemma dead_top:
  assumes "tq_inv q" and "mWorkerThread q = TTop" and "dead h q"
  shows "dead h (WorkerLoop_top q) \<and> count_list (tqStarted (WorkerLoop_top q)) h = count_list (tqStarted q) h"
proof (cases rule: WorkerLoop_top_cases [of q])
  case (skip e k)
  note pt = PopTop_facts [OF skip(1,2)]
  have hs: "handles q = add_mset (te_handle e) (handles (q\<lparr>mHeap := k, mCancelledHandles := c\<rparr>))" for c
    using pt(1) by (simp add: handles_def live_def assms(2))
  have "count (handles q) (te_handle e) \<le> 1" using assms(1) by (simp add: tq_inv_def)
  then have ne: "te_handle e \<notin># handles (WorkerLoop_top q)"
    by (simp add: hs [of "mCancelledHandles q - {te_handle e}"] skip(4) not_in_iff)
  have sub: "h \<in># handles q" if "h \<in># handles (WorkerLoop_top q)"
    using that by (simp add: hs [of "mCancelledHandles q - {te_handle e}"] skip(4))
  have "mNextHandle (WorkerLoop_top q) = mNextHandle q" "tqStarted (WorkerLoop_top q) = tqStarted q"
    "mCancelledHandles (WorkerLoop_top q) = mCancelledHandles q - {te_handle e}" by (simp_all add: skip(4))
  with assms(3) ne sub show ?thesis unfolding dead_def by auto
next
  case (start e k)
  note pt = PopTop_facts [OF start(1,2)]
  have "handles (WorkerLoop_top q) = handles q" using pt(1) by (simp add: start(5) handles_def live_def assms(2))
  moreover have "te_handle e \<in># handles q" using pt(1) by (simp add: handles_def live_def)
  ultimately show ?thesis using assms(3) start(3,5) by (auto simp: dead_def)
next
  case (park d)
  then have "handles (WorkerLoop_top q) = handles q" using assms(2) by (intro handles_same) auto
  with assms(3) park show ?thesis by (simp add: dead_def)
next
  case exit
  then have "handles (WorkerLoop_top q) = handles q" using assms(2) by (intro handles_same) auto
  with assms(3) exit show ?thesis by (simp add: dead_def)
qed (use assms(3) in simp)

lemma deadI:
  assumes "dead h q" and "mNextHandle q \<le> mNextHandle q'" and "h \<in># handles q' \<Longrightarrow> h \<in># handles q"
    and "h \<in> mCancelledHandles q \<Longrightarrow> h \<in># handles q' \<Longrightarrow> h \<in> mCancelledHandles q'"
  shows "dead h q'"
  using assms by (auto simp: dead_def intro: less_le_trans)

lemma dead_next:
  assumes "tq_next e q = Some q'" and "tq_inv q" and "unat (mNextHandle q) < 2 ^ 64 - 1" and "dead h q"
  shows "dead h q' \<and> count_list (tqStarted q') h = count_list (tqStarted q) h"
proof -
  have ge: "mNextHandle q \<le> mNextHandle q'"
    using tq_next_handle_bound(2) [OF assms(1), of 0] assms(3) by simp
  have sched: "h \<in># handles q"
    if "h \<in># handles (PushEntry \<lparr>te_handle = mNextHandle q, te_nextFire = t, te_intervalMs = i\<rparr> (q\<lparr>mNextHandle := n\<rparr>))" for t i n
  proof -
    have "handles (q\<lparr>mNextHandle := n\<rparr>) = handles q" by (rule handles_same) simp_all
    with that assms(4) show ?thesis by (auto simp: dead_def)
  qed
  show ?thesis
  proof (cases e)
    case TInit
    with assms(1) have "tqStarted q' = tqStarted q" "mCancelledHandles q' = mCancelledHandles q"
      "handles q' \<subseteq># handles q"
      by (auto simp: TQ_Initialize_def handles_def live_def split: if_splits)
    then show ?thesis using deadI [OF assms(4) ge] by (auto dest: mset_subset_eqD)
  next
    case (TOnce d)
    with assms(1) show ?thesis using deadI [OF assms(4) ge] sched
      by (auto simp: ScheduleOnce_def Let_def split: if_splits)
  next
    case (TRepeat d)
    with assms(1) show ?thesis using deadI [OF assms(4) ge] sched
      by (auto simp: ScheduleRepeat_def Let_def split: if_splits)
  next
    case (TCancel k)
    with assms(1) have q': "q' = snd (TQ_Cancel k q)" by (simp split: if_splits)
    then have "handles q' = handles q" by (intro handles_same) (auto simp: TQ_Cancel_def)
    with q' show ?thesis using deadI [OF assms(4) ge] by (auto simp: TQ_Cancel_def split: if_splits)
  next
    case TWorker
    show ?thesis
    proof (cases "mWorkerThread q = TTop")
      case True
      with TWorker assms(1) have "q' = WorkerLoop_top q" by (simp add: WorkerLoop_next_def)
      with dead_top [OF assms(2) True assms(4)] show ?thesis by simp
    next
      case False
      with TWorker assms(1) have "\<exists>p. q' = q\<lparr>mWorkerThread := p\<rparr> \<and> running_entry p = []"
        and r: "running_entry (mWorkerThread q) = []"
        by (auto simp: WorkerLoop_next_def split: tq_pc.splits option.splits if_splits)
      then obtain p where p: "q' = q\<lparr>mWorkerThread := p\<rparr>" "running_entry p = []" by blast
      have "handles q' = handles q" by (rule handles_same) (simp_all add: p r)
      then show ?thesis using deadI [OF assms(4) ge] by (auto simp: p(1))
    qed
  next
    case (TReturn b)
    then obtain en where en: "mWorkerThread q = TRun en"
      using assms(1) by (auto simp: WorkerLoop_return_def split: tq_pc.splits)
    have hs: "handles q = add_mset (te_handle en) (handles (q\<lparr>mWorkerThread := TTop\<rparr>))"
      by (simp add: handles_def live_def en)
    have "h \<in># handles q" if "h \<in># handles q'"
      using that TReturn assms(1) en by (auto simp: WorkerLoop_return_def hs split: if_splits)
    then show ?thesis using deadI [OF assms(4) ge] TReturn assms(1) en
      by (auto simp: WorkerLoop_return_def split: if_splits)
  next
    case TShutdown
    then have "tqShut q = SClear \<Longrightarrow> handles q' = {#}"
      using assms(1,2) by (auto simp: TQ_Shutdown_next_def tq_inv_def handles_def live_def)
    moreover have "handles q' = handles q \<and> mCancelledHandles q' = mCancelledHandles q" if "tqShut q \<noteq> SClear"
      using that TShutdown assms(1)
      by (auto simp: TQ_Shutdown_next_def handles_def live_def split: tq_shut.splits if_splits)
    moreover have "tqStarted q' = tqStarted q"
      using TShutdown assms(1) by (auto simp: TQ_Shutdown_next_def split: tq_shut.splits if_splits)
    ultimately show ?thesis using deadI [OF assms(4) ge] by (cases "tqShut q = SClear") auto
  next
    case (TTick n)
    with assms(1) have q': "q' = q\<lparr>tqNow := tqNow q + n\<rparr>" by simp
    then have "handles q' = handles q" by (intro handles_same) simp_all
    with q' show ?thesis using deadI [OF assms(4) ge] by auto
  qed
qed

lemma dead_run:
  "tq_run es q = Some q' \<Longrightarrow> tq_inv q \<Longrightarrow> unat (mNextHandle q) + length es < 2 ^ 64 \<Longrightarrow> dead h q \<Longrightarrow>
   dead h q' \<and> count_list (tqStarted q') h = count_list (tqStarted q) h"
proof (induction es arbitrary: q)
  case (Cons e es)
  then obtain q1 where q1: "tq_next e q = Some q1" "tq_run es q1 = Some q'" by (auto split: option.splits)
  from Cons.prems(3) have b: "unat (mNextHandle q) + Suc (length es) < 2 ^ 64" by simp
  then have l: "unat (mNextHandle q) < 2 ^ 64 - 1" by simp
  from Cons.IH [OF q1(2) tq_inv_next [OF q1(1) Cons.prems(2) l] tq_next_handle_bound(1) [OF q1(1) b]]
    dead_next [OF q1(1) Cons.prems(2) l Cons.prems(4)] show ?case by simp
qed simp

lemma tq_run_handle_bound:
  "tq_run es q = Some q' \<Longrightarrow> unat (mNextHandle q) + length es + n < 2 ^ 64 \<Longrightarrow> unat (mNextHandle q') + n < 2 ^ 64"
proof (induction es arbitrary: q)
  case (Cons e es)
  then obtain q1 where q1: "tq_next e q = Some q1" "tq_run es q1 = Some q'" by (auto split: option.splits)
  from Cons.prems(2) have b: "unat (mNextHandle q) + Suc (length es + n) < 2 ^ 64" by simp
  from tq_next_handle_bound(1) [OF q1(1) b] show ?case by (intro Cons.IH [OF q1(2)]) simp
qed simp

text \<open>
  cancelling works at any moment. After \<open>Cancel\<close> has been called with a handle that was
  handed out, the timer's callback is never started again, whether the entry was waiting in the
  heap, its callback was running and asks to be repeated, or it was over; and \<open>Shutdown\<close> or
  a restart in between changes nothing.
\<close>

theorem cancel_is_final:
  assumes "tq_run es (TQ_new now) = Some q" and "h \<noteq> 0" and "h < mNextHandle q"
    and "tq_run fs (snd (TQ_Cancel h q)) = Some q'" and "length es + length fs < 2 ^ 64 - 1"
  shows "count_list (tqStarted q') h = count_list (tqStarted q) h"
proof -
  have b: "unat (mNextHandle (TQ_new now)) + length es + length fs < 2 ^ 64" using assms(5) by (simp add: TQ_new_def)
  then have inv: "tq_inv q" by (intro tq_run_inv [OF assms(1) tq_inv_new]) simp
  let ?c = "snd (TQ_Cancel h q)"
  have c: "handles ?c = handles q" by (rule handles_same) (simp_all add: TQ_Cancel_def)
  have "tq_inv ?c"
    by (rule tq_invI_same [OF inv c]) (use inv in \<open>auto simp: TQ_Cancel_def tq_inv_def\<close>)
  moreover have "dead h ?c" using assms(2,3) by (simp add: dead_def TQ_Cancel_def)
  moreover have "unat (mNextHandle ?c) + length fs < 2 ^ 64"
    using tq_run_handle_bound [OF assms(1) b] by (simp add: TQ_Cancel_def)
  ultimately have "count_list (tqStarted q') h = count_list (tqStarted ?c) h" using dead_run [OF assms(4)] by blast
  then show ?thesis by (simp add: TQ_Cancel_def)
qed

subsection \<open>Where the code falls short of its comments\<close>

text \<open>Handles that are not live stay so, and stay cancelled until \<open>Shutdown\<close>.\<close>

lemma handles_pop:
  assumes "mHeap q \<noteq> []" and "PopTop q = (e, q')"
  shows "te_handle e \<in># handles q"
  using PopTop_facts(1) [OF assms] by (simp add: handles_def live_def)

lemma handles_shrink:
  assumes "tq_next e q = Some q'" and "h < mNextHandle q" and "h \<in># handles q'"
  shows "h \<in># handles q"
proof -
  have sched: "h \<in># handles q"
    if "h \<in># handles (PushEntry \<lparr>te_handle = mNextHandle q, te_nextFire = t, te_intervalMs = i\<rparr> (q\<lparr>mNextHandle := n\<rparr>))" for t i n
  proof -
    have "handles (q\<lparr>mNextHandle := n\<rparr>) = handles q" by (rule handles_same) simp_all
    with that assms(2) show ?thesis by auto
  qed
  have ret: "h \<in># handles q"
    if "mWorkerThread q = TRun en" and "h \<in># add_mset (te_handle en) (handles (q\<lparr>mWorkerThread := TTop\<rparr>))" for en
    using that by (auto simp: handles_def live_def)
  have "h \<in># handles q" if "e = TWorker"
  proof (cases "mWorkerThread q = TTop")
    case True
    with that assms(1,3) handles_top [OF True] show ?thesis by (auto simp: WorkerLoop_next_def dest: mset_subset_eqD)
  qed (use that assms(1,3) in \<open>auto simp: WorkerLoop_next_def handles_def live_def split: tq_pc.splits option.splits if_splits\<close>)
  with assms sched ret show ?thesis
    by (cases e) (auto simp: ScheduleOnce_def ScheduleRepeat_def TQ_Initialize_def TQ_Cancel_def WorkerLoop_return_def
        TQ_Shutdown_next_def handles_def live_def Let_def split: if_splits tq_pc.splits tq_shut.splits)
qed

lemma cancelled_stays:
  assumes "tq_next e q = Some q'" and "e \<noteq> TShutdown" and "h \<notin># handles q" and "h \<in> mCancelledHandles q"
  shows "h \<in> mCancelledHandles q'"
proof (cases e)
  case TWorker
  show ?thesis
  proof (cases "mWorkerThread q = TTop")
    case True
    with TWorker assms(1) have q': "q' = WorkerLoop_top q" by (simp add: WorkerLoop_next_def)
    show ?thesis
      using assms(3,4) unfolding q'
      by (cases rule: WorkerLoop_top_cases [of q]) (auto dest: handles_pop)
  qed (use TWorker assms in \<open>auto simp: WorkerLoop_next_def split: tq_pc.splits option.splits if_splits\<close>)
qed (use assms in \<open>auto simp: ScheduleOnce_def ScheduleRepeat_def TQ_Initialize_def TQ_Cancel_def WorkerLoop_return_def Let_def
    split: if_splits tq_pc.splits\<close>)

text \<open>
  the cancelled set leaks. Cancelling a timer that is over (or was cancelled and discarded
  before) answers true and records its handle, and no run of the queue removes it again before
  \<open>Shutdown\<close>; the comments promise that such a call is a no-op and that handles do not pile up.
\<close>

theorem cancel_leaks_handle:
  assumes "h \<noteq> 0" and "h < mNextHandle q" and "h \<notin># handles q"
    and "tq_run es (snd (TQ_Cancel h q)) = Some q'" and "TShutdown \<notin> set es"
    and "unat (mNextHandle q) + length es < 2 ^ 64"
  shows "fst (TQ_Cancel h q) \<and> h \<in> mCancelledHandles q'"
proof -
  have "h \<in> mCancelledHandles q'"
    if "tq_run es r = Some q'" "h < mNextHandle r" "h \<notin># handles r" "h \<in> mCancelledHandles r"
      "TShutdown \<notin> set es" "unat (mNextHandle r) + length es < 2 ^ 64" for r
    using that
  proof (induction es arbitrary: r)
    case (Cons e es)
    then obtain s where s: "tq_next e r = Some s" "tq_run es s = Some q'" by (auto split: option.splits)
    from Cons.prems(6) have b: "unat (mNextHandle r) + Suc (length es) < 2 ^ 64" by simp
    show ?case
    proof (rule Cons.IH [OF s(2)])
      show "h < mNextHandle s" using tq_next_handle_bound(2) [OF s(1) b] Cons.prems(2) by simp
      show "h \<notin># handles s" using handles_shrink [OF s(1) Cons.prems(2)] Cons.prems(3) by blast
      show "h \<in> mCancelledHandles s" using cancelled_stays [OF s(1)] Cons.prems(3,4,5) by auto
      show "unat (mNextHandle s) + length es < 2 ^ 64" by (rule tq_next_handle_bound(1) [OF s(1) b])
    qed (use Cons.prems(5) in simp)
  qed simp
  moreover have "handles (snd (TQ_Cancel h q)) = handles q" by (rule handles_same) (simp_all add: TQ_Cancel_def)
  ultimately show ?thesis using assms by (simp add: TQ_Cancel_def)
qed

text \<open>
  a timer may fire late by the length of an unrelated one. While the worker sleeps until
  \<open>T\<close>, scheduling a timer does not shorten its sleep: the notification only makes it test whether the
  front entry is due already. Until the clock reaches \<open>T\<close>, or some other call notifies the worker
  again, no callback starts, although the new timer may long be due. The comment in the loop says that an
  insertion wakes the worker to look at the heap again.
\<close>

theorem timer_sleeps_past_due:
  assumes "mWorkerThread q = TWait (Some T)" and "tqRunning q"
    and "\<forall>e \<in> set (mHeap q). tqNow q < te_nextFire e" and "0 < delay"
    and "tq_run es (snd (ScheduleOnce delay q)) = Some q'" and "\<forall>e \<in> set es. e = TWorker \<or> (\<exists>n. e = TTick n)"
    and "tqNow q' < T"
  shows "mWorkerThread q' = TWait (Some T) \<and> tqStarted q' = tqStarted q \<and>
    \<lparr>te_handle = mNextHandle q, te_nextFire = tqNow q + ms delay, te_intervalMs = 0\<rparr> \<in> set (mHeap q')"
proof -
  let ?e = "\<lparr>te_handle = mNextHandle q, te_nextFire = tqNow q + ms delay, te_intervalMs = 0\<rparr>"
  let ?r = "snd (ScheduleOnce delay q)"
  let ?h = "push_heap te_nextFire ?e (mHeap q)"
  have "0 < ms delay" using assms(4) by (simp add: ms_def unat_gt_0 word_gt_0)
  then have all: "\<forall>x \<in> set ?h. tqNow q < te_nextFire x" using assms(3) by auto
  have ne: "?h \<noteq> []" using vec_heap.set_push [of te_nextFire ?e "mHeap q"] by force
  then have "\<not> te_nextFire (hd ?h) \<le> tqNow q" using all hd_in_set by (metis not_le)
  with ne assms(1,2) have r: "mWorkerThread ?r = TWait (Some T)"
    by (simp add: ScheduleOnce_def Let_def PushEntry_def tq_notify_def timed_pred_def)
  have "mWorkerThread q' = TWait (Some T) \<and> tqStarted q' = tqStarted s \<and> mHeap q' = mHeap s \<and> tqNow s \<le> tqNow q'"
    if "tq_run es s = Some q'" "mWorkerThread s = TWait (Some T)" "\<forall>e \<in> set es. e = TWorker \<or> (\<exists>n. e = TTick n)" for s
    using that
  proof (induction es arbitrary: s)
    case (Cons e es)
    then obtain u where u: "tq_next e s = Some u" "tq_run es u = Some q'" by (auto split: option.splits)
    show ?case
    proof (cases "e = TWorker")
      case False
      then obtain n where "u = s\<lparr>tqNow := tqNow s + n\<rparr>" using Cons.prems(3) u(1) by auto
      with Cons.IH [OF u(2)] Cons.prems show ?thesis by auto
    next
      case True
      \<comment> \<open>the timeout would need the clock to have reached \<open>T\<close>, and clocks do not run backwards\<close>
      with u(1) Cons.prems(2) have "T \<le> tqNow s" "u = s\<lparr>mWorkerThread := TTop\<rparr>"
        by (auto simp: WorkerLoop_next_def split: if_splits)
      moreover have "tqNow v \<le> tqNow q'" if "tq_run es v = Some q'" "\<forall>e \<in> set es. e = TWorker \<or> (\<exists>n. e = TTick n)" for v es
        using that
      proof (induction es arbitrary: v)
        case (Cons a as)
        then obtain w where w: "tq_next a v = Some w" "tq_run as w = Some q'" by (auto split: option.splits)
        then have "tqNow v \<le> tqNow w" using Cons.prems(2)
          by (auto simp: WorkerLoop_next_def WorkerLoop_top_fields split: tq_pc.splits option.splits if_splits)
        with Cons.IH [OF w(2)] Cons.prems(2) show ?case by simp
      qed simp
      ultimately show ?thesis using u(2) Cons.prems(3) assms(7) by fastforce
    qed
  qed simp
  from this [OF assms(5) r assms(6)] show ?thesis by (auto simp: ScheduleOnce_def Let_def)
qed

text \<open>
  \<open>Shutdown\<close> can hang. It clears the flag and notifies without the mutex, so both may fall
  between the worker's test of its predicate and its sleep: the worker then sleeps on an empty
  queue, \<open>Shutdown\<close> waits for it to finish, and nothing either of them does, at any later time, ends this.
\<close>

theorem timer_shutdown_can_hang:
  "\<exists>es q. tq_run es (TQ_new now) = Some q \<and> \<not> tqRunning q \<and> tqShut q = SJoin \<and>
     (\<forall>n. tq_next TWorker (q\<lparr>tqNow := n\<rparr>) = None \<and> tq_next TShutdown (q\<lparr>tqNow := n\<rparr>) = None \<and>
        (\<forall>b. tq_next (TReturn b) (q\<lparr>tqNow := n\<rparr>) = None))"
proof -
  have "\<exists>q. tq_run [TInit, TWorker, TShutdown, TShutdown, TWorker] (TQ_new now) = Some q \<and> \<not> tqRunning q \<and> tqShut q = SJoin \<and>
     mWorkerThread q = TWait None"
    by (simp add: TQ_new_def TQ_Initialize_def WorkerLoop_next_def WorkerLoop_top_def top_pred_def
        TQ_Shutdown_next_def tq_notify_def)
  then show ?thesis by (auto simp: WorkerLoop_next_def TQ_Shutdown_next_def WorkerLoop_return_def
        intro!: exI [of _ "[TInit, TWorker, TShutdown, TShutdown, TWorker]"])
qed

subsection \<open>Concrete runs\<close>

lemmas tq_eval = TQ_new_def TQ_Initialize_def WorkerLoop_next_def WorkerLoop_top_def top_pred_def timed_pred_def
  tq_notify_def ScheduleOnce_def ScheduleRepeat_def PushEntry_def PopTop_def WorkerLoop_return_def TQ_Cancel_def
  push_heap_def pop_heap_def sift_up.simps [of _ 0] sift_up.simps [of _ "Suc 0"] sift_down.simps [of _ 0] sift_down.simps [of _ "Suc 0"] swap_at_def parent_def smaller_child_def ms_def
  Let_def

theorem timer_fires_in_order_witness:
  "\<exists>q q' e. tq_run [TInit, TRepeat 15000, TOnce 1000, TWorker, TWorker, TTick 16000000000, TWorker] (TQ_new 0) = Some q \<and>
     tq_next TWorker q = Some q' \<and> mWorkerThread q' = TRun e \<and> te_handle e = 2 \<and> te_nextFire e \<le> tqNow q \<and>
     (\<forall>e' \<in> set (mHeap q'). te_nextFire e \<le> te_nextFire e')"
proof -
  let ?es = "[TInit, TRepeat 15000, TOnce 1000, TWorker, TWorker, TTick 16000000000, TWorker]"
  have "\<exists>q q' e. tq_run ?es (TQ_new 0) = Some q \<and> tq_next TWorker q = Some q' \<and> tqStarted q = [] \<and> tqStarted q' = [2] \<and>
      mWorkerThread q' = TRun e \<and> te_handle e = 2"
    by (simp add: tq_eval)
  then obtain q q' e where q: "tq_run ?es (TQ_new 0) = Some q" "tq_next TWorker q = Some q'" "tqStarted q' \<noteq> tqStarted q"
      "mWorkerThread q' = TRun e" "te_handle e = 2"
    by auto
  have "length ?es < 2 ^ 64 - 1" by simp
  from timer_fires_in_order [OF q(1) this q(2,3)] q show ?thesis by auto
qed

theorem cancel_is_final_witness:
  "\<exists>q q'. tq_run [TInit, TRepeat 1000, TTick 1000000000, TWorker] (TQ_new 0) = Some q \<and>
     tq_run [TReturn True, TTick 1000000000, TWorker, TWorker] (snd (TQ_Cancel 1 q)) = Some q' \<and>
     tqStarted q = [1] \<and> count_list (tqStarted q') 1 = 1"
proof -
  let ?es = "[TInit, TRepeat 1000, TTick 1000000000, TWorker]"
  let ?fs = "[TReturn True, TTick 1000000000, TWorker, TWorker]"
  have "\<exists>q q'. tq_run ?es (TQ_new 0) = Some q \<and> tq_run ?fs (snd (TQ_Cancel 1 q)) = Some q' \<and>
      tqStarted q = [1] \<and> mNextHandle q = 2"
    by (simp add: tq_eval)
  then obtain q q' where q: "tq_run ?es (TQ_new 0) = Some q" "tq_run ?fs (snd (TQ_Cancel 1 q)) = Some q'"
      "tqStarted q = [1]" "1 < mNextHandle q"
    by auto
  have "length ?es + length ?fs < 2 ^ 64 - 1" by simp
  from cancel_is_final [OF q(1) _ q(4,2) this] q show ?thesis by auto
qed

theorem cancel_leaks_handle_witness:
  "\<exists>q. tq_run [TInit, TOnce 5, TTick 5000000, TWorker, TReturn False] (TQ_new 0) = Some q \<and> tqStarted q = [1] \<and>
     fst (TQ_Cancel 1 q) \<and> 1 \<in> mCancelledHandles (snd (TQ_Cancel 1 q))"
proof -
  have "\<exists>q. tq_run [TInit, TOnce 5, TTick 5000000, TWorker, TReturn False] (TQ_new 0) = Some q \<and> tqStarted q = [1] \<and>
      mHeap q = [] \<and> mWorkerThread q = TTop \<and> mNextHandle q = 2"
    by (simp add: tq_eval)
  then obtain q where q: "tq_run [TInit, TOnce 5, TTick 5000000, TWorker, TReturn False] (TQ_new 0) = Some q"
      "tqStarted q = [1]" "mHeap q = []" "mWorkerThread q = TTop" "mNextHandle q = 2" by blast
  then have "1 \<notin># handles q" by (simp add: handles_def live_def)
  with cancel_leaks_handle [of 1 q "[]" "snd (TQ_Cancel 1 q)"] q show ?thesis by auto
qed

theorem timer_sleeps_past_due_witness:
  "\<exists>q q'. tq_run [TInit, TRepeat 15000, TWorker, TWorker] (TQ_new 0) = Some q \<and>
     tq_run [TTick 14000000000] (snd (ScheduleOnce 1000 q)) = Some q' \<and>
     tqNow q' = 14000000000 \<and> tqStarted q' = [] \<and> tq_next TWorker q' = None"
proof -
  have "\<exists>q q'. tq_run [TInit, TRepeat 15000, TWorker, TWorker] (TQ_new 0) = Some q \<and>
     tq_run [TTick 14000000000] (snd (ScheduleOnce 1000 q)) = Some q' \<and> tqNow q' = 14000000000 \<and> tqStarted q = [] \<and>
     mWorkerThread q = TWait (Some 15000000000) \<and> tqRunning q \<and> (\<forall>e \<in> set (mHeap q). tqNow q < te_nextFire e)"
    by (simp add: tq_eval)
  then obtain q q' where q: "tq_run [TInit, TRepeat 15000, TWorker, TWorker] (TQ_new 0) = Some q"
     "tq_run [TTick 14000000000] (snd (ScheduleOnce 1000 q)) = Some q'" "tqNow q' = 14000000000" "tqStarted q = []"
     "mWorkerThread q = TWait (Some 15000000000)" "tqRunning q" "\<forall>e \<in> set (mHeap q). tqNow q < te_nextFire e"
    by blast
  from timer_sleeps_past_due [OF q(5,6,7) _ q(2)] q show ?thesis by (auto simp: WorkerLoop_next_def)
qed

end
