(* ===== verification/Std_Text.thy ===== *)
theory Std_Text
  imports Prelude "HOL-Library.Char_ord"
begin

section \<open>Text and ordered maps of the standard library\<close>

text \<open>
  What the program uses of \<open>std::to_string\<close>, \<open>std::stoull\<close>, \<open>std::stoi\<close>, \<open>std::getline\<close> and
  \<open>std::map\<close>. A text is a list of characters; a conversion that throws is a value of a sum type.
  A \<open>std::map\<close> is the list of its entries in increasing order of the keys.
\<close>

subsection \<open>Decimal numbers\<close>

definition digit :: "nat \<Rightarrow> char" where
  "digit n = char_of (48 + n)"

definition is_digit :: "char \<Rightarrow> bool" where
  "is_digit c \<longleftrightarrow> 48 \<le> (of_char c :: nat) \<and> (of_char c :: nat) \<le> 57"

definition digit_value :: "char \<Rightarrow> nat" where
  "digit_value c = of_char c - 48"

text \<open>\<open>std::to_string\<close> of an unsigned number.\<close>

fun dec :: "nat \<Rightarrow> string" where
  "dec n = (if n < 10 then [digit n] else dec (n div 10) @ [digit (n mod 10)])"

declare dec.simps [simp del]

definition digits_value :: "string \<Rightarrow> nat" where
  "digits_value ds = foldl (\<lambda>a c. 10 * a + digit_value c) 0 ds"

text \<open>\<open>isspace\<close> of the C locale.\<close>

definition is_space :: "char \<Rightarrow> bool" where
  "is_space c \<longleftrightarrow> c = CHR '' '' \<or> 9 \<le> (of_char c :: nat) \<and> (of_char c :: nat) \<le> 13"

datatype num_error = invalid_argument | out_of_range

text \<open>\<open>strtol\<close> and \<open>strtoull\<close>: white space, an optional sign, the longest run of digits.\<close>

fun sign_split :: "string \<Rightarrow> bool \<times> string" where
  "sign_split (c # s) = (if c = CHR ''-'' then (True, s) else if c = CHR ''+'' then (False, s) else (False, c # s))"
| "sign_split [] = (False, [])"

definition scan_number :: "string \<Rightarrow> num_error + bool \<times> nat" where
  "scan_number s =
     (case sign_split (dropWhile is_space s) of (neg, t) \<Rightarrow>
        let ds = takeWhile is_digit t
        in if ds = [] then Inl invalid_argument else Inr (neg, digits_value ds))"

text \<open>\<open>std::stoull\<close> negates modulo 2^64 after a minus sign; \<open>std::stoi\<close> is \<open>strtol\<close> with a range test.\<close>

definition stoull :: "string \<Rightarrow> num_error + u64" where
  "stoull s = (case scan_number s of
      Inl e \<Rightarrow> Inl e
    | Inr (neg, n) \<Rightarrow> if 2 ^ 64 \<le> n then Inl out_of_range else Inr (if neg then - of_nat n else of_nat n))"

definition stoi :: "string \<Rightarrow> num_error + int" where
  "stoi s = (case scan_number s of
      Inl e \<Rightarrow> Inl e
    | Inr (neg, n) \<Rightarrow>
        let v = (if neg then - int n else int n)
        in if v < - (2 ^ 31) \<or> 2 ^ 31 \<le> v then Inl out_of_range else Inr v)"

lemma of_char_digit [simp]: "n < 10 \<Longrightarrow> (of_char (digit n) :: nat) = 48 + n"
  by (simp add: digit_def)

lemma is_digit_digit [simp]: "n < 10 \<Longrightarrow> is_digit (digit n)"
  by (simp add: is_digit_def)

lemma digit_value_digit [simp]: "n < 10 \<Longrightarrow> digit_value (digit n) = n"
  by (simp add: digit_value_def)

lemma digits_value_snoc [simp]: "digits_value (ds @ [c]) = 10 * digits_value ds + digit_value c"
  by (simp add: digits_value_def)

lemma dec_digits: "c \<in> set (dec n) \<Longrightarrow> is_digit c"
  by (induction n rule: dec.induct) (subst (asm) (2) dec.simps, auto split: if_splits)

lemma dec_nonempty [simp]: "dec n \<noteq> []"
  by (subst dec.simps) simp

lemma digits_value_dec [simp]: "digits_value (dec n) = n"
proof (induction n rule: dec.induct)
  case (1 n)
  show ?case
  proof (cases "n < 10")
    case True
    then show ?thesis by (subst dec.simps) (simp add: digits_value_def)
  next
    case False
    with 1 show ?thesis by (subst dec.simps) simp
  qed
qed

lemma digit_not_special: "is_digit c \<Longrightarrow> c \<noteq> CHR ''-'' \<and> c \<noteq> CHR ''+'' \<and> c \<noteq> CHR ''|'' \<and> c \<noteq> CHR 0x0A \<and> \<not> is_space c"
  by (auto simp: is_digit_def is_space_def)

lemma dec_special [simp]:
  "CHR ''|'' \<notin> set (dec n)" "CHR 0x0A \<notin> set (dec n)"
  using digit_not_special dec_digits by blast+

lemma scan_number_dec [simp]: "scan_number (dec n) = Inr (False, n)"
proof -
  obtain c s where cs: "dec n = c # s" by (cases "dec n") auto
  then have c: "is_digit c" using dec_digits [of c n] by simp
  have "dropWhile is_space (dec n) = dec n" using cs digit_not_special [OF c] by simp
  moreover have "sign_split (dec n) = (False, dec n)" using cs digit_not_special [OF c] by simp
  moreover have "takeWhile is_digit (dec n) = dec n" using dec_digits by (auto simp: takeWhile_eq_all_conv)
  ultimately show ?thesis by (simp only: scan_number_def prod.case Let_def dec_nonempty if_False digits_value_dec)
qed

lemma stoull_dec [simp]: "stoull (dec (unat w)) = Inr w"
  using unsigned_less [of w, where ?'a = nat] by (simp add: stoull_def)

lemma stoi_dec [simp]: "n < 2 ^ 31 \<Longrightarrow> stoi (dec n) = Inr (int n)"
  by (simp add: stoi_def)

subsection \<open>getline\<close>

text \<open>
  \<open>std::getline(stream, s, delim)\<close> on what is left of a stream: \<open>None\<close> when nothing is left, and
  otherwise the characters up to the delimiter, which is consumed and dropped.
\<close>

definition getline :: "char \<Rightarrow> string \<Rightarrow> (string \<times> string) option" where
  "getline d s = (if s = [] then None
     else Some (takeWhile (\<lambda>c. c \<noteq> d) s, drop 1 (dropWhile (\<lambda>c. c \<noteq> d) s)))"

lemma getline_Nil [simp]: "getline d [] = None"
  by (simp add: getline_def)

lemma getline_delim: "d \<notin> set a \<Longrightarrow> getline d (a @ d # b) = Some (a, b)"
  by (auto simp: getline_def takeWhile_append dropWhile_append intro: takeWhile_eq_all_conv [THEN iffD2])

lemma getline_last: "d \<notin> set a \<Longrightarrow> a \<noteq> [] \<Longrightarrow> getline d a = Some (a, [])"
proof -
  assume "d \<notin> set a" and "a \<noteq> []"
  moreover have "dropWhile (\<lambda>c. c \<noteq> d) a = []" "takeWhile (\<lambda>c. c \<noteq> d) a = a"
    using \<open>d \<notin> set a\<close> by (auto simp: dropWhile_eq_Nil_conv takeWhile_eq_all_conv)
  ultimately show ?thesis by (simp only: getline_def if_False drop_Nil)
qed

lemma getline_shorter: "getline d s = Some (a, b) \<Longrightarrow> length b < length s"
proof -
  assume "getline d s = Some (a, b)"
  then have "s \<noteq> []" and b: "b = drop 1 (dropWhile (\<lambda>c. c \<noteq> d) s)" by (auto simp: getline_def split: if_splits)
  then have "0 < length s" by simp
  with length_dropWhile_le [of "\<lambda>c. c \<noteq> d" s] show "length b < length s" unfolding b length_drop by linarith
qed

subsection \<open>Ordered maps\<close>

fun emplace :: "'k::linorder \<Rightarrow> 'v \<Rightarrow> ('k \<times> 'v) list \<Rightarrow> ('k \<times> 'v) list" where
  "emplace k v [] = [(k, v)]"
| "emplace k v ((k', v') # m) =
     (if k < k' then (k, v) # (k', v') # m
      else if k = k' then (k', v') # m
      else (k', v') # emplace k v m)"

definition map_erase :: "'k \<Rightarrow> ('k \<times> 'v) list \<Rightarrow> ('k \<times> 'v) list" where
  "map_erase k m = filter (\<lambda>e. fst e \<noteq> k) m"

abbreviation ordered :: "('k::linorder \<times> 'v) list \<Rightarrow> bool" where
  "ordered m \<equiv> sorted_wrt (<) (map fst m)"

lemma set_emplace:
  "ordered m \<Longrightarrow> set (emplace k v m) = (if k \<in> fst ` set m then set m else insert (k, v) (set m))"
proof (induction m)
  case (Cons e m)
  obtain a b where [simp]: "e = (a, b)" by force
  have "k \<notin> fst ` set m" if "k < a \<or> k = a" using Cons.prems that by auto
  then show ?case using Cons by (cases k a rule: linorder_cases) auto
qed simp

lemma keys_emplace: "fst ` set (emplace k v m) = insert k (fst ` set m)"
  by (induction k v m rule: emplace.induct) auto

lemma ordered_emplace [simp]: "ordered m \<Longrightarrow> ordered (emplace k v m)"
proof (induction m)
  case (Cons e m)
  obtain a b where [simp]: "e = (a, b)" by force
  have "\<forall>x \<in> fst ` set (emplace k v m). a < x" if "a < k" using Cons.prems that by (auto simp: keys_emplace)
  then show ?case using Cons by (auto simp: less_le_trans)
qed simp

lemma set_map_erase [simp]: "set (map_erase k m) = {e \<in> set m. fst e \<noteq> k}"
  by (auto simp: map_erase_def)

lemma ordered_map_erase [simp]: "ordered m \<Longrightarrow> ordered (map_erase k m)"
  unfolding map_erase_def sorted_wrt_map by (rule sorted_wrt_filter)

text \<open>An ordered map is determined by its set of entries.\<close>

lemma ordered_unique:
  "ordered m \<Longrightarrow> ordered m' \<Longrightarrow> set m = set m' \<Longrightarrow> m = m'"
proof (induction m arbitrary: m')
  case (Cons e m)
  obtain e' n where m': "m' = e' # n" using Cons.prems(3) by (cases m') auto
  have lt: "\<forall>x \<in> set m. fst e < fst x" "\<forall>x \<in> set n. fst e' < fst x" using Cons.prems m' by auto
  have "e \<in> set m'" "e' \<in> set (e # m)" using Cons.prems(3) m' by auto
  then have [simp]: "e' = e" using lt m' by (metis order_less_asym set_ConsD)
  have "set m = set n" using Cons.prems(3) m' lt by (metis \<open>e' = e\<close> less_irrefl list.set(2) insert_ident)
  then show ?case using Cons m' by simp
qed simp

end
