(* ===== verification/String_Util.thy ===== *)
theory String_Util
  imports Std_Text
begin

section \<open>Strings\<close>

text \<open>
  \<open>Utils/StringUtil.h\<close>: operations on fixed-size \<open>char[]\<close> buffers, and \<open>Utils/StringUtils.h\<close>:
  operations on \<open>std::string\<close>.

  A \<open>char*\<close> is an optional list, \<open>None\<close> for the null pointer; the list is the memory the pointer
  may access, which for a destination may be longer than the \<open>destSize\<close> passed with it. Writing
  or reading past that memory is undefined behaviour, the outcome \<open>None\<close> of the operation.
\<close>

subsection \<open>C strings\<close>

definition NUL :: char where "NUL = CHR 0x00"

text \<open>The C string in a memory, and \<open>strlen\<close>, which runs off a memory with no terminator.\<close>

definition cstr :: "char list \<Rightarrow> char list" where
  "cstr m = takeWhile (\<lambda>c. c \<noteq> NUL) m"

definition strlen :: "char list \<Rightarrow> nat option" where
  "strlen m = (if NUL \<in> set m then Some (length (cstr m)) else None)"

text \<open>
  \<open>snprintf(dest + off, n, ...)\<close> on the memory \<open>dest\<close>, with \<open>out\<close> the characters the format
  expands to, \<open>None\<close> on an encoding error. At most \<open>n - 1\<close> characters and a terminator are
  written; the result is the untruncated length, or -1 when that does not fit an \<open>int\<close>.
\<close>

definition INT_MAX :: nat where "INT_MAX = 2147483647"

definition snprintf :: "nat \<Rightarrow> nat \<Rightarrow> char list option \<Rightarrow> char list \<Rightarrow> (int \<times> char list) option" where
  "snprintf off n out dest =
     (case out of
        None \<Rightarrow> Some (- 1, dest)
      | Some s \<Rightarrow>
          if INT_MAX < length s then Some (- 1, dest)
          else if n = 0 then Some (int (length s), dest)
          else let w = take (n - 1) s @ [NUL]
               in if length dest < off + length w then None
                  else Some (int (length s), take off dest @ w @ drop (off + length w) dest))"

subsection \<open>StringUtil\<close>

definition NullToEmpty :: "char list option \<Rightarrow> char list" where
  "NullToEmpty src = (case src of Some s \<Rightarrow> s | None \<Rightarrow> [NUL])"

definition SU_Length :: "char list option \<Rightarrow> nat option" where
  "SU_Length str = (case str of Some s \<Rightarrow> strlen s | None \<Rightarrow> Some 0)"

definition SU_IsEmpty :: "char list option \<Rightarrow> bool option" where
  "SU_IsEmpty str = (case str of None \<Rightarrow> Some True | Some [] \<Rightarrow> None | Some (c # _) \<Rightarrow> Some (c = NUL))"

text \<open>
  The shared tail of \<open>Copy\<close>, \<open>Format\<close> and \<open>VFormat\<close>: an error empties the buffer. The null
  destination is \<open>None\<close> inside the result, where nothing is written.
\<close>

definition SU_Print :: "char list option \<Rightarrow> nat \<Rightarrow> char list option \<Rightarrow> (bool \<times> char list option) option" where
  "SU_Print dest destSize out =
     (case dest of
        None \<Rightarrow> Some (False, None)
      | Some d \<Rightarrow>
          if destSize = 0 then Some (False, Some d)
          else (case snprintf 0 destSize out d of
              None \<Rightarrow> None
            | Some (written, d') \<Rightarrow>
                if written < 0 then (if d' = [] then None else Some (False, Some (d'[0 := NUL])))
                else Some (nat written < destSize, Some d')))"

definition SU_Copy :: "char list option \<Rightarrow> nat \<Rightarrow> char list option \<Rightarrow> (bool \<times> char list option) option" where
  "SU_Copy dest destSize src = SU_Print dest destSize (Some (cstr (NullToEmpty src)))"

text \<open>\<open>Format\<close> and \<open>VFormat\<close>; \<open>expand fmt\<close> is what the format and its arguments print.\<close>

definition SU_Format ::
  "(char list \<Rightarrow> char list option) \<Rightarrow> char list option \<Rightarrow> nat \<Rightarrow> char list option \<Rightarrow> (bool \<times> char list option) option" where
  "SU_Format expand dest destSize fmt =
     (case dest of
        None \<Rightarrow> Some (False, None)
      | Some d \<Rightarrow>
          if destSize = 0 then Some (False, Some d)
          else (case fmt of
              None \<Rightarrow> if d = [] then None else Some (False, Some (d[0 := NUL]))
            | Some f \<Rightarrow> SU_Print dest destSize (expand f)))"

definition SU_VFormat ::
  "(char list \<Rightarrow> char list option) \<Rightarrow> char list option \<Rightarrow> nat \<Rightarrow> char list option \<Rightarrow> (bool \<times> char list option) option" where
  "SU_VFormat expand dest destSize fmt =
     (case dest of
        None \<Rightarrow> Some (False, None)
      | Some d \<Rightarrow>
          if destSize = 0 then Some (False, Some d)
          else (case fmt of
              None \<Rightarrow> if d = [] then None else Some (False, Some (d[0 := NUL]))
            | Some f \<Rightarrow> SU_Print dest destSize (expand f)))"

definition SU_Append :: "char list option \<Rightarrow> nat \<Rightarrow> char list option \<Rightarrow> (bool \<times> char list option) option" where
  "SU_Append dest destSize src =
     (case dest of
        None \<Rightarrow> Some (False, None)
      | Some d \<Rightarrow>
          if destSize = 0 then Some (False, Some d)
          else (case strlen d of
              None \<Rightarrow> None
            | Some currentLen \<Rightarrow>
                if destSize \<le> currentLen then Some (False, Some (d[destSize - 1 := NUL]))
                else let remain = destSize - currentLen
                     in (case snprintf currentLen remain (Some (cstr (NullToEmpty src))) d of
                           None \<Rightarrow> None
                         | Some (written, d') \<Rightarrow>
                             if written < 0 then Some (False, Some d')
                             else Some (nat written < remain, Some d'))))"

text \<open>The overloads on a \<open>char (&dest)[N]\<close>: the whole array is the destination.\<close>

definition SU_CopyArray :: "char list \<Rightarrow> char list option \<Rightarrow> (bool \<times> char list option) option" where
  "SU_CopyArray dest src = SU_Copy (Some dest) (length dest) src"

definition SU_FormatArray ::
  "(char list \<Rightarrow> char list option) \<Rightarrow> char list \<Rightarrow> char list option \<Rightarrow> (bool \<times> char list option) option" where
  "SU_FormatArray expand dest fmt = SU_Format expand (Some dest) (length dest) fmt"

definition SU_AppendArray :: "char list \<Rightarrow> char list option \<Rightarrow> (bool \<times> char list option) option" where
  "SU_AppendArray dest src = SU_Append (Some dest) (length dest) src"

lemmas SU_defs = SU_Print_def SU_Copy_def SU_Append_def snprintf_def

lemma cstr_no_nul [simp]: "NUL \<notin> set (cstr m)"
  by (auto simp: cstr_def dest: set_takeWhileD)

lemma cstr_append_nul: "NUL \<notin> set s \<Longrightarrow> cstr (s @ NUL # r) = s"
  by (auto simp: cstr_def takeWhile_append)

lemma cstr_id: "NUL \<notin> set s \<Longrightarrow> cstr s = s"
  by (auto simp: cstr_def takeWhile_eq_all_conv)

lemma cstr_take [simp]: "take (length (cstr m)) m = cstr m"
  by (simp add: cstr_def takeWhile_eq_take [symmetric])

lemma no_nul_take: "NUL \<notin> set s \<Longrightarrow> NUL \<notin> set (take n s)"
  by (meson in_set_takeD)

text \<open>What a print into a buffer leaves behind.\<close>

lemma SU_Print_effect:
  assumes "0 < n" and "n \<le> length d" and "NUL \<notin> set s" and "length s \<le> INT_MAX"
  shows "SU_Print (Some d) n (Some s) =
    Some (length s < n, Some (take (n - 1) s @ NUL # drop (Suc (min (n - 1) (length s))) d))"
  using assms by (auto simp: SU_defs Let_def min_def)

text \<open>
  \<open>Copy\<close> into a buffer of \<open>destSize > 0\<close> bytes never writes outside it and always leaves a
  terminated string: the longest prefix of the source that fits, the whole of it exactly when
  the result is true. Bytes behind \<open>destSize\<close> and the size of the buffer do not change.
\<close>

theorem copy_bounded:
  assumes "0 < n" and "n \<le> length d" and "length (cstr (NullToEmpty src)) \<le> INT_MAX"
  shows "\<exists>ok d'. SU_Copy (Some d) n src = Some (ok, Some d') \<and> length d' = length d \<and> drop n d' = drop n d \<and>
    NUL \<in> set (take n d') \<and> cstr d' = take (n - 1) (cstr (NullToEmpty src)) \<and>
    (ok \<longleftrightarrow> cstr d' = cstr (NullToEmpty src))"
proof -
  define s where "s = cstr (NullToEmpty src)"
  define d' where "d' = take (n - 1) s @ NUL # drop (Suc (min (n - 1) (length s))) d"
  have s: "NUL \<notin> set s" by (simp add: s_def)
  have e: "SU_Copy (Some d) n src = Some (length s < n, Some d')"
    using SU_Print_effect [OF assms(1,2) s] assms(3) by (simp add: SU_Copy_def s_def d'_def)
  have c: "cstr d' = take (n - 1) s" unfolding d'_def by (rule cstr_append_nul [OF no_nul_take [OF s]])
  have len: "length d' = length d" using assms(1,2) by (auto simp: d'_def)
  have m: "min (n - 1) (length s) < n" using assms(1) by auto
  have "drop n d' = drop n d"
    using assms(1,2) m by (cases n) (auto simp: d'_def drop_append drop_Cons' min_def)
  moreover have "NUL \<in> set (take n d')"
    using m by (auto simp: d'_def take_append take_Cons' min_def)
  moreover have "length s < n \<longleftrightarrow> cstr d' = s"
    unfolding c using assms(1) by (metis One_nat_def Suc_pred length_take less_Suc_eq_le min.absorb_iff2 take_all_iff)
  ultimately show ?thesis using e c len by (auto simp: s_def)
qed

theorem copy_bounded_witness:
  "\<exists>d'. SU_Copy (Some ''xxxxxxxx'') 4 (Some ''server'') = Some (False, Some d') \<and>
     cstr d' = ''ser'' \<and> drop 4 d' = ''xxxx''"
  using copy_bounded [of 4 "''xxxxxxxx''" "Some ''server''"]
  by (auto simp: cstr_def NullToEmpty_def NUL_def INT_MAX_def)

text \<open>
  \<open>Append\<close> to a terminated string that fits its buffer behaves as \<open>Copy\<close> of the
  concatenation: the buffer holds the longest fitting prefix of the old string followed by the
  new one, terminated, and the result says whether all of it fitted.
\<close>

theorem append_bounded:
  assumes "n \<le> length d" and "NUL \<in> set (take n d)" and "length (cstr (NullToEmpty src)) \<le> INT_MAX"
  shows "\<exists>d'. SU_Append (Some d) n src =
      Some (length (cstr d) + length (cstr (NullToEmpty src)) < n, Some d') \<and>
    length d' = length d \<and> drop n d' = drop n d \<and>
    cstr d' = take (n - 1) (cstr d @ cstr (NullToEmpty src))"
proof -
  define s where "s = cstr (NullToEmpty src)"
  define k where "k = length (cstr d)"
  define d' where "d' = cstr d @ take (n - k - 1) s @ NUL # drop (k + Suc (min (n - k - 1) (length s))) d"
  have "NUL \<in> set d" using assms(2) by (meson in_set_takeD)
  then have st: "strlen d = Some k" by (simp add: strlen_def k_def)
  have kn: "k < n"
  proof (rule ccontr)
    assume "\<not> k < n"
    then have "take n d = take n (cstr d)" by (metis cstr_take k_def min.absorb2 not_less take_take min.commute)
    then show False using assms(2) cstr_no_nul [of d] by (metis in_set_takeD)
  qed
  have tk: "take k d = cstr d" by (simp add: k_def)
  have "length (take (n - k - 1) s) = min (n - k - 1) (length s)" by simp
  then have e: "SU_Append (Some d) n src = Some (k + length s < n, Some d')"
    using kn assms(1,3) st tk
    by (auto simp: SU_Append_def snprintf_def Let_def s_def [symmetric] d'_def less_diff_conv add.commute)
  have nn: "NUL \<notin> set (cstr d @ take (n - k - 1) s)" using no_nul_take [of s] by (auto simp: s_def)
  have c: "cstr d' = cstr d @ take (n - k - 1) s"
    using cstr_append_nul [OF nn] by (simp add: d'_def)
  moreover have "take (n - 1) (cstr d @ s) = cstr d @ take (n - k - 1) s"
    using kn by (simp add: k_def)
  moreover have "length d' = length d" using kn assms(1) by (auto simp: d'_def k_def)
  moreover have "drop n d' = drop n d" 
    using kn assms(1) by (auto simp: d'_def k_def drop_append drop_Cons' min_def)
  ultimately show ?thesis using e by (auto simp: s_def k_def)
qed

theorem append_bounded_witness:
  "\<exists>d'. SU_Append (Some (''ab'' @ NUL # ''zzz'')) 5 (Some ''cdef'') = Some (False, Some d') \<and> cstr d' = ''abcd''"
  using append_bounded [of 5 "''ab'' @ NUL # ''zzz''" "Some ''cdef''"]
  by (auto simp: cstr_def NullToEmpty_def NUL_def INT_MAX_def)

subsection \<open>StringUtils\<close>

text \<open>\<open>find_first_not_of\<close>, \<open>find_last_not_of\<close> and \<open>substr\<close> of \<open>std::string\<close>; \<open>None\<close> is \<open>npos\<close>.\<close>

fun find_first_not_of :: "char list \<Rightarrow> string \<Rightarrow> nat option" where
  "find_first_not_of cs [] = None"
| "find_first_not_of cs (x # xs) = (if x \<in> set cs then map_option Suc (find_first_not_of cs xs) else Some 0)"

definition find_last_not_of :: "char list \<Rightarrow> string \<Rightarrow> nat option" where
  "find_last_not_of cs s = map_option (\<lambda>i. length s - 1 - i) (find_first_not_of cs (rev s))"

definition substr :: "nat \<Rightarrow> nat \<Rightarrow> string \<Rightarrow> string" where
  "substr pos n s = take n (drop pos s)"

definition white :: "char list" where
  "white = [CHR '' '', CHR 0x09, CHR 0x0A, CHR 0x0D]"

definition Trim :: "string \<Rightarrow> string" where
  "Trim str =
     (case find_first_not_of white str of
        None \<Rightarrow> []
      | Some start \<Rightarrow>
          (case find_last_not_of white str of
             None \<Rightarrow> []
           | Some stop \<Rightarrow> substr start (stop - start + 1) str))"

function Split :: "string \<Rightarrow> char \<Rightarrow> string list" where
  "Split str delimiter =
     (case getline delimiter str of
        None \<Rightarrow> []
      | Some (item, rest) \<Rightarrow> item # Split rest delimiter)"
  by pat_completeness auto
termination
  by (relation "measure (length \<circ> fst)") (auto dest: getline_shorter)

declare Split.simps [simp del]

definition StringUtils_IsEmpty :: "string \<Rightarrow> bool" where
  "StringUtils_IsEmpty str \<longleftrightarrow> str = [] \<or> Trim str = []"

text \<open>\<open>::toupper\<close> and \<open>::tolower\<close> in the C locale.\<close>

definition toupper :: "char \<Rightarrow> char" where
  "toupper c = (let n = of_char c :: nat in if 97 \<le> n \<and> n \<le> 122 then char_of (n - 32) else c)"

definition tolower :: "char \<Rightarrow> char" where
  "tolower c = (let n = of_char c :: nat in if 65 \<le> n \<and> n \<le> 90 then char_of (n + 32) else c)"

definition ToUpper :: "string \<Rightarrow> string" where
  "ToUpper str = map toupper str"

definition ToLower :: "string \<Rightarrow> string" where
  "ToLower str = map tolower str"

lemma find_first_spec:
  "find_first_not_of cs s =
     (let k = length (takeWhile (\<lambda>c. c \<in> set cs) s) in if k < length s then Some k else None)"
  by (induction s) (auto simp: Let_def)

text \<open>The position-based code agrees with cutting white space off both ends.\<close>

abbreviation ltrim :: "string \<Rightarrow> string" where
  "ltrim \<equiv> dropWhile (\<lambda>c. c \<in> set white)"

lemma ltrim_drop: "ltrim s = drop (length (takeWhile (\<lambda>c. c \<in> set white) s)) s"
  by (rule dropWhile_eq_drop)

lemma ltrim_Nil_iff: "ltrim s = [] \<longleftrightarrow> \<not> length (takeWhile (\<lambda>c. c \<in> set white) s) < length s"
  by (simp add: ltrim_drop not_less)

lemma Trim_eq: "Trim s = rev (ltrim (rev (ltrim s)))"
proof -
  define a where "a = length (takeWhile (\<lambda>c. c \<in> set white) s)"
  define b where "b = length (takeWhile (\<lambda>c. c \<in> set white) (rev s))"
  have split: "s = takeWhile (\<lambda>c. c \<in> set white) s @ ltrim s" by simp
  show ?thesis
  proof (cases "ltrim s = []")
    case True
    then have "\<not> a < length s" unfolding ltrim_Nil_iff a_def .
    then have "Trim s = []" by (simp add: Trim_def find_first_spec a_def [symmetric] Let_def)
    then show ?thesis unfolding True by simp
  next
    case False
    then have a: "a < length s" unfolding ltrim_Nil_iff a_def by simp
    from False obtain x where x: "x \<in> set (ltrim s)" "x \<notin> set white"
      by (metis hd_dropWhile hd_in_set)
    have rw: "takeWhile (\<lambda>c. c \<in> set white) (rev s) = takeWhile (\<lambda>c. c \<in> set white) (rev (ltrim s))"
      by (subst split, simp only: rev_append, rule takeWhile_append1 [of x]) (use x in auto)
    have bl: "b < length (ltrim s)"
      unfolding b_def rw using x takeWhile_eq_all_conv [of "\<lambda>c. c \<in> set white" "rev (ltrim s)"]
      by (metis length_rev length_takeWhile_le nat_less_le set_rev takeWhile_eq_take take_all_iff order_refl)
    have ll: "length (ltrim s) = length s - a" by (simp add: ltrim_drop a_def)
    have "Trim s = take (length s - 1 - b - a + 1) (drop a s)"
      using a bl ll by (simp add: Trim_def find_last_not_of_def find_first_spec a_def [symmetric] b_def [symmetric] Let_def substr_def)
    also have "length s - 1 - b - a + 1 = length (ltrim s) - b" using bl ll by simp
    also have "take (length (ltrim s) - b) (drop a s) = rev (drop b (rev (ltrim s)))"
      using rev_drop [of b "rev (ltrim s)"] by (simp add: ltrim_drop [of s, folded a_def])
    also have "drop b (rev (ltrim s)) = ltrim (rev (ltrim s))"
      by (simp add: b_def rw dropWhile_eq_drop)
    finally show ?thesis .
  qed
qed

lemma ltrim_id: "s = [] \<or> hd s \<notin> set white \<Longrightarrow> ltrim s = s"
  by (cases s) auto

lemma hd_ltrim: "ltrim s \<noteq> [] \<Longrightarrow> hd (ltrim s) \<notin> set white"
  by (meson hd_dropWhile)

text \<open>
  \<open>Trim\<close> removes exactly the surrounding white space: the string is white space, the
  result, white space; the result neither starts nor ends with white space; trimming again
  changes nothing; and it is empty exactly for strings of white space only.
\<close>

theorem trim_exact:
  "\<exists>l r. s = l @ Trim s @ r \<and> set l \<subseteq> set white \<and> set r \<subseteq> set white \<and>
     (Trim s \<noteq> [] \<longrightarrow> hd (Trim s) \<notin> set white \<and> last (Trim s) \<notin> set white) \<and>
     Trim (Trim s) = Trim s \<and> (StringUtils_IsEmpty s \<longleftrightarrow> set s \<subseteq> set white)"
proof -
  define l where "l = takeWhile (\<lambda>c. c \<in> set white) s"
  define m where "m = ltrim s"
  define r where "r = rev (takeWhile (\<lambda>c. c \<in> set white) (rev m))"
  have m: "m = Trim s @ r"
    unfolding Trim_eq r_def m_def [symmetric] rev_append [symmetric] by simp
  have s: "s = l @ Trim s @ r" using m by (metis l_def m_def takeWhile_dropWhile_id)
  have ws: "set l \<subseteq> set white" "set r \<subseteq> set white" by (auto simp: l_def r_def dest: set_takeWhileD)
  have last: "last (Trim s) \<notin> set white" if "Trim s \<noteq> []"
    using that hd_ltrim [of "rev m"] by (simp add: Trim_eq m_def [symmetric] last_rev)
  have hd: "hd (Trim s) \<notin> set white" if "Trim s \<noteq> []"
    using that hd_ltrim [of s] m m_def by (metis append_is_Nil_conv hd_append2)
  have idem: "Trim (Trim s) = Trim s"
  proof (cases "Trim s = []")
    case False
    then have "ltrim (Trim s) = Trim s" "ltrim (rev (Trim s)) = rev (Trim s)"
      using hd last by (auto intro!: ltrim_id simp: hd_rev)
    then show ?thesis by (metis Trim_eq rev_rev_ident)
  qed (simp add: Trim_def)
  have "StringUtils_IsEmpty s \<longleftrightarrow> set s \<subseteq> set white"
  proof
    assume "StringUtils_IsEmpty s"
    then have "Trim s = []" by (auto simp: StringUtils_IsEmpty_def Trim_def)
    with s ws show "set s \<subseteq> set white" by (metis append_Nil set_append Un_least)
  next
    assume "set s \<subseteq> set white"
    then show "StringUtils_IsEmpty s"
      using s hd by (metis StringUtils_IsEmpty_def Un_iff hd_in_set set_append subsetD)
  qed
  with s ws hd last idem show ?thesis by blast
qed

theorem trim_exact_witness: "Trim '' a b  '' = ''a b'' \<and> Trim (Trim '' a b  '') = ''a b''"
proof -
  have "Trim '' a b  '' = ''a b''" by code_simp
  with trim_exact [of "'' a b  ''"] show ?thesis by auto
qed

text \<open>Joining the pieces of a split.\<close>

fun join :: "char \<Rightarrow> string list \<Rightarrow> string" where
  "join d [] = []"
| "join d [x] = x"
| "join d (x # y # ys) = x @ d # join d (y # ys)"

lemma Split_Nil [simp]: "Split [] d = []"
  by (simp add: Split.simps)

lemma Split_Cons:
  "s \<noteq> [] \<Longrightarrow> Split s d = takeWhile (\<lambda>c. c \<noteq> d) s # Split (tl (dropWhile (\<lambda>c. c \<noteq> d) s)) d"
  by (subst Split.simps) (cases s, auto simp: getline_def drop_Suc)

lemma join_Cons: "ys \<noteq> [] \<Longrightarrow> join d (x # ys) = x @ d # join d ys"
  by (cases ys) auto

lemma Split_eq_Nil: "Split s d = [] \<longleftrightarrow> s = []"
  using Split_Cons by (cases s) force+

text \<open>
  \<open>Split\<close> loses nothing but one final delimiter: joining the pieces with the delimiter gives
  the string back, or the string without its last character when that is the delimiter; and
  no piece contains the delimiter.
\<close>

theorem split_join:
  "(if s \<noteq> [] \<and> last s = d then join d (Split s d) @ [d] = s else join d (Split s d) = s) \<and>
   d \<notin> \<Union> (set ` set (Split s d))"
proof (induction "length s" arbitrary: s rule: less_induct)
  case less
  show ?case
  proof (cases "s = []")
    case False
    define w where "w = takeWhile (\<lambda>c. c \<noteq> d) s"
    define r where "r = dropWhile (\<lambda>c. c \<noteq> d) s"
    have s: "s = w @ r" by (simp add: w_def r_def)
    have sp: "Split s d = w # Split (tl r) d" using Split_Cons [OF False, of d] by (simp add: w_def r_def)
    have dw: "d \<notin> set w" by (auto simp: w_def dest: set_takeWhileD)
    show ?thesis
    proof (cases "r = []")
      case True
      with s have "s = w" by simp
      moreover from True sp have "Split s d = [w]" by simp
      moreover have "last s \<noteq> d" using dw False \<open>s = w\<close> last_in_set by metis
      ultimately show ?thesis using dw by simp
    next
      case r: False
      then have "hd r = d" using hd_dropWhile [of "\<lambda>c. c \<noteq> d" s] unfolding r_def by blast
      then have hd: "r = d # tl r" using list.collapse [OF r] by simp
      have eq: "s = w @ d # tl r" unfolding hd [symmetric] by (rule s)
      have lt: "length (tl r) < length s" using arg_cong [OF eq, of length] by simp
      note IH = less.hyps [OF lt]
      show ?thesis
      proof (cases "tl r = []")
        case True
        then have "r = [d]" using hd by simp
        with s have "s = w @ [d]" by simp
        moreover from True sp have "Split s d = [w]" by simp
        ultimately show ?thesis using dw by simp
      next
        case t: False
        have "join d (Split s d) = w @ d # join d (Split (tl r) d)"
          using sp t by (simp add: join_Cons Split_eq_Nil)
        moreover have "last s = last (tl r)" using t by (subst eq) simp
        moreover have "join d (Split (tl r) d) @ (if last (tl r) = d then [d] else []) = tl r"
          using IH t by (auto split: if_splits)
        ultimately have "join d (Split s d) @ (if last s = d then [d] else []) = s"
          using eq by simp
        moreover have "d \<notin> \<Union> (set ` set (Split s d))" using IH sp dw by simp
        ultimately show ?thesis using False by (simp split: if_splits)
      qed
    qed
  qed simp
qed

text \<open>Letter case.\<close>

lemma of_char_char_of: "n < 256 \<Longrightarrow> of_char (char_of n :: char) = (n :: nat)"
  by (simp add: of_char_of)

lemma tolower_toupper [simp]: "tolower (toupper c) = tolower c"
proof (cases "97 \<le> (of_char c :: nat) \<and> (of_char c :: nat) \<le> 122")
  case True
  then have "of_char (char_of (of_char c - 32 :: nat) :: char) = (of_char c - 32 :: nat)"
    by (intro of_char_char_of) auto
  moreover have "65 \<le> (of_char c - 32 :: nat) \<and> (of_char c - 32 :: nat) \<le> 90" using True by auto
  ultimately have "tolower (toupper c) = char_of (of_char c :: nat)"
    using True by (simp add: toupper_def tolower_def Let_def)
  with True show ?thesis by (simp add: tolower_def Let_def)
qed (auto simp: toupper_def Let_def)

lemma tolower_idem [simp]: "tolower (tolower c) = tolower c"
proof (cases "65 \<le> (of_char c :: nat) \<and> (of_char c :: nat) \<le> 90")
  case True
  then have "of_char (char_of (of_char c + 32 :: nat) :: char) = (of_char c + 32 :: nat)"
    by (intro of_char_char_of) auto
  with True show ?thesis by (simp add: tolower_def Let_def)
qed (auto simp: tolower_def Let_def)

lemma ToLower_ToUpper: "ToLower (ToUpper s) = ToLower s \<and> ToLower (ToLower s) = ToLower s \<and> length (ToUpper s) = length s"
  by (simp add: ToLower_def ToUpper_def)

end
