(* ===== verification/Async_Scope.thy ===== *)
theory Async_Scope
  imports Prelude
begin

section \<open>AsyncScope\<close>

text \<open>
  \<open>Concurrency/AsyncScope.h\<close>: a session's scope counts the tasks it has handed to the
  dispatcher and not seen finished (\<open>mInFlight\<close>), and a cancelled scope skips tasks that have
  not started. \<open>WaitForDrain\<close> waits for the count to reach zero; \<open>Reset\<close> aborts when it is not.

  The atomic actions are the two atomic fields' operations. The environment is any number of
  threads inside \<open>Submit\<close> and any number of wrapper lambdas on their way through the
  dispatcher: queued, running the user's function, or at their final \<open>EndTask\<close>. Whether
  \<open>Dispatch\<close> succeeds and whether the function throws is the environment's choice.
\<close>

subsection \<open>The scope\<close>

record AsyncScope =
  mCancelled :: bool
  mInFlight :: size_t

definition AS_new :: AsyncScope where
  "AS_new = \<lparr>mCancelled = False, mInFlight = 0\<rparr>"

definition AS_Cancel :: "AsyncScope \<Rightarrow> AsyncScope" where
  "AS_Cancel s = s\<lparr>mCancelled := True\<rparr>"

text \<open>\<open>Reset\<close>; \<open>None\<close> is \<open>std::abort\<close>.\<close>

definition AS_Reset :: "AsyncScope \<Rightarrow> AsyncScope option" where
  "AS_Reset s = (if mInFlight s \<noteq> 0 then None else Some (s\<lparr>mCancelled := False\<rparr>))"

definition AS_IsCancelled :: "AsyncScope \<Rightarrow> bool" where
  "AS_IsCancelled s = mCancelled s"

definition AS_BeginTask :: "AsyncScope \<Rightarrow> AsyncScope" where
  "AS_BeginTask s = s\<lparr>mInFlight := mInFlight s + 1\<rparr>"

text \<open>\<open>EndTask\<close>; the Boolean says whether the waiters are notified.\<close>

definition AS_EndTask :: "AsyncScope \<Rightarrow> bool \<times> AsyncScope" where
  "AS_EndTask s = (mInFlight s = 1, s\<lparr>mInFlight := mInFlight s - 1\<rparr>)"

definition AS_WaitForDrain :: "int \<Rightarrow> bool \<Rightarrow> AsyncScope \<Rightarrow> bool wait" where
  "AS_WaitForDrain timeoutMs expired s =
     (if timeoutMs < 0 then cv_wait False (mInFlight s = 0) else cv_wait expired (mInFlight s = 0))"

definition AS_InFlightCount :: "AsyncScope \<Rightarrow> size_t" where
  "AS_InFlightCount s = mInFlight s"

text \<open>The destructor: cancel, then wait without a timeout.\<close>

definition AS_destroy :: "AsyncScope \<Rightarrow> bool wait \<times> AsyncScope" where
  "AS_destroy s = (let s' = AS_Cancel s in (AS_WaitForDrain (- 1) False s', s'))"

subsection \<open>Submit and the wrapper lambda\<close>

text \<open>Program points of \<open>Submit\<close> in a calling thread.\<close>

datatype submit_pc =
    AIdle
  | ABegun       \<comment> \<open>after \<open>BeginTask\<close>, before the fast-path test\<close>
  | ADispatch    \<comment> \<open>about to call \<open>Dispatch\<close>\<close>
  | AUndo        \<comment> \<open>about to call \<open>EndTask\<close> and return false\<close>

text \<open>
  \<open>asQueued\<close>, \<open>asRunning\<close> and \<open>asEnding\<close> count the wrapper lambdas that are queued, inside the
  user's function, and about to call \<open>EndTask\<close>. \<open>asThrown\<close> is history: how many left through
  an exception. \<open>asReturned\<close> records what \<open>Submit\<close> returned.
\<close>

record scope_sys =
  asScope :: AsyncScope
  asPcs :: "submit_pc list"
  asQueued :: nat
  asRunning :: nat
  asEnding :: nat
  asThrown :: nat
  asStarted :: nat
  asReturned :: "bool list"

datatype scope_event =
    ACall nat           \<comment> \<open>a thread enters \<open>Submit\<close>\<close>
  | AStep nat bool      \<comment> \<open>its next action; the flag is what \<open>Dispatch\<close> returns\<close>
  | AStart              \<comment> \<open>a worker starts a queued lambda\<close>
  | AFinish bool        \<comment> \<open>the user's function returns, or throws\<close>
  | AEnd                \<comment> \<open>a lambda's final \<open>EndTask\<close>\<close>
  | ACancel

definition AS_Submit_next :: "bool \<Rightarrow> nat \<Rightarrow> scope_sys \<Rightarrow> scope_sys option" where
  "AS_Submit_next ok c s =
     (if c < length (asPcs s) then
        (case asPcs s ! c of
           AIdle \<Rightarrow> None
         | ABegun \<Rightarrow>
             Some (s\<lparr>asPcs := (asPcs s)[c := (if AS_IsCancelled (asScope s) then AUndo else ADispatch)]\<rparr>)
         | ADispatch \<Rightarrow>
             if ok then Some (s\<lparr>asPcs := (asPcs s)[c := AIdle], asQueued := Suc (asQueued s),
                                asReturned := asReturned s @ [True]\<rparr>)
             else Some (s\<lparr>asPcs := (asPcs s)[c := AUndo]\<rparr>)
         | AUndo \<Rightarrow>
             Some (s\<lparr>asPcs := (asPcs s)[c := AIdle], asScope := snd (AS_EndTask (asScope s)),
                     asReturned := asReturned s @ [False]\<rparr>))
      else None)"

fun scope_next :: "scope_event \<Rightarrow> scope_sys \<Rightarrow> scope_sys option" where
  "scope_next (ACall c) s =
     (if c < length (asPcs s) \<and> asPcs s ! c = AIdle
      then Some (s\<lparr>asPcs := (asPcs s)[c := ABegun], asScope := AS_BeginTask (asScope s)\<rparr>)
      else None)"
| "scope_next (AStep c ok) s = AS_Submit_next ok c s"
| "scope_next AStart s =
     (if asQueued s = 0 then None
      else if AS_IsCancelled (asScope s)
      then Some (s\<lparr>asQueued := asQueued s - 1, asEnding := Suc (asEnding s)\<rparr>)
      else Some (s\<lparr>asQueued := asQueued s - 1, asRunning := Suc (asRunning s), asStarted := Suc (asStarted s)\<rparr>))"
| "scope_next (AFinish throws) s =
     (if asRunning s = 0 then None
      else if throws then Some (s\<lparr>asRunning := asRunning s - 1, asThrown := Suc (asThrown s)\<rparr>)
      else Some (s\<lparr>asRunning := asRunning s - 1, asEnding := Suc (asEnding s)\<rparr>))"
| "scope_next AEnd s =
     (if asEnding s = 0 then None
      else Some (s\<lparr>asEnding := asEnding s - 1, asScope := snd (AS_EndTask (asScope s))\<rparr>))"
| "scope_next ACancel s = Some (s\<lparr>asScope := AS_Cancel (asScope s)\<rparr>)"

definition scope_init :: "nat \<Rightarrow> scope_sys" where
  "scope_init c = \<lparr>asScope = AS_new, asPcs = replicate c AIdle, asQueued = 0, asRunning = 0,
     asEnding = 0, asThrown = 0, asStarted = 0, asReturned = []\<rparr>"

inductive scope_steps :: "scope_sys \<Rightarrow> scope_sys \<Rightarrow> bool" where
  scope_refl: "scope_steps s s"
| scope_step: "scope_steps s t \<Longrightarrow> scope_next e t = Some u \<Longrightarrow> scope_steps s u"

inductive_cases scope_stepsE: "scope_steps s t"

subsection \<open>The in-flight count\<close>

fun inside :: "submit_pc \<Rightarrow> nat" where
  "inside AIdle = 0"
| "inside _ = 1"

text \<open>Submissions that are not over: calls inside \<open>Submit\<close> and lambdas before their \<open>EndTask\<close>.\<close>

definition open_tasks :: "scope_sys \<Rightarrow> nat" where
  "open_tasks s = sum_list (map inside (asPcs s)) + asQueued s + asRunning s + asEnding s"

definition scope_inv :: "scope_sys \<Rightarrow> bool" where
  "scope_inv s \<longleftrightarrow> mInFlight (asScope s) = of_nat (open_tasks s + asThrown s)"

lemma inside_update:
  "c < length ps \<Longrightarrow>
   sum_list (map inside (ps[c := p])) + inside (ps ! c) = sum_list (map inside ps) + inside p"
  by (induction ps arbitrary: c) (auto simp: nth_Cons split: nat.splits)

lemma scope_next_open:
  assumes "scope_next e s = Some s'" and "scope_inv s"
  shows "scope_inv s'"
proof (cases e)
  case (ACall c)
  with assms inside_update [of c "asPcs s" ABegun] show ?thesis
    by (auto simp: scope_inv_def open_tasks_def AS_BeginTask_def split: if_splits)
next
  case (AStep c ok)
  with assms have n: "AS_Submit_next ok c s = Some s'" by simp
  have c: "c < length (asPcs s)" using n by (auto simp: AS_Submit_next_def split: if_splits)
  note u = inside_update [OF c]
  have leave: "sum_list (map inside (asPcs s)) = Suc (sum_list (map inside ((asPcs s)[c := AIdle])))"
    if "asPcs s ! c \<noteq> AIdle"
    using u [of AIdle] that by (cases "asPcs s ! c") simp_all
  show ?thesis
  proof (cases "asPcs s ! c")
    case AUndo
    with leave n c assms(2) show ?thesis
      by (auto simp: AS_Submit_next_def scope_inv_def open_tasks_def AS_EndTask_def)
  next
    case ADispatch
    with leave n c assms(2) u [of AUndo] show ?thesis
      by (auto simp: AS_Submit_next_def scope_inv_def open_tasks_def split: if_splits)
  qed (use n c assms(2) u [of AUndo] u [of ADispatch] in
      \<open>auto simp: AS_Submit_next_def scope_inv_def open_tasks_def split: if_splits\<close>)
next
  case AStart
  with assms show ?thesis
    by (cases "asQueued s") (auto simp: scope_inv_def open_tasks_def split: if_splits)
next
  case (AFinish t)
  with assms show ?thesis
    by (cases "asRunning s") (auto simp: scope_inv_def open_tasks_def split: if_splits)
next
  case AEnd
  with assms show ?thesis
    by (cases "asEnding s") (auto simp: scope_inv_def open_tasks_def AS_EndTask_def split: if_splits)
next
  case ACancel
  with assms show ?thesis by (auto simp: scope_inv_def open_tasks_def AS_Cancel_def)
qed

lemma scope_steps_inv: "scope_steps s t \<Longrightarrow> scope_inv s \<Longrightarrow> scope_inv t"
  by (induction rule: scope_steps.induct) (auto intro: scope_next_open)

lemma scope_inv_init: "scope_inv (scope_init c)"
  by (simp add: scope_inv_def scope_init_def open_tasks_def AS_new_def)

lemma scope_reach_count:
  "scope_steps (scope_init c) s \<Longrightarrow> mInFlight (asScope s) = of_nat (open_tasks s + asThrown s)"
  using scope_steps_inv [OF _ scope_inv_init] by (simp add: scope_inv_def)

text \<open>
  C29: as long as no user function has thrown, \<open>WaitForDrain(-1)\<close> returns exactly when every
  submission is over: no thread is inside \<open>Submit\<close> and every wrapper lambda has called
  \<open>EndTask\<close>, skipped or not. At that moment \<open>Reset\<close> does not abort and re-opens the scope.
\<close>

theorem scope_drain_exact:
  assumes "scope_steps (scope_init c) s" and "asThrown s = 0" and "open_tasks s < 2 ^ 64"
  shows "(AS_WaitForDrain (- 1) False (asScope s) = Returned True \<longleftrightarrow> open_tasks s = 0) \<and>
    (open_tasks s = 0 \<longrightarrow> AS_Reset (asScope s) = Some AS_new)"
proof -
  have "mInFlight (asScope s) = of_nat (open_tasks s)"
    using scope_reach_count [OF assms(1)] assms(2) by simp
  then show ?thesis using of_nat_size_0_iff [OF assms(3)]
    by (auto simp: AS_WaitForDrain_def AS_Reset_def AS_new_def)
qed

lemma scope_thrown_mono: "scope_steps s t \<Longrightarrow> asThrown s \<le> asThrown t"
proof (induction rule: scope_steps.induct)
  case (scope_refl s)
  show ?case by simp
next
  case (scope_step s t e u)
  have "asThrown t \<le> asThrown u"
    using scope_step.hyps(2) by (cases e) (auto simp: AS_Submit_next_def split: if_splits submit_pc.splits)
  with scope_step.IH show ?case by simp
qed

lemma scope_steps_trans: "scope_steps t u \<Longrightarrow> scope_steps s t \<Longrightarrow> scope_steps s u"
  by (induction rule: scope_steps.induct) (auto intro: scope_steps.scope_step)

text \<open>
  once a user function has thrown, the wrapper's \<open>EndTask\<close> is skipped for good. In every
  later state, even when all work is over, \<open>WaitForDrain(-1)\<close> keeps waiting (so the destructor
  hangs) and \<open>Reset\<close> aborts the process.
\<close>

theorem scope_throw_leaks:
  assumes "scope_steps (scope_init c) s" and "0 < asThrown s" and "scope_steps s t"
    and "open_tasks t + asThrown t < 2 ^ 64"
  shows "fst (AS_destroy (asScope t)) = Blocked \<and> AS_Reset (asScope t) = None"
proof -
  have "0 < open_tasks t + asThrown t" using scope_thrown_mono [OF assms(3)] assms(2) by simp
  then have "mInFlight (asScope t) \<noteq> 0"
    using scope_reach_count [OF scope_steps_trans [OF assms(3,1)]] of_nat_size_0_iff [OF assms(4)] by simp
  then show ?thesis by (simp add: AS_destroy_def AS_WaitForDrain_def AS_Reset_def AS_Cancel_def)
qed

text \<open>Cancellation.\<close>

lemma scope_cancelled_stays: "scope_next e s = Some s' \<Longrightarrow> mCancelled (asScope s) \<Longrightarrow> mCancelled (asScope s')"
  by (cases e) (auto simp: AS_Submit_next_def AS_BeginTask_def AS_EndTask_def AS_Cancel_def
      split: if_splits submit_pc.splits)

text \<open>
  after \<open>Cancel\<close> no user function starts any more: the lambdas still queued go straight
  to \<open>EndTask\<close>, whatever the interleaving.
\<close>

theorem scope_cancel_stops:
  assumes "scope_steps s t" and "mCancelled (asScope s)"
  shows "mCancelled (asScope t) \<and> asStarted t = asStarted s"
  using assms
proof (induction rule: scope_steps.induct)
  case (scope_refl s)
  then show ?case by simp
next
  case (scope_step s t e u)
  then have "mCancelled (asScope t)" and "asStarted t = asStarted s" by auto
  moreover have "asStarted u = asStarted t"
    using scope_step.hyps(2) \<open>mCancelled (asScope t)\<close>
    by (cases e) (auto simp: AS_Submit_next_def AS_IsCancelled_def split: if_splits submit_pc.splits)
  ultimately show ?case using scope_cancelled_stays [OF scope_step.hyps(2)] by simp
qed

subsection \<open>The wake-up of a waiting thread\<close>

text \<open>
  \<open>AS_WaitForDrain\<close> says what a waiter decides when it looks at the count. When it looks is
  decided by the condition variable: \<open>wait\<close> tests the predicate, releases the mutex and sleeps,
  and a sleeping thread tests again only when it is notified. \<open>EndTask\<close> is two actions, the
  decrement and, if it was the last task, \<open>notify_all\<close>; it does not take \<open>mDrainMutex\<close>, so both
  may fall between the waiter's test and its going to sleep. Spurious wake-ups, which the
  standard allows but does not promise, are left out.
\<close>

datatype drain_pc =
    DTest                 \<comment> \<open>holding the mutex, about to test the predicate\<close>
  | DSleep                \<comment> \<open>the predicate was false; about to block\<close>
  | DAsleep               \<comment> \<open>blocked on the condition variable\<close>
  | DReturned

datatype end_pc = ESub | ENotify | EDone

record drain_sys =
  dScope :: AsyncScope
  dWaiter :: drain_pc
  dEnders :: "end_pc list"

datatype drain_event = DWait | DEnd nat

fun drain_next :: "drain_event \<Rightarrow> drain_sys \<Rightarrow> drain_sys option" where
  "drain_next DWait s =
     (case dWaiter s of
        DTest \<Rightarrow> Some (s\<lparr>dWaiter := (if AS_WaitForDrain (- 1) False (dScope s) = Blocked then DSleep else DReturned)\<rparr>)
      | DSleep \<Rightarrow> Some (s\<lparr>dWaiter := DAsleep\<rparr>)
      | _ \<Rightarrow> None)"
| "drain_next (DEnd i) s =
     (if i < length (dEnders s) then
        (case dEnders s ! i of
           ESub \<Rightarrow>
             let (last, sc) = AS_EndTask (dScope s)
             in Some (s\<lparr>dScope := sc, dEnders := (dEnders s)[i := (if last then ENotify else EDone)]\<rparr>)
         | ENotify \<Rightarrow>
             Some (s\<lparr>dEnders := (dEnders s)[i := EDone],
                     dWaiter := (if dWaiter s = DAsleep then DTest else dWaiter s)\<rparr>)
         | EDone \<Rightarrow> None)
      else None)"

text \<open>One waiter, and \<open>n\<close> tasks in flight, each about to call \<open>EndTask\<close>.\<close>

definition drain_init :: "nat \<Rightarrow> drain_sys" where
  "drain_init n = \<lparr>dScope = \<lparr>mCancelled = True, mInFlight = of_nat n\<rparr>, dWaiter = DTest, dEnders = replicate n ESub\<rparr>"

fun drain_run :: "drain_event list \<Rightarrow> drain_sys \<Rightarrow> drain_sys option" where
  "drain_run [] s = Some s"
| "drain_run (e # es) s = (case drain_next e s of None \<Rightarrow> None | Some s' \<Rightarrow> drain_run es s')"

lemma drain_run_append:
  "drain_run (es @ fs) s = (case drain_run es s of None \<Rightarrow> None | Some t \<Rightarrow> drain_run fs t)"
  by (induction es arbitrary: s) (auto split: option.splits)

lemma drain_stuck:
  assumes "dWaiter s = DAsleep" and "set (dEnders s) \<subseteq> {EDone}"
  shows "drain_next e s = None"
proof (cases e)
  case (DEnd i)
  with assms show ?thesis using nth_mem [of i "dEnders s"] by fastforce
qed (simp add: assms)

text \<open>Any number of tasks may end one after the other while the waiter is between its test and its sleep.\<close>

lemma drain_subs:
  "i + k = n \<Longrightarrow> 0 < k \<Longrightarrow> n < 2 ^ 64 \<Longrightarrow>
   drain_run (map DEnd [i..<n])
     \<lparr>dScope = \<lparr>mCancelled = c, mInFlight = of_nat k\<rparr>, dWaiter = DSleep, dEnders = replicate i EDone @ replicate k ESub\<rparr> =
   Some \<lparr>dScope = \<lparr>mCancelled = c, mInFlight = 0\<rparr>, dWaiter = DSleep, dEnders = replicate (n - 1) EDone @ [ENotify]\<rparr>"
proof (induction k arbitrary: i)
  case 0
  then show ?case by simp
next
  case (Suc k)
  have up: "[i..<n] = i # [Suc i..<n]" using Suc.prems by (simp add: upt_rec)
  have nth: "(replicate i EDone @ replicate (Suc k) ESub) ! i = ESub" by (simp add: nth_append)
  have upd: "(replicate i EDone @ replicate (Suc k) ESub)[i := x] = replicate i EDone @ x # replicate k ESub" for x
    by (simp add: list_update_append)
  show ?case
  proof (cases k)
    case 0
    with Suc.prems up nth upd show ?thesis by (simp add: AS_EndTask_def)
  next
    case (Suc j)
    then have "0 < k" by simp
    have ne: "(of_nat (Suc k) :: size_t) \<noteq> 1"
      using of_nat_size_0_iff [of k] Suc Suc.prems by (simp add: algebra_simps)
    with Suc.IH [of "Suc i"] Suc.prems up nth upd ne \<open>0 < k\<close> show ?thesis
      by (simp add: AS_EndTask_def replicate_app_Cons_same)
  qed
qed

text \<open>
  the wake-up can be lost. Whatever the number of tasks in flight, if all of them end
  between the waiter's test of the predicate and its going to sleep, the count is zero, every
  task has notified, and the waiter sleeps with no action of the program left that could wake
  it: \<open>WaitForDrain(-1)\<close>, and with it the destructor, never returns.
\<close>

theorem scope_lost_wakeup:
  assumes "0 < n" and "n < 2 ^ 64"
  shows "\<exists>es s. drain_run es (drain_init n) = Some s \<and> mInFlight (dScope s) = 0 \<and>
    AS_WaitForDrain (- 1) False (dScope s) = Returned True \<and> dWaiter s = DAsleep \<and>
    (\<forall>e. drain_next e s = None)"
proof -
  define es where "es = [DWait] @ map DEnd [0..<n] @ [DEnd (n - 1), DWait]"
  define s where "s = \<lparr>dScope = \<lparr>mCancelled = True, mInFlight = (0 :: size_t)\<rparr>, dWaiter = DAsleep,
    dEnders = replicate n EDone\<rparr>"
  have ne: "(of_nat n :: size_t) \<noteq> 0" using of_nat_size_0_iff [OF assms(2)] assms(1) by simp
  have n: "length (replicate (n - 1) EDone) = n - 1" "n - 1 < n" using assms(1) by auto
  have rep: "replicate (n - 1) EDone @ [EDone] = replicate n EDone"
    using assms(1) by (metis Suc_pred' replicate_Suc replicate_append_same)
  have first: "drain_run [DWait] (drain_init n) =
      Some \<lparr>dScope = \<lparr>mCancelled = True, mInFlight = of_nat n\<rparr>, dWaiter = DSleep, dEnders = replicate 0 EDone @ replicate n ESub\<rparr>"
    using ne by (simp add: drain_init_def AS_WaitForDrain_def)
  have "drain_run es (drain_init n) = Some s"
    unfolding es_def drain_run_append first option.case
    using drain_subs [of 0 n n True] assms n rep by (simp add: nth_append list_update_append s_def)
  moreover have "\<forall>e. drain_next e s = None" using drain_stuck [of s] by (auto simp: s_def set_replicate_conv_if)
  ultimately show ?thesis by (intro exI [of _ es] exI [of _ s]) (simp add: s_def AS_WaitForDrain_def)
qed

text \<open>Sleeping before the last decrement is harmless: the notification is then seen.\<close>

theorem scope_wakeup_seen:
  "drain_run [DWait, DWait, DEnd 0, DEnd 0, DWait] (drain_init 1) =
     Some \<lparr>dScope = \<lparr>mCancelled = True, mInFlight = 0\<rparr>, dWaiter = DReturned, dEnders = [EDone]\<rparr>"
  by (simp add: drain_init_def AS_WaitForDrain_def AS_EndTask_def)

subsection \<open>Concrete runs\<close>

fun scope_run :: "scope_event list \<Rightarrow> scope_sys \<Rightarrow> scope_sys option" where
  "scope_run [] s = Some s"
| "scope_run (e # es) s = (case scope_next e s of None \<Rightarrow> None | Some s' \<Rightarrow> scope_run es s')"

lemma scope_run_steps: "scope_steps s t \<Longrightarrow> scope_run es t = Some u \<Longrightarrow> scope_steps s u"
  by (induction es arbitrary: t) (auto split: option.splits intro: scope_steps.scope_step)

lemmas scope_eval = scope_init_def AS_new_def AS_Submit_next_def AS_BeginTask_def AS_EndTask_def
  AS_IsCancelled_def AS_Cancel_def open_tasks_def

theorem scope_drain_exact_witness:
  "\<exists>s. scope_steps (scope_init 1) s \<and> asReturned s = [True] \<and>
     AS_WaitForDrain (- 1) False (asScope s) = Returned True \<and> AS_Reset (asScope s) = Some AS_new"
proof -
  have "\<exists>s. scope_run [ACall 0, AStep 0 True, AStep 0 True, AStart, AFinish False, AEnd] (scope_init 1) = Some s \<and>
      asReturned s = [True] \<and> asThrown s = 0 \<and> open_tasks s = 0"
    by (simp add: scope_eval)
  then obtain s where s: "scope_steps (scope_init 1) s" "asReturned s = [True]" "asThrown s = 0" "open_tasks s = 0"
    using scope_run_steps [OF scope_steps.scope_refl] by blast
  from s(4) have "open_tasks s < 2 ^ 64" by simp
  from scope_drain_exact [OF s(1,3) this] s show ?thesis by blast
qed

theorem scope_throw_leaks_witness:
  "\<exists>s. scope_steps (scope_init 1) s \<and> open_tasks s = 0 \<and> fst (AS_destroy (asScope s)) = Blocked"
proof -
  have "\<exists>s. scope_run [ACall 0, AStep 0 True, AStep 0 True, AStart, AFinish True] (scope_init 1) = Some s \<and>
      asThrown s = 1 \<and> open_tasks s = 0"
    by (simp add: scope_eval)
  then obtain s where s: "scope_steps (scope_init 1) s" "asThrown s = 1" "open_tasks s = 0"
    using scope_run_steps [OF scope_steps.scope_refl] by blast
  from s have "0 < asThrown s" "open_tasks s + asThrown s < 2 ^ 64" by simp_all
  from scope_throw_leaks [OF s(1) this(1) scope_steps.scope_refl this(2)] s show ?thesis by blast
qed

theorem scope_cancel_stops_witness:
  "\<exists>s t. scope_steps s t \<and> mCancelled (asScope s) \<and> asQueued s = 1 \<and> asQueued t = 0 \<and> asStarted t = asStarted s"
proof -
  have "\<exists>s t. scope_run [ACall 0, AStep 0 True, AStep 0 True, ACancel] (scope_init 1) = Some s \<and>
      scope_run [AStart] s = Some t \<and> mCancelled (asScope s) \<and> asQueued s = 1 \<and> asQueued t = 0"
    by (simp add: scope_eval)
  then obtain s t where r: "scope_run [AStart] s = Some t" and s: "mCancelled (asScope s)" "asQueued s = 1" "asQueued t = 0"
    by blast
  have st: "scope_steps s t" using scope_run_steps [OF scope_steps.scope_refl r] .
  from scope_cancel_stops [OF st s(1)] st s show ?thesis by blast
qed

theorem scope_lost_wakeup_witness:
  "\<exists>es s. drain_run es (drain_init 2) = Some s \<and> dWaiter s = DAsleep \<and> mInFlight (dScope s) = 0"
  using scope_lost_wakeup [of 2] by auto

end
