(* ===== verification/Packet.thy ===== *)
theory Packet
  imports Prelude
begin

section \<open>Wire packets\<close>

text \<open>
  \<open>Network/Core/PacketDefine.h\<close> (client protocol) and \<open>Network/Core/ServerPacketDefine.h\<close>
  (server-to-server protocol). The structs are declared under \<open>#pragma pack(push, 1)\<close> and are
  sent and received as they lie in memory, so a struct is a record and its wire form the
  concatenation of its fields in declaration order, little-endian. A receiver reads a struct
  with a cast of the buffer: \<open>field o n\<close> reads \<open>n\<close> bytes at offset \<open>o\<close>. \<open>sizeof\<close> values are the
  sums of the field widths.
\<close>

definition field :: "nat \<Rightarrow> nat \<Rightarrow> byte list \<Rightarrow> 'a::len word" where
  "field off n bs = le_word (take n (drop off bs))"

definition chars :: "nat \<Rightarrow> nat \<Rightarrow> byte list \<Rightarrow> byte list" where
  "chars off n bs = take n (drop off bs)"

text \<open>Reading past a field of known width, and reading the field itself.\<close>

lemma field_skip: "length xs \<le> off \<Longrightarrow> field off n (xs @ ys) = field (off - length xs) n ys"
  by (simp add: field_def)

lemma field_here: "LENGTH('a) \<le> 8 * n \<Longrightarrow> field 0 n (le_bytes n (w :: 'a::len word) @ ys) = w"
  by (simp add: field_def)

lemma chars_skip: "length xs \<le> off \<Longrightarrow> chars off n (xs @ ys) = chars (off - length xs) n ys"
  by (simp add: chars_def)

lemma chars_here: "length xs = n \<Longrightarrow> chars 0 n (xs @ ys) = xs"
  by (simp add: chars_def)

lemma field_byte: "field 0 (Suc 0) (b # ys) = b"
  by (simp add: field_def)

lemma field_Cons: "0 < off \<Longrightarrow> field off n (x # xs) = field (off - 1) n xs"
  by (simp add: field_def drop_Cons split: nat.splits)

lemma chars_Cons: "0 < off \<Longrightarrow> chars off n (x # xs) = chars (off - 1) n xs"
  by (simp add: chars_def drop_Cons split: nat.splits)

lemmas wire = field_skip field_here chars_skip chars_here field_byte field_Cons chars_Cons

subsection \<open>The contract of a packed struct\<close>

text \<open>
  What a sender and a receiver of a packed struct rely on: the wire form has the struct's
  size, and reading it back from the front of a longer buffer gives the struct.
\<close>

fun read_structs :: "(byte list \<Rightarrow> 'a) \<Rightarrow> nat \<Rightarrow> nat \<Rightarrow> byte list \<Rightarrow> 'a list" where
  "read_structs decode sz 0 bs = []"
| "read_structs decode sz (Suc n) bs = decode bs # read_structs decode sz n (drop sz bs)"

locale wire_struct =
  fixes wf :: "'a \<Rightarrow> bool"
    and encode :: "'a \<Rightarrow> byte list"
    and decode :: "byte list \<Rightarrow> 'a"
    and sz :: nat
  assumes encode_length: "wf x \<Longrightarrow> length (encode x) = sz"
    and decode_encode: "wf x \<Longrightarrow> decode (encode x @ rest) = x"
begin

lemma decode_exact: "wf x \<Longrightarrow> decode (encode x) = x"
  using decode_encode [of x "[]"] by simp

lemma encode_inj: "wf x \<Longrightarrow> wf y \<Longrightarrow> encode x = encode y \<Longrightarrow> x = y"
  using decode_exact by metis

text \<open>Structs sent back to back are read back one by one.\<close>

lemma read_structs_concat:
  "list_all wf xs \<Longrightarrow> read_structs decode sz (length xs) (concat (map encode xs) @ rest) = xs"
  by (induction xs) (simp_all add: decode_encode encode_length)

end

subsection \<open>Client protocol: types and header\<close>

datatype PacketType = SessionConnectReq | SessionConnectRes | PingReq | PongRes

fun PacketType_value :: "PacketType \<Rightarrow> u16" where
  "PacketType_value SessionConnectReq = 0x0001"
| "PacketType_value SessionConnectRes = 0x0002"
| "PacketType_value PingReq = 0x0003"
| "PacketType_value PongRes = 0x0004"

record PacketHeader =
  ph_size :: u16
  ph_id :: u16

definition PacketHeader_new :: PacketHeader where
  "PacketHeader_new = \<lparr>ph_size = 0, ph_id = 0\<rparr>"

definition PacketHeader_make :: "u16 \<Rightarrow> PacketType \<Rightarrow> PacketHeader" where
  "PacketHeader_make packetSize packetType = \<lparr>ph_size = packetSize, ph_id = PacketType_value packetType\<rparr>"

definition PacketHeader_bytes :: "PacketHeader \<Rightarrow> byte list" where
  "PacketHeader_bytes h = le_bytes 2 (ph_size h) @ le_bytes 2 (ph_id h)"

definition PacketHeader_read :: "byte list \<Rightarrow> PacketHeader" where
  "PacketHeader_read bs = \<lparr>ph_size = field 0 2 bs, ph_id = field 2 2 bs\<rparr>"

lemma length_PacketHeader_bytes [simp]: "length (PacketHeader_bytes h) = 4"
  by (simp add: PacketHeader_bytes_def)

lemma PacketHeader_read_bytes [simp]: "PacketHeader_read (PacketHeader_bytes h @ rest) = h"
  by (simp add: PacketHeader_bytes_def PacketHeader_read_def wire)

interpretation hdr: wire_struct "\<lambda>_. True" PacketHeader_bytes PacketHeader_read 4
  by unfold_locales simp_all

subsection \<open>Network constants\<close>

definition MAX_PACKET_SIZE :: u32 where "MAX_PACKET_SIZE = 4096"
definition RECV_BUFFER_SIZE :: u32 where "RECV_BUFFER_SIZE = 8192"
definition SEND_BUFFER_SIZE :: u32 where "SEND_BUFFER_SIZE = 8192"
definition PING_INTERVAL_MS :: u32 where "PING_INTERVAL_MS = 5000"
definition PING_TIMEOUT_MS :: u32 where "PING_TIMEOUT_MS = 30000"
definition MAX_SEND_QUEUE_DEPTH :: size_t where "MAX_SEND_QUEUE_DEPTH = 1000"
definition MAX_LOGIC_QUEUE_DEPTH :: size_t where "MAX_LOGIC_QUEUE_DEPTH = 10000"
definition PACKET_HEADER_SIZE :: u32 where "PACKET_HEADER_SIZE = 4"
definition MAX_PACKET_TOTAL_SIZE :: u32 where "MAX_PACKET_TOTAL_SIZE = MAX_PACKET_SIZE"
definition MAX_PACKET_PAYLOAD_SIZE :: u32 where
  "MAX_PACKET_PAYLOAD_SIZE = MAX_PACKET_SIZE - PACKET_HEADER_SIZE"

lemmas packet_constants = MAX_PACKET_SIZE_def RECV_BUFFER_SIZE_def SEND_BUFFER_SIZE_def
  PACKET_HEADER_SIZE_def MAX_PACKET_TOTAL_SIZE_def MAX_PACKET_PAYLOAD_SIZE_def

text \<open>The static assertions of the header.\<close>

lemma packet_static_asserts:
  "unat PACKET_HEADER_SIZE = length (PacketHeader_bytes h)"
  "SEND_BUFFER_SIZE = RECV_BUFFER_SIZE"
  "PACKET_HEADER_SIZE < MAX_PACKET_SIZE"
  "unat MAX_PACKET_SIZE < 2 ^ 16"
  "MAX_PACKET_SIZE \<le> SEND_BUFFER_SIZE"
  by (simp_all add: packet_constants)

subsection \<open>Client protocol: packets\<close>

datatype ConnectResult = Success | VersionMismatch | ServerFull | Banned | Unknown

fun ConnectResult_value :: "ConnectResult \<Rightarrow> u8" where
  "ConnectResult_value Success = 0"
| "ConnectResult_value VersionMismatch = 1"
| "ConnectResult_value ServerFull = 2"
| "ConnectResult_value Banned = 3"
| "ConnectResult_value Unknown = 255"

record PKT_SessionConnectReq =
  scq_header :: PacketHeader
  scq_clientVersion :: u32

definition PKT_SessionConnectReq_new :: PKT_SessionConnectReq where
  "PKT_SessionConnectReq_new = \<lparr>scq_header = PacketHeader_make 8 SessionConnectReq, scq_clientVersion = 0\<rparr>"

definition PKT_SessionConnectReq_bytes :: "PKT_SessionConnectReq \<Rightarrow> byte list" where
  "PKT_SessionConnectReq_bytes p = PacketHeader_bytes (scq_header p) @ le_bytes 4 (scq_clientVersion p)"

definition PKT_SessionConnectReq_read :: "byte list \<Rightarrow> PKT_SessionConnectReq" where
  "PKT_SessionConnectReq_read bs =
    \<lparr>scq_header = PacketHeader_read bs,
     scq_clientVersion = field 4 4 bs\<rparr>"

interpretation SessionConnectReq: wire_struct "\<lambda>_. True" PKT_SessionConnectReq_bytes PKT_SessionConnectReq_read 8
  by unfold_locales (simp_all add: PKT_SessionConnectReq_bytes_def PKT_SessionConnectReq_read_def wire)

record PKT_SessionConnectRes =
  scs_header :: PacketHeader
  scs_sessionId :: u64
  scs_serverTime :: u32
  scs_result :: u8

definition PKT_SessionConnectRes_new :: PKT_SessionConnectRes where
  "PKT_SessionConnectRes_new = \<lparr>scs_header = PacketHeader_make 17 SessionConnectRes, scs_sessionId = 0, scs_serverTime = 0, scs_result = 0\<rparr>"

definition PKT_SessionConnectRes_bytes :: "PKT_SessionConnectRes \<Rightarrow> byte list" where
  "PKT_SessionConnectRes_bytes p = PacketHeader_bytes (scs_header p) @ le_bytes 8 (scs_sessionId p) @ le_bytes 4 (scs_serverTime p) @ le_bytes 1 (scs_result p)"

definition PKT_SessionConnectRes_read :: "byte list \<Rightarrow> PKT_SessionConnectRes" where
  "PKT_SessionConnectRes_read bs =
    \<lparr>scs_header = PacketHeader_read bs,
     scs_sessionId = field 4 8 bs,
     scs_serverTime = field 12 4 bs,
     scs_result = field 16 1 bs\<rparr>"

interpretation SessionConnectRes: wire_struct "\<lambda>_. True" PKT_SessionConnectRes_bytes PKT_SessionConnectRes_read 17
  by unfold_locales (simp_all add: PKT_SessionConnectRes_bytes_def PKT_SessionConnectRes_read_def wire)

record PKT_PingReq =
  png_header :: PacketHeader
  png_clientTime :: u64
  png_sequence :: u32

definition PKT_PingReq_new :: PKT_PingReq where
  "PKT_PingReq_new = \<lparr>png_header = PacketHeader_make 16 PingReq, png_clientTime = 0, png_sequence = 0\<rparr>"

definition PKT_PingReq_bytes :: "PKT_PingReq \<Rightarrow> byte list" where
  "PKT_PingReq_bytes p = PacketHeader_bytes (png_header p) @ le_bytes 8 (png_clientTime p) @ le_bytes 4 (png_sequence p)"

definition PKT_PingReq_read :: "byte list \<Rightarrow> PKT_PingReq" where
  "PKT_PingReq_read bs =
    \<lparr>png_header = PacketHeader_read bs,
     png_clientTime = field 4 8 bs,
     png_sequence = field 12 4 bs\<rparr>"

interpretation PingReq: wire_struct "\<lambda>_. True" PKT_PingReq_bytes PKT_PingReq_read 16
  by unfold_locales (simp_all add: PKT_PingReq_bytes_def PKT_PingReq_read_def wire)

record PKT_PongRes =
  pog_header :: PacketHeader
  pog_clientTime :: u64
  pog_serverTime :: u64
  pog_sequence :: u32

definition PKT_PongRes_new :: PKT_PongRes where
  "PKT_PongRes_new = \<lparr>pog_header = PacketHeader_make 24 PongRes, pog_clientTime = 0, pog_serverTime = 0, pog_sequence = 0\<rparr>"

definition PKT_PongRes_bytes :: "PKT_PongRes \<Rightarrow> byte list" where
  "PKT_PongRes_bytes p = PacketHeader_bytes (pog_header p) @ le_bytes 8 (pog_clientTime p) @ le_bytes 8 (pog_serverTime p) @ le_bytes 4 (pog_sequence p)"

definition PKT_PongRes_read :: "byte list \<Rightarrow> PKT_PongRes" where
  "PKT_PongRes_read bs =
    \<lparr>pog_header = PacketHeader_read bs,
     pog_clientTime = field 4 8 bs,
     pog_serverTime = field 12 8 bs,
     pog_sequence = field 20 4 bs\<rparr>"

interpretation PongRes: wire_struct "\<lambda>_. True" PKT_PongRes_bytes PKT_PongRes_read 24
  by unfold_locales (simp_all add: PKT_PongRes_bytes_def PKT_PongRes_read_def wire)

subsection \<open>Server protocol: types and header\<close>

datatype ServerPacketType = Invalid | ServerPingReq | ServerPongRes | DBSavePingTimeReq
  | DBSavePingTimeRes | DBQueryReq | DBQueryRes | Max

fun ServerPacketType_value :: "ServerPacketType \<Rightarrow> u16" where
  "ServerPacketType_value Invalid = 0"
| "ServerPacketType_value ServerPingReq = 1000"
| "ServerPacketType_value ServerPongRes = 1001"
| "ServerPacketType_value DBSavePingTimeReq = 2000"
| "ServerPacketType_value DBSavePingTimeRes = 2001"
| "ServerPacketType_value DBQueryReq = 2002"
| "ServerPacketType_value DBQueryRes = 2003"
| "ServerPacketType_value Max = 2004"

record ServerPacketHeader =
  sh_size :: u16
  sh_id :: u16
  sh_sequence :: u32

definition ServerPacketHeader_new :: ServerPacketHeader where
  "ServerPacketHeader_new = \<lparr>sh_size = 8, sh_id = ServerPacketType_value Invalid, sh_sequence = 0\<rparr>"

definition InitPacket :: "u16 \<Rightarrow> ServerPacketType \<Rightarrow> ServerPacketHeader \<Rightarrow> ServerPacketHeader" where
  "InitPacket sizeof_T packetId h = h\<lparr>sh_size := sizeof_T, sh_id := ServerPacketType_value packetId\<rparr>"

definition ServerPacketHeader_bytes :: "ServerPacketHeader \<Rightarrow> byte list" where
  "ServerPacketHeader_bytes h = le_bytes 2 (sh_size h) @ le_bytes 2 (sh_id h) @ le_bytes 4 (sh_sequence h)"

definition ServerPacketHeader_read :: "byte list \<Rightarrow> ServerPacketHeader" where
  "ServerPacketHeader_read bs =
     \<lparr>sh_size = field 0 2 bs, sh_id = field 2 2 bs, sh_sequence = field 4 4 bs\<rparr>"

lemma length_ServerPacketHeader_bytes [simp]: "length (ServerPacketHeader_bytes h) = 8"
  by (simp add: ServerPacketHeader_bytes_def)

lemma ServerPacketHeader_read_bytes [simp]:
  "ServerPacketHeader_read (ServerPacketHeader_bytes h @ rest) = h"
  by (simp add: ServerPacketHeader_bytes_def ServerPacketHeader_read_def wire)

interpretation shdr: wire_struct "\<lambda>_. True" ServerPacketHeader_bytes ServerPacketHeader_read 8
  by unfold_locales simp_all

subsection \<open>Server protocol: packets\<close>

text \<open>
  The constructors of the packets with a character array write its first byte only; the
  other bytes are whatever the memory held (\<open>junk\<close>).
\<close>

record PKT_ServerPingReq =
  spq_header :: ServerPacketHeader
  spq_timestamp :: u64
  spq_sequence :: u32

definition PKT_ServerPingReq_new :: PKT_ServerPingReq where
  "PKT_ServerPingReq_new = \<lparr>spq_header = InitPacket 20 ServerPingReq ServerPacketHeader_new, spq_timestamp = 0, spq_sequence = 0\<rparr>"

definition PKT_ServerPingReq_bytes :: "PKT_ServerPingReq \<Rightarrow> byte list" where
  "PKT_ServerPingReq_bytes p = ServerPacketHeader_bytes (spq_header p) @ le_bytes 8 (spq_timestamp p) @ le_bytes 4 (spq_sequence p)"

definition PKT_ServerPingReq_read :: "byte list \<Rightarrow> PKT_ServerPingReq" where
  "PKT_ServerPingReq_read bs =
    \<lparr>spq_header = ServerPacketHeader_read bs,
     spq_timestamp = field 8 8 bs,
     spq_sequence = field 16 4 bs\<rparr>"

interpretation ServerPingReq: wire_struct "\<lambda>_. True" PKT_ServerPingReq_bytes PKT_ServerPingReq_read 20
  by unfold_locales (simp_all add: PKT_ServerPingReq_bytes_def PKT_ServerPingReq_read_def wire)

record PKT_ServerPongRes =
  sps_header :: ServerPacketHeader
  sps_requestTimestamp :: u64
  sps_responseTimestamp :: u64
  sps_sequence :: u32

definition PKT_ServerPongRes_new :: PKT_ServerPongRes where
  "PKT_ServerPongRes_new = \<lparr>sps_header = InitPacket 28 ServerPongRes ServerPacketHeader_new, sps_requestTimestamp = 0, sps_responseTimestamp = 0, sps_sequence = 0\<rparr>"

definition PKT_ServerPongRes_bytes :: "PKT_ServerPongRes \<Rightarrow> byte list" where
  "PKT_ServerPongRes_bytes p = ServerPacketHeader_bytes (sps_header p) @ le_bytes 8 (sps_requestTimestamp p) @ le_bytes 8 (sps_responseTimestamp p) @ le_bytes 4 (sps_sequence p)"

definition PKT_ServerPongRes_read :: "byte list \<Rightarrow> PKT_ServerPongRes" where
  "PKT_ServerPongRes_read bs =
    \<lparr>sps_header = ServerPacketHeader_read bs,
     sps_requestTimestamp = field 8 8 bs,
     sps_responseTimestamp = field 16 8 bs,
     sps_sequence = field 24 4 bs\<rparr>"

interpretation ServerPongRes: wire_struct "\<lambda>_. True" PKT_ServerPongRes_bytes PKT_ServerPongRes_read 28
  by unfold_locales (simp_all add: PKT_ServerPongRes_bytes_def PKT_ServerPongRes_read_def wire)

record PKT_DBSavePingTimeReq =
  dpq_header :: ServerPacketHeader
  dpq_serverId :: u32
  dpq_timestamp :: u64
  dpq_serverName :: "byte list"

definition PKT_DBSavePingTimeReq_new :: "byte list \<Rightarrow> PKT_DBSavePingTimeReq" where
  "PKT_DBSavePingTimeReq_new junk = \<lparr>dpq_header = InitPacket 52 DBSavePingTimeReq ServerPacketHeader_new, dpq_serverId = 0, dpq_timestamp = 0, dpq_serverName = 0 # junk\<rparr>"

definition PKT_DBSavePingTimeReq_bytes :: "PKT_DBSavePingTimeReq \<Rightarrow> byte list" where
  "PKT_DBSavePingTimeReq_bytes p = ServerPacketHeader_bytes (dpq_header p) @ le_bytes 4 (dpq_serverId p) @ le_bytes 8 (dpq_timestamp p) @ dpq_serverName p"

definition PKT_DBSavePingTimeReq_read :: "byte list \<Rightarrow> PKT_DBSavePingTimeReq" where
  "PKT_DBSavePingTimeReq_read bs =
    \<lparr>dpq_header = ServerPacketHeader_read bs,
     dpq_serverId = field 8 4 bs,
     dpq_timestamp = field 12 8 bs,
     dpq_serverName = chars 20 32 bs\<rparr>"

interpretation DBSavePingTimeReq: wire_struct "\<lambda>p. length (dpq_serverName p) = 32" PKT_DBSavePingTimeReq_bytes PKT_DBSavePingTimeReq_read 52
  by unfold_locales (simp_all add: PKT_DBSavePingTimeReq_bytes_def PKT_DBSavePingTimeReq_read_def wire)

record PKT_DBSavePingTimeRes =
  dps_header :: ServerPacketHeader
  dps_serverId :: u32
  dps_result :: u8
  dps_message :: "byte list"

definition PKT_DBSavePingTimeRes_new :: "byte list \<Rightarrow> PKT_DBSavePingTimeRes" where
  "PKT_DBSavePingTimeRes_new junk = \<lparr>dps_header = InitPacket 77 DBSavePingTimeRes ServerPacketHeader_new, dps_serverId = 0, dps_result = 0, dps_message = 0 # junk\<rparr>"

definition PKT_DBSavePingTimeRes_bytes :: "PKT_DBSavePingTimeRes \<Rightarrow> byte list" where
  "PKT_DBSavePingTimeRes_bytes p = ServerPacketHeader_bytes (dps_header p) @ le_bytes 4 (dps_serverId p) @ le_bytes 1 (dps_result p) @ dps_message p"

definition PKT_DBSavePingTimeRes_read :: "byte list \<Rightarrow> PKT_DBSavePingTimeRes" where
  "PKT_DBSavePingTimeRes_read bs =
    \<lparr>dps_header = ServerPacketHeader_read bs,
     dps_serverId = field 8 4 bs,
     dps_result = field 12 1 bs,
     dps_message = chars 13 64 bs\<rparr>"

interpretation DBSavePingTimeRes: wire_struct "\<lambda>p. length (dps_message p) = 64" PKT_DBSavePingTimeRes_bytes PKT_DBSavePingTimeRes_read 77
  by unfold_locales (simp_all add: PKT_DBSavePingTimeRes_bytes_def PKT_DBSavePingTimeRes_read_def wire)

record PKT_DBQueryReq =
  dqq_header :: ServerPacketHeader
  dqq_queryId :: u64
  dqq_taskType :: u8
  dqq_dataLength :: u16
  dqq_data :: "byte list"

definition PKT_DBQueryReq_new :: "byte list \<Rightarrow> PKT_DBQueryReq" where
  "PKT_DBQueryReq_new junk = \<lparr>dqq_header = InitPacket 531 DBQueryReq ServerPacketHeader_new, dqq_queryId = 0, dqq_taskType = 0, dqq_dataLength = 0, dqq_data = 0 # junk\<rparr>"

definition PKT_DBQueryReq_bytes :: "PKT_DBQueryReq \<Rightarrow> byte list" where
  "PKT_DBQueryReq_bytes p = ServerPacketHeader_bytes (dqq_header p) @ le_bytes 8 (dqq_queryId p) @ le_bytes 1 (dqq_taskType p) @ le_bytes 2 (dqq_dataLength p) @ dqq_data p"

definition PKT_DBQueryReq_read :: "byte list \<Rightarrow> PKT_DBQueryReq" where
  "PKT_DBQueryReq_read bs =
    \<lparr>dqq_header = ServerPacketHeader_read bs,
     dqq_queryId = field 8 8 bs,
     dqq_taskType = field 16 1 bs,
     dqq_dataLength = field 17 2 bs,
     dqq_data = chars 19 512 bs\<rparr>"

interpretation DBQueryReq: wire_struct "\<lambda>p. length (dqq_data p) = 512" PKT_DBQueryReq_bytes PKT_DBQueryReq_read 531
  by unfold_locales (simp_all add: PKT_DBQueryReq_bytes_def PKT_DBQueryReq_read_def wire)

record PKT_DBQueryRes =
  dqs_header :: ServerPacketHeader
  dqs_queryId :: u64
  dqs_result :: u32
  dqs_detailLength :: u16
  dqs_detail :: "byte list"

definition PKT_DBQueryRes_new :: "byte list \<Rightarrow> PKT_DBQueryRes" where
  "PKT_DBQueryRes_new junk = \<lparr>dqs_header = InitPacket 278 DBQueryRes ServerPacketHeader_new, dqs_queryId = 0, dqs_result = 0, dqs_detailLength = 0, dqs_detail = 0 # junk\<rparr>"

definition PKT_DBQueryRes_bytes :: "PKT_DBQueryRes \<Rightarrow> byte list" where
  "PKT_DBQueryRes_bytes p = ServerPacketHeader_bytes (dqs_header p) @ le_bytes 8 (dqs_queryId p) @ le_bytes 4 (dqs_result p) @ le_bytes 2 (dqs_detailLength p) @ dqs_detail p"

definition PKT_DBQueryRes_read :: "byte list \<Rightarrow> PKT_DBQueryRes" where
  "PKT_DBQueryRes_read bs =
    \<lparr>dqs_header = ServerPacketHeader_read bs,
     dqs_queryId = field 8 8 bs,
     dqs_result = field 16 4 bs,
     dqs_detailLength = field 20 2 bs,
     dqs_detail = chars 22 256 bs\<rparr>"

interpretation DBQueryRes: wire_struct "\<lambda>p. length (dqs_detail p) = 256" PKT_DBQueryRes_bytes PKT_DBQueryRes_read 278
  by unfold_locales (simp_all add: PKT_DBQueryRes_bytes_def PKT_DBQueryRes_read_def wire)

lemmas packet_ctor_defs = PKT_SessionConnectReq_new_def PKT_SessionConnectRes_new_def PKT_PingReq_new_def PKT_PongRes_new_def PKT_ServerPingReq_new_def PKT_ServerPongRes_new_def PKT_DBSavePingTimeReq_new_def PKT_DBSavePingTimeRes_new_def PKT_DBQueryReq_new_def PKT_DBQueryRes_new_def
  PacketHeader_make_def InitPacket_def ServerPacketHeader_new_def

lemmas packet_bytes_defs = PKT_SessionConnectReq_bytes_def PKT_SessionConnectRes_bytes_def PKT_PingReq_bytes_def PKT_PongRes_bytes_def PKT_ServerPingReq_bytes_def PKT_ServerPongRes_bytes_def PKT_DBSavePingTimeReq_bytes_def PKT_DBSavePingTimeRes_bytes_def PKT_DBQueryReq_bytes_def PKT_DBQueryRes_bytes_def

subsection \<open>Properties\<close>



text \<open>
  the constructors announce the truth: the size field of a freshly constructed packet
  is the number of bytes that are sent, it is at least the header size and at most
  \<open>MAX_PACKET_SIZE\<close>, so the receiver's framing accepts it.
\<close>

theorem packets_announce_size:
  assumes "length ja = 31" "length jb = 63" "length jc = 511" "length jd = 255"
  shows "unat (ph_size (PacketHeader_read (PKT_SessionConnectReq_bytes PKT_SessionConnectReq_new))) = length (PKT_SessionConnectReq_bytes PKT_SessionConnectReq_new) \<and>
   length (PKT_SessionConnectReq_bytes PKT_SessionConnectReq_new) \<in> {unat PACKET_HEADER_SIZE..unat MAX_PACKET_TOTAL_SIZE} \<and>
   unat (ph_size (PacketHeader_read (PKT_SessionConnectRes_bytes PKT_SessionConnectRes_new))) = length (PKT_SessionConnectRes_bytes PKT_SessionConnectRes_new) \<and>
   length (PKT_SessionConnectRes_bytes PKT_SessionConnectRes_new) \<in> {unat PACKET_HEADER_SIZE..unat MAX_PACKET_TOTAL_SIZE} \<and>
   unat (ph_size (PacketHeader_read (PKT_PingReq_bytes PKT_PingReq_new))) = length (PKT_PingReq_bytes PKT_PingReq_new) \<and>
   length (PKT_PingReq_bytes PKT_PingReq_new) \<in> {unat PACKET_HEADER_SIZE..unat MAX_PACKET_TOTAL_SIZE} \<and>
   unat (ph_size (PacketHeader_read (PKT_PongRes_bytes PKT_PongRes_new))) = length (PKT_PongRes_bytes PKT_PongRes_new) \<and>
   length (PKT_PongRes_bytes PKT_PongRes_new) \<in> {unat PACKET_HEADER_SIZE..unat MAX_PACKET_TOTAL_SIZE} \<and>
   unat (sh_size (ServerPacketHeader_read (PKT_ServerPingReq_bytes PKT_ServerPingReq_new))) = length (PKT_ServerPingReq_bytes PKT_ServerPingReq_new) \<and>
   length (PKT_ServerPingReq_bytes PKT_ServerPingReq_new) \<in> {unat PACKET_HEADER_SIZE..unat MAX_PACKET_TOTAL_SIZE} \<and>
   unat (sh_size (ServerPacketHeader_read (PKT_ServerPongRes_bytes PKT_ServerPongRes_new))) = length (PKT_ServerPongRes_bytes PKT_ServerPongRes_new) \<and>
   length (PKT_ServerPongRes_bytes PKT_ServerPongRes_new) \<in> {unat PACKET_HEADER_SIZE..unat MAX_PACKET_TOTAL_SIZE} \<and>
   unat (sh_size (ServerPacketHeader_read (PKT_DBSavePingTimeReq_bytes (PKT_DBSavePingTimeReq_new ja)))) = length (PKT_DBSavePingTimeReq_bytes (PKT_DBSavePingTimeReq_new ja)) \<and>
   length (PKT_DBSavePingTimeReq_bytes (PKT_DBSavePingTimeReq_new ja)) \<in> {unat PACKET_HEADER_SIZE..unat MAX_PACKET_TOTAL_SIZE} \<and>
   unat (sh_size (ServerPacketHeader_read (PKT_DBSavePingTimeRes_bytes (PKT_DBSavePingTimeRes_new jb)))) = length (PKT_DBSavePingTimeRes_bytes (PKT_DBSavePingTimeRes_new jb)) \<and>
   length (PKT_DBSavePingTimeRes_bytes (PKT_DBSavePingTimeRes_new jb)) \<in> {unat PACKET_HEADER_SIZE..unat MAX_PACKET_TOTAL_SIZE} \<and>
   unat (sh_size (ServerPacketHeader_read (PKT_DBQueryReq_bytes (PKT_DBQueryReq_new jc)))) = length (PKT_DBQueryReq_bytes (PKT_DBQueryReq_new jc)) \<and>
   length (PKT_DBQueryReq_bytes (PKT_DBQueryReq_new jc)) \<in> {unat PACKET_HEADER_SIZE..unat MAX_PACKET_TOTAL_SIZE} \<and>
   unat (sh_size (ServerPacketHeader_read (PKT_DBQueryRes_bytes (PKT_DBQueryRes_new jd)))) = length (PKT_DBQueryRes_bytes (PKT_DBQueryRes_new jd)) \<and>
   length (PKT_DBQueryRes_bytes (PKT_DBQueryRes_new jd)) \<in> {unat PACKET_HEADER_SIZE..unat MAX_PACKET_TOTAL_SIZE}"
  using assms by (simp add: packet_ctor_defs packet_bytes_defs packet_constants)

theorem packets_announce_size_witness:
  "unat (sh_size (ServerPacketHeader_read (PKT_DBQueryReq_bytes (PKT_DBQueryReq_new (replicate 511 7))))) = 531"
  using packets_announce_size [of "replicate 31 7" "replicate 63 7" "replicate 511 7" "replicate 255 7"]
  by (simp add: PKT_DBQueryReq_new_def PKT_DBQueryReq_bytes_def)

end
