(* ===== verification/Key_Gen.thy ===== *)
theory Key_Gen
  imports Prelude
begin

section \<open>Keys, common types and the stop watch\<close>

text \<open>
  \<open>Utils/KeyGenerator.h\<close>: 64-bit keys with a component tag in bits 63..56, a worker slot in
  bits 55..48 and a sequence number in bits 47..0, and the plain global counter.
  \<open>Utils/NetworkTypes.h\<close>: the type aliases and constants the other components use.
  \<open>Utils/Timer.h\<close>: the stop watch; the clock's reading is an argument.

  \<open>fetch_add\<close> is atomic, so a history of concurrent calls is a sequence of calls.
\<close>

subsection \<open>Common types and constants\<close>

type_synonym NetworkHandle = u64
type_synonym ConnectionId = u64
type_synonym MessageId = u32
type_synonym BufferSize = size_t
type_synonym Timestamp = u64

definition DEFAULT_PORT :: u32 where "DEFAULT_PORT = 8000"
definition DEFAULT_TEST_SERVER_PORT :: "bool \<Rightarrow> u16" where
  "DEFAULT_TEST_SERVER_PORT is_windows = (if is_windows then 19010 else 9000)"
definition DEFAULT_TEST_DB_PORT :: "bool \<Rightarrow> u16" where
  "DEFAULT_TEST_DB_PORT is_windows = (if is_windows then 18002 else 8001)"
definition DEFAULT_BUFFER_SIZE :: size_t where "DEFAULT_BUFFER_SIZE = 4096"
definition MAX_CONNECTIONS :: size_t where "MAX_CONNECTIONS = 1000"
definition DEFAULT_TIMEOUT_MS :: int where "DEFAULT_TIMEOUT_MS = 30000"
definition INVALID_TIMESTAMP :: Timestamp where "INVALID_TIMESTAMP = 0"
definition SEND_QUEUE_BACKPRESSURE_THRESHOLD :: size_t where "SEND_QUEUE_BACKPRESSURE_THRESHOLD = 64"
definition DEFAULT_DB_WORKER_COUNT :: size_t where "DEFAULT_DB_WORKER_COUNT = 4"
definition DEFAULT_TASK_QUEUE_WORKER_COUNT :: size_t where "DEFAULT_TASK_QUEUE_WORKER_COUNT = 3"

subsection \<open>Timer\<close>

record Timer =
  mStartTime :: Timestamp

definition Timer_new :: "Timestamp \<Rightarrow> Timer" where
  "Timer_new now = \<lparr>mStartTime = now\<rparr>"

definition GetElapsedTime :: "Timestamp \<Rightarrow> Timer \<Rightarrow> Timestamp" where
  "GetElapsedTime now t = now - mStartTime t"

definition Timer_Reset :: "Timestamp \<Rightarrow> Timer \<Rightarrow> Timer" where
  "Timer_Reset now t = t\<lparr>mStartTime := now\<rparr>"

text \<open>\<open>duration_cast<milliseconds>\<close> of the steady clock's nanoseconds truncates.\<close>

definition GetCurrentTimestamp :: "nat \<Rightarrow> Timestamp" where
  "GetCurrentTimestamp ns = of_nat (ns div 1000000)"

lemma elapsed_monotone:
  assumes "a \<le> b" and "b \<le> c" and "c div 1000000 < 2 ^ 64"
  shows "GetElapsedTime (GetCurrentTimestamp b) (Timer_new (GetCurrentTimestamp a))
       \<le> GetElapsedTime (GetCurrentTimestamp c) (Timer_new (GetCurrentTimestamp a))"
proof -
  have le: "a div 1000000 \<le> b div 1000000" "b div 1000000 \<le> c div 1000000" using assms by (auto intro: div_le_mono)
  show ?thesis
    unfolding GetElapsedTime_def GetCurrentTimestamp_def Timer_new_def word_le_nat_alt
    using le assms(3) by (simp add: unat_of_nat_diff diff_le_mono)
qed

subsection \<open>KeyGenerator\<close>

datatype KeyTag = KT_None | KT_DBQuery | KT_Session | KT_WAL

fun KeyTag_value :: "KeyTag \<Rightarrow> u8" where
  "KeyTag_value KT_None = 0"
| "KeyTag_value KT_DBQuery = 1"
| "KeyTag_value KT_Session = 2"
| "KeyTag_value KT_WAL = 3"

type_synonym KeyId = u64

definition kInvalid :: KeyId where "kInvalid = 0"

definition kSeqMask :: u64 where "kSeqMask = push_bit 48 1 - 1"

record KeyGenerator =
  mPrefix :: u64
  mSeq :: u64

definition KG_new :: "KeyTag \<Rightarrow> u8 \<Rightarrow> KeyGenerator" where
  "KG_new tag slot =
     \<lparr>mPrefix = or (push_bit 56 (ucast (KeyTag_value tag))) (push_bit 48 (ucast slot)), mSeq = 0\<rparr>"

text \<open>\<open>GetTag\<close> casts to the enumeration, which any byte value may inhabit: the result is the byte.\<close>

definition GetTag :: "KeyId \<Rightarrow> u8" where
  "GetTag i = ucast (drop_bit 56 i)"

definition GetSlot :: "KeyId \<Rightarrow> u8" where
  "GetSlot i = ucast (and (drop_bit 48 i) 0xFF)"

definition GetSeq :: "KeyId \<Rightarrow> u64" where
  "GetSeq i = and i kSeqMask"

definition KG_IsValid :: "KeyId \<Rightarrow> bool" where
  "KG_IsValid i \<longleftrightarrow> and i kSeqMask \<noteq> 0"

definition NextGlobalId :: "u64 \<Rightarrow> KeyId \<times> u64" where
  "NextGlobalId sGlobalSeq = (sGlobalSeq + 1, sGlobalSeq + 1)"

definition KG_Next :: "KeyGenerator \<Rightarrow> KeyId \<times> KeyGenerator" where
  "KG_Next g =
     (let seq = mSeq g + 1;
          g' = g\<lparr>mSeq := seq\<rparr>;
          seq = and seq kSeqMask;
          seq = (if seq = 0 then 1 else seq)
      in (or (mPrefix g) seq, g'))"

text \<open>The keys of \<open>n\<close> successive calls.\<close>

fun KG_take :: "nat \<Rightarrow> KeyGenerator \<Rightarrow> KeyId list" where
  "KG_take 0 g = []"
| "KG_take (Suc n) g = (case KG_Next g of (k, g') \<Rightarrow> k # KG_take n g')"

lemma kSeqMask_mask: "kSeqMask = mask 48"
  by (simp add: kSeqMask_def mask_eq_exp_minus_1)

lemma and_kSeqMask: "and w kSeqMask = take_bit 48 w" for w :: u64
  by (simp add: kSeqMask_mask take_bit_eq_mask)

lemma take_bit_prefix: "take_bit 48 (mPrefix (KG_new tag slot)) = 0"
  by (rule bit_eqI) (auto simp: KG_new_def bit_simps)

lemma key_fields:
  fixes s :: u64 and tag slot
  assumes "take_bit 48 s = s"
  defines "k \<equiv> or (mPrefix (KG_new tag slot)) s"
  shows "GetTag k = KeyTag_value tag" and "GetSlot k = slot" and "GetSeq k = s"
proof -
  have hi: "\<not> bit s n" if "48 \<le> n" for n
    using that assms(1) by (metis bit_take_bit_iff not_le)
  show "GetTag k = KeyTag_value tag"
    by (rule bit_eqI) (auto simp: GetTag_def k_def KG_new_def bit_simps hi dest: bit_imp_le_length)
  have ff: "(0xFF :: u64) = mask 8" by (simp add: mask_eq_exp_minus_1)
  show "GetSlot k = slot"
    unfolding GetSlot_def ff
    by (rule bit_eqI) (auto simp: k_def KG_new_def bit_simps hi dest: bit_imp_le_length)
  show "GetSeq k = s"
    using assms(1) take_bit_prefix [of tag slot]
    by (simp add: GetSeq_def k_def and_kSeqMask)
qed

definition seq_of :: "u64 \<Rightarrow> u64" where
  "seq_of s = (let t = take_bit 48 s in if t = 0 then 1 else t)"

lemma seq_of_bits: "take_bit 48 (seq_of s) = seq_of s"
  by (simp add: seq_of_def Let_def)

lemma seq_of_pos: "seq_of s \<noteq> 0"
  by (simp add: seq_of_def Let_def)

lemma KG_Next_eq: "KG_Next g = (or (mPrefix g) (seq_of (mSeq g + 1)), g\<lparr>mSeq := mSeq g + 1\<rparr>)"
  by (simp add: KG_Next_def seq_of_def Let_def and_kSeqMask)

lemma KG_take_eq:
  "KG_take n g = map (\<lambda>i. or (mPrefix g) (seq_of (mSeq g + of_nat i + 1))) [0..<n]"
proof (induction n arbitrary: g)
  case 0
  show ?case by simp
next
  case (Suc n)
  have "[0..<Suc n] = 0 # map Suc [0..<n]" by (simp add: map_Suc_upt upt_conv_Cons del: upt_Suc)
  with Suc.IH [of "g\<lparr>mSeq := mSeq g + 1\<rparr>"] show ?case
    by (simp add: KG_Next_eq comp_def algebra_simps del: upt_Suc)
qed

lemma seq_of_small: "seq_of (of_nat n) = of_nat n" if "0 < n" and "n < 2 ^ 48"
proof -
  have "n < 2 ^ 64" using that(2) by simp
  then have "(of_nat n :: u64) = 0 \<longleftrightarrow> n = 0" by (rule of_nat_size_0_iff)
  then have "(of_nat n :: u64) \<noteq> 0" using that(1) by blast
  moreover have "take_bit 48 (of_nat n :: u64) = of_nat n"
    by (simp only: take_bit_of_nat take_bit_nat_eq_self [OF that(2)])
  ultimately show ?thesis by (simp only: seq_of_def Let_def if_False)
qed

lemma seq_of_nat: "Suc i < 2 ^ 48 \<Longrightarrow> seq_of (of_nat i + 1) = of_nat (Suc i)"
  using seq_of_small [of "Suc i"] by (simp only: of_nat_Suc add.commute zero_less_Suc)

lemma KG_take_seqs:
  assumes "n < 2 ^ 48"
  shows "map GetSeq (KG_take n (KG_new tag slot)) = map of_nat [1..<Suc n]"
proof -
  have zero: "mSeq (KG_new tag slot) = 0" by (simp add: KG_new_def)
  have "GetSeq (or (mPrefix (KG_new tag slot)) (seq_of (of_nat i + 1))) = of_nat (Suc i)" if "i < n" for i
    using key_fields(3) [OF seq_of_bits, of tag slot "of_nat i + 1"] seq_of_nat [of i] that assms by simp
  then show ?thesis by (auto simp: KG_take_eq zero list_eq_iff_nth_eq simp del: upt_Suc)
qed

lemma KG_take_distinct:
  assumes "n < 2 ^ 48"
  shows "distinct (KG_take n (KG_new tag slot))"
proof -
  have "inj_on (of_nat :: nat \<Rightarrow> u64) (set [1..<Suc n])"
    using assms by (auto intro!: inj_onI simp: word_of_nat_eq_iff take_bit_nat_eq_self)
  then have "distinct (map (of_nat :: nat \<Rightarrow> u64) [1..<Suc n])" by (simp add: distinct_map del: upt_Suc)
  then show ?thesis unfolding KG_take_seqs [OF assms, of tag slot, symmetric] by (simp add: distinct_map)
qed

lemma KG_take_Suc: "KG_take (Suc n) g = KG_take n g @ [fst (KG_Next (g\<lparr>mSeq := mSeq g + of_nat n\<rparr>))]"
  by (simp add: KG_take_eq KG_Next_eq del: KG_take.simps)

text \<open>
  every key of a generator carries the tag and the slot it was made with and is valid, for
  any number of calls, wrap-around included.
\<close>

theorem key_carries_route:
  assumes "k \<in> set (KG_take n (KG_new tag slot))"
  shows "GetTag k = KeyTag_value tag \<and> GetSlot k = slot \<and> KG_IsValid k"
proof -
  from assms obtain s where k: "k = or (mPrefix (KG_new tag slot)) (seq_of s)"
    by (auto simp: KG_take_eq)
  note f = key_fields [OF seq_of_bits, of tag slot s]
  have "KG_IsValid k \<longleftrightarrow> GetSeq k \<noteq> 0" by (simp add: KG_IsValid_def GetSeq_def)
  with f seq_of_pos show ?thesis by (simp add: k)
qed

theorem key_carries_route_witness:
  "GetTag (fst (KG_Next (KG_new KT_DBQuery 7))) = 1 \<and> GetSlot (fst (KG_Next (KG_new KT_DBQuery 7))) = 7"
  using key_carries_route [of "fst (KG_Next (KG_new KT_DBQuery 7))" 1 KT_DBQuery 7] by (simp add: split_beta)

text \<open>
  the first \<open>2^48 - 1\<close> keys of a generator are pairwise distinct and their sequence numbers
  are 1, 2, 3, ...; this is exact, since the key after them is the first one again. Generators
  with different tags or slots never produce the same key.
\<close>

theorem keys_unique:
  "(n < 2 ^ 48 \<longrightarrow> map GetSeq (KG_take n (KG_new tag slot)) = map of_nat [1..<Suc n] \<and>
      distinct (KG_take n (KG_new tag slot))) \<and>
   KG_take (2 ^ 48) (KG_new tag slot) ! (2 ^ 48 - 1) = KG_take (2 ^ 48) (KG_new tag slot) ! 0 \<and>
   ((tag, slot) \<noteq> (tag', slot') \<longrightarrow>
      set (KG_take n (KG_new tag slot)) \<inter> set (KG_take m (KG_new tag' slot')) = {})"
proof (intro conjI impI)
  have zero: "mSeq (KG_new tag slot) = 0" by (simp add: KG_new_def)
  show "map GetSeq (KG_take n (KG_new tag slot)) = map of_nat [1..<Suc n]" if "n < 2 ^ 48"
    using that by (rule KG_take_seqs)
  show "distinct (KG_take n (KG_new tag slot))" if "n < 2 ^ 48" using that by (rule KG_take_distinct)
  have "seq_of (of_nat (2 ^ 48 - 1) + 1) = seq_of (of_nat 0 + 1)" by (simp add: seq_of_def)
  then show "KG_take (2 ^ 48) (KG_new tag slot) ! (2 ^ 48 - 1) = KG_take (2 ^ 48) (KG_new tag slot) ! 0"
    by (simp add: KG_take_eq zero del: upt_conv_Cons)
  show "set (KG_take n (KG_new tag slot)) \<inter> set (KG_take m (KG_new tag' slot')) = {}"
    if d: "(tag, slot) \<noteq> (tag', slot')"
  proof -
    have inj: "tag = tag'" if "KeyTag_value tag = KeyTag_value tag'"
      using that by (cases tag; cases tag') simp_all
    have "KeyTag_value tag = KeyTag_value tag' \<and> slot = slot'"
      if "or (mPrefix (KG_new tag slot)) (seq_of s) = or (mPrefix (KG_new tag' slot')) (seq_of t)" for s t
      using key_fields(1,2) [OF seq_of_bits, of tag slot s] key_fields(1,2) [OF seq_of_bits, of tag' slot' t] that
      by simp
    with inj d show ?thesis by (fastforce simp: KG_take_eq)
  qed
qed

theorem keys_unique_witness:
  "distinct (KG_take 1000 (KG_new KT_WAL 2)) \<and>
   set (KG_take 5 (KG_new KT_WAL 2)) \<inter> set (KG_take 5 (KG_new KT_WAL 3)) = {}"
  using keys_unique [of 1000 KT_WAL 2 KT_WAL 3 5] keys_unique [of 5 KT_WAL 2 KT_WAL 3 5] by simp

end
