(* ===== verification/Session.thy ===== *)
theory Session
  imports Async_Scope Packet Key_Gen
begin

section \<open>Session\<close>

text \<open>
  \<open>Network/Core/Session.h\<close> and \<open>Session.cpp\<close>, the POSIX build: the life cycle of a pooled
  session and the reassembly of packets from the TCP stream. The concurrent send path is in
  \<open>Session_Send\<close>.

  The provider is present or not; the callback is present or not, and what it is given is
  returned as a list of packets. Capacities of vectors, the raw receive buffer and logging
  carry no behaviour and are left out.
\<close>

subsection \<open>State\<close>

datatype SessionState = SS_None | Connecting | Connected | Disconnecting | Disconnected

datatype IOType = IO_Accept | IO_Recv | IO_Send | IO_Disconnect

datatype SendResult = SR_Ok | QueueFull | NotConnected

record Session =
  mId :: ConnectionId
  mSocket :: int
  mState :: SessionState
  mConnectTime :: Timestamp
  mLastPingTime :: Timestamp
  mPingSequence :: u32
  mSendQueue :: "byte list list"
  mIsSending :: bool
  mSendQueueSize :: size_t
  mAsyncProvider :: bool
  mRecvAccumBuffer :: "byte list"
  mRecvAccumOffset :: nat
  mOnRecvCb :: bool
  mAsyncScope :: AsyncScope

definition GetInvalidSocket :: int where
  "GetInvalidSocket = - 1"

definition Session_new :: Session where
  "Session_new = \<lparr>mId = 0, mSocket = GetInvalidSocket, mState = SS_None, mConnectTime = 0, mLastPingTime = 0,
     mPingSequence = 0, mSendQueue = [], mIsSending = False, mSendQueueSize = 0, mAsyncProvider = False,
     mRecvAccumBuffer = [], mRecvAccumOffset = 0, mOnRecvCb = False, mAsyncScope = AS_new\<rparr>"

subsection \<open>Life cycle\<close>

definition Session_Initialize :: "ConnectionId \<Rightarrow> int \<Rightarrow> Timestamp \<Rightarrow> Session \<Rightarrow> Session" where
  "Session_Initialize i socket now s = s\<lparr>mId := i, mSocket := socket, mState := Connected, mConnectTime := now,
     mLastPingTime := now, mPingSequence := 0, mIsSending := False, mSendQueueSize := 0,
     mRecvAccumBuffer := [], mRecvAccumOffset := 0\<rparr>"

text \<open>\<open>Reset\<close>; \<open>None\<close> is the abort of \<open>AsyncScope::Reset\<close>.\<close>

definition Session_Reset :: "Session \<Rightarrow> Session option" where
  "Session_Reset s =
     (case AS_Reset (mAsyncScope s) of
        None \<Rightarrow> None
      | Some sc \<Rightarrow> Some (s\<lparr>mId := 0, mState := SS_None, mPingSequence := 0, mIsSending := False,
          mSendQueueSize := 0, mOnRecvCb := False, mAsyncScope := sc\<rparr>))"

definition SetOnRecv :: "bool \<Rightarrow> Session \<Rightarrow> Session" where
  "SetOnRecv cb s = s\<lparr>mOnRecvCb := cb\<rparr>"

definition SetAsyncProvider :: "bool \<Rightarrow> Session \<Rightarrow> Session" where
  "SetAsyncProvider p s = s\<lparr>mAsyncProvider := p\<rparr>"

text \<open>\<open>Close\<close>: the descriptor that is closed, if any, and the session after.\<close>

definition Session_Close :: "Session \<Rightarrow> int option \<times> Session" where
  "Session_Close s =
     (if mState s = Disconnected then (None, s)
      else (if mSocket s \<noteq> GetInvalidSocket then Some (mSocket s) else None,
            s\<lparr>mState := Disconnected, mSocket := GetInvalidSocket, mAsyncProvider := False, mSendQueue := [],
              mSendQueueSize := 0, mRecvAccumBuffer := [], mRecvAccumOffset := 0,
              mAsyncScope := AS_Cancel (mAsyncScope s)\<rparr>))"

definition IsConnected :: "Session \<Rightarrow> bool" where
  "IsConnected s \<longleftrightarrow> mState s = Connected"

definition GetId :: "Session \<Rightarrow> ConnectionId" where "GetId s = mId s"
definition GetSocket :: "Session \<Rightarrow> int" where "GetSocket s = mSocket s"
definition GetState :: "Session \<Rightarrow> SessionState" where "GetState s = mState s"
definition GetConnectTime :: "Session \<Rightarrow> Timestamp" where "GetConnectTime s = mConnectTime s"
definition GetLastPingTime :: "Session \<Rightarrow> Timestamp" where "GetLastPingTime s = mLastPingTime s"
definition SetLastPingTime :: "Timestamp \<Rightarrow> Session \<Rightarrow> Session" where
  "SetLastPingTime t s = s\<lparr>mLastPingTime := t\<rparr>"
definition GetPingSequence :: "Session \<Rightarrow> u32" where "GetPingSequence s = mPingSequence s"
definition IncrementPingSequence :: "Session \<Rightarrow> Session" where
  "IncrementPingSequence s = s\<lparr>mPingSequence := mPingSequence s + 1\<rparr>"

definition OnRecv :: "Session \<Rightarrow> byte list \<Rightarrow> byte list list" where
  "OnRecv s packet = (if mOnRecvCb s then [packet] else [])"

text \<open>\<open>Session::Send\<close> up to the queueing: the guards, in order. \<open>None\<close> means that the packet is queued.\<close>

definition Send_guards :: "byte list option \<Rightarrow> Session \<Rightarrow> SendResult option" where
  "Send_guards data s =
     (case data of
        None \<Rightarrow> Some NotConnected
      | Some d \<Rightarrow>
          if \<not> IsConnected s \<or> d = [] then Some NotConnected
          else if unat MAX_PACKET_TOTAL_SIZE < length d then Some QueueFull
          else if SEND_QUEUE_BACKPRESSURE_THRESHOLD \<le> mSendQueueSize s then Some QueueFull
          else None)"

subsection \<open>Reassembly\<close>

definition hdr_size :: "byte list \<Rightarrow> nat" where
  "hdr_size bs = unat (ph_size (PacketHeader_read bs))"

definition kMaxAccumSize :: nat where
  "kMaxAccumSize = unat MAX_PACKET_SIZE * 4"

definition bad_size :: "nat \<Rightarrow> bool" where
  "bad_size n \<longleftrightarrow> n < unat PACKET_HEADER_SIZE \<or> unat MAX_PACKET_TOTAL_SIZE < n"

text \<open>
  The parsing loop on the accumulation buffer: the read offset, the batch buffer and the spans
  of the complete packets in it. The last component says that the stream is to be closed.
\<close>

function parse_loop ::
  "byte list \<Rightarrow> nat \<Rightarrow> byte list \<Rightarrow> (nat \<times> nat) list \<Rightarrow> byte list \<times> nat \<times> byte list \<times> (nat \<times> nat) list \<times> bool" where
  "parse_loop accum off batch spans =
     (if length accum - off < 4 then (accum, off, batch, spans, False)
      else let sz = hdr_size (drop off accum)
           in if bad_size sz then ([], 0, batch, spans, True)
              else if length accum - off < sz then (accum, off, batch, spans, False)
              else parse_loop accum (off + sz) (batch @ take sz (drop off accum)) (spans @ [(length batch, sz)]))"
  by pat_completeness auto
termination
  by (relation "measure (\<lambda>(accum, off, _). length accum - off)")
    (auto simp: bad_size_def PACKET_HEADER_SIZE_def)

declare parse_loop.simps [simp del]

text \<open>Discarding the consumed part of the buffer: at once when all is read, else past the middle.\<close>

definition compact :: "byte list \<times> nat \<Rightarrow> byte list \<times> nat" where
  "compact b = (case b of (accum, off) \<Rightarrow>
     if length accum \<le> off then ([], 0)
     else if length accum div 2 < off then (drop off accum, 0)
     else (accum, off))"

definition fast_path :: "byte list \<Rightarrow> Session \<Rightarrow> bool" where
  "fast_path data s \<longleftrightarrow> mRecvAccumBuffer s = [] \<and> unat PACKET_HEADER_SIZE \<le> length data \<and>
     \<not> bad_size (hdr_size data) \<and> hdr_size data = length data"

definition ProcessRawRecv :: "byte list \<Rightarrow> Session \<Rightarrow> byte list list \<times> Session" where
  "ProcessRawRecv data s =
     (if fast_path data s then (OnRecv s data, s)
      else
        let s = (if length (mRecvAccumBuffer s) < mRecvAccumOffset s then s\<lparr>mRecvAccumOffset := 0\<rparr> else s);
            unread = length (mRecvAccumBuffer s) - mRecvAccumOffset s
        in if kMaxAccumSize < unread + length data
           then ([], snd (Session_Close (s\<lparr>mRecvAccumBuffer := [], mRecvAccumOffset := 0\<rparr>)))
           else (case parse_loop (mRecvAccumBuffer s @ data) (mRecvAccumOffset s) [] [] of
             (accum, off, batch, spans, shouldClose) \<Rightarrow>
               (case compact (accum, off) of (accum', off') \<Rightarrow>
                 let s' = s\<lparr>mRecvAccumBuffer := accum', mRecvAccumOffset := off'\<rparr>
                 in if shouldClose then ([], snd (Session_Close s'))
                    else (concat (map (\<lambda>(p, n). OnRecv s' (take n (drop p batch))) spans), s'))))"

text \<open>A stream of received chunks, in the order the dispatcher runs them.\<close>

fun recv_all :: "byte list list \<Rightarrow> Session \<Rightarrow> byte list list \<times> Session" where
  "recv_all [] s = ([], s)"
| "recv_all (c # cs) s =
     (case ProcessRawRecv c s of (ps, s') \<Rightarrow> (case recv_all cs s' of (qs, s'') \<Rightarrow> (ps @ qs, s'')))"

subsection \<open>The stream protocol\<close>

text \<open>
  What the framing means, independent of chunks and buffers: a stream is cut into packets, each
  as long as its header says; what is left is an incomplete packet, or starts with a header
  whose size is impossible (the flag).
\<close>

function frames :: "byte list \<Rightarrow> byte list list \<times> byte list \<times> bool" where
  "frames bs =
     (if length bs < 4 then ([], bs, False)
      else if bad_size (hdr_size bs) then ([], bs, True)
      else if length bs < hdr_size bs then ([], bs, False)
      else (case frames (drop (hdr_size bs) bs) of (ps, r, bad) \<Rightarrow> (take (hdr_size bs) bs # ps, r, bad)))"
  by pat_completeness auto
termination
  by (relation "measure length") (auto simp: bad_size_def PACKET_HEADER_SIZE_def)

declare frames.simps [simp del]

lemma frames_unfold:
  "length bs < 4 \<Longrightarrow> frames bs = ([], bs, False)"
  "4 \<le> length bs \<Longrightarrow> bad_size (hdr_size bs) \<Longrightarrow> frames bs = ([], bs, True)"
  "4 \<le> length bs \<Longrightarrow> \<not> bad_size (hdr_size bs) \<Longrightarrow> length bs < hdr_size bs \<Longrightarrow> frames bs = ([], bs, False)"
  "4 \<le> length bs \<Longrightarrow> \<not> bad_size (hdr_size bs) \<Longrightarrow> hdr_size bs \<le> length bs \<Longrightarrow>
     frames bs = (take (hdr_size bs) bs # fst (frames (drop (hdr_size bs) bs)), snd (frames (drop (hdr_size bs) bs)))"
  by (subst frames.simps, simp split: prod.splits)+

text \<open>A packet as a sender builds it.\<close>

definition valid_packet :: "byte list \<Rightarrow> bool" where
  "valid_packet p \<longleftrightarrow> hdr_size p = length p \<and> \<not> bad_size (length p)"

lemma bad_size_iff: "bad_size n \<longleftrightarrow> n < 4 \<or> 4096 < n"
  by (simp add: bad_size_def packet_constants)

lemma kMaxAccumSize_eq [simp]: "kMaxAccumSize = 16384"
  by (simp add: kMaxAccumSize_def packet_constants)

lemma hdr_size_append: "4 \<le> length a \<Longrightarrow> hdr_size (a @ b) = hdr_size a"
  by (simp add: hdr_size_def PacketHeader_read_def field_def)

text \<open>Induction along a stream: too short to tell, impossible, incomplete, or a packet and the rest.\<close>

lemma frames_cases [case_names short bad partial packet]:
  assumes "\<And>a. length a < 4 \<Longrightarrow> P a" and "\<And>a. 4 \<le> length a \<Longrightarrow> bad_size (hdr_size a) \<Longrightarrow> P a"
    and "\<And>a. 4 \<le> length a \<Longrightarrow> \<not> bad_size (hdr_size a) \<Longrightarrow> length a < hdr_size a \<Longrightarrow> P a"
    and "\<And>a. 4 \<le> length a \<Longrightarrow> \<not> bad_size (hdr_size a) \<Longrightarrow> hdr_size a \<le> length a \<Longrightarrow>
      P (drop (hdr_size a) a) \<Longrightarrow> P a"
  shows "P a"
  by (induction a rule: frames.induct) (metis assms not_less)

lemma frames_append:
  "\<not> snd (snd (frames a)) \<Longrightarrow>
   frames (a @ b) = (fst (frames a) @ fst (frames (fst (snd (frames a)) @ b)), snd (frames (fst (snd (frames a)) @ b)))"
proof (induction a rule: frames_cases)
  case (packet a)
  let ?n = "hdr_size a"
  have "frames (a @ b) = (take ?n a # fst (frames (drop ?n a @ b)), snd (frames (drop ?n a @ b)))"
    using packet frames_unfold(4) [of "a @ b"] by (simp add: hdr_size_append)
  with packet frames_unfold(4) [of a] show ?case by simp
qed (simp_all add: frames_unfold)

lemma frames_bad_append: "snd (snd (frames a)) \<Longrightarrow> snd (snd (frames (a @ b)))"
proof (induction a rule: frames_cases)
  case (packet a)
  with frames_unfold(4) [of "a @ b"] frames_unfold(4) [of a] show ?case by (simp add: hdr_size_append)
next
  case (bad a)
  with frames_unfold(2) [of "a @ b"] show ?case by (simp add: hdr_size_append)
qed (simp_all add: frames_unfold)

lemma frames_rest: "frames a = (ps, r, False) \<Longrightarrow> length r < 4096 \<and> frames r = ([], r, False)"
proof (induction a arbitrary: ps rule: frames_cases)
  case (packet a)
  with frames_unfold(4) [of a] show ?case by (cases "frames (drop (hdr_size a) a)") simp
qed (auto simp: frames_unfold bad_size_iff)

lemma frames_Nil [simp]: "frames [] = ([], [], False)"
  by (simp add: frames_unfold)

lemma frames_packet: "valid_packet p \<Longrightarrow> frames p = ([p], [], False)"
  using frames_unfold(4) [of p] by (simp add: valid_packet_def bad_size_iff)

lemma frames_packets: "(\<And>p. p \<in> set ps \<Longrightarrow> valid_packet p) \<Longrightarrow> frames (concat ps) = (ps, [], False)"
proof (induction ps)
  case (Cons p ps)
  then have "frames p = ([p], [], False)" "frames (concat ps) = (ps, [], False)" by (simp_all add: frames_packet)
  then show ?case using frames_append [of p "concat ps"] by simp
qed simp

text \<open>The packets a batch holds.\<close>

definition unbatch :: "byte list \<Rightarrow> (nat \<times> nat) list \<Rightarrow> byte list list" where
  "unbatch batch spans = map (\<lambda>(p, n). take n (drop p batch)) spans"

definition spans_in :: "byte list \<Rightarrow> (nat \<times> nat) list \<Rightarrow> bool" where
  "spans_in batch spans \<longleftrightarrow> (\<forall>(p, n) \<in> set spans. p + n \<le> length batch)"

lemma unbatch_append: "spans_in batch spans \<Longrightarrow> unbatch (batch @ zs) spans = unbatch batch spans"
  by (auto simp: unbatch_def spans_in_def)

lemma parse_loop_frames:
  assumes "off \<le> length accum" and "spans_in batch spans" and "frames (drop off accum) = (ps, r, bad)"
  shows "case parse_loop accum off batch spans of (accum', off', batch', spans', close) \<Rightarrow>
    close = bad \<and> unbatch batch' spans' = unbatch batch spans @ ps \<and> spans_in batch' spans' \<and>
    (\<not> bad \<longrightarrow> accum' = accum \<and> off' \<le> length accum \<and> drop off' accum = r)"
  using assms
proof (induction accum off batch spans arbitrary: ps rule: parse_loop.induct)
  case (1 accum off batch spans)
  let ?bs = "drop off accum"
  let ?sz = "hdr_size ?bs"
  show ?case
  proof (cases "length ?bs < 4 \<or> bad_size ?sz \<or> length ?bs < ?sz")
    case True
    with "1.prems" frames_unfold(1,2,3) [of ?bs] show ?thesis
      by (cases "length ?bs < 4"; cases "bad_size ?sz") (simp_all add: parse_loop.simps [of accum] Let_def)
  next
    case False
    with frames_unfold(4) [of ?bs] "1.prems"(3) have
      f: "frames (drop (off + ?sz) accum) = (fst (frames (drop (off + ?sz) accum)), r, bad)"
        "ps = take ?sz ?bs # fst (frames (drop (off + ?sz) accum))"
      by (auto simp: add.commute prod_eq_iff)
    define qs where "qs = fst (frames (drop (off + ?sz) accum))"
    note f = f [folded qs_def]
    have le: "off + ?sz \<le> length accum" using False "1.prems"(1) by auto
    have sp: "spans_in (batch @ take ?sz ?bs) (spans @ [(length batch, ?sz)])"
      using "1.prems"(2) le by (auto simp: spans_in_def)
    have un: "unbatch (batch @ take ?sz ?bs) (spans @ [(length batch, ?sz)]) = unbatch batch spans @ [take ?sz ?bs]"
      using unbatch_append [OF "1.prems"(2)] by (simp add: unbatch_def)
    have e: "parse_loop accum off batch spans =
        parse_loop accum (off + ?sz) (batch @ take ?sz ?bs) (spans @ [(length batch, ?sz)])"
      using False by (subst parse_loop.simps) (simp add: Let_def)
    have "case parse_loop accum (off + ?sz) (batch @ take ?sz ?bs) (spans @ [(length batch, ?sz)]) of
      (accum', off', batch', spans', close) \<Rightarrow>
        close = bad \<and> unbatch batch' spans' =
          unbatch (batch @ take ?sz ?bs) (spans @ [(length batch, ?sz)]) @ qs \<and> spans_in batch' spans' \<and>
        (\<not> bad \<longrightarrow> accum' = accum \<and> off' \<le> length accum \<and> drop off' accum = r)"
      by (rule "1.IH" [OF _ refl]) (use False le sp f in simp_all)
    then show ?thesis unfolding e un f(2) by (auto split: prod.splits)
  qed
qed

subsection \<open>Correctness of the reassembly\<close>

definition unread :: "Session \<Rightarrow> byte list" where
  "unread s = drop (mRecvAccumOffset s) (mRecvAccumBuffer s)"

text \<open>The buffer between calls: the offset is inside, and what is unread is less than a packet.\<close>

definition recv_inv :: "Session \<Rightarrow> bool" where
  "recv_inv s \<longleftrightarrow> mRecvAccumOffset s \<le> length (mRecvAccumBuffer s) \<and>
     (mRecvAccumOffset s = length (mRecvAccumBuffer s) \<longrightarrow> mRecvAccumBuffer s = []) \<and>
     frames (unread s) = ([], unread s, False)"

lemma compact_facts:
  assumes "off \<le> length accum"
  shows "case compact (accum, off) of (a, k) \<Rightarrow> k \<le> length a \<and> drop k a = drop off accum \<and> (k = length a \<longrightarrow> a = [])"
  using assms by (auto simp: compact_def)

lemma concat_OnRecv:
  "concat (map (\<lambda>(p, n). OnRecv s (take n (drop p batch))) spans) = (if mOnRecvCb s then unbatch batch spans else [])"
  by (induction spans) (auto simp: OnRecv_def unbatch_def)

lemma recv_inv_unread_short: "recv_inv s \<Longrightarrow> length (unread s) < 4096"
  using frames_rest by (auto simp: recv_inv_def)

lemma ProcessRawRecv_frames:
  assumes inv: "recv_inv s" and cb: "mOnRecvCb s" and small: "length data \<le> 8192"
    and f: "frames (unread s @ data) = (ps, r, bad)"
  shows "if bad then ProcessRawRecv data s = ([], snd (ProcessRawRecv data s)) \<and> mState (snd (ProcessRawRecv data s)) = Disconnected
         else \<exists>a k. ProcessRawRecv data s = (ps, s\<lparr>mRecvAccumBuffer := a, mRecvAccumOffset := k\<rparr>) \<and>
           recv_inv (s\<lparr>mRecvAccumBuffer := a, mRecvAccumOffset := k\<rparr>) \<and> drop k a = r"
proof (cases "fast_path data s")
  case True
  then have "unread s = []" "valid_packet data" by (auto simp: fast_path_def unread_def valid_packet_def)
  with f have "ps = [data]" "r = []" "\<not> bad" by (simp_all add: frames_packet)
  with True inv cb \<open>unread s = []\<close> show ?thesis
    by (auto simp: ProcessRawRecv_def OnRecv_def unread_def intro!: exI [of _ "mRecvAccumBuffer s"] exI [of _ "mRecvAccumOffset s"])
next
  case False
  let ?accum = "mRecvAccumBuffer s @ data"
  let ?off = "mRecvAccumOffset s"
  have off: "?off \<le> length (mRecvAccumBuffer s)" using inv by (simp add: recv_inv_def)
  have fit: "\<not> kMaxAccumSize < length (mRecvAccumBuffer s) - ?off + length data"
    using recv_inv_unread_short [OF inv] small by (simp add: unread_def)
  have "drop ?off ?accum = unread s @ data" using off by (simp add: unread_def)
  then have f': "frames (drop ?off ?accum) = (ps, r, bad)" using f by simp
  obtain a k b sp cl where p: "parse_loop ?accum ?off [] [] = (a, k, b, sp, cl)" by (metis prod_cases5)
  have pl: "cl = bad" "unbatch b sp = ps" "\<not> bad \<Longrightarrow> a = ?accum \<and> k \<le> length ?accum \<and> drop k ?accum = r"
    using parse_loop_frames [OF _ _ f', of "[]" "[]"] off p by (auto simp: spans_in_def unbatch_def)
  obtain a' k' where c: "compact (a, k) = (a', k')" by force
  have e: "ProcessRawRecv data s =
      (if bad then ([], snd (Session_Close (s\<lparr>mRecvAccumBuffer := a', mRecvAccumOffset := k'\<rparr>)))
       else (ps, s\<lparr>mRecvAccumBuffer := a', mRecvAccumOffset := k'\<rparr>))"
    using False off fit p c pl(1,2) cb by (simp add: ProcessRawRecv_def concat_OnRecv Let_def)
  show ?thesis
  proof (cases bad)
    case True
    then show ?thesis by (simp add: e Session_Close_def)
  next
    case False
    with pl(3) c have "k' \<le> length a' \<and> drop k' a' = r \<and> (k' = length a' \<longrightarrow> a' = [])"
      using compact_facts [of k a] by simp
    moreover have "frames r = ([], r, False)" using frames_rest f False by simp
    ultimately show ?thesis using False by (auto simp: e recv_inv_def unread_def)
  qed
qed

lemma recv_all_frames:
  assumes "recv_inv s" and "mOnRecvCb s" and "\<forall>c \<in> set cs. length c \<le> unat RECV_BUFFER_SIZE"
    and "frames (unread s @ concat cs) = (ps, r, False)"
  shows "\<exists>s'. recv_all cs s = (ps, s') \<and> unread s' = r \<and> recv_inv s' \<and> mState s' = mState s"
  using assms
proof (induction cs arbitrary: s ps)
  case Nil
  then show ?case by (simp add: recv_inv_def)
next
  case (Cons c cs)
  obtain qs t bad where f: "frames (unread s @ c) = (qs, t, bad)" by (cases "frames (unread s @ c)")
  have small: "length c \<le> 8192" using Cons.prems(3) by (simp add: RECV_BUFFER_SIZE_def)
  have nb: "\<not> bad"
    using frames_bad_append [of "unread s @ c" "concat cs"] f Cons.prems(4) by auto
  with ProcessRawRecv_frames [OF Cons.prems(1,2) small f] obtain a k where
    e: "ProcessRawRecv c s = (qs, s\<lparr>mRecvAccumBuffer := a, mRecvAccumOffset := k\<rparr>)"
    and i: "recv_inv (s\<lparr>mRecvAccumBuffer := a, mRecvAccumOffset := k\<rparr>)" "drop k a = t" by auto
  let ?s = "s\<lparr>mRecvAccumBuffer := a, mRecvAccumOffset := k\<rparr>"
  have u: "unread ?s = t" using i(2) by (simp add: unread_def)
  obtain rs r' b where g: "frames (t @ concat cs) = (rs, r', b)" by (cases "frames (t @ concat cs)")
  have "frames (unread s @ concat (c # cs)) = (qs @ rs, r', b)"
    using frames_append [of "unread s @ c" "concat cs"] f nb g by simp
  with Cons.prems(4) have p: "ps = qs @ rs" "r' = r" "\<not> b" by auto
  with g u have "frames (unread ?s @ concat cs) = (rs, r, False)" by simp
  with Cons.IH [of ?s rs] i Cons.prems(2,3) obtain s' where
    "recv_all cs ?s = (rs, s')" "unread s' = r" "recv_inv s'" "mState s' = mState ?s" by auto
  with e p show ?case by simp
qed

text \<open>
  C1: the reassembly implements the stream protocol. As long as the stream has no impossible
  header, and however the network cuts it into chunks (of at most the receive buffer's size),
  the callback gets exactly the packets of the stream, in order and each exactly once; the
  session stays connected, and the incomplete rest stays in the buffer.
\<close>

theorem recv_refines_stream:
  assumes "recv_inv s" and "mOnRecvCb s" and "\<forall>c \<in> set cs. length c \<le> unat RECV_BUFFER_SIZE"
    and "frames (unread s @ concat cs) = (ps, r, False)"
  shows "\<exists>s'. recv_all cs s = (ps, s') \<and> unread s' = r \<and> recv_inv s' \<and> mState s' = mState s"
  by (rule recv_all_frames [OF assms])

text \<open>
  packets that a peer builds with correct headers arrive. Whatever valid packets are
  written to the stream and however it is cut into chunks, a fresh connected session delivers
  exactly these packets and is empty and connected afterwards.
\<close>

theorem packets_delivered:
  assumes "\<forall>p \<in> set ps. valid_packet p" and "concat cs = concat ps" and "\<forall>c \<in> set cs. length c \<le> unat RECV_BUFFER_SIZE"
  shows "\<exists>s'. recv_all cs (SetOnRecv True (Session_Initialize i sock now s)) = (ps, s') \<and>
    unread s' = [] \<and> IsConnected s'"
proof -
  let ?s = "SetOnRecv True (Session_Initialize i sock now s)"
  have s: "recv_inv ?s" "mOnRecvCb ?s" "unread ?s = []" "mState ?s = Connected"
    by (simp_all add: recv_inv_def unread_def SetOnRecv_def Session_Initialize_def)
  have "frames (unread ?s @ concat cs) = (ps, [], False)"
    using frames_packets [of ps] assms(1,2) s(3) by simp
  from recv_refines_stream [OF s(1,2) assms(3) this] s(4) show ?thesis by (auto simp: IsConnected_def)
qed

text \<open>
  an impossible size closes the session. When the unread bytes and a new chunk contain a
  header with an impossible size, the session is closed, its buffer is dropped, and nothing of
  that chunk is delivered, not even packets completed before the bad header. The overflow guard
  alone is never the reason: chunks of the receive buffer's size cannot reach it.
\<close>

theorem bad_header_closes:
  assumes "recv_inv s" and "mOnRecvCb s" and "length data \<le> unat RECV_BUFFER_SIZE"
  shows "(mState (snd (ProcessRawRecv data s)) = Disconnected \<longleftrightarrow>
      mState s = Disconnected \<or> snd (snd (frames (unread s @ data)))) \<and>
    (snd (snd (frames (unread s @ data))) \<longrightarrow> fst (ProcessRawRecv data s) = []) \<and>
    length (mRecvAccumBuffer s) - mRecvAccumOffset s + length data \<le> kMaxAccumSize"
proof -
  obtain ps r bad where f: "frames (unread s @ data) = (ps, r, bad)" by (cases "frames (unread s @ data)")
  have small: "length data \<le> 8192" using assms(3) by (simp add: RECV_BUFFER_SIZE_def)
  note P = ProcessRawRecv_frames [OF assms(1,2) small f]
  have "mState (snd (ProcessRawRecv data s)) = Disconnected \<longleftrightarrow> mState s = Disconnected \<or> bad"
    using P by (cases bad) auto
  moreover have "bad \<longrightarrow> fst (ProcessRawRecv data s) = []" using P by (metis fst_conv)
  moreover have "length (mRecvAccumBuffer s) - mRecvAccumOffset s + length data \<le> kMaxAccumSize"
    using recv_inv_unread_short [OF assms(1)] small by (simp add: unread_def)
  ultimately show ?thesis using f by simp
qed

subsection \<open>Closing and reuse\<close>

text \<open>
  closing is idempotent and closes the socket exactly once, whoever calls it; afterwards
  nothing is sent or delivered, and when no task is in flight \<open>Reset\<close> and \<open>Initialize\<close> give a
  session that behaves like a new one with the new identity and socket.
\<close>

theorem close_then_reuse:
  assumes "mState s \<noteq> Disconnected" and "mInFlight (mAsyncScope s) = 0"
  shows "fst (Session_Close s) = (if mSocket s = GetInvalidSocket then None else Some (mSocket s)) \<and>
    fst (Session_Close (snd (Session_Close s))) = None \<and>
    Send_guards d (snd (Session_Close s)) = Some NotConnected \<and>
    (\<exists>t. Session_Reset (snd (Session_Close s)) = Some t \<and>
       Session_Initialize i sock now t = Session_Initialize i sock now Session_new)"
  using assms by (auto simp: Session_Close_def Send_guards_def IsConnected_def Session_Reset_def AS_Reset_def AS_Cancel_def
      Session_Initialize_def Session_new_def AS_new_def split: option.splits)

subsection \<open>Concrete runs\<close>

abbreviation ping_packet :: "byte list" where
  "ping_packet \<equiv> PKT_PingReq_bytes PKT_PingReq_new"

lemma ping_packet_bytes: "ping_packet = [16, 0, 3, 0, 0, 0, 0, 0, 0, 0, 0, 0, 0, 0, 0, 0]"
  by (simp add: PKT_PingReq_bytes_def PKT_PingReq_new_def PacketHeader_make_def PacketHeader_bytes_def le_bytes_numeral)

lemma hdr_size_16: "hdr_size (16 # 0 # bs) = 16"
  by (simp add: hdr_size_def PacketHeader_read_def field_def)

lemma ping_packet_valid: "valid_packet ping_packet"
  by (simp add: ping_packet_bytes valid_packet_def hdr_size_16 bad_size_iff)

theorem packets_delivered_witness:
  "\<exists>s'. recv_all [take 3 ping_packet, drop 3 ping_packet @ take 10 ping_packet, drop 10 ping_packet]
      (SetOnRecv True (Session_Initialize 1 5 0 Session_new)) = ([ping_packet, ping_packet], s') \<and> IsConnected s'"
  using packets_delivered [of "[ping_packet, ping_packet]"
      "[take 3 ping_packet, drop 3 ping_packet @ take 10 ping_packet, drop 10 ping_packet]" 1 5 0 Session_new]
    ping_packet_valid
  by (auto simp: RECV_BUFFER_SIZE_def ping_packet_bytes)

theorem recv_refines_stream_witness:
  "\<exists>s'. recv_all [take 3 ping_packet, drop 3 ping_packet @ take 10 ping_packet]
      (SetOnRecv True (Session_Initialize 1 5 0 Session_new)) = ([ping_packet], s') \<and> unread s' = take 10 ping_packet"
proof -
  let ?s = "SetOnRecv True (Session_Initialize 1 5 0 Session_new)"
  let ?cs = "[take 3 ping_packet, drop 3 ping_packet @ take 10 ping_packet]"
  have s: "recv_inv ?s" "mOnRecvCb ?s" "unread ?s = []"
    by (simp_all add: recv_inv_def unread_def SetOnRecv_def Session_Initialize_def)
  have small: "\<forall>c \<in> set ?cs. length c \<le> unat RECV_BUFFER_SIZE" by (simp add: RECV_BUFFER_SIZE_def ping_packet_bytes)
  have r: "frames (take 10 ping_packet) = ([], take 10 ping_packet, False)"
    by (rule frames_unfold(3)) (simp_all add: ping_packet_bytes hdr_size_16 bad_size_iff)
  have "concat ?cs = ping_packet @ take 10 ping_packet" by (simp only: concat.simps append_Nil2 append_assoc [symmetric] append_take_drop_id)
  then have "frames (unread ?s @ concat ?cs) = ([ping_packet], take 10 ping_packet, False)"
    using frames_append [of ping_packet "take 10 ping_packet"] frames_packet [OF ping_packet_valid] r s(3)
    by (simp del: concat.simps)
  from recv_refines_stream [OF s(1,2) small this] show ?thesis by auto
qed

theorem bad_header_closes_witness:
  "mState (snd (ProcessRawRecv (ping_packet @ [1, 0, 0, 0]) (SetOnRecv True (Session_Initialize 1 5 0 Session_new)))) = Disconnected \<and>
   fst (ProcessRawRecv (ping_packet @ [1, 0, 0, 0]) (SetOnRecv True (Session_Initialize 1 5 0 Session_new))) = []"
proof -
  let ?s = "SetOnRecv True (Session_Initialize 1 5 0 Session_new)"
  let ?d = "ping_packet @ [1, 0, 0, 0]"
  have s: "recv_inv ?s" "mOnRecvCb ?s" "unread ?s = []"
    by (simp_all add: recv_inv_def unread_def SetOnRecv_def Session_Initialize_def)
  have small: "length ?d \<le> unat RECV_BUFFER_SIZE" by (simp add: RECV_BUFFER_SIZE_def ping_packet_bytes)
  have "hdr_size [1, 0, 0, 0] = 1" by (simp add: hdr_size_def PacketHeader_read_def field_def)
  then have "snd (snd (frames [1, 0, 0, 0]))" using frames_unfold(2) [of "[1, 0, 0, 0]"] by (simp add: bad_size_iff)
  then have "snd (snd (frames ?d))"
    using frames_append [of ping_packet "[1, 0, 0, 0]"] frames_packet [OF ping_packet_valid] by simp
  with bad_header_closes [OF s(1,2) small] s(3) show ?thesis by simp
qed

theorem close_then_reuse_witness:
  "\<exists>t. Session_Reset (snd (Session_Close (Session_Initialize 1 5 0 Session_new))) = Some t \<and>
     mSocket (Session_Initialize 2 6 9 t) = 6"
  using close_then_reuse [of "Session_Initialize 1 5 0 Session_new" None 2 6 9]
  by (auto simp: Session_Initialize_def Session_new_def AS_new_def)

end
