(* ===== verification/Session_Send.thy ===== *)
theory Session_Send
  imports Session "HOL-Library.Sublist"
begin

section \<open>The send path\<close>

text \<open>
  \<open>Session::Send\<close>, \<open>FlushSendQueue\<close> and \<open>PostSend\<close> with \<open>Session::Close\<close>, on the POSIX build, as any number of
  threads run them. An action is one atomic operation or one critical section under \<open>mSendMutex\<close>.
  A thread is in a call of \<open>Send\<close> or \<open>Close\<close>, or handles a completion: \<open>ProcessSendCompletion\<close> calls
  \<open>PostSend\<close>, and \<open>ProcessErrorCompletion\<close> closes the session. What \<open>SendAsync\<close> answers and when a
  completion arrives is the provider's choice.
\<close>

subsection \<open>The machine\<close>

datatype send_pc =
    PIdle
  | PConn "byte list"         \<comment> \<open>\<open>Send\<close>: about to test the connection and the size\<close>
  | PBack "byte list"         \<comment> \<open>about to test the back pressure\<close>
  | PPush "byte list"         \<comment> \<open>about to queue under the mutex\<close>
  | PFlush                    \<comment> \<open>\<open>FlushSendQueue\<close>: about to compare and exchange\<close>
  | PCheck                    \<comment> \<open>\<open>PostSend\<close>: about to read the queue size\<close>
  | PRelease                  \<comment> \<open>size was zero: about to clear \<open>mIsSending\<close>\<close>
  | PRecheck                  \<comment> \<open>about to read the size again\<close>
  | PPop                      \<comment> \<open>about to take a packet under the mutex\<close>
  | PProv "byte list"         \<comment> \<open>about to copy the provider under the mutex\<close>
  | PSendAsync "byte list"    \<comment> \<open>about to call \<open>SendAsync\<close>\<close>
  | PClose1                   \<comment> \<open>\<open>Close\<close>: about to exchange the state\<close>
  | PClose2                   \<comment> \<open>about to drain the queue under the mutex\<close>

text \<open>
  \<open>sInflight\<close>: a send the provider has accepted and not completed. \<open>sAccepted\<close>, \<open>sSent\<close>: history of
  the packets queued, and of those the provider accepted, with the socket. \<open>sFailed\<close>: whether a
  send or a completion has failed.
\<close>

record send_sys =
  sSes :: Session
  sPcs :: "send_pc list"
  sInflight :: bool
  sAccepted :: "byte list list"
  sSent :: "(int \<times> byte list) list"
  sResults :: "SendResult list"
  sFailed :: bool

definition set_pc :: "nat \<Rightarrow> send_pc \<Rightarrow> send_sys \<Rightarrow> send_sys" where
  "set_pc c p s = s\<lparr>sPcs := (sPcs s)[c := p]\<rparr>"

definition ses :: "(Session \<Rightarrow> Session) \<Rightarrow> send_sys \<Rightarrow> send_sys" where
  "ses f s = s\<lparr>sSes := f (sSes s)\<rparr>"

definition returns :: "nat \<Rightarrow> SendResult \<Rightarrow> send_sys \<Rightarrow> send_sys" where
  "returns c r s = set_pc c PIdle (s\<lparr>sResults := sResults s @ [r]\<rparr>)"

text \<open>\<open>Close\<close> in two steps: the exchanges of state and socket, and the critical section with what follows.\<close>

definition Close_exchange :: "Session \<Rightarrow> Session" where
  "Close_exchange s = s\<lparr>mState := Disconnected, mSocket := GetInvalidSocket\<rparr>"

definition Close_drain :: "Session \<Rightarrow> Session" where
  "Close_drain s = s\<lparr>mAsyncProvider := False, mSendQueue := [], mSendQueueSize := 0,
     mRecvAccumBuffer := [], mRecvAccumOffset := 0, mAsyncScope := AS_Cancel (mAsyncScope s)\<rparr>"

lemma Session_Close_steps:
  "mState s \<noteq> Disconnected \<Longrightarrow> snd (Session_Close s) = Close_drain (Close_exchange s)"
  by (simp add: Session_Close_def Close_exchange_def Close_drain_def)

definition Send_next :: "nat \<Rightarrow> send_sys \<Rightarrow> send_sys" where
  "Send_next c s =
     (case sPcs s ! c of
        PConn d \<Rightarrow>
          if \<not> IsConnected (sSes s) \<or> d = [] then returns c NotConnected s
          else if unat MAX_PACKET_TOTAL_SIZE < length d then returns c QueueFull s
          else set_pc c (PBack d) s
      | PBack d \<Rightarrow>
          if SEND_QUEUE_BACKPRESSURE_THRESHOLD \<le> mSendQueueSize (sSes s) then returns c QueueFull s
          else set_pc c (PPush d) s
      | PPush d \<Rightarrow>
          set_pc c PFlush (ses (\<lambda>t. t\<lparr>mSendQueue := mSendQueue t @ [d], mSendQueueSize := mSendQueueSize t + 1\<rparr>)
            (s\<lparr>sAccepted := sAccepted s @ [d], sResults := sResults s @ [SR_Ok]\<rparr>))
      | _ \<Rightarrow> s)"

definition FlushSendQueue :: "nat \<Rightarrow> send_sys \<Rightarrow> send_sys" where
  "FlushSendQueue c s =
     (if mIsSending (sSes s) then set_pc c PIdle s
      else set_pc c PCheck (ses (\<lambda>t. t\<lparr>mIsSending := True\<rparr>) s))"

definition PostSend_next :: "bool \<Rightarrow> nat \<Rightarrow> send_sys \<Rightarrow> send_sys" where
  "PostSend_next ok c s =
     (case sPcs s ! c of
        PCheck \<Rightarrow> set_pc c (if mSendQueueSize (sSes s) = 0 then PRelease else PPop) s
      | PRelease \<Rightarrow> set_pc c PRecheck (ses (\<lambda>t. t\<lparr>mIsSending := False\<rparr>) s)
      | PRecheck \<Rightarrow> set_pc c (if 0 < mSendQueueSize (sSes s) then PFlush else PIdle) s
      | PPop \<Rightarrow>
          (case mSendQueue (sSes s) of
             [] \<Rightarrow> set_pc c PIdle (ses (\<lambda>t. t\<lparr>mIsSending := False\<rparr>) s)
           | d # q \<Rightarrow> set_pc c (PProv d) (ses (\<lambda>t. t\<lparr>mSendQueue := q, mSendQueueSize := mSendQueueSize t - 1\<rparr>) s))
      | PProv d \<Rightarrow>
          if mAsyncProvider (sSes s) then set_pc c (PSendAsync d) s
          else set_pc c PIdle (ses (\<lambda>t. t\<lparr>mIsSending := False\<rparr>) s)
      | PSendAsync d \<Rightarrow>
          if ok then set_pc c PIdle (s\<lparr>sInflight := True, sSent := sSent s @ [(mSocket (sSes s), d)]\<rparr>)
          else set_pc c PClose1 (ses (\<lambda>t. t\<lparr>mIsSending := False\<rparr>) (s\<lparr>sFailed := True\<rparr>))
      | _ \<Rightarrow> s)"

definition Close_next :: "nat \<Rightarrow> send_sys \<Rightarrow> send_sys" where
  "Close_next c s =
     (case sPcs s ! c of
        PClose1 \<Rightarrow>
          if mState (sSes s) = Disconnected then set_pc c PIdle s else set_pc c PClose2 (ses Close_exchange s)
      | PClose2 \<Rightarrow> set_pc c PIdle (ses Close_drain s)
      | _ \<Rightarrow> s)"

datatype send_event =
    ESend nat "byte list"     \<comment> \<open>a thread calls \<open>Send\<close>\<close>
  | EClose nat                \<comment> \<open>a thread calls \<open>Close\<close>\<close>
  | EComplete nat             \<comment> \<open>a thread handles the completion of the send in flight\<close>
  | EError nat                \<comment> \<open>a thread handles its failure\<close>
  | EStep nat bool            \<comment> \<open>a thread's next action; the flag is what \<open>SendAsync\<close> answers\<close>

definition idle :: "nat \<Rightarrow> send_sys \<Rightarrow> bool" where
  "idle c s \<longleftrightarrow> c < length (sPcs s) \<and> sPcs s ! c = PIdle"

fun step_thread :: "bool \<Rightarrow> nat \<Rightarrow> send_pc \<Rightarrow> send_sys \<Rightarrow> send_sys" where
  "step_thread ok c PIdle s = s"
| "step_thread ok c (PConn d) s = Send_next c s"
| "step_thread ok c (PBack d) s = Send_next c s"
| "step_thread ok c (PPush d) s = Send_next c s"
| "step_thread ok c PFlush s = FlushSendQueue c s"
| "step_thread ok c PClose1 s = Close_next c s"
| "step_thread ok c PClose2 s = Close_next c s"
| "step_thread ok c _ s = PostSend_next ok c s"

fun send_next :: "send_event \<Rightarrow> send_sys \<Rightarrow> send_sys option" where
  "send_next (ESend c d) s = (if idle c s then Some (set_pc c (PConn d) s) else None)"
| "send_next (EClose c) s = (if idle c s then Some (set_pc c PClose1 s) else None)"
| "send_next (EComplete c) s =
     (if idle c s \<and> sInflight s then Some (set_pc c PCheck (s\<lparr>sInflight := False\<rparr>)) else None)"
| "send_next (EError c) s =
     (if idle c s \<and> sInflight s then Some (set_pc c PClose1 (s\<lparr>sInflight := False, sFailed := True\<rparr>)) else None)"
| "send_next (EStep c ok) s =
     (if c < length (sPcs s) \<and> sPcs s ! c \<noteq> PIdle then Some (step_thread ok c (sPcs s ! c) s) else None)"

fun send_run :: "send_event list \<Rightarrow> send_sys \<Rightarrow> send_sys option" where
  "send_run [] s = Some s"
| "send_run (e # es) s = (case send_next e s of None \<Rightarrow> None | Some s' \<Rightarrow> send_run es s')"

text \<open>A connected session with a provider, and \<open>n\<close> threads.\<close>

definition send_init :: "nat \<Rightarrow> Session \<Rightarrow> send_sys" where
  "send_init n t = \<lparr>sSes = t, sPcs = replicate n PIdle, sInflight = False, sAccepted = [], sSent = [],
     sResults = [], sFailed = False\<rparr>"

definition fresh_session :: "Session \<Rightarrow> bool" where
  "fresh_session t \<longleftrightarrow> mState t = Connected \<and> mAsyncProvider t \<and> \<not> mIsSending t \<and> mSendQueue t = [] \<and> mSendQueueSize t = 0"

subsection \<open>The invariant\<close>

text \<open>Who holds the right to send, who still looks at the queue, and the packet on its way.\<close>

fun holds :: "send_pc \<Rightarrow> nat" where
  "holds PCheck = 1"
| "holds PRelease = 1"
| "holds PPop = 1"
| "holds (PProv d) = 1"
| "holds (PSendAsync d) = 1"
| "holds _ = 0"

fun pushing :: "send_pc \<Rightarrow> nat" where
  "pushing (PPush d) = 1"
| "pushing _ = 0"

fun popped :: "send_pc \<Rightarrow> byte list list" where
  "popped (PProv d) = [d]"
| "popped (PSendAsync d) = [d]"
| "popped _ = []"

fun handing :: "send_pc \<Rightarrow> byte list list" where
  "handing (PSendAsync d) = [d]"
| "handing _ = []"

definition holders :: "send_sys \<Rightarrow> nat" where
  "holders s = sum_list (map holds (sPcs s)) + (if sInflight s then 1 else 0)"

definition sent :: "send_sys \<Rightarrow> byte list list" where
  "sent s = map snd (sSent s)"

text \<open>
  The parts of the invariant: the right to send is unique; the size counter is exact and the
  queue bounded; a failure leads to a close; while there is a provider, packets in the queue
  have someone to look after them; and nothing is sent out of order.
\<close>

definition inv_token :: "send_sys \<Rightarrow> bool" where
  "inv_token s \<longleftrightarrow> holders s \<le> 1 \<and> (holders s = 1 \<longrightarrow> mIsSending (sSes s)) \<and>
     (\<not> sFailed s \<longrightarrow> mIsSending (sSes s) \<longrightarrow> holders s = 1)"

definition inv_size :: "send_sys \<Rightarrow> bool" where
  "inv_size s \<longleftrightarrow> mSendQueueSize (sSes s) = of_nat (length (mSendQueue (sSes s))) \<and>
     length (mSendQueue (sSes s)) + sum_list (map pushing (sPcs s)) \<le> 63 + length (sPcs s)"

definition inv_state :: "send_sys \<Rightarrow> bool" where
  "inv_state s \<longleftrightarrow> (mState (sSes s) = Connected \<or> mState (sSes s) = Disconnected) \<and>
     (mState (sSes s) = Connected \<longrightarrow> mAsyncProvider (sSes s)) \<and> (PClose2 \<in> set (sPcs s) \<longrightarrow> mState (sSes s) = Disconnected) \<and>
     (sFailed s \<longrightarrow> mState (sSes s) = Connected \<longrightarrow> PClose1 \<in> set (sPcs s))"

definition inv_wake :: "send_sys \<Rightarrow> bool" where
  "inv_wake s \<longleftrightarrow> (mAsyncProvider (sSes s) \<longrightarrow> mSendQueue (sSes s) \<noteq> [] \<longrightarrow>
     mIsSending (sSes s) \<or> PFlush \<in> set (sPcs s) \<or> PRecheck \<in> set (sPcs s) \<or> sFailed s)"

definition inv_order :: "send_sys \<Rightarrow> bool" where
  "inv_order s \<longleftrightarrow> (\<not> sFailed s \<longrightarrow>
     (mAsyncProvider (sSes s) \<longrightarrow> sAccepted s = sent s @ concat (map popped (sPcs s)) @ mSendQueue (sSes s)) \<and>
     prefix (sent s @ concat (map handing (sPcs s))) (sAccepted s))"

definition send_inv :: "send_sys \<Rightarrow> bool" where
  "send_inv s \<longleftrightarrow> inv_token s \<and> inv_size s \<and> inv_state s \<and> inv_wake s \<and> inv_order s"

lemmas send_steps = Send_next_def FlushSendQueue_def PostSend_next_def Close_next_def set_pc_def ses_def returns_def idle_def
  Close_exchange_def Close_drain_def

lemma thread_update:
  "c < length ps \<Longrightarrow> sum_list (map f (ps[c := p])) + f (ps ! c) = sum_list (map f ps) + f p" for f :: "send_pc \<Rightarrow> nat"
  by (induction ps arbitrary: c) (auto simp: nth_Cons split: nat.splits)

lemma mem_update: "x \<in> set xs \<Longrightarrow> xs ! c \<noteq> x \<Longrightarrow> x \<in> set (xs[c := y])"
  by (metis in_set_conv_nth length_list_update nth_list_update_neq)

lemma mem_updateD: "x \<in> set (xs[c := y]) \<Longrightarrow> x \<noteq> y \<Longrightarrow> x \<in> set xs"
  using set_update_subset_insert by fastforce

lemma concat_update:
  "f (ps ! c) = [] \<Longrightarrow> f p = [] \<Longrightarrow> concat (map f (ps[c := p])) = concat (map f ps)"
  by (induction ps arbitrary: c) (auto simp: nth_Cons split: nat.splits)

lemma concat_none: "sum_list (map holds ps) = 0 \<Longrightarrow> (\<And>p. holds p = 0 \<Longrightarrow> f p = []) \<Longrightarrow> concat (map f ps) = []"
  by (induction ps) auto

lemma concat_only:
  assumes "c < length ps" and "sum_list (map holds ps) \<le> 1" and "holds (ps ! c) = 1" and "\<And>p. holds p = 0 \<Longrightarrow> f p = []"
  shows "concat (map f (ps[c := p])) = f p"
  using assms
proof (induction ps arbitrary: c)
  case (Cons q ps)
  show ?case
  proof (cases c)
    case 0
    with Cons.prems have "sum_list (map holds ps) = 0" by simp
    with 0 concat_none [of ps f] Cons.prems(4) show ?thesis by simp
  next
    case (Suc k)
    then have k: "k < length ps" "holds (ps ! k) = 1" using Cons.prems by auto
    then have "1 \<le> sum_list (map holds ps)" using thread_update [of k ps holds PIdle] by simp
    then have "holds q = 0" "sum_list (map holds ps) \<le> 1" using Cons.prems(2) by auto
    with Cons.IH [OF k(1) _ k(2) Cons.prems(4)] Suc Cons.prems(4) show ?thesis by simp
  qed
qed simp

lemma popped_holds: "holds p = 0 \<Longrightarrow> popped p = []" "holds p = 0 \<Longrightarrow> handing p = []"
  by (cases p; simp)+

subsection \<open>Every action keeps the invariant\<close>

lemma sum_update:
  fixes f :: "send_pc \<Rightarrow> nat"
  assumes "c < length ps"
  shows "sum_list (map f (ps[c := p])) = sum_list (map f ps) - f (ps ! c) + f p"
    and "f (ps ! c) \<le> sum_list (map f ps)"
proof -
  show le: "f (ps ! c) \<le> sum_list (map f ps)" using elem_le_sum_list [of c "map f ps"] assms by simp
  show "sum_list (map f (ps[c := p])) = sum_list (map f ps) - f (ps ! c) + f p"
    using thread_update [OF assms, of f p] le by simp
qed

text \<open>An event is a thread's action, or an idle thread starting something.\<close>

lemma send_event_cases:
  assumes "send_next e s = Some s'"
  obtains (thread) c ok where "c < length (sPcs s)" "s' = step_thread ok c (sPcs s ! c) s"
  | (start) c p i f where "c < length (sPcs s)" "sPcs s ! c = PIdle"
      "s' = s\<lparr>sPcs := (sPcs s)[c := p], sInflight := i, sFailed := f\<rparr>"
      "(\<exists>d. p = PConn d) \<and> i = sInflight s \<and> f = sFailed s \<or> p = PClose1 \<and> i = sInflight s \<and> f = sFailed s \<or>
       p = PCheck \<and> sInflight s \<and> \<not> i \<and> f = sFailed s \<or> p = PClose1 \<and> sInflight s \<and> \<not> i \<and> f"
proof (cases e)
  case (EStep c ok)
  with assms thread show ?thesis by (auto split: if_splits)
next
  case (ESend c d)
  show ?thesis by (rule start [where c = c and p = "PConn d" and i = "sInflight s" and f = "sFailed s"])
      (use ESend assms in \<open>auto simp: idle_def set_pc_def split: if_splits\<close>)
next
  case (EClose c)
  show ?thesis by (rule start [where c = c and p = PClose1 and i = "sInflight s" and f = "sFailed s"])
      (use EClose assms in \<open>auto simp: idle_def set_pc_def split: if_splits\<close>)
next
  case (EComplete c)
  show ?thesis by (rule start [where c = c and p = PCheck and i = False and f = "sFailed s"])
      (use EComplete assms in \<open>auto simp: idle_def set_pc_def split: if_splits\<close>)
next
  case (EError c)
  show ?thesis by (rule start [where c = c and p = PClose1 and i = False and f = True])
      (use EError assms in \<open>auto simp: idle_def set_pc_def split: if_splits\<close>)
qed

text \<open>What an action does to the right to send: nothing, take it, give it up, or pass it to the provider.\<close>

lemma token_effect:
  assumes "c < length (sPcs s)" and "s' = step_thread ok c (sPcs s ! c) s"
  obtains p where "sPcs s' = (sPcs s)[c := p]"
    "(holds p = holds (sPcs s ! c) \<and> mIsSending (sSes s') = mIsSending (sSes s) \<and> sInflight s' = sInflight s \<and> sFailed s' = sFailed s) \<or>
     (holds (sPcs s ! c) = 0 \<and> holds p = 1 \<and> \<not> mIsSending (sSes s) \<and> mIsSending (sSes s') \<and> sInflight s' = sInflight s \<and> sFailed s' = sFailed s) \<or>
     (holds (sPcs s ! c) = 1 \<and> holds p = 0 \<and> \<not> mIsSending (sSes s') \<and> sInflight s' = sInflight s) \<or>
     (holds (sPcs s ! c) = 1 \<and> holds p = 0 \<and> mIsSending (sSes s') = mIsSending (sSes s) \<and> sInflight s' \<and> sFailed s' = sFailed s)"
proof -
  have up: "sPcs s = (sPcs s)[c := sPcs s ! c]" by simp
  show ?thesis
  proof (cases "sPcs s ! c")
    case PIdle
    then show ?thesis using assms(2) up by (intro that [of PIdle]) auto
  next
    case PPop
    then show ?thesis
      using assms(2) that [of PIdle] by (cases "mSendQueue (sSes s)") (auto simp: send_steps intro: that)
  qed (use assms(2) that in \<open>auto simp: send_steps split: if_splits\<close>)
qed

lemma inv_token_next:
  assumes "send_next e s = Some s'" and "inv_token s"
  shows "inv_token s'"
  using assms(1)
proof (cases rule: send_event_cases)
  case (thread c ok)
  obtain p where p: "sPcs s' = (sPcs s)[c := p]" and e:
    "(holds p = holds (sPcs s ! c) \<and> mIsSending (sSes s') = mIsSending (sSes s) \<and> sInflight s' = sInflight s \<and> sFailed s' = sFailed s) \<or>
     (holds (sPcs s ! c) = 0 \<and> holds p = 1 \<and> \<not> mIsSending (sSes s) \<and> mIsSending (sSes s') \<and> sInflight s' = sInflight s \<and> sFailed s' = sFailed s) \<or>
     (holds (sPcs s ! c) = 1 \<and> holds p = 0 \<and> \<not> mIsSending (sSes s') \<and> sInflight s' = sInflight s) \<or>
     (holds (sPcs s ! c) = 1 \<and> holds p = 0 \<and> mIsSending (sSes s') = mIsSending (sSes s) \<and> sInflight s' \<and> sFailed s' = sFailed s)"
    by (rule token_effect [OF thread])
  note u = sum_update [OF thread(1), of holds]
  have h: "sum_list (map holds (sPcs s')) = sum_list (map holds (sPcs s)) - holds (sPcs s ! c) + holds p"
    unfolding p by (rule u(1))
  define H where "H = sum_list (map holds (sPcs s))"
  define H' where "H' = sum_list (map holds (sPcs s'))"
  from e h u(2) assms(2) show ?thesis
    unfolding inv_token_def holders_def H_def [symmetric] H'_def [symmetric]
    by (elim disjE) (auto split: if_splits)
next
  case (start c p i f)
  define H where "H = sum_list (map holds (sPcs s))"
  have "sum_list (map holds ((sPcs s)[c := p])) = H + holds p"
    using sum_update(1) [OF start(1), of holds p] start(2) by (simp add: H_def)
  with assms(2) start(3,4) show ?thesis
    unfolding inv_token_def holders_def H_def [symmetric] by (auto split: if_splits)
qed

lemma inv_size_next:
  assumes "send_next e s = Some s'" and "inv_size s" and "length (sPcs s) < 2 ^ 63"
  shows "inv_size s'"
  using assms(1)
proof (cases rule: send_event_cases)
  case (thread c ok)
  note u = sum_update [OF thread(1), of pushing]
  let ?P = "sum_list (map pushing (sPcs s))"
  have small: "length (mSendQueue (sSes s)) < 2 ^ 64" using assms(2,3) by (simp add: inv_size_def)
  have push: "sum_list (map pushing ps) \<le> length ps" for ps
  proof (induction ps)
    case (Cons p ps)
    have "pushing p \<le> 1" by (cases p) simp_all
    with Cons.IH show ?case by simp
  qed simp
  have pl: "sum_list (map pushing (sPcs s')) \<le> length (sPcs s')" by (rule push)
  show ?thesis
  proof (cases "sPcs s ! c")
    case (PBack d)
    with thread(2) show ?thesis
      using pl assms(2) small u(1) [of PIdle] u(2)
      by (auto simp: send_steps inv_size_def SEND_QUEUE_BACKPRESSURE_THRESHOLD_def word_le_nat_alt unat_of_nat split: if_splits)
  next
    case PPop
    with thread(2) show ?thesis
      using assms(2) u(1) [of PIdle] u(1) [of "PProv d" for d] u(2)
      by (cases "mSendQueue (sSes s)") (auto simp: send_steps inv_size_def)
  qed (use thread(2) assms(2) u in \<open>auto simp: send_steps inv_size_def split: if_splits\<close>)
next
  case (start c p i f)
  with assms(2) sum_update(1) [OF start(1), of pushing p] show ?thesis by (auto simp: inv_size_def)
qed

lemma inv_state_next:
  assumes "send_next e s = Some s'" and "inv_state s"
  shows "inv_state s'"
  using assms(1)
proof (cases rule: send_event_cases)
  case (thread c ok)
  have mu: "x \<in> set ((sPcs s)[c := p])" if "x \<in> set (sPcs s)" "sPcs s ! c \<noteq> x" for x p using that by (rule mem_update)
  have md: "x \<in> set (sPcs s)" if "x \<in> set ((sPcs s)[c := p])" "x \<noteq> p" for x p using that by (rule mem_updateD)
  have own: "p \<in> set ((sPcs s)[c := p])" for p using thread(1) by (rule set_update_memI)
  have at: "sPcs s ! c \<in> set (sPcs s)" using thread(1) by (rule nth_mem)
  show ?thesis
  proof (cases "sPcs s ! c")
    case PPop
    then show ?thesis using assms(2) thread(2) mu [of PClose1] md [of PClose2]
      by (cases "mSendQueue (sSes s)") (auto simp: send_steps inv_state_def)
  qed (use assms(2) thread(2) at own mu [of PClose1] md [of PClose2] in
      \<open>auto simp: send_steps inv_state_def split: if_splits\<close>)
next
  case (start c p i f)
  have "x \<in> set ((sPcs s)[c := p])" if "x \<in> set (sPcs s)" "x \<noteq> PIdle" for x
    using that start(2) by (intro mem_update) auto
  moreover have "p \<in> set ((sPcs s)[c := p])" using start(1) by (rule set_update_memI)
  ultimately show ?thesis using assms(2) start by (auto simp: inv_state_def dest: mem_updateD)
qed

lemma size_zero_queue:
  assumes "inv_size s" and "length (sPcs s) < 2 ^ 63"
  shows "mSendQueueSize (sSes s) = 0 \<longleftrightarrow> mSendQueue (sSes s) = []"
proof -
  have "length (mSendQueue (sSes s)) < 2 ^ 64" using assms by (simp add: inv_size_def)
  from of_nat_size_0_iff [OF this] assms(1) show ?thesis by (simp add: inv_size_def)
qed

lemma inv_wake_next:
  assumes "send_next e s = Some s'" and "inv_wake s" and "inv_token s" and "inv_size s" and "length (sPcs s) < 2 ^ 63"
  shows "inv_wake s'"
  using assms(1)
proof (cases rule: send_event_cases)
  case (thread c ok)
  have mu: "x \<in> set ((sPcs s)[c := p])" if "x \<in> set (sPcs s)" "sPcs s ! c \<noteq> x" for x p using that by (rule mem_update)
  have own: "p \<in> set ((sPcs s)[c := p])" for p using thread(1) by (rule set_update_memI)
  note z = size_zero_queue [OF assms(4,5)]
  have hold: "mIsSending (sSes s)" if "holds (sPcs s ! c) = 1"
  proof -
    have "1 \<le> holders s" using that sum_update(2) [OF thread(1), of holds] by (simp add: holders_def)
    with assms(3) show ?thesis by (simp add: inv_token_def)
  qed
  show ?thesis
  proof (cases "sPcs s ! c")
    case PPop
    then show ?thesis using assms(2) thread(2) hold
      by (cases "mSendQueue (sSes s)") (auto simp: send_steps inv_wake_def)
  next
    case PRecheck
    then show ?thesis using assms(2) thread(2) own [of PFlush] z by (auto simp: send_steps inv_wake_def word_gt_0)
  qed (use assms(2) thread(2) own [of PFlush] own [of PRecheck] mu [of PFlush] mu [of PRecheck] in
      \<open>auto simp: send_steps inv_wake_def split: if_splits\<close>)
next
  case (start c p i f)
  have "x \<in> set ((sPcs s)[c := p])" if "x \<in> set (sPcs s)" "x \<noteq> PIdle" for x
    using that start(2) by (intro mem_update) auto
  then show ?thesis using assms(2) start by (auto simp: inv_wake_def)
qed

lemma inv_order_next:
  assumes "send_next e s = Some s'" and "inv_order s" and "inv_token s"
  shows "inv_order s'"
  using assms(1)
proof (cases rule: send_event_cases)
  case (thread c ok)
  let ?ps = "sPcs s"
  have le: "sum_list (map holds ?ps) \<le> 1" using assms(3) by (simp add: inv_token_def holders_def split: if_splits)
  have only: "concat (map popped (?ps[c := p])) = popped p" "concat (map handing (?ps[c := p])) = handing p"
    "concat (map popped ?ps) = popped (?ps ! c)" "concat (map handing ?ps) = handing (?ps ! c)"
    if "holds (?ps ! c) = 1" for p
    using concat_only [OF thread(1) le that popped_holds(1), where p = p] concat_only [OF thread(1) le that popped_holds(2), where p = p]
      concat_only [OF thread(1) le that popped_holds(1), where p = "?ps ! c"] concat_only [OF thread(1) le that popped_holds(2), where p = "?ps ! c"]
    by simp_all
  have same: "concat (map popped (?ps[c := p])) = concat (map popped ?ps)" "concat (map handing (?ps[c := p])) = concat (map handing ?ps)"
    if "holds (?ps ! c) = 0" "popped p = []" "handing p = []" for p
    using that by (auto intro!: concat_update simp: popped_holds)
  show ?thesis
  proof (cases "?ps ! c")
    case PPop
    then show ?thesis using assms(2) thread(2) only
      by (cases "mSendQueue (sSes s)") (auto simp: send_steps inv_order_def sent_def)
  next
    case (PPush d)
    then show ?thesis using assms(2) thread(2) same by (auto simp: send_steps inv_order_def sent_def)
  next
    case (PSendAsync d)
    then show ?thesis using assms(2) thread(2) only by (auto simp: send_steps inv_order_def sent_def)
  next
    case (PProv d)
    then show ?thesis using assms(2) thread(2) only by (auto simp: send_steps inv_order_def sent_def)
  next
    case PCheck
    then show ?thesis using assms(2) thread(2) only by (auto simp: send_steps inv_order_def sent_def)
  next
    case PRelease
    then show ?thesis using assms(2) thread(2) only by (auto simp: send_steps inv_order_def sent_def)
  qed (use assms(2) thread(2) same in \<open>auto simp: send_steps inv_order_def sent_def split: if_splits\<close>)
next
  case (start c p i f)
  have "concat (map popped ((sPcs s)[c := p])) = concat (map popped (sPcs s))"
    "concat (map handing ((sPcs s)[c := p])) = concat (map handing (sPcs s))"
    using start(2,4) by (auto intro!: concat_update)
  with assms(2) start(3,4) show ?thesis by (auto simp: inv_order_def sent_def)
qed

lemma send_next_length:
  assumes "send_next e s = Some s'"
  shows "length (sPcs s') = length (sPcs s)"
  using assms
proof (cases rule: send_event_cases)
  case (thread c ok)
  show ?thesis by (rule token_effect [OF thread]) simp
qed simp

lemma send_run_inv:
  "send_run es s = Some s' \<Longrightarrow> send_inv s \<Longrightarrow> length (sPcs s) < 2 ^ 63 \<Longrightarrow> send_inv s' \<and> length (sPcs s') = length (sPcs s)"
proof (induction es arbitrary: s)
  case (Cons e es)
  then obtain t where t: "send_next e s = Some t" "send_run es t = Some s'" by (auto split: option.splits)
  have "send_inv t"
    using Cons.prems(2,3) inv_token_next [OF t(1)] inv_size_next [OF t(1)] inv_state_next [OF t(1)]
      inv_wake_next [OF t(1)] inv_order_next [OF t(1)] by (simp add: send_inv_def)
  with Cons.IH [OF t(2)] send_next_length [OF t(1)] Cons.prems(3) show ?case by simp
qed simp

lemma send_inv_init: "fresh_session t \<Longrightarrow> send_inv (send_init n t)"
  by (auto simp: send_inv_def send_init_def fresh_session_def inv_token_def inv_size_def inv_state_def inv_wake_def
      inv_order_def holders_def sent_def map_replicate_const sum_list_replicate)

subsection \<open>What senders get\<close>

text \<open>
  C7: sends are serialised and in order. In every run at most one thread is between taking the
  right to send and giving it up, or one send is in flight; and until a send fails, what the
  provider has been given is a prefix of what \<open>Send\<close> has accepted, in the order it was queued.
\<close>

theorem send_in_order:
  assumes "send_run es (send_init n t) = Some s" and "fresh_session t" and "n < 2 ^ 63"
  shows "holders s \<le> 1 \<and> (\<not> sFailed s \<longrightarrow> prefix (sent s) (sAccepted s))"
proof -
  have "send_inv s" using send_run_inv [OF assms(1) send_inv_init [OF assms(2)]] assms(3) by (simp add: send_init_def)
  then show ?thesis
    by (auto simp: send_inv_def inv_token_def inv_order_def dest: append_prefixD)
qed

text \<open>
  C19: no packet is forgotten. Whenever a run has come to rest (no thread inside the send path, no
  send in flight) and the session is still connected, the queue is empty and every packet for
  which \<open>Send\<close> returned \<open>Ok\<close> has been given to the provider, in order. Releasing the flag and
  queueing a packet at the same time does not lose the wake-up.
\<close>

theorem send_nothing_forgotten:
  assumes "send_run es (send_init n t) = Some s" and "fresh_session t" and "n < 2 ^ 63"
    and "set (sPcs s) \<subseteq> {PIdle}" and "\<not> sInflight s" and "IsConnected (sSes s)"
  shows "mSendQueue (sSes s) = [] \<and> \<not> mIsSending (sSes s) \<and> sent s = sAccepted s"
proof -
  have inv: "send_inv s" using send_run_inv [OF assms(1) send_inv_init [OF assms(2)]] assms(3) by (simp add: send_init_def)
  then have f: "\<not> sFailed s" and pr: "mAsyncProvider (sSes s)"
    using assms(4,6) by (auto simp: send_inv_def inv_state_def IsConnected_def)
  have "holds p = 0" "popped p = []" if "p \<in> set (sPcs s)" for p using that assms(4) by auto
  then have h: "holders s = 0" "concat (map popped (sPcs s)) = []"
    using assms(5) by (auto simp: holders_def)
  with inv f have ns: "\<not> mIsSending (sSes s)" by (auto simp: send_inv_def inv_token_def)
  have "PFlush \<notin> set (sPcs s)" "PRecheck \<notin> set (sPcs s)" using assms(4) by auto
  with inv f pr ns have "mSendQueue (sSes s) = []" by (simp add: send_inv_def inv_wake_def)
  with inv f pr h ns show ?thesis by (simp add: send_inv_def inv_order_def)
qed

text \<open>
  back pressure bounds the queue. The test of the threshold and the queueing are separate
  actions, so threads may overtake each other, but the queue never exceeds the threshold by as
  much as the number of threads; and the counter always equals the length of the queue.
\<close>

theorem send_queue_bounded:
  assumes "send_run es (send_init n t) = Some s" and "fresh_session t" and "n < 2 ^ 63"
  shows "length (mSendQueue (sSes s)) < unat SEND_QUEUE_BACKPRESSURE_THRESHOLD + n \<and>
    unat (mSendQueueSize (sSes s)) = length (mSendQueue (sSes s))"
proof -
  have inv: "send_inv s" and len: "length (sPcs s) = n"
    using send_run_inv [OF assms(1) send_inv_init [OF assms(2)]] assms(3) by (simp_all add: send_init_def)
  from inv len have b: "length (mSendQueue (sSes s)) \<le> 63 + n" by (simp add: send_inv_def inv_size_def)
  then have "length (mSendQueue (sSes s)) < unat SEND_QUEUE_BACKPRESSURE_THRESHOLD + n"
    by (simp add: SEND_QUEUE_BACKPRESSURE_THRESHOLD_def)
  moreover have "unat (mSendQueueSize (sSes s)) = length (mSendQueue (sSes s))"
    using inv b assms(3) by (simp add: send_inv_def inv_size_def unat_of_nat)
  ultimately show ?thesis by simp
qed

subsection \<open>A packet of the last connection\<close>

text \<open>
  a packet can reach the wrong client. A thread in \<open>Send\<close> that has passed the tests may queue
  its packet after \<open>Close\<close> has drained the queue; if a send is in flight it does not flush. \<open>Close\<close>
  returns at once on the closed session, \<open>Reset\<close> and \<open>Initialize\<close> set the counter to zero but do
  not touch the queue, so the slot is handed to the next connection with the old packet in front: the
  next \<open>Send\<close> gives the old packet to the new socket, and its own packet stays behind with the
  counter at zero, so that nothing will send it.
\<close>

theorem stale_packet_sent_to_next_client:
  assumes "fresh_session t" and "mSocket t = fd" and "AS_Reset (AS_Cancel (mAsyncScope t)) = Some sc"
    and "length a \<in> {1..4096}" and "length b \<in> {1..4096}" and "length d \<in> {1..4096}"
  shows "\<exists>es s u. send_run es (send_init 3 t) = Some s \<and> sResults s = [SR_Ok, SR_Ok] \<and> sent s = [a] \<and>
    set (sPcs s) = {PIdle} \<and> \<not> sInflight s \<and>
    Session_Reset (snd (Session_Close (sSes s))) = Some u \<and>
    (\<exists>fs s'. send_run fs (send_init 1 (SetAsyncProvider True (Session_Initialize i fd' now u))) = Some s' \<and>
       sResults s' = [SR_Ok] \<and> sAccepted s' = [d] \<and> sSent s' = [(fd', b)] \<and>
       set (sPcs s') = {PIdle} \<and> \<not> sInflight s' \<and> \<not> mIsSending (sSes s') \<and>
       mSendQueue (sSes s') = [d] \<and> mSendQueueSize (sSes s') = 0)"
proof -
  let ?es = "[ESend 0 a, EStep 0 True, EStep 0 True, EStep 0 True, EStep 0 True, EStep 0 True, EStep 0 True,
      EStep 0 True, EStep 0 True,
      ESend 1 b, EStep 1 True, EStep 1 True, EClose 2, EStep 2 True, EStep 2 True, EStep 1 True, EStep 1 True,
      EError 0, EStep 0 True]"
  let ?fs = "[ESend 0 d, EStep 0 True, EStep 0 True, EStep 0 True, EStep 0 True, EStep 0 True, EStep 0 True,
      EStep 0 True, EStep 0 True, EComplete 0, EStep 0 True, EStep 0 True, EStep 0 True]"
  note ev = send_steps send_init_def IsConnected_def SEND_QUEUE_BACKPRESSURE_THRESHOLD_def packet_constants sent_def
  have ne: "a \<noteq> []" "b \<noteq> []" "d \<noteq> []" "\<not> 4096 < length a" "\<not> 4096 < length b" "\<not> 4096 < length d"
    using assms(4,5,6) by auto
  have r3: "replicate 3 PIdle = [PIdle, PIdle, PIdle]" by (simp add: numeral_eq_Suc)
  define s where "s = \<lparr>sSes = (Close_drain (Close_exchange (t\<lparr>mIsSending := True\<rparr>)))\<lparr>mSendQueue := [b], mSendQueueSize := 1\<rparr>,
    sPcs = [PIdle, PIdle, PIdle], sInflight = False, sAccepted = [a, b], sSent = [(fd, a)], sResults = [SR_Ok, SR_Ok], sFailed = True\<rparr>"
  have run: "send_run ?es (send_init 3 t) = Some s"
    using assms(1,2) ne by (simp add: ev r3 fresh_session_def s_def)
  define u where "u = (sSes s)\<lparr>mId := 0, mState := SS_None, mPingSequence := 0, mIsSending := False,
    mSendQueueSize := 0, mOnRecvCb := False, mAsyncScope := sc\<rparr>"
  have reset: "Session_Reset (snd (Session_Close (sSes s))) = Some u"
    using assms(3) by (simp add: Session_Reset_def Session_Close_def s_def u_def Close_exchange_def Close_drain_def)
  have uq: "mSendQueue u = [b]" by (simp add: u_def s_def)
  have "\<exists>s'. send_run ?fs (send_init 1 (SetAsyncProvider True (Session_Initialize i fd' now u))) = Some s' \<and>
       sResults s' = [SR_Ok] \<and> sAccepted s' = [d] \<and> sSent s' = [(fd', b)] \<and>
       set (sPcs s') = {PIdle} \<and> \<not> sInflight s' \<and> \<not> mIsSending (sSes s') \<and>
       mSendQueue (sSes s') = [d] \<and> mSendQueueSize (sSes s') = 0"
    using ne by (simp add: ev SetAsyncProvider_def Session_Initialize_def uq)
  moreover have "sResults s = [SR_Ok, SR_Ok] \<and> sent s = [a] \<and> set (sPcs s) = {PIdle} \<and> \<not> sInflight s"
    by (simp add: s_def sent_def)
  ultimately show ?thesis using run reset by blast
qed

subsection \<open>Concrete runs\<close>

abbreviation live_session :: Session where
  "live_session \<equiv> SetAsyncProvider True (Session_Initialize 1 5 0 Session_new)"

lemma live_session_fresh: "fresh_session live_session" "mSocket live_session = 5"
  by (simp_all add: fresh_session_def SetAsyncProvider_def Session_Initialize_def Session_new_def)

lemmas send_eval = send_steps send_init_def IsConnected_def SEND_QUEUE_BACKPRESSURE_THRESHOLD_def packet_constants sent_def
  SetAsyncProvider_def Session_Initialize_def Session_new_def

text \<open>One thread sends two packets; the second is queued while the first is in flight.\<close>

definition two_sends :: "send_event list" where
  "two_sends = [ESend 0 [7], EStep 0 True, EStep 0 True, EStep 0 True, EStep 0 True, EStep 0 True, EStep 0 True, EStep 0 True, EStep 0 True,
     ESend 0 [8], EStep 0 True, EStep 0 True, EStep 0 True, EStep 0 True]"

definition two_completions :: "send_event list" where
  "two_completions = [EComplete 0, EStep 0 True, EStep 0 True, EStep 0 True, EStep 0 True,
     EComplete 0, EStep 0 True, EStep 0 True, EStep 0 True]"

lemma two_sends_run:
  "\<exists>s. send_run two_sends (send_init 1 live_session) = Some s \<and> sSent s = [(5, [7])] \<and> sAccepted s = [[7], [8]] \<and>
     mSendQueue (sSes s) = [[8]]"
  by (simp add: send_eval two_sends_def)

theorem send_in_order_witness:
  "\<exists>s. send_run two_sends (send_init 1 live_session) = Some s \<and> sAccepted s = [[7], [8]] \<and> holders s \<le> 1"
  using two_sends_run send_in_order [OF _ live_session_fresh(1), of two_sends 1] by auto

theorem send_queue_bounded_witness:
  "\<exists>s. send_run two_sends (send_init 1 live_session) = Some s \<and> unat (mSendQueueSize (sSes s)) = 1"
  using two_sends_run send_queue_bounded [OF _ live_session_fresh(1), of two_sends 1] by auto

theorem send_nothing_forgotten_witness:
  "\<exists>s. send_run (two_sends @ two_completions)
      (send_init 1 live_session) = Some s \<and> sAccepted s = [[7], [8]] \<and> sent s = [[7], [8]]"
proof -
  let ?es = "two_sends @ two_completions"
  have "\<exists>s. send_run ?es (send_init 1 live_session) = Some s \<and> sAccepted s = [[7], [8]] \<and>
      sPcs s = [PIdle] \<and> \<not> sInflight s \<and> mState (sSes s) = Connected"
    by (simp add: send_eval two_sends_def two_completions_def)
  then obtain s where s: "send_run ?es (send_init 1 live_session) = Some s" "sAccepted s = [[7], [8]]"
      "set (sPcs s) \<subseteq> {PIdle}" "\<not> sInflight s" "IsConnected (sSes s)" by (auto simp: IsConnected_def)
  from send_nothing_forgotten [OF s(1) live_session_fresh(1) _ s(3,4,5)] s(1,2) show ?thesis by auto
qed

theorem stale_packet_sent_to_next_client_witness:
  "\<exists>es s u fs s'. send_run es (send_init 3 live_session) = Some s \<and>
     Session_Reset (snd (Session_Close (sSes s))) = Some u \<and>
     send_run fs (send_init 1 (SetAsyncProvider True (Session_Initialize 2 6 9 u))) = Some s' \<and>
     sAccepted s' = [[9]] \<and> sSent s' = [(6, [8])]"
proof -
  have "AS_Reset (AS_Cancel (mAsyncScope live_session)) = Some AS_new"
    by (simp add: AS_Reset_def AS_Cancel_def SetAsyncProvider_def Session_Initialize_def Session_new_def AS_new_def)
  from stale_packet_sent_to_next_client [OF live_session_fresh this, of "[7]" "[8]" "[9]" 2 6 9] show ?thesis by auto
qed

end
