(* ===== verification/Buffer_Pool.thy ===== *)
theory Buffer_Pool
  imports Prelude "HOL-Library.Multiset"
begin

section \<open>Buffer pools\<close>

text \<open>
  \<open>Core/Memory/IBufferPool.h\<close> and its implementations \<open>StandardBufferPool\<close>, \<open>RIOBufferPool\<close> and
  \<open>IOUringBufferPool\<close>, and \<open>Network/Core/SendBufferPool\<close>: a slab of \<open>poolSize\<close> slots of \<open>slotSize\<close> bytes and
  a stack of the free slots' indices. Addresses and sizes are 64-bit words, the null pointer
  is 0. What the allocator and the registration calls answer is an argument of \<open>Initialize\<close>.
\<close>

subsection \<open>The contract of a pool\<close>

text \<open>
  What the users of a pool rely on, for the index part of a slot. The client holds what it
  acquired and releases only what it holds.
\<close>

datatype pool_op = Take | Give nat

fun pool_run :: "('p \<Rightarrow> (nat \<times> 'p) option) \<Rightarrow> (nat \<Rightarrow> 'p \<Rightarrow> 'p) \<Rightarrow> pool_op list \<Rightarrow> 'p \<times> nat list \<Rightarrow> 'p \<times> nat list" where
  "pool_run acquire release [] s = s"
| "pool_run acquire release (Take # ops) (p, held) =
     (case acquire p of
        None \<Rightarrow> pool_run acquire release ops (p, held)
      | Some (i, p') \<Rightarrow> pool_run acquire release ops (p', held @ [i]))"
| "pool_run acquire release (Give i # ops) (p, held) =
     (if i \<in> set held then pool_run acquire release ops (release i p, remove1 i held)
      else pool_run acquire release ops (p, held))"

locale slot_pool =
  fixes ready :: "'p \<Rightarrow> bool"
    and slots :: "'p \<Rightarrow> nat"
    and free :: "'p \<Rightarrow> nat list"
    and acquire :: "'p \<Rightarrow> (nat \<times> 'p) option"
    and release :: "nat \<Rightarrow> 'p \<Rightarrow> 'p"
  assumes acquire_empty: "ready p \<Longrightarrow> free p = [] \<Longrightarrow> acquire p = None"
    and acquire_top: "ready p \<Longrightarrow> free p \<noteq> [] \<Longrightarrow>
      \<exists>p'. acquire p = Some (last (free p), p') \<and> free p' = butlast (free p) \<and> ready p' \<and> slots p' = slots p"
    and release_push: "ready p \<Longrightarrow> i < slots p \<Longrightarrow>
      free (release i p) = free p @ [i] \<and> ready (release i p) \<and> slots (release i p) = slots p"
begin

text \<open>Every slot is either free or held, and only once.\<close>

definition partitioned :: "'p \<Rightarrow> nat list \<Rightarrow> bool" where
  "partitioned p held \<longleftrightarrow> ready p \<and> mset (free p) + mset held = mset [0..<slots p]"

lemma partitioned_distinct:
  assumes "partitioned p held"
  shows "distinct (free p @ held)" and "set (free p) \<union> set held = {..<slots p}"
    and "length (free p) + length held = slots p"
proof -
  have "mset (free p @ held) = mset [0..<slots p]" using assms by (simp add: partitioned_def)
  from mset_eq_imp_distinct_iff [OF this] mset_eq_setD [OF this] mset_eq_length [OF this]
  show "distinct (free p @ held)" and "set (free p) \<union> set held = {..<slots p}"
    and "length (free p) + length held = slots p"
    by (auto simp: atLeast_upt)
qed

lemma partitioned_acquire:
  assumes "partitioned p held" and "acquire p = Some (i, p')"
  shows "partitioned p' (held @ [i])" and "i \<notin> set held" and "i < slots p" and "slots p' = slots p"
proof -
  have r: "ready p" using assms(1) by (simp add: partitioned_def)
  have ne: "free p \<noteq> []" using acquire_empty [OF r] assms(2) by auto
  from acquire_top [OF r ne] assms(2) have
    e: "i = last (free p)" "free p' = butlast (free p)" "ready p'" "slots p' = slots p" by auto
  have "free p = free p' @ [i]" using ne e(1,2) by simp
  then have "mset (free p) = add_mset i (mset (free p'))" by simp
  then show "partitioned p' (held @ [i])" using assms(1) e by (simp add: partitioned_def)
  have "i \<in> set (free p)" using ne e(1) by simp
  then show "i \<notin> set held" "i < slots p" using partitioned_distinct [OF assms(1)] by auto
  show "slots p' = slots p" by (rule e)
qed

lemma partitioned_release:
  assumes "partitioned p held" and "i \<in> set held"
  shows "partitioned (release i p) (remove1 i held)" and "slots (release i p) = slots p"
proof -
  have "i < slots p" using partitioned_distinct(2) [OF assms(1)] assms(2) by auto
  note e = release_push [OF _ this]
  have r: "ready p" using assms(1) by (simp add: partitioned_def)
  obtain M where M: "mset held = add_mset i M" using assms(2) by (meson in_multiset_in_set multi_member_split)
  with assms(1) e [OF r] show "partitioned (release i p) (remove1 i held)" by (simp add: partitioned_def M)
  show "slots (release i p) = slots p" using e [OF r] by simp
qed

lemma run_partitioned:
  "partitioned p held \<Longrightarrow> pool_run acquire release ops (p, held) = (p', held') \<Longrightarrow>
   partitioned p' held' \<and> slots p' = slots p"
proof (induction ops arbitrary: p held)
  case (Cons op ops)
  show ?case
  proof (cases op)
    case Take
    show ?thesis
    proof (cases "acquire p")
      case None
      with Take Cons show ?thesis by simp
    next
      case (Some a)
      obtain i q where a: "a = (i, q)" by (cases a)
      from partitioned_acquire [OF Cons.prems(1) Some [unfolded a]] Cons.IH [of q "held @ [i]"] Cons.prems(2) Take Some a
      show ?thesis by simp
    qed
  next
    case (Give i)
    with Cons partitioned_release [OF Cons.prems(1), of i] show ?thesis by (cases "i \<in> set held") auto
  qed
qed simp

lemma run_exclusive:
  assumes "partitioned p []" and "pool_run acquire release ops (p, []) = (p', held)"
  shows "distinct held" and "set held \<subseteq> {..<slots p}" and "length (free p') + length held = slots p"
    and "acquire p' = None \<longleftrightarrow> length held = slots p"
    and "acquire p' = Some (i, p'') \<Longrightarrow> i \<notin> set held \<and> i < slots p"
proof -
  have part: "partitioned p' held" and s: "slots p' = slots p" using run_partitioned [OF assms] by auto
  note d = partitioned_distinct [OF part, unfolded s]
  show "distinct held" "set held \<subseteq> {..<slots p}" "length (free p') + length held = slots p" using d by auto
  have "ready p'" using part by (simp add: partitioned_def)
  from acquire_empty [OF this] acquire_top [OF this] d(3)
  show "acquire p' = None \<longleftrightarrow> length held = slots p" by (cases "free p' = []") auto
  show "i \<notin> set held \<and> i < slots p" if "acquire p' = Some (i, p'')"
    using partitioned_acquire(2,3) [OF part that] s by simp
qed

end

subsection \<open>Slots in a slab\<close>

record BufferSlot =
  bs_ptr :: u64
  bs_index :: nat
  bs_capacity :: u64

definition no_slot :: BufferSlot where
  "no_slot = \<lparr>bs_ptr = 0, bs_index = 0, bs_capacity = 0\<rparr>"

definition SIZE_MAX :: u64 where "SIZE_MAX = 0xFFFFFFFFFFFFFFFF"

text \<open>\<open>base + idx * slotSize\<close> in pointer arithmetic.\<close>

definition slot_at :: "u64 \<Rightarrow> u64 \<Rightarrow> nat \<Rightarrow> u64" where
  "slot_at base slotSize i = base + of_nat i * slotSize"

text \<open>What the allocator documents of a block of \<open>n\<close> bytes: it does not wrap around the address space.\<close>

definition block :: "u64 \<Rightarrow> nat \<Rightarrow> bool" where
  "block base n \<longleftrightarrow> base \<noteq> 0 \<and> unat base + n \<le> 2 ^ 64"

lemma slot_at_unat:
  assumes "block base (n * unat sz)" and "i < n" and "0 < unat sz"
  shows "unat (slot_at base sz i) = unat base + i * unat sz" and "unat base + i * unat sz + unat sz \<le> unat base + n * unat sz"
proof -
  have "Suc i * unat sz \<le> n * unat sz" using assms(2) by (intro mult_le_mono1) simp
  then show le: "unat base + i * unat sz + unat sz \<le> unat base + n * unat sz" by simp
  then have lt: "unat base + i * unat sz < 2 ^ 64" using assms(1,3) by (simp add: block_def)
  have "slot_at base sz i = of_nat (unat base + i * unat sz)" by (simp add: slot_at_def)
  then show "unat (slot_at base sz i) = unat base + i * unat sz" using lt by (simp only: unat_of_nat) simp
qed

lemma slots_disjoint:
  assumes "block base (n * unat sz)" and "i < n" and "j < n" and "i \<noteq> j" and "0 < unat sz"
  shows "unat (slot_at base sz i) + unat sz \<le> unat (slot_at base sz j) \<or>
    unat (slot_at base sz j) + unat sz \<le> unat (slot_at base sz i)"
proof -
  have "Suc i * unat sz \<le> j * unat sz" if "i < j" using that by (intro mult_le_mono1) simp
  moreover have "Suc j * unat sz \<le> i * unat sz" if "j < i" using that by (intro mult_le_mono1) simp
  ultimately show ?thesis
    using assms slot_at_unat(1) [OF assms(1,2,5)] slot_at_unat(1) [OF assms(1,3,5)] by (cases "i < j") auto
qed

subsection \<open>StandardBufferPool\<close>

record StandardBufferPool =
  sbStorage :: u64
  sbSlotSize :: u64
  sbPoolSize :: u64
  sbFreeIndices :: "nat list"

definition SBP_new :: StandardBufferPool where
  "SBP_new = \<lparr>sbStorage = 0, sbSlotSize = 0, sbPoolSize = 0, sbFreeIndices = []\<rparr>"

text \<open>\<open>alloc\<close> is what \<open>AllocAligned\<close> returns, 0 for failure.\<close>

definition SBP_Initialize :: "u64 \<Rightarrow> u64 \<Rightarrow> u64 \<Rightarrow> StandardBufferPool \<Rightarrow> bool \<times> StandardBufferPool" where
  "SBP_Initialize alloc poolSize slotSize p =
     (if poolSize = 0 \<or> slotSize = 0 then (False, p)
      else if SIZE_MAX div poolSize < slotSize then (False, p)
      else if sbStorage p \<noteq> 0 then (False, p)
      else if alloc = 0 then (False, p\<lparr>sbStorage := 0\<rparr>)
      else (True, \<lparr>sbStorage = alloc, sbSlotSize = slotSize, sbPoolSize = poolSize,
                   sbFreeIndices = [0..<unat poolSize]\<rparr>))"

definition SBP_Shutdown :: "StandardBufferPool \<Rightarrow> StandardBufferPool" where
  "SBP_Shutdown p = \<lparr>sbStorage = 0, sbSlotSize = 0, sbPoolSize = 0, sbFreeIndices = []\<rparr>"

definition SBP_Acquire :: "StandardBufferPool \<Rightarrow> BufferSlot \<times> StandardBufferPool" where
  "SBP_Acquire p =
     (if sbFreeIndices p = [] then (no_slot, p)
      else let idx = last (sbFreeIndices p)
           in (\<lparr>bs_ptr = slot_at (sbStorage p) (sbSlotSize p) idx, bs_index = idx, bs_capacity = sbSlotSize p\<rparr>,
               p\<lparr>sbFreeIndices := butlast (sbFreeIndices p)\<rparr>))"

definition SBP_Release :: "nat \<Rightarrow> StandardBufferPool \<Rightarrow> StandardBufferPool" where
  "SBP_Release i p = p\<lparr>sbFreeIndices := sbFreeIndices p @ [i]\<rparr>"

definition SBP_SlotSize :: "StandardBufferPool \<Rightarrow> u64" where "SBP_SlotSize p = sbSlotSize p"
definition SBP_PoolSize :: "StandardBufferPool \<Rightarrow> u64" where "SBP_PoolSize p = sbPoolSize p"
definition SBP_FreeCount :: "StandardBufferPool \<Rightarrow> nat" where "SBP_FreeCount p = length (sbFreeIndices p)"

text \<open>A client's view: a slot with a null pointer means that there is none.\<close>

definition slot_index :: "BufferSlot \<times> 'p \<Rightarrow> (nat \<times> 'p) option" where
  "slot_index r = (case r of (s, p) \<Rightarrow> if bs_capacity s = 0 then None else Some (bs_index s, p))"

definition SBP_ready :: "StandardBufferPool \<Rightarrow> bool" where
  "SBP_ready p \<longleftrightarrow> sbStorage p \<noteq> 0 \<and> sbSlotSize p \<noteq> 0"

interpretation sbp: slot_pool SBP_ready "\<lambda>p. unat (sbPoolSize p)" sbFreeIndices "\<lambda>p. slot_index (SBP_Acquire p)" SBP_Release
  by unfold_locales (auto simp: SBP_ready_def SBP_Acquire_def SBP_Release_def slot_index_def no_slot_def Let_def)

text \<open>The overflow guard: the bytes of the slab are the product of the sizes.\<close>

lemma size_guard:
  fixes n sz :: u64
  assumes "n \<noteq> 0" and "\<not> SIZE_MAX div n < sz"
  shows "unat n * unat sz < 2 ^ 64" and "unat (n * sz) = unat n * unat sz"
proof -
  have "unat sz \<le> (2 ^ 64 - 1) div unat n"
    using assms(2) by (simp add: SIZE_MAX_def not_less word_le_nat_alt unat_div)
  then have "unat n * unat sz \<le> unat n * ((2 ^ 64 - 1) div unat n)" by simp
  also have "\<dots> \<le> 2 ^ 64 - 1" by simp
  finally show lt: "unat n * unat sz < 2 ^ 64" by simp
  then show "unat (n * sz) = unat n * unat sz" by (subst unat_mult_lem [THEN iffD1]) auto
qed



subsection \<open>SendBufferPool\<close>

text \<open>
  The send buffers of the IOCP path. \<open>alloc n\<close> is what \<open>_aligned_malloc\<close> returns for \<open>n\<close> bytes.
  \<open>Release\<close> tests the index before it takes the mutex; \<open>None\<close> is the failed assertion of a debug
  build, where a release build returns.
\<close>

record SendBufferPool =
  sdStorage :: u64
  sdFreeSlots :: "nat list"
  sdSlotSize :: u64
  sdPoolSize :: u64

definition SDP_new :: SendBufferPool where
  "SDP_new = \<lparr>sdStorage = 0, sdFreeSlots = [], sdSlotSize = 0, sdPoolSize = 0\<rparr>"

definition SDP_Initialize :: "(u64 \<Rightarrow> u64) \<Rightarrow> u64 \<Rightarrow> u64 \<Rightarrow> SendBufferPool \<Rightarrow> bool \<times> SendBufferPool" where
  "SDP_Initialize alloc poolSize slotSize p =
     (if poolSize = 0 \<or> slotSize = 0 then (False, p)
      else let m = alloc (poolSize * slotSize);
               p = p\<lparr>sdSlotSize := slotSize, sdPoolSize := poolSize, sdStorage := m\<rparr>
           in if m = 0 then (False, p) else (True, p\<lparr>sdFreeSlots := [0..<unat poolSize]\<rparr>))"

definition SDP_Shutdown :: "SendBufferPool \<Rightarrow> SendBufferPool" where
  "SDP_Shutdown p = \<lparr>sdStorage = 0, sdFreeSlots = [], sdSlotSize = 0, sdPoolSize = 0\<rparr>"

definition SDP_Acquire :: "SendBufferPool \<Rightarrow> BufferSlot \<times> SendBufferPool" where
  "SDP_Acquire p =
     (if sdFreeSlots p = [] \<or> sdStorage p = 0 then (no_slot, p)
      else let idx = last (sdFreeSlots p)
           in (\<lparr>bs_ptr = slot_at (sdStorage p) (sdSlotSize p) idx, bs_index = idx, bs_capacity = sdSlotSize p\<rparr>,
               p\<lparr>sdFreeSlots := butlast (sdFreeSlots p)\<rparr>))"

definition SDP_Release :: "nat \<Rightarrow> SendBufferPool \<Rightarrow> SendBufferPool" where
  "SDP_Release i p =
     (if unat (sdPoolSize p) \<le> i then p
      else if sdStorage p = 0 then p
      else p\<lparr>sdFreeSlots := sdFreeSlots p @ [i]\<rparr>)"

definition SDP_SlotPtr :: "nat \<Rightarrow> SendBufferPool \<Rightarrow> u64" where
  "SDP_SlotPtr i p = slot_at (sdStorage p) (sdSlotSize p) i"

definition SDP_SlotSize :: "SendBufferPool \<Rightarrow> u64" where "SDP_SlotSize p = sdSlotSize p"
definition SDP_PoolSize :: "SendBufferPool \<Rightarrow> u64" where "SDP_PoolSize p = sdPoolSize p"
definition SDP_FreeCount :: "SendBufferPool \<Rightarrow> nat" where "SDP_FreeCount p = length (sdFreeSlots p)"

definition SDP_ready :: "SendBufferPool \<Rightarrow> bool" where
  "SDP_ready p \<longleftrightarrow> sdStorage p \<noteq> 0 \<and> sdSlotSize p \<noteq> 0"

interpretation sdp: slot_pool SDP_ready "\<lambda>p. unat (sdPoolSize p)" sdFreeSlots "\<lambda>p. slot_index (SDP_Acquire p)" SDP_Release
  by unfold_locales (auto simp: SDP_ready_def SDP_Acquire_def SDP_Release_def slot_index_def no_slot_def Let_def)

subsection \<open>RIOBufferPool\<close>

text \<open>
  \<open>functions\<close>: whether the RIO functions could be loaded; \<open>alloc\<close>: \<open>VirtualAlloc\<close>; \<open>register b n\<close>: the buffer id
  for \<open>n\<close> bytes at \<open>b\<close>, 0 for \<open>RIO_INVALID_BUFFERID\<close>; its size argument is a 32-bit \<open>DWORD\<close>.
\<close>

record RIOBufferPool =
  rbSlab :: u64
  rbSlabId :: u64
  rbSlotSize :: u64
  rbPoolSize :: u64
  rbFreeIndices :: "nat list"

definition RBP_new :: RIOBufferPool where
  "RBP_new = \<lparr>rbSlab = 0, rbSlabId = 0, rbSlotSize = 0, rbPoolSize = 0, rbFreeIndices = []\<rparr>"

definition RBP_Initialize ::
  "bool \<Rightarrow> (u64 \<Rightarrow> u64) \<Rightarrow> (u64 \<Rightarrow> u32 \<Rightarrow> u64) \<Rightarrow> u64 \<Rightarrow> u64 \<Rightarrow> RIOBufferPool \<Rightarrow> bool \<times> RIOBufferPool" where
  "RBP_Initialize functions alloc register poolSize slotSize p =
     (if poolSize = 0 \<or> slotSize = 0 then (False, p)
      else if rbSlab p \<noteq> 0 then (False, p)
      else if \<not> functions then (False, p)
      else let slabBytes = poolSize * slotSize; slab = alloc slabBytes
           in if slab = 0 then (False, p)
              else let slabId = register slab (ucast slabBytes)
                   in if slabId = 0 then (False, p\<lparr>rbSlabId := 0\<rparr>)
                      else (True, \<lparr>rbSlab = slab, rbSlabId = slabId, rbSlotSize = slotSize, rbPoolSize = poolSize,
                                   rbFreeIndices = [0..<unat poolSize]\<rparr>))"

definition RBP_Shutdown :: "RIOBufferPool \<Rightarrow> RIOBufferPool" where
  "RBP_Shutdown p = \<lparr>rbSlab = 0, rbSlabId = 0, rbSlotSize = 0, rbPoolSize = 0, rbFreeIndices = []\<rparr>"

definition RBP_Acquire :: "RIOBufferPool \<Rightarrow> BufferSlot \<times> RIOBufferPool" where
  "RBP_Acquire p =
     (if rbFreeIndices p = [] then (no_slot, p)
      else let idx = last (rbFreeIndices p)
           in (\<lparr>bs_ptr = slot_at (rbSlab p) (rbSlotSize p) idx, bs_index = idx, bs_capacity = rbSlotSize p\<rparr>,
               p\<lparr>rbFreeIndices := butlast (rbFreeIndices p)\<rparr>))"

definition RBP_Release :: "nat \<Rightarrow> RIOBufferPool \<Rightarrow> RIOBufferPool" where
  "RBP_Release i p = p\<lparr>rbFreeIndices := rbFreeIndices p @ [i]\<rparr>"

definition GetRIOBufferId :: "nat \<Rightarrow> RIOBufferPool \<Rightarrow> u64" where "GetRIOBufferId i p = rbSlabId p"
definition GetRIOOffset :: "nat \<Rightarrow> RIOBufferPool \<Rightarrow> u64" where "GetRIOOffset i p = of_nat i * rbSlotSize p"
definition RBP_SlotPtr :: "nat \<Rightarrow> RIOBufferPool \<Rightarrow> u64" where "RBP_SlotPtr i p = slot_at (rbSlab p) (rbSlotSize p) i"
definition RBP_FreeCount :: "RIOBufferPool \<Rightarrow> nat" where "RBP_FreeCount p = length (rbFreeIndices p)"

definition RBP_ready :: "RIOBufferPool \<Rightarrow> bool" where
  "RBP_ready p \<longleftrightarrow> rbSlab p \<noteq> 0 \<and> rbSlotSize p \<noteq> 0"

interpretation rbp: slot_pool RBP_ready "\<lambda>p. unat (rbPoolSize p)" rbFreeIndices "\<lambda>p. slot_index (RBP_Acquire p)" RBP_Release
  by unfold_locales (auto simp: RBP_ready_def RBP_Acquire_def RBP_Release_def slot_index_def no_slot_def Let_def)

subsection \<open>IOUringBufferPool\<close>

text \<open>\<open>ring\<close>: whether a ring is given; \<open>registered\<close>: whether \<open>io_uring_register_buffers\<close> succeeds.\<close>

record IOUringBufferPool =
  ubStorage :: u64
  ubSlotSize :: u64
  ubPoolSize :: u64
  ubIsFixed :: bool
  ubRing :: bool
  ubIovecs :: "(u64 \<times> u64) list"
  ubFreeIndices :: "nat list"

definition UBP_new :: IOUringBufferPool where
  "UBP_new = \<lparr>ubStorage = 0, ubSlotSize = 0, ubPoolSize = 0, ubIsFixed = False, ubRing = False, ubIovecs = [], ubFreeIndices = []\<rparr>"

definition UBP_InitializeFixed ::
  "u64 \<Rightarrow> bool \<Rightarrow> bool \<Rightarrow> u64 \<Rightarrow> u64 \<Rightarrow> IOUringBufferPool \<Rightarrow> bool \<times> IOUringBufferPool" where
  "UBP_InitializeFixed alloc registered ring poolSize slotSize p =
     (if poolSize = 0 \<or> slotSize = 0 then (False, p)
      else if SIZE_MAX div poolSize < slotSize then (False, p)
      else if ubStorage p \<noteq> 0 then (False, p)
      else if alloc = 0 then (False, p)
      else let p = p\<lparr>ubStorage := alloc, ubSlotSize := slotSize, ubPoolSize := poolSize, ubRing := ring, ubIsFixed := ring,
                     ubIovecs := map (\<lambda>i. (slot_at alloc slotSize i, slotSize)) [0..<unat poolSize]\<rparr>
           in if ring \<and> \<not> registered then (False, p\<lparr>ubStorage := 0, ubIovecs := []\<rparr>)
              else (True, p\<lparr>ubFreeIndices := [0..<unat poolSize]\<rparr>))"

definition UBP_Initialize :: "u64 \<Rightarrow> u64 \<Rightarrow> u64 \<Rightarrow> IOUringBufferPool \<Rightarrow> bool \<times> IOUringBufferPool" where
  "UBP_Initialize alloc poolSize slotSize p = UBP_InitializeFixed alloc True False poolSize slotSize p"

text \<open>\<open>Shutdown\<close>: whether it calls \<open>io_uring_unregister_buffers\<close>, and the pool after.\<close>

definition UBP_Shutdown :: "IOUringBufferPool \<Rightarrow> bool \<times> IOUringBufferPool" where
  "UBP_Shutdown p = (ubIsFixed p \<and> ubRing p, UBP_new)"

definition UBP_Acquire :: "IOUringBufferPool \<Rightarrow> BufferSlot \<times> IOUringBufferPool" where
  "UBP_Acquire p =
     (if ubFreeIndices p = [] then (no_slot, p)
      else let idx = last (ubFreeIndices p)
           in (\<lparr>bs_ptr = slot_at (ubStorage p) (ubSlotSize p) idx, bs_index = idx, bs_capacity = ubSlotSize p\<rparr>,
               p\<lparr>ubFreeIndices := butlast (ubFreeIndices p)\<rparr>))"

definition UBP_Release :: "nat \<Rightarrow> IOUringBufferPool \<Rightarrow> IOUringBufferPool" where
  "UBP_Release i p = p\<lparr>ubFreeIndices := ubFreeIndices p @ [i]\<rparr>"

definition UBP_FreeCount :: "IOUringBufferPool \<Rightarrow> nat" where "UBP_FreeCount p = length (ubFreeIndices p)"
definition IsFixedBufferMode :: "IOUringBufferPool \<Rightarrow> bool" where "IsFixedBufferMode p = ubIsFixed p"
definition GetFixedBufferIndex :: "nat \<Rightarrow> IOUringBufferPool \<Rightarrow> 32 word" where "GetFixedBufferIndex i p = of_nat i"

definition UBP_ready :: "IOUringBufferPool \<Rightarrow> bool" where
  "UBP_ready p \<longleftrightarrow> ubStorage p \<noteq> 0 \<and> ubSlotSize p \<noteq> 0"

interpretation ubp: slot_pool UBP_ready "\<lambda>p. unat (ubPoolSize p)" ubFreeIndices "\<lambda>p. slot_index (UBP_Acquire p)" UBP_Release
  by unfold_locales (auto simp: UBP_ready_def UBP_Acquire_def UBP_Release_def slot_index_def no_slot_def Let_def)

subsection \<open>All pools\<close>

text \<open>
  the other three pools share their slots out exclusively too. After a successful
  initialization and any sequence of acquiring and of releasing held slots, the held indices
  of a send-buffer pool, of a RIO pool and of an io_uring pool are distinct, in range, and
  together with the free ones make up the pool.
\<close>

theorem all_pools_exclusive:
  "(SDP_Initialize a n z p1 = (True, q1) \<and> pool_run (\<lambda>p. slot_index (SDP_Acquire p)) SDP_Release ops (q1, []) = (r1, h1) \<longrightarrow>
     distinct h1 \<and> set h1 \<subseteq> {..<unat n} \<and> SDP_FreeCount r1 + length h1 = unat n) \<and>
   (RBP_Initialize f a g n z p2 = (True, q2) \<and> pool_run (\<lambda>p. slot_index (RBP_Acquire p)) RBP_Release ops (q2, []) = (r2, h2) \<longrightarrow>
     distinct h2 \<and> set h2 \<subseteq> {..<unat n} \<and> RBP_FreeCount r2 + length h2 = unat n) \<and>
   (UBP_InitializeFixed b reg ring n z p3 = (True, q3) \<and> pool_run (\<lambda>p. slot_index (UBP_Acquire p)) UBP_Release ops (q3, []) = (r3, h3) \<longrightarrow>
     distinct h3 \<and> set h3 \<subseteq> {..<unat n} \<and> UBP_FreeCount r3 + length h3 = unat n)"
proof (intro conjI impI; elim conjE)
  assume i: "SDP_Initialize a n z p1 = (True, q1)" and r: "pool_run (\<lambda>p. slot_index (SDP_Acquire p)) SDP_Release ops (q1, []) = (r1, h1)"
  have q: "SDP_ready q1" "sdFreeSlots q1 = [0..<unat n]" "sdPoolSize q1 = n"
    using i by (auto simp: SDP_Initialize_def SDP_ready_def Let_def split: if_splits)
  then have "sdp.partitioned q1 []" by (simp add: sdp.partitioned_def)
  from sdp.run_exclusive(1,2,3) [OF this r] q(3) show "distinct h1" "set h1 \<subseteq> {..<unat n}" "SDP_FreeCount r1 + length h1 = unat n"
    by (simp_all add: SDP_FreeCount_def)
next
  assume i: "RBP_Initialize f a g n z p2 = (True, q2)" and r: "pool_run (\<lambda>p. slot_index (RBP_Acquire p)) RBP_Release ops (q2, []) = (r2, h2)"
  have q: "RBP_ready q2" "rbFreeIndices q2 = [0..<unat n]" "rbPoolSize q2 = n"
    using i by (auto simp: RBP_Initialize_def RBP_ready_def Let_def split: if_splits)
  then have "rbp.partitioned q2 []" by (simp add: rbp.partitioned_def)
  from rbp.run_exclusive(1,2,3) [OF this r] q(3) show "distinct h2" "set h2 \<subseteq> {..<unat n}" "RBP_FreeCount r2 + length h2 = unat n"
    by (simp_all add: RBP_FreeCount_def)
next
  assume i: "UBP_InitializeFixed b reg ring n z p3 = (True, q3)" and r: "pool_run (\<lambda>p. slot_index (UBP_Acquire p)) UBP_Release ops (q3, []) = (r3, h3)"
  have q: "UBP_ready q3" "ubFreeIndices q3 = [0..<unat n]" "ubPoolSize q3 = n"
    using i by (auto simp: UBP_InitializeFixed_def UBP_ready_def Let_def split: if_splits)
  then have "ubp.partitioned q3 []" by (simp add: ubp.partitioned_def)
  from ubp.run_exclusive(1,2,3) [OF this r] q(3) show "distinct h3" "set h3 \<subseteq> {..<unat n}" "UBP_FreeCount r3 + length h3 = unat n"
    by (simp_all add: UBP_FreeCount_def)
qed

theorem all_pools_exclusive_witness:
  "\<exists>q r h. SDP_Initialize (\<lambda>n. 4096) 2 64 SDP_new = (True, q) \<and>
     pool_run (\<lambda>p. slot_index (SDP_Acquire p)) SDP_Release [Take, Take, Give 1, Take] (q, []) = (r, h) \<and> distinct h \<and>
     SDP_FreeCount r + length h = 2"
proof -
  let ?q = "\<lparr>sdStorage = 4096, sdFreeSlots = [0, 1], sdSlotSize = 64, sdPoolSize = 2\<rparr>"
  have i: "SDP_Initialize (\<lambda>n. 4096) 2 64 SDP_new = (True, ?q)"
    by (simp add: SDP_Initialize_def SDP_new_def Let_def upt_rec)
  have r: "pool_run (\<lambda>p. slot_index (SDP_Acquire p)) SDP_Release [Take, Take, Give 1, Take] (?q, []) =
      (?q\<lparr>sdFreeSlots := []\<rparr>, [0, 1])"
    by (simp add: slot_index_def SDP_Acquire_def SDP_Release_def no_slot_def Let_def)
  from all_pools_exclusive [of "\<lambda>n. 4096" 2 64 SDP_new ?q "[Take, Take, Give 1, Take]" "?q\<lparr>sdFreeSlots := []\<rparr>" "[0, 1]"] i r
  show ?thesis by auto
qed

lemma size_wraps: "(18446744073709551616 :: u64) = 0"
  by code_simp

text \<open>
  only two of the pools guard the multiplication. For sizes whose product wraps to zero
  bytes, \<open>StandardBufferPool\<close> and \<open>IOUringBufferPool\<close> refuse, while \<open>SendBufferPool\<close> asks
  the allocator for zero bytes, accepts any non-null answer and hands out \<open>2^32\<close> slots of \<open>2^32\<close> bytes.
\<close>

theorem send_pool_size_wraps:
  assumes "alloc 0 \<noteq> 0"
  shows "\<not> fst (SBP_Initialize (alloc 0) (2 ^ 32) (2 ^ 32) SBP_new) \<and>
    \<not> fst (UBP_InitializeFixed (alloc 0) reg ring (2 ^ 32) (2 ^ 32) UBP_new) \<and>
    fst (SDP_Initialize alloc (2 ^ 32) (2 ^ 32) SDP_new) \<and>
    SDP_FreeCount (snd (SDP_Initialize alloc (2 ^ 32) (2 ^ 32) SDP_new)) = 2 ^ 32"
  using assms by (simp add: SBP_Initialize_def UBP_InitializeFixed_def SDP_Initialize_def SDP_FreeCount_def SIZE_MAX_def Let_def size_wraps)

theorem send_pool_size_wraps_witness:
  "SDP_FreeCount (snd (SDP_Initialize (\<lambda>_. 64) (2 ^ 32) (2 ^ 32) SDP_new)) = 2 ^ 32"
  using send_pool_size_wraps [of "\<lambda>_. 64"] by simp

end
