(* ===== verification/Session_Pool.thy ===== *)
theory Session_Pool
  imports Session Buffer_Pool "HOL-Library.AList"
begin

section \<open>SessionPool and SessionManager\<close>

text \<open>
  \<open>Network/Core/SessionPool\<close>: a fixed array of sessions and a stack of the free slots.
  \<open>Network/Core/SessionManager\<close>: the map from connection ids to sessions. A \<open>SessionRef\<close> is a slot
  index; \<open>smRefs\<close> counts the references to a slot (the manager's and everyone else's), and when the
  last one goes the deleter runs \<open>ReleaseInternal\<close>. The singletons are the state; each operation is
  one step. The hash map is an association list, whose order carries no meaning.
\<close>

subsection \<open>SessionPool\<close>

record PoolSlot =
  ps_session :: Session
  ps_inUse :: bool

record SessionPool =
  spSlots :: "PoolSlot list"
  spCapacity :: nat
  spFreeList :: "nat list"
  spActiveCount :: size_t
  spInitialized :: bool

definition SP_new :: SessionPool where
  "SP_new = \<lparr>spSlots = [], spCapacity = 0, spFreeList = [], spActiveCount = 0, spInitialized = False\<rparr>"

definition SP_Initialize :: "nat \<Rightarrow> SessionPool \<Rightarrow> bool \<times> SessionPool" where
  "SP_Initialize capacity p =
     (if spInitialized p then (True, p)
      else if capacity = 0 then (False, p)
      else (True, p\<lparr>spCapacity := capacity, spSlots := replicate capacity \<lparr>ps_session = Session_new, ps_inUse = False\<rparr>,
                    spFreeList := spFreeList p @ [0..<capacity], spInitialized := True\<rparr>))"

definition SP_Shutdown :: "SessionPool \<Rightarrow> SessionPool" where
  "SP_Shutdown p =
     (if \<not> spInitialized p then p
      else \<lparr>spSlots = [], spCapacity = 0, spFreeList = [], spActiveCount = 0, spInitialized = False\<rparr>)"

definition set_slot :: "nat \<Rightarrow> (PoolSlot \<Rightarrow> PoolSlot) \<Rightarrow> SessionPool \<Rightarrow> SessionPool" where
  "set_slot i f p = p\<lparr>spSlots := (spSlots p)[i := f (spSlots p ! i)]\<rparr>"

definition SP_Acquire :: "SessionPool \<Rightarrow> (nat \<times> SessionPool) option" where
  "SP_Acquire p =
     (if spFreeList p = [] then None
      else let slotIdx = last (spFreeList p)
           in Some (slotIdx, set_slot slotIdx (\<lambda>s. s\<lparr>ps_inUse := True\<rparr>)
                (p\<lparr>spFreeList := butlast (spFreeList p), spActiveCount := spActiveCount p + 1\<rparr>)))"

text \<open>\<open>ReleaseInternal\<close>; \<open>None\<close> is the abort when the session still has tasks in flight.\<close>

definition SP_ReleaseInternal :: "nat \<Rightarrow> SessionPool \<Rightarrow> SessionPool option" where
  "SP_ReleaseInternal i p =
     (if spSlots p = [] \<or> spCapacity p \<le> i then Some p
      else (case Session_Reset (snd (Session_Close (ps_session (spSlots p ! i)))) of
              None \<Rightarrow> None
            | Some s \<Rightarrow> Some (set_slot i (\<lambda>_. \<lparr>ps_session = s, ps_inUse = False\<rparr>)
                (p\<lparr>spActiveCount := spActiveCount p - 1, spFreeList := spFreeList p @ [i]\<rparr>))))"

definition SP_Capacity :: "SessionPool \<Rightarrow> nat" where "SP_Capacity p = spCapacity p"
definition SP_ActiveCount :: "SessionPool \<Rightarrow> size_t" where "SP_ActiveCount p = spActiveCount p"

text \<open>A pool whose sessions have no task in flight: releasing does not abort.\<close>

definition SP_ready :: "SessionPool \<Rightarrow> bool" where
  "SP_ready p \<longleftrightarrow> length (spSlots p) = spCapacity p \<and>
     (\<forall>s \<in> set (spSlots p). mInFlight (mAsyncScope (ps_session s)) = 0)"

definition SP_release :: "nat \<Rightarrow> SessionPool \<Rightarrow> SessionPool" where
  "SP_release i p = (case SP_ReleaseInternal i p of Some q \<Rightarrow> q | None \<Rightarrow> p)"

lemma Close_inflight: "mInFlight (mAsyncScope (snd (Session_Close s))) = mInFlight (mAsyncScope s)"
  by (simp add: Session_Close_def AS_Cancel_def)

lemma Reset_Close:
  assumes "mInFlight (mAsyncScope s) = 0"
  obtains t where "Session_Reset (snd (Session_Close s)) = Some t" "mInFlight (mAsyncScope t) = 0" "mState t = SS_None"
  using assms that by (simp add: Session_Reset_def AS_Reset_def Close_inflight)

lemma ReleaseInternal_ready:
  assumes "SP_ready p" and "i < spCapacity p"
  obtains s where "SP_ReleaseInternal i p = Some (set_slot i (\<lambda>_. \<lparr>ps_session = s, ps_inUse = False\<rparr>)
      (p\<lparr>spActiveCount := spActiveCount p - 1, spFreeList := spFreeList p @ [i]\<rparr>))"
    "mInFlight (mAsyncScope s) = 0"
proof -
  have l: "i < length (spSlots p)" using assms by (simp add: SP_ready_def)
  then have "mInFlight (mAsyncScope (ps_session (spSlots p ! i))) = 0" using assms(1) by (simp add: SP_ready_def)
  then obtain s where "Session_Reset (snd (Session_Close (ps_session (spSlots p ! i)))) = Some s"
    "mInFlight (mAsyncScope s) = 0" by (rule Reset_Close)
  with l assms(2) show ?thesis by (intro that [of s]) (auto simp: SP_ReleaseInternal_def)
qed

lemma SP_ready_update:
  "SP_ready p \<Longrightarrow> mInFlight (mAsyncScope (ps_session (f (spSlots p ! i)))) = 0 \<Longrightarrow>
   SP_ready (set_slot i f (p\<lparr>spActiveCount := a, spFreeList := l\<rparr>))"
  by (auto simp: SP_ready_def set_slot_def dest!: set_update_D)

interpretation ssp: slot_pool SP_ready spCapacity spFreeList SP_Acquire SP_release
proof unfold_locales
  fix p i
  assume r: "SP_ready p"
  show "spFreeList p = [] \<Longrightarrow> SP_Acquire p = None" by (simp add: SP_Acquire_def)
  assume "i < spCapacity p"
  obtain s where s: "SP_ReleaseInternal i p = Some (set_slot i (\<lambda>_. \<lparr>ps_session = s, ps_inUse = False\<rparr>)
      (p\<lparr>spActiveCount := spActiveCount p - 1, spFreeList := spFreeList p @ [i]\<rparr>))" "mInFlight (mAsyncScope s) = 0"
    by (rule ReleaseInternal_ready [OF r \<open>i < spCapacity p\<close>])
  have "SP_ready (SP_release i p)" using SP_ready_update [OF r] s by (simp add: SP_release_def)
  then show "spFreeList (SP_release i p) = spFreeList p @ [i] \<and> SP_ready (SP_release i p) \<and>
      spCapacity (SP_release i p) = spCapacity p"
    using s(1) by (simp add: SP_release_def set_slot_def)
next
  fix p
  assume r: "SP_ready p" and ne: "spFreeList p \<noteq> []"
  have "SP_ready (set_slot k (\<lambda>s. s\<lparr>ps_inUse := True\<rparr>) (p\<lparr>spActiveCount := a, spFreeList := l\<rparr>))" for k a l
  proof (cases "k < length (spSlots p)")
    case True
    with r show ?thesis by (intro SP_ready_update) (auto simp: SP_ready_def)
  next
    case False
    then have "(spSlots p)[k := x] = spSlots p" for x by (simp add: list_update_beyond)
    with r show ?thesis by (simp add: SP_ready_def set_slot_def)
  qed
  then have "SP_ready (set_slot k (\<lambda>s. s\<lparr>ps_inUse := True\<rparr>) (p\<lparr>spFreeList := l, spActiveCount := a\<rparr>))" for k a l
    by (simp add: SP_ready_def set_slot_def)
  then show "\<exists>p'. SP_Acquire p = Some (last (spFreeList p), p') \<and> spFreeList p' = butlast (spFreeList p) \<and>
      SP_ready p' \<and> spCapacity p' = spCapacity p"
    using ne by (auto simp: SP_Acquire_def Let_def set_slot_def)
qed

text \<open>
  a session slot never has two owners. For a pool initialized with any capacity and any
  sequence of acquisitions and of releases of held slots: the held slots are distinct and
  below the capacity, an acquisition fails exactly when all slots are held, and never returns
  a held one. A release with a task in flight aborts the process.
\<close>

theorem session_slots_exclusive:
  assumes "SP_Initialize n SP_new = (True, p)" and "pool_run SP_Acquire SP_release ops (p, []) = (q, held)"
  shows "distinct held \<and> set held \<subseteq> {..<n} \<and> (SP_Acquire q = None \<longleftrightarrow> length held = n) \<and>
    (\<forall>i q'. SP_Acquire q = Some (i, q') \<longrightarrow> i \<notin> set held) \<and>
    (\<forall>i r. i < length (spSlots r) \<and> i < spCapacity r \<and> mInFlight (mAsyncScope (ps_session (spSlots r ! i))) \<noteq> 0 \<longrightarrow>
       SP_ReleaseInternal i r = None)"
proof -
  have p: "spCapacity p = n" "spFreeList p = [0..<n]" "SP_ready p"
    using assms(1) by (auto simp: SP_Initialize_def SP_new_def SP_ready_def Session_new_def AS_new_def split: if_splits)
  then have "ssp.partitioned p []" by (simp add: ssp.partitioned_def)
  note ex = ssp.run_exclusive [OF this assms(2), unfolded p(1)]
  have "SP_ReleaseInternal i r = None"
    if "i < length (spSlots r)" "i < spCapacity r" "mInFlight (mAsyncScope (ps_session (spSlots r ! i))) \<noteq> 0" for i r
    using that by (auto simp: SP_ReleaseInternal_def Session_Reset_def AS_Reset_def Close_inflight)
  with ex show ?thesis by blast
qed

theorem session_slots_exclusive_witness:
  "\<exists>p q held. SP_Initialize 2 SP_new = (True, p) \<and>
     pool_run SP_Acquire SP_release [Take, Take, Give 1, Take] (p, []) = (q, held) \<and> distinct held \<and> SP_Acquire q = None"
proof -
  obtain p where p: "SP_Initialize 2 SP_new = (True, p)" "spFreeList p = [0, 1]" "spCapacity p = 2" "SP_ready p"
    by (simp add: SP_Initialize_def SP_new_def upt_rec SP_ready_def Session_new_def AS_new_def)
  obtain q held where q: "pool_run SP_Acquire SP_release [Take, Take, Give 1, Take] (p, []) = (q, held)" by force
  have r: "spFreeList (SP_release 1 x) = spFreeList x @ [1]" if "SP_ready x" "spCapacity x = 2" for x
    using ssp.release_push [of x 1] that by simp
  have a: "\<exists>x'. SP_Acquire x = Some (last (spFreeList x), x') \<and> spFreeList x' = butlast (spFreeList x) \<and> SP_ready x' \<and> spCapacity x' = 2"
    if "SP_ready x" "spCapacity x = 2" "spFreeList x \<noteq> []" for x using ssp.acquire_top [of x] that by simp
  from a [OF p(4,3)] p(2) obtain x where x: "SP_Acquire p = Some (1, x)" "spFreeList x = [0]" "SP_ready x" "spCapacity x = 2" by auto
  from a [OF x(3,4)] x(2) obtain y where y: "SP_Acquire x = Some (0, y)" "spFreeList y = []" "SP_ready y" "spCapacity y = 2" by auto
  have z: "spFreeList (SP_release 1 y) = [1]" "SP_ready (SP_release 1 y)" "spCapacity (SP_release 1 y) = 2"
    using ssp.release_push [of y 1] y by auto
  from a [OF z(2,3)] z(1) obtain w where w: "SP_Acquire (SP_release 1 y) = Some (1, w)" by auto
  have "held = [0, 1]" using q x(1) y(1) w by simp
  with session_slots_exclusive [OF p(1) q] p(1) q show ?thesis by auto
qed

subsection \<open>SessionManager\<close>

record SessionManager =
  smSessions :: "(ConnectionId \<times> nat) list"
  smPool :: SessionPool
  smGlobalSeq :: u64
  smConfigured :: bool          \<comment> \<open>whether a configurator, which sets the receive callback, is registered\<close>
  smRefs :: "nat \<Rightarrow> nat"

definition SetSessionConfigurator :: "bool \<Rightarrow> SessionManager \<Rightarrow> SessionManager" where
  "SetSessionConfigurator c m = m\<lparr>smConfigured := c\<rparr>"

definition session_at :: "nat \<Rightarrow> SessionManager \<Rightarrow> Session" where
  "session_at i m = ps_session (spSlots (smPool m) ! i)"

definition on_session :: "nat \<Rightarrow> (Session \<Rightarrow> Session) \<Rightarrow> SessionManager \<Rightarrow> SessionManager" where
  "on_session i f m = m\<lparr>smPool := set_slot i (\<lambda>s. s\<lparr>ps_session := f (ps_session s)\<rparr>) (smPool m)\<rparr>"

definition drop_ref :: "nat \<Rightarrow> SessionManager \<Rightarrow> SessionManager" where
  "drop_ref i m =
     (let m = m\<lparr>smRefs := (smRefs m)(i := smRefs m i - 1)\<rparr>
      in if smRefs m i = 0 then m\<lparr>smPool := SP_release i (smPool m)\<rparr> else m)"

definition CreateSession :: "int \<Rightarrow> Timestamp \<Rightarrow> SessionManager \<Rightarrow> nat option \<times> SessionManager" where
  "CreateSession socket now m =
     (if unat MAX_CONNECTIONS \<le> length (smSessions m) then (None, m)
      else (case SP_Acquire (smPool m) of
              None \<Rightarrow> (None, m)
            | Some (i, pool) \<Rightarrow>
                (case NextGlobalId (smGlobalSeq m) of (sid, seq) \<Rightarrow>
                  let m = on_session i (Session_Initialize sid socket now) (m\<lparr>smPool := pool, smGlobalSeq := seq\<rparr>);
                      m = (if smConfigured m then on_session i (SetOnRecv True) m else m)
                  in (Some i, m\<lparr>smSessions := AList.update sid i (smSessions m),
                                smRefs := (smRefs m)(i := 2)\<rparr>))))"

definition RemoveSession_id :: "ConnectionId \<Rightarrow> SessionManager \<Rightarrow> SessionManager" where
  "RemoveSession_id sid m =
     (case map_of (smSessions m) sid of
        None \<Rightarrow> m
      | Some i \<Rightarrow> drop_ref i (m\<lparr>smSessions := AList.delete sid (smSessions m)\<rparr>))"

text \<open>\<open>RemoveSession(SessionRef)\<close>; the caller's reference keeps the slot.\<close>

definition RemoveSession :: "nat \<Rightarrow> SessionManager \<Rightarrow> SessionManager" where
  "RemoveSession i m =
     (let sid = mId (session_at i m);
          m = (if IsConnected (session_at i m) then on_session i (\<lambda>s. snd (Session_Close s)) m else m)
      in RemoveSession_id sid m)"

text \<open>\<open>GetSession\<close> returns a new reference.\<close>

definition GetSession :: "ConnectionId \<Rightarrow> SessionManager \<Rightarrow> nat option \<times> SessionManager" where
  "GetSession sid m =
     (case map_of (smSessions m) sid of
        None \<Rightarrow> (None, m)
      | Some i \<Rightarrow> (Some i, m\<lparr>smRefs := (smRefs m)(i := Suc (smRefs m i))\<rparr>))"

definition GetAllSessions :: "SessionManager \<Rightarrow> nat list" where
  "GetAllSessions m = map snd (smSessions m)"

definition GetSessionCount :: "SessionManager \<Rightarrow> nat" where
  "GetSessionCount m = length (smSessions m)"

definition CloseAllSessions :: "SessionManager \<Rightarrow> SessionManager" where
  "CloseAllSessions m =
     (let m' = fold (\<lambda>i. on_session i (\<lambda>s. snd (Session_Close s))) (GetAllSessions m) m
      in fold drop_ref (map snd (smSessions m')) (m'\<lparr>smSessions := []\<rparr>))"

subsection \<open>Consistency of the manager\<close>

definition mapped :: "SessionManager \<Rightarrow> nat set" where
  "mapped m = snd ` set (smSessions m)"

text \<open>
  Slots are free exactly when nobody refers to them; registered sessions are referred to by the manager, have
  different slots and ids, and carry the id they are registered under.
\<close>

definition sm_inv :: "SessionManager \<Rightarrow> bool" where
  "sm_inv m \<longleftrightarrow> SP_ready (smPool m) \<and> distinct (spFreeList (smPool m)) \<and>
     set (spFreeList (smPool m)) = {i. i < spCapacity (smPool m) \<and> smRefs m i = 0} \<and>
     (\<forall>i. 0 < smRefs m i \<longrightarrow> i < spCapacity (smPool m)) \<and>
     distinct (map fst (smSessions m)) \<and> distinct (map snd (smSessions m)) \<and>
     (\<forall>(sid, i) \<in> set (smSessions m). 0 < smRefs m i \<and> mId (session_at i m) = sid \<and> sid \<le> smGlobalSeq m) \<and>
     length (smSessions m) \<le> unat MAX_CONNECTIONS"

lemma sm_invD:
  assumes "sm_inv m"
  shows "SP_ready (smPool m)" "distinct (spFreeList (smPool m))"
    "set (spFreeList (smPool m)) = {i. i < spCapacity (smPool m) \<and> smRefs m i = 0}"
    "\<And>i. 0 < smRefs m i \<Longrightarrow> i < spCapacity (smPool m)"
    "distinct (map fst (smSessions m))" "distinct (map snd (smSessions m))"
    "\<And>sid i. (sid, i) \<in> set (smSessions m) \<Longrightarrow> 0 < smRefs m i \<and> mId (session_at i m) = sid \<and> sid \<le> smGlobalSeq m"
    "length (smSessions m) \<le> unat MAX_CONNECTIONS"
  using assms by (auto simp: sm_inv_def)

lemma on_session_fields [simp]:
  "smSessions (on_session i f m) = smSessions m" "smRefs (on_session i f m) = smRefs m"
  "smGlobalSeq (on_session i f m) = smGlobalSeq m" "smConfigured (on_session i f m) = smConfigured m"
  "spFreeList (smPool (on_session i f m)) = spFreeList (smPool m)"
  "spCapacity (smPool (on_session i f m)) = spCapacity (smPool m)"
  "length (spSlots (smPool (on_session i f m))) = length (spSlots (smPool m))"
  by (simp_all add: on_session_def set_slot_def)

lemma session_at_on_session:
  "i < length (spSlots (smPool m)) \<Longrightarrow> session_at j (on_session i f m) = (if i = j then f (session_at i m) else session_at j m)"
  by (simp add: session_at_def on_session_def set_slot_def nth_list_update)

lemma sm_inv_on_session:
  assumes "sm_inv m" and "i < spCapacity (smPool m)"
    and "mId (f (session_at i m)) = mId (session_at i m)"
    and "mInFlight (mAsyncScope (f (session_at i m))) = mInFlight (mAsyncScope (session_at i m))"
  shows "sm_inv (on_session i f m)"
proof -
  note inv = sm_invD [OF assms(1)]
  have l: "i < length (spSlots (smPool m))" using inv(1) assms(2) by (simp add: SP_ready_def)
  have "mInFlight (mAsyncScope (session_at i m)) = 0" using inv(1) l by (simp add: SP_ready_def session_at_def)
  then have "SP_ready (smPool (on_session i f m))"
    using inv(1) assms(4) by (auto simp: SP_ready_def on_session_def set_slot_def session_at_def dest!: set_update_D)
  with assms(1) l assms(3) show ?thesis by (auto simp: sm_inv_def session_at_on_session)
qed

lemma drop_ref_keep: "1 < smRefs m i \<Longrightarrow> drop_ref i m = m\<lparr>smRefs := (smRefs m)(i := smRefs m i - 1)\<rparr>"
  by (simp add: drop_ref_def)

lemma sm_inv_drop_ref:
  assumes "sm_inv m" and "0 < smRefs m i" and "smRefs m i = 1 \<Longrightarrow> i \<notin> mapped m"
  shows "sm_inv (drop_ref i m)" and "smSessions (drop_ref i m) = smSessions m"
    and "smRefs (drop_ref i m) = (smRefs m)(i := smRefs m i - 1)" and "smGlobalSeq (drop_ref i m) = smGlobalSeq m"
    and "spCapacity (smPool (drop_ref i m)) = spCapacity (smPool m)"
proof -
  note inv = sm_invD [OF assms(1)]
  have c: "i < spCapacity (smPool m)" using inv(4) assms(2) by simp
  obtain s where s: "SP_ReleaseInternal i (smPool m) = Some (set_slot i (\<lambda>_. \<lparr>ps_session = s, ps_inUse = False\<rparr>)
      (smPool m\<lparr>spActiveCount := spActiveCount (smPool m) - 1, spFreeList := spFreeList (smPool m) @ [i]\<rparr>))"
    by (rule ReleaseInternal_ready [OF inv(1) c])
  have rl: "SP_ready (SP_release i (smPool m))" "spFreeList (SP_release i (smPool m)) = spFreeList (smPool m) @ [i]"
    "spCapacity (SP_release i (smPool m)) = spCapacity (smPool m)"
    using ssp.release_push [OF inv(1) c] by auto
  show "smSessions (drop_ref i m) = smSessions m" "smRefs (drop_ref i m) = (smRefs m)(i := smRefs m i - 1)"
    "smGlobalSeq (drop_ref i m) = smGlobalSeq m" "spCapacity (smPool (drop_ref i m)) = spCapacity (smPool m)"
    using rl by (auto simp: drop_ref_def Let_def)
  show "sm_inv (drop_ref i m)"
  proof (cases "smRefs m i = 1")
    case False
    with assms(2) have "drop_ref i m = m\<lparr>smRefs := (smRefs m)(i := smRefs m i - 1)\<rparr>" by (simp add: drop_ref_def)
    with assms(1) False assms(2) show ?thesis by (auto simp: sm_inv_def session_at_def)
  next
    case True
    have at: "session_at j (drop_ref i m) = session_at j m" if "j \<noteq> i" for j
      using True s that by (simp add: drop_ref_def session_at_def SP_release_def set_slot_def)
    have e: "smPool (drop_ref i m) = SP_release i (smPool m)" "smRefs (drop_ref i m) = (smRefs m)(i := 0)"
      "smSessions (drop_ref i m) = smSessions m" "smGlobalSeq (drop_ref i m) = smGlobalSeq m"
      using True by (simp_all add: drop_ref_def)
    have ni: "j \<noteq> i" if "(sid, j) \<in> set (smSessions m)" for sid j
      using that assms(3) [OF True] by (force simp: mapped_def)
    have "i \<notin> set (spFreeList (smPool m))" using inv(3) assms(2) by simp
    then show ?thesis
      unfolding sm_inv_def e rl using inv c at by (auto simp: rl(1) dest: ni)
  qed
qed

lemma Session_Close_keeps:
  "mId (snd (Session_Close s)) = mId s" "mInFlight (mAsyncScope (snd (Session_Close s))) = mInFlight (mAsyncScope s)"
  by (simp_all add: Session_Close_def AS_Cancel_def)

lemma sm_inv_delete:
  assumes "sm_inv m"
  shows "sm_inv (m\<lparr>smSessions := AList.delete sid (smSessions m)\<rparr>)"
proof -
  note inv = sm_invD [OF assms]
  have sub: "set (AList.delete sid (smSessions m)) \<subseteq> set (smSessions m)" by (auto simp: AList.delete_eq)
  have "distinct (map snd (AList.delete sid (smSessions m)))" using inv(6)
    by (simp add: AList.delete_eq distinct_map_filter)
  moreover have "length (AList.delete sid (smSessions m)) \<le> length (smSessions m)" by (simp add: AList.delete_eq)
  ultimately show ?thesis
    using assms sub inv(8) by (auto simp: sm_inv_def session_at_def distinct_delete intro: order_trans)
qed

lemma map_of_mem:
  "sm_inv m \<Longrightarrow> map_of (smSessions m) sid = Some i \<longleftrightarrow> (sid, i) \<in> set (smSessions m)"
  by (simp add: sm_inv_def map_of_eq_Some_iff)

lemma delete_unmaps:
  assumes "sm_inv m" and "map_of (smSessions m) sid = Some i"
  shows "i \<notin> mapped (m\<lparr>smSessions := AList.delete sid (smSessions m)\<rparr>)"
proof
  assume "i \<in> mapped (m\<lparr>smSessions := AList.delete sid (smSessions m)\<rparr>)"
  then obtain k where k: "(k, i) \<in> set (smSessions m)" "k \<noteq> sid" by (auto simp: mapped_def AList.delete_eq)
  have "(sid, i) \<in> set (smSessions m)" using assms map_of_mem by simp
  with k sm_invD(6) [OF assms(1)] show False by (fastforce simp: distinct_map inj_on_def)
qed

lemma sm_inv_remove_id: "sm_inv m \<Longrightarrow> sm_inv (RemoveSession_id sid m)"
proof (cases "map_of (smSessions m) sid")
  case (Some i)
  assume inv: "sm_inv m"
  let ?m = "m\<lparr>smSessions := AList.delete sid (smSessions m)\<rparr>"
  have "0 < smRefs ?m i" using Some inv sm_invD(7) [OF inv, of sid i] by (simp add: map_of_mem)
  from sm_inv_drop_ref(1) [OF sm_inv_delete [OF inv] this] delete_unmaps [OF inv Some] Some show ?thesis
    by (simp add: RemoveSession_id_def)
qed (simp add: RemoveSession_id_def)

lemma seq_fresh:
  assumes "unat (smGlobalSeq m) < 2 ^ 64 - 1"
  shows "smGlobalSeq m < smGlobalSeq m + 1" and "unat (smGlobalSeq m + 1) = Suc (unat (smGlobalSeq m))"
proof -
  show *: "unat (smGlobalSeq m + 1) = Suc (unat (smGlobalSeq m))"
    using assms by (subst unat_add_lem [THEN iffD1]) (auto simp: unat_1)
  then show "smGlobalSeq m < smGlobalSeq m + 1" by (simp add: word_less_nat_alt)
qed

lemma update_append: "k \<notin> fst ` set al \<Longrightarrow> AList.update k v al = al @ [(k, v)]"
  by (induction al) auto

lemma CreateSession_success:
  assumes "sm_inv m" and "unat (smGlobalSeq m) < 2 ^ 64 - 1" and "CreateSession socket now m = (Some i, m')"
  shows "sm_inv m'" and "map_of (smSessions m') (smGlobalSeq m') = Some i" and "smRefs m i = 0"
    and "smGlobalSeq m' = smGlobalSeq m + 1" and "mSocket (session_at i m') = socket" and "IsConnected (session_at i m')"
proof -
  note inv = sm_invD [OF assms(1)]
  let ?sid = "smGlobalSeq m + 1"
  from assms(3) obtain pool where a: "SP_Acquire (smPool m) = Some (i, pool)"
    and lt: "length (smSessions m) < unat MAX_CONNECTIONS"
    by (auto simp: CreateSession_def NextGlobalId_def Let_def split: if_splits option.splits)
  have ne: "spFreeList (smPool m) \<noteq> []" using a by (auto simp: SP_Acquire_def)
  from ssp.acquire_top [OF inv(1) ne] a have
    p: "i = last (spFreeList (smPool m))" "spFreeList pool = butlast (spFreeList (smPool m))" "SP_ready pool"
      "spCapacity pool = spCapacity (smPool m)" by auto
  have iin: "i \<in> set (spFreeList (smPool m))" using ne p(1) by simp
  then have i: "i < spCapacity (smPool m)" "smRefs m i = 0" using inv(3) by auto
  then show "smRefs m i = 0" by simp
  have il: "i < length (spSlots pool)" using p(3,4) i(1) by (simp add: SP_ready_def)
  have pool: "spSlots pool = (spSlots (smPool m))[i := (spSlots (smPool m) ! i)\<lparr>ps_inUse := True\<rparr>]"
    using a ne p(1) by (auto simp: SP_Acquire_def Let_def set_slot_def)
  have other: "ps_session (spSlots pool ! j) = session_at j m" for j
    using il unfolding pool by (cases "i = j") (simp_all add: session_at_def)
  define m1 where "m1 = on_session i (Session_Initialize ?sid socket now) (m\<lparr>smPool := pool, smGlobalSeq := ?sid\<rparr>)"
  define m2 where "m2 = (if smConfigured m then on_session i (SetOnRecv True) m1 else m1)"
  have m': "m' = m2\<lparr>smSessions := AList.update ?sid i (smSessions m), smRefs := (smRefs m)(i := 2)\<rparr>"
    using assms(3) a lt by (auto simp: CreateSession_def NextGlobalId_def Let_def m1_def m2_def)
  have at1: "session_at j m1 = (if i = j then Session_Initialize ?sid socket now (session_at i m) else session_at j m)" for j
    unfolding m1_def using il other by (subst session_at_on_session) (simp_all add: session_at_def)
  have len1: "i < length (spSlots (smPool m1))" using il by (simp add: m1_def)
  have "session_at j m' = session_at j m2" for j by (simp add: m' session_at_def)
  then have at: "session_at j m' = (if i = j then session_at i m2 else session_at j m)" for j
    using at1 len1 by (simp add: m2_def session_at_on_session)
  have new: "mId (session_at i m2) = ?sid" "mSocket (session_at i m2) = socket" "mState (session_at i m2) = Connected"
    using at1 [of i] len1 by (auto simp: m2_def session_at_on_session SetOnRecv_def Session_Initialize_def)
  have zero: "mInFlight (mAsyncScope (session_at i m)) = 0"
    using p(3) nth_mem [OF il] unfolding SP_ready_def other [of i, symmetric] by blast
  have rd: "SP_ready (smPool m')"
  proof -
    have "SP_ready (smPool m1)"
      using p(3) zero other by (auto simp: m1_def SP_ready_def on_session_def set_slot_def Session_Initialize_def dest!: set_update_D)
    then show ?thesis using at1 [of i] zero
      by (auto simp: m' m2_def SP_ready_def on_session_def set_slot_def SetOnRecv_def session_at_def Session_Initialize_def dest!: set_update_D)
  qed
  have fr: "spFreeList (smPool m') = butlast (spFreeList (smPool m))" "spCapacity (smPool m') = spCapacity (smPool m)"
    "smGlobalSeq m' = ?sid" using p by (simp_all add: m' m2_def m1_def)
  note f = seq_fresh [OF assms(2)]
  have notin: "?sid \<notin> fst ` set (smSessions m)" using inv(7) f(1) by fastforce
  have ses: "smSessions m' = smSessions m @ [(?sid, i)]"
    using notin by (simp add: m' update_append)
  have free: "spFreeList (smPool m) = spFreeList (smPool m') @ [i]" using ne p(1) fr(1) by simp
  have "distinct (spFreeList (smPool m') @ [i])" using inv(2) free by simp
  then have fset: "set (spFreeList (smPool m')) = {j. j < spCapacity (smPool m) \<and> smRefs m j = 0} - {i}"
    using inv(3) unfolding free by auto
  have nm: "j \<noteq> i" if "(sid, j) \<in> set (smSessions m)" for sid j using inv(7) that i(2) by fastforce
  have e7: "0 < smRefs m' j \<and> mId (session_at j m') = sid \<and> sid \<le> smGlobalSeq m'"
    if "(sid, j) \<in> set (smSessions m')" for sid j
  proof (cases "j = i")
    case True
    with that nm ses have "sid = ?sid" by auto
    with True new at show ?thesis by (simp add: m' fr(3) [unfolded m'])
  next
    case False
    with that ses have "(sid, j) \<in> set (smSessions m)" by auto
    with inv(7) [OF this] False at f(1) show ?thesis by (auto simp: m' fr(3) [unfolded m'])
  qed
  have d: "distinct (map fst (smSessions m'))" "distinct (map snd (smSessions m'))"
    using inv(5,6) notin by (auto simp: ses dest: nm)
  have len: "length (smSessions m') \<le> unat MAX_CONNECTIONS" using lt by (simp add: ses)
  have refs: "smRefs m' = (smRefs m)(i := 2)" by (simp add: m')
  have s: "distinct (spFreeList (smPool m'))" "set (spFreeList (smPool m')) = {j. j < spCapacity (smPool m) \<and> smRefs m' j = 0}"
    "\<forall>j. 0 < smRefs m' j \<longrightarrow> j < spCapacity (smPool m)"
    using inv(2,4) free fset i(1) refs by auto
  have "\<forall>(sid, j) \<in> set (smSessions m'). 0 < smRefs m' j \<and> mId (session_at j m') = sid \<and> sid \<le> smGlobalSeq m'"
    using e7 by blast
  then show si: "sm_inv m'" unfolding sm_inv_def fr(2) using rd s d len by blast
  show "map_of (smSessions m') (smGlobalSeq m') = Some i" using map_of_mem [OF si, of "smGlobalSeq m'" i] fr(3) by (simp add: ses)
  show "smGlobalSeq m' = smGlobalSeq m + 1" by (rule fr)
  show "mSocket (session_at i m') = socket" "IsConnected (session_at i m')" using at [of i] new by (simp_all add: IsConnected_def)
qed

lemma CreateSession_failure:
  "CreateSession socket now m = (None, m') \<Longrightarrow>
     m' = m \<and> (unat MAX_CONNECTIONS \<le> length (smSessions m) \<or> spFreeList (smPool m) = [])"
  by (auto simp: CreateSession_def NextGlobalId_def SP_Acquire_def Let_def split: if_splits option.splits)

subsection \<open>Runs\<close>

text \<open>
  Clients use the manager through references they own: \<open>outside\<close> counts the references to a slot that are
  not the manager's. \<open>MUse\<close> is any use of a session that keeps its id and starts no task.
\<close>

datatype sm_op =
    MCreate int Timestamp
  | MRemoveId ConnectionId
  | MRemove nat
  | MGet ConnectionId
  | MDrop nat
  | MCloseAll
  | MUse nat "Session \<Rightarrow> Session"

definition outside :: "nat \<Rightarrow> SessionManager \<Rightarrow> nat" where
  "outside i m = smRefs m i - (if i \<in> mapped m then 1 else 0)"

definition harmless :: "(Session \<Rightarrow> Session) \<Rightarrow> bool" where
  "harmless f \<longleftrightarrow> (\<forall>s. mId (f s) = mId s \<and> mInFlight (mAsyncScope (f s)) = mInFlight (mAsyncScope s))"

inductive sm_step :: "sm_op \<Rightarrow> SessionManager \<Rightarrow> SessionManager \<Rightarrow> bool" where
  create: "sm_step (MCreate sock now) m (snd (CreateSession sock now m))"
| removeId: "sm_step (MRemoveId sid) m (RemoveSession_id sid m)"
| remove: "0 < outside i m \<Longrightarrow> sm_step (MRemove i) m (RemoveSession i m)"
| get: "sm_step (MGet sid) m (snd (GetSession sid m))"
| drop: "0 < outside i m \<Longrightarrow> sm_step (MDrop i) m (drop_ref i m)"
| closeAll: "sm_step MCloseAll m (CloseAllSessions m)"
| use: "0 < outside i m \<Longrightarrow> harmless f \<Longrightarrow> sm_step (MUse i f) m (on_session i f m)"

inductive sm_run :: "sm_op list \<Rightarrow> SessionManager \<Rightarrow> SessionManager \<Rightarrow> bool" where
  finish: "sm_run [] m m"
| more: "sm_step op m m' \<Longrightarrow> sm_run ops m' m'' \<Longrightarrow> sm_run (op # ops) m m''"

inductive_cases sm_run_Nil: "sm_run [] m m'"
inductive_cases sm_run_Cons: "sm_run (op # ops) m m''"

definition SM_new :: "nat \<Rightarrow> bool \<Rightarrow> SessionManager" where
  "SM_new capacity configured = \<lparr>smSessions = [], smPool = snd (SP_Initialize capacity SP_new), smGlobalSeq = 0,
     smConfigured = configured, smRefs = (\<lambda>_. 0)\<rparr>"

lemma outside_refs: "0 < outside i m \<Longrightarrow> 0 < smRefs m i \<and> (smRefs m i = 1 \<longrightarrow> i \<notin> mapped m)"
  by (auto simp: outside_def split: if_splits)

lemma close_all_sessions:
  "\<forall>i \<in> set is. i < spCapacity (smPool m) \<Longrightarrow> sm_inv m \<Longrightarrow>
   sm_inv (fold (\<lambda>i. on_session i (\<lambda>s. snd (Session_Close s))) is m) \<and>
   smSessions (fold (\<lambda>i. on_session i (\<lambda>s. snd (Session_Close s))) is m) = smSessions m \<and>
   smRefs (fold (\<lambda>i. on_session i (\<lambda>s. snd (Session_Close s))) is m) = smRefs m \<and>
   smGlobalSeq (fold (\<lambda>i. on_session i (\<lambda>s. snd (Session_Close s))) is m) = smGlobalSeq m"
proof (induction "is" arbitrary: m)
  case (Cons i "is")
  then have "sm_inv (on_session i (\<lambda>s. snd (Session_Close s)) m)"
    by (intro sm_inv_on_session) (auto simp: Session_Close_keeps)
  with Cons.IH [of "on_session i (\<lambda>s. snd (Session_Close s)) m"] Cons.prems(1) show ?case by simp
qed simp

lemma drop_all:
  "distinct is \<Longrightarrow> sm_inv m \<Longrightarrow> smSessions m = [] \<Longrightarrow> \<forall>i \<in> set is. 0 < smRefs m i \<Longrightarrow>
   sm_inv (fold drop_ref is m) \<and> smSessions (fold drop_ref is m) = [] \<and> smGlobalSeq (fold drop_ref is m) = smGlobalSeq m"
proof (induction "is" arbitrary: m)
  case (Cons i "is")
  have no: "i \<notin> mapped m" using Cons.prems(3) by (simp add: mapped_def)
  note d = sm_inv_drop_ref [OF Cons.prems(2), of i] 
  have "0 < smRefs m i" using Cons.prems(4) by simp
  note d = d [OF this no]
  have "\<forall>j \<in> set is. 0 < smRefs (drop_ref i m) j" using Cons.prems(1,4) d(3) by auto
  with Cons.IH [of "drop_ref i m"] d Cons.prems(1,3) show ?case by simp
qed simp

lemma sm_inv_close_all: "sm_inv m \<Longrightarrow> sm_inv (CloseAllSessions m) \<and> smSessions (CloseAllSessions m) = [] \<and>
   smGlobalSeq (CloseAllSessions m) = smGlobalSeq m"
proof -
  assume inv: "sm_inv m"
  note i = sm_invD [OF inv]
  let ?m = "fold (\<lambda>i. on_session i (\<lambda>s. snd (Session_Close s))) (map snd (smSessions m)) m"
  have "\<forall>j \<in> set (map snd (smSessions m)). j < spCapacity (smPool m)" using i(4,7) by auto
  note c = close_all_sessions [OF this inv]
  have inv': "sm_inv (?m\<lparr>smSessions := []\<rparr>)" using c by (auto simp: sm_inv_def session_at_def)
  have "\<forall>j \<in> set (map snd (smSessions m)). 0 < smRefs (?m\<lparr>smSessions := []\<rparr>) j" using i(7) c by auto
  from drop_all [OF i(6) inv' _ this] c show ?thesis
    by (simp add: CloseAllSessions_def GetAllSessions_def Let_def)
qed

lemma remove_fields:
  "sm_inv m \<Longrightarrow> smGlobalSeq (RemoveSession_id sid m) = smGlobalSeq m \<and>
   smSessions (RemoveSession_id sid m) = AList.delete sid (smSessions m)"
proof (cases "map_of (smSessions m) sid")
  case (Some i)
  assume inv: "sm_inv m"
  have "0 < smRefs m i" using Some inv sm_invD(7) [OF inv, of sid i] by (simp add: map_of_mem)
  from sm_inv_drop_ref(2,4) [OF sm_inv_delete [OF inv], of sid i] this delete_unmaps [OF inv Some] Some
  show ?thesis by (simp add: RemoveSession_id_def)
next
  case None
  then have "AList.delete sid (smSessions m) = smSessions m"
    by (force simp: AList.delete_eq map_of_eq_None_iff filter_id_conv)
  with None show ?thesis by (simp add: RemoveSession_id_def)
qed

lemma sm_inv_remove:
  assumes "sm_inv m" and "0 < smRefs m i"
  shows "sm_inv (RemoveSession i m)" and "smGlobalSeq (RemoveSession i m) = smGlobalSeq m"
proof -
  let ?m = "if IsConnected (session_at i m) then on_session i (\<lambda>s. snd (Session_Close s)) m else m"
  have "sm_inv ?m" using assms sm_invD(4) [OF assms(1)] by (auto intro!: sm_inv_on_session simp: Session_Close_keeps)
  then show "sm_inv (RemoveSession i m)" "smGlobalSeq (RemoveSession i m) = smGlobalSeq m"
    using sm_inv_remove_id remove_fields by (auto simp: RemoveSession_def Let_def)
qed

lemma sm_step_inv:
  assumes "sm_step op m m'" and "sm_inv m" and "unat (smGlobalSeq m) < 2 ^ 64 - 1"
  shows "sm_inv m' \<and> unat (smGlobalSeq m') \<le> Suc (unat (smGlobalSeq m))"
  using assms(1)
proof cases
  case (create sock now)
  show ?thesis
  proof (cases "fst (CreateSession sock now m)")
    case None
    with create CreateSession_failure [of sock now m m'] assms(2) show ?thesis by (metis le_SucI order_refl prod.collapse)
  next
    case (Some i)
    then have "CreateSession sock now m = (Some i, m')" using create by (metis prod.collapse)
    from CreateSession_success(1,4) [OF assms(2,3) this] seq_fresh(2) [OF assms(3)] show ?thesis by simp
  qed
next
  case (removeId sid)
  with sm_inv_remove_id remove_fields assms(2) show ?thesis by simp
next
  case (remove i)
  with sm_inv_remove [OF assms(2), of i] outside_refs [of i m] show ?thesis by simp
next
  case (get sid)
  show ?thesis
  proof (cases "map_of (smSessions m) sid")
    case (Some i)
    have "0 < smRefs m i" using Some assms(2) sm_invD(7) [OF assms(2), of sid i] by (simp add: map_of_mem)
    with assms(2) get Some show ?thesis
      by (auto simp: GetSession_def sm_inv_def session_at_def) 
  qed (use get assms(2) in \<open>simp add: GetSession_def\<close>)
next
  case (drop i)
  from outside_refs [OF drop(3)] sm_inv_drop_ref [OF assms(2), of i] drop(2) show ?thesis by auto
next
  case closeAll
  with sm_inv_close_all [OF assms(2)] show ?thesis by simp
next
  case (use i f)
  then have "i < spCapacity (smPool m)" using sm_invD(4) [OF assms(2)] outside_refs by blast
  with use sm_inv_on_session [OF assms(2) this, of f] show ?thesis by (auto simp: harmless_def)
qed

lemma sm_run_inv:
  "sm_run ops m m' \<Longrightarrow> sm_inv m \<Longrightarrow> unat (smGlobalSeq m) + length ops < 2 ^ 64 \<Longrightarrow>
   sm_inv m' \<and> unat (smGlobalSeq m') \<le> unat (smGlobalSeq m) + length ops"
proof (induction rule: sm_run.induct)
  case (more op m m' ops m'')
  from sm_step_inv [OF more.hyps(1) more.prems(1)] more.prems(2) have
    s: "sm_inv m'" "unat (smGlobalSeq m') \<le> Suc (unat (smGlobalSeq m))" by auto
  with more.IH more.prems(2) show ?case by auto
qed simp

lemma sm_inv_new: "sm_inv (SM_new capacity configured)"
  by (auto simp: sm_inv_def SM_new_def SP_Initialize_def SP_new_def SP_ready_def Session_new_def AS_new_def)

text \<open>
  the registry of sessions is sound. After any sequence of operations: looking up an id
  gives the live session that carries exactly this id, in a slot that is not free; different ids
  have different slots; at most 1000 sessions are registered; a successful \<open>CreateSession\<close> uses a slot nobody
  referred to, and its session is found under its new id; and removing an id makes its lookup fail
  and no other.
\<close>

theorem session_registry:
  assumes "sm_run ops (SM_new capacity configured) m" and "length ops < 2 ^ 64 - 1"
  shows "(\<forall>sid i. fst (GetSession sid m) = Some i \<longrightarrow>
      mId (session_at i m) = sid \<and> i < spCapacity (smPool m) \<and> i \<notin> set (spFreeList (smPool m)) \<and>
      (\<forall>sid'. fst (GetSession sid' m) = Some i \<longrightarrow> sid' = sid)) \<and>
    GetSessionCount m \<le> unat MAX_CONNECTIONS \<and>
    (\<forall>sock now i m'. CreateSession sock now m = (Some i, m') \<longrightarrow>
      smRefs m i = 0 \<and> fst (GetSession (mId (session_at i m')) m') = Some i \<and> mSocket (session_at i m') = sock) \<and>
    (\<forall>sid sid'. fst (GetSession sid' (RemoveSession_id sid m)) =
      (if sid' = sid then None else fst (GetSession sid' m)))"
proof -
  have "unat (smGlobalSeq (SM_new capacity configured)) + length ops < 2 ^ 64" using assms(2) by (simp add: SM_new_def)
  from sm_run_inv [OF assms(1) sm_inv_new this] have inv: "sm_inv m" and
    seq: "unat (smGlobalSeq m) < 2 ^ 64 - 1" using assms(2) by (auto simp: SM_new_def)
  note i = sm_invD [OF inv]
  have get: "fst (GetSession sid m) = map_of (smSessions m) sid" for sid m
    by (simp add: GetSession_def split: option.splits)
  have "mId (session_at k m) = sid \<and> k < spCapacity (smPool m) \<and> k \<notin> set (spFreeList (smPool m))"
    if "map_of (smSessions m) sid = Some k" for sid k
    using i(3,4,7) that by (auto simp: map_of_mem [OF inv])
  moreover have "fst (GetSession (mId (session_at k m')) m') = Some k \<and> smRefs m k = 0 \<and> mSocket (session_at k m') = sock"
    if c: "CreateSession sock now m = (Some k, m')" for sock now k m'
  proof -
    note s = CreateSession_success [OF inv seq c]
    have "mId (session_at k m') = smGlobalSeq m'"
      using sm_invD(7) [OF s(1)] s(2) map_of_mem [OF s(1)] by blast
    with s show ?thesis by (simp add: get)
  qed
  moreover have "map_of (AList.delete sid (smSessions m)) sid' = (if sid' = sid then None else map_of (smSessions m) sid')" for sid sid'
    by (simp add: delete_conv)
  moreover have "sid' = sid" if "map_of (smSessions m) sid = Some k" "map_of (smSessions m) sid' = Some k" for sid sid' k
    using calculation(1) that by metis
  ultimately show ?thesis
    using i(8) remove_fields [OF inv] by (auto simp: get GetSessionCount_def)
qed

theorem session_registry_witness:
  "\<exists>i m. CreateSession 5 0 (SM_new 2 True) = (Some i, m) \<and> fst (GetSession (mId (session_at i m)) m) = Some i \<and>
     mSocket (session_at i m) = 5"
proof -
  obtain i m where c: "CreateSession 5 0 (SM_new 2 True) = (Some i, m)"
    by (simp add: CreateSession_def SM_new_def SP_Initialize_def SP_new_def SP_Acquire_def NextGlobalId_def
        MAX_CONNECTIONS_def Let_def upt_rec)
  from session_registry [OF sm_run.finish, of 2 True] c show ?thesis by auto
qed

end
