(* ===== verification/Wal.thy ===== *)
theory Wal
  imports Std_Text Key_Gen
begin

section \<open>The write-ahead log of the database task queue\<close>

text \<open>
  The file format of \<open>TestServer/src/DBTaskQueue.cpp\<close>: the lines \<open>WalWritePending\<close> and
  \<open>WalWriteDone\<close> append, the parser inside \<open>WalRecover\<close>, and the disk actions of \<open>WalRecover\<close> in
  their order, so that a crash can fall between any two of them. A file is its contents, \<open>None\<close>
  when it does not exist.

  The enumeration \<open>DBTaskType : uint8_t\<close> is read back by \<open>static_cast\<close>, which any byte may pass, so
  a task type is a byte and the enumerators are constants.
\<close>

subsection \<open>Records\<close>

type_synonym DBTaskType = u8

definition RecordConnectTime :: DBTaskType where "RecordConnectTime = 0"
definition RecordDisconnectTime :: DBTaskType where "RecordDisconnectTime = 1"
definition UpdatePlayerData :: DBTaskType where "UpdatePlayerData = 2"

record WalEntry =
  we_type :: DBTaskType
  we_session :: ConnectionId
  we_data :: string

abbreviation bar :: char where "bar \<equiv> CHR ''|''"
abbreviation nl :: char where "nl \<equiv> CHR 0x0A"
abbreviation soh :: char where "soh \<equiv> CHR 0x01"

definition wal_escape :: "string \<Rightarrow> string" where
  "wal_escape = map (\<lambda>c. if c = bar then soh else c)"

definition wal_unescape :: "string \<Rightarrow> string" where
  "wal_unescape = map (\<lambda>c. if c = soh then bar else c)"

definition pending_line :: "WalEntry \<Rightarrow> u64 \<Rightarrow> string" where
  "pending_line e seq = ''P|'' @ dec (unat (we_type e)) @ ''|'' @ dec (unat (we_session e)) @ ''|'' @
     dec (unat seq) @ ''|'' @ wal_escape (we_data e) @ [nl]"

definition done_line :: "u64 \<Rightarrow> string" where
  "done_line seq = ''D|'' @ dec (unat seq) @ [nl]"

subsection \<open>The parser\<close>

type_synonym wal_state = "(u64 \<times> WalEntry) list \<times> u64"

text \<open>A line of status P after its status field, and one of status D.\<close>

definition parse_pending :: "string \<Rightarrow> wal_state \<Rightarrow> wal_state" where
  "parse_pending ss st =
     (case getline bar ss of None \<Rightarrow> st | Some (typeStr, ss) \<Rightarrow>
      case getline bar ss of None \<Rightarrow> st | Some (sessionStr, ss) \<Rightarrow>
      case getline bar ss of None \<Rightarrow> st | Some (seqStr, ss) \<Rightarrow>
      let data = (case getline nl ss of None \<Rightarrow> [] | Some (d, _) \<Rightarrow> d) in
      case stoull seqStr of Inl _ \<Rightarrow> st | Inr seq \<Rightarrow>
      (case st of (pendingMap, maxSeenSeq) \<Rightarrow>
       let maxSeenSeq = max maxSeenSeq seq in
       case stoi typeStr of Inl _ \<Rightarrow> (pendingMap, maxSeenSeq) | Inr typeInt \<Rightarrow>
       case stoull sessionStr of Inl _ \<Rightarrow> (pendingMap, maxSeenSeq) | Inr sessionId \<Rightarrow>
       (emplace seq \<lparr>we_type = of_int typeInt, we_session = sessionId, we_data = wal_unescape data\<rparr> pendingMap,
        maxSeenSeq)))"

definition parse_done :: "string \<Rightarrow> wal_state \<Rightarrow> wal_state" where
  "parse_done ss st =
     (case getline bar ss of None \<Rightarrow> st | Some (seqStr, _) \<Rightarrow>
      case stoull seqStr of Inl _ \<Rightarrow> st | Inr seq \<Rightarrow>
      (case st of (pendingMap, maxSeenSeq) \<Rightarrow> (map_erase seq pendingMap, max maxSeenSeq seq)))"

definition parse_line :: "string \<Rightarrow> wal_state \<Rightarrow> wal_state" where
  "parse_line line st =
     (case getline bar line of None \<Rightarrow> st
      | Some (status, ss) \<Rightarrow>
          if status = ''P'' then parse_pending ss st
          else if status = ''D'' then parse_done ss st
          else st)"

function parse_lines :: "string \<Rightarrow> wal_state \<Rightarrow> wal_state" where
  "parse_lines f st =
     (case getline nl f of None \<Rightarrow> st
      | Some (line, rest) \<Rightarrow> parse_lines rest (if line = [] then st else parse_line line st))"
  by pat_completeness auto
termination
  by (relation "measure (\<lambda>(f, _). length f)") (auto dest: getline_shorter)

declare parse_lines.simps [simp del]

text \<open>\<open>parseWalFile\<close>: a file that cannot be opened adds nothing. The primary file is parsed first.\<close>

definition parseWalFile :: "string option \<Rightarrow> wal_state \<Rightarrow> wal_state" where
  "parseWalFile f st = (case f of None \<Rightarrow> st | Some s \<Rightarrow> parse_lines s st)"

record wal_disk =
  wdWal :: "string option"
  wdBak :: "string option"

definition wal_read :: "wal_disk \<Rightarrow> wal_state" where
  "wal_read d = parseWalFile (wdBak d) (parseWalFile (wdWal d) ([], 0))"

definition wal_append :: "string \<Rightarrow> wal_disk \<Rightarrow> wal_disk" where
  "wal_append s d = d\<lparr>wdWal := Some ((case wdWal d of None \<Rightarrow> [] | Some f \<Rightarrow> f) @ s)\<rparr>"

declare wal_append_def [ops]

subsection \<open>What the records mean\<close>

datatype wal_rec = Pend u64 WalEntry | Done u64

fun rec_line :: "wal_rec \<Rightarrow> string" where
  "rec_line (Pend s e) = pending_line e s"
| "rec_line (Done s) = done_line s"

fun apply_rec :: "wal_rec \<Rightarrow> wal_state \<Rightarrow> wal_state" where
  "apply_rec (Pend s e) (m, x) = (emplace s e m, max x s)"
| "apply_rec (Done s) (m, x) = (map_erase s m, max x s)"

text \<open>Data that survives the format: no line feed, and no substitute character.\<close>

definition clean :: "string \<Rightarrow> bool" where
  "clean d \<longleftrightarrow> nl \<notin> set d \<and> soh \<notin> set d"

fun clean_rec :: "wal_rec \<Rightarrow> bool" where
  "clean_rec (Pend s e) = clean (we_data e)"
| "clean_rec (Done s) = True"

lemma unescape_escape: "soh \<notin> set d \<Longrightarrow> wal_unescape (wal_escape d) = d"
  by (auto simp: wal_unescape_def wal_escape_def intro!: map_idI)

lemma nl_escape: "nl \<notin> set d \<Longrightarrow> nl \<notin> set (wal_escape d)"
  by (auto simp: wal_escape_def)

lemma getline_field: "CHR ''|'' \<notin> set a \<Longrightarrow> getline bar (a @ CHR ''|'' # b) = Some (a, b)"
  by (rule getline_delim)

lemma getline_rest: "nl \<notin> set d \<Longrightarrow> (case getline nl d of None \<Rightarrow> [] | Some (x, _) \<Rightarrow> x) = d"
  by (cases "d = []") (simp_all add: getline_last)

lemma parse_pending_line:
  assumes "clean (we_data e)"
  shows "parse_line (butlast (pending_line e s)) (m, x) = (emplace s e m, max x s)"
proof -
  let ?d = "wal_escape (we_data e)"
  have nl: "nl \<notin> set ?d" and un: "wal_unescape ?d = we_data e"
    using assms by (auto simp: clean_def intro: unescape_escape dest: nl_escape)
  have ty: "unat (we_type e) < 2147483648" using unsigned_less [of "we_type e", where ?'a = nat] by simp
  have b: "butlast (pending_line e s) = CHR ''P'' # bar # dec (unat (we_type e)) @ bar # dec (unat (we_session e)) @ bar # dec (unat s) @ bar # ?d"
    by (simp add: pending_line_def butlast_append)
  have "getline bar (CHR ''P'' # bar # r) = Some (''P'', r)" for r
    using getline_field [of "''P''" r] by simp
  moreover have eta: "\<lparr>we_type = we_type e, we_session = we_session e, we_data = we_data e\<rparr> = e" by simp
  ultimately show ?thesis
    unfolding b parse_line_def
    by (simp add: parse_pending_def getline_field getline_rest [OF nl] ty un Let_def eta)
qed

lemma parse_done_line: "parse_line (butlast (done_line s)) (m, x) = (map_erase s m, max x s)"
proof -
  have b: "butlast (done_line s) = CHR ''D'' # bar # dec (unat s)" by (simp add: done_line_def butlast_append)
  have "getline bar (CHR ''D'' # bar # r) = Some (''D'', r)" for r
    using getline_field [of "''D''" r] by simp
  then show ?thesis unfolding b parse_line_def by (simp add: parse_done_def getline_last)
qed

lemma rec_line_shape:
  assumes "clean_rec r"
  obtains l where "rec_line r = l @ [nl]" "nl \<notin> set l" "l \<noteq> []" "l = butlast (rec_line r)"
proof
  show "rec_line r = butlast (rec_line r) @ [nl]"
    by (cases r) (simp_all add: pending_line_def done_line_def butlast_append)
  show "nl \<notin> set (butlast (rec_line r))"
    using assms by (cases r) (auto simp: pending_line_def done_line_def butlast_append clean_def dest: nl_escape)
  show "butlast (rec_line r) \<noteq> []"
    by (cases r) (simp_all add: pending_line_def done_line_def butlast_append)
qed simp

lemma parse_rec_line: "clean_rec r \<Longrightarrow> parse_line (butlast (rec_line r)) st = apply_rec r st"
  by (cases st; cases r) (simp_all add: parse_pending_line parse_done_line)

lemma parse_lines_rec:
  assumes "clean_rec r"
  shows "parse_lines (rec_line r @ f) st = parse_lines f (apply_rec r st)"
proof -
  obtain l where l: "rec_line r = l @ [nl]" "nl \<notin> set l" "l \<noteq> []" "l = butlast (rec_line r)"
    using assms by (rule rec_line_shape)
  have "getline nl (rec_line r @ f) = Some (l, f)" using l(1) getline_delim [OF l(2)] by simp
  then show ?thesis using l(3,4) parse_rec_line [OF assms] by (subst parse_lines.simps) simp
qed

lemma parse_lines_Nil [simp]: "parse_lines [] st = st"
  by (subst parse_lines.simps) simp

text \<open>
  A log written record by record reads back as the records, whatever follows it and whatever
  was read before.
\<close>

lemma parse_records:
  "\<forall>r \<in> set rs. clean_rec r \<Longrightarrow>
   parse_lines (concat (map rec_line rs) @ f) st = parse_lines f (fold apply_rec rs st)"
  by (induction rs arbitrary: st) (simp_all add: parse_lines_rec)

subsection \<open>Recovery\<close>

definition remove_wal :: "wal_disk \<Rightarrow> wal_disk" where "remove_wal d = d\<lparr>wdWal := None\<rparr>"
definition remove_bak :: "wal_disk \<Rightarrow> wal_disk" where "remove_bak d = d\<lparr>wdBak := None\<rparr>"

text \<open>\<open>std::rename\<close> of the log to the backup; when it fails, the log is removed. \<open>ok\<close> is the file system's answer.\<close>

definition wal_rename :: "bool \<Rightarrow> wal_disk \<Rightarrow> wal_disk" where
  "wal_rename ok d = (if ok \<and> wdWal d \<noteq> None then \<lparr>wdWal = None, wdBak = wdWal d\<rparr> else remove_wal d)"

text \<open>The pending records \<open>EnqueueTask\<close> writes for the recovered entries, with new sequence numbers.\<close>

fun recover_records :: "u64 \<Rightarrow> WalEntry list \<Rightarrow> wal_rec list" where
  "recover_records g [] = []"
| "recover_records g (e # es) = (case NextGlobalId g of (seq, g') \<Rightarrow> Pend seq e # recover_records g' es)"

definition recover_appends :: "u64 \<Rightarrow> WalEntry list \<Rightarrow> (wal_disk \<Rightarrow> wal_disk) list" where
  "recover_appends g es = map (\<lambda>r. wal_append (rec_line r)) (recover_records g es)"

text \<open>
  The disk actions of \<open>WalRecover\<close> on a disk, with the counter of \<open>KeyGenerator\<close> at \<open>g\<close>, and the
  disk after a crash that lets only the first \<open>n\<close> of them happen.
\<close>

definition WalRecover_actions :: "bool \<Rightarrow> u64 \<Rightarrow> wal_disk \<Rightarrow> (wal_disk \<Rightarrow> wal_disk) list" where
  "WalRecover_actions ok g d =
     (case wal_read d of (pendingMap, maxSeenSeq) \<Rightarrow>
        if pendingMap = [] \<and> maxSeenSeq = 0 then []
        else if pendingMap = [] then [remove_wal, remove_bak]
        else [remove_bak, wal_rename ok] @ recover_appends g (map snd pendingMap) @ [remove_bak])"

definition recover_crash :: "nat \<Rightarrow> bool \<Rightarrow> u64 \<Rightarrow> wal_disk \<Rightarrow> wal_disk" where
  "recover_crash n ok g d = fold (\<lambda>a. a) (take n (WalRecover_actions ok g d)) d"

definition WalRecover :: "bool \<Rightarrow> u64 \<Rightarrow> wal_disk \<Rightarrow> WalEntry list \<times> wal_disk" where
  "WalRecover ok g d = (map snd (fst (wal_read d)), fold (\<lambda>a. a) (WalRecover_actions ok g d) d)"

subsubsection \<open>Sequence numbers\<close>

fun rec_seq :: "wal_rec \<Rightarrow> u64" where
  "rec_seq (Pend s e) = s"
| "rec_seq (Done s) = s"

lemma fold_apply_ordered: "ordered (fst st) \<Longrightarrow> ordered (fst (fold apply_rec rs st))"
proof (induction rs arbitrary: st)
  case (Cons r rs)
  have "ordered (fst (apply_rec r st))" using Cons.prems by (cases st; cases r) simp_all
  then show ?case using Cons.IH by simp
qed simp

text \<open>Records with new keys after, or before, those of a log do not interfere with it.\<close>

lemma fold_apply_disjoint:
  assumes "ordered m" and "ordered m'" and "set m' = set m0 \<union> set m" and "fst ` set m0 \<inter> rec_seq ` set rs = {}"
  shows "set (fst (fold apply_rec rs (m', x'))) = set m0 \<union> set (fst (fold apply_rec rs (m, x)))"
  using assms
proof (induction rs arbitrary: m m' x x')
  case (Cons r rs)
  have r: "rec_seq r \<notin> fst ` set m0" using Cons.prems(4) by auto
  show ?case
  proof (cases r)
    case (Pend s e)
    then have "set (emplace s e m') = set m0 \<union> set (emplace s e m)"
      using Cons.prems(1-3) r by (auto simp: set_emplace)
    then show ?thesis using Cons Pend by simp
  next
    case (Done s)
    then have "set (map_erase s m') = set m0 \<union> set (map_erase s m)"
      using Cons.prems(3) r by auto
    then show ?thesis using Cons Done by simp
  qed
qed simp

lemma fold_apply_max: "snd (fold apply_rec rs (m, x)) = fold max (map rec_seq rs) x"
proof (induction rs arbitrary: m x)
  case (Cons r rs)
  then show ?case by (cases r) (simp_all add: max.commute)
qed simp

lemma fold_max_upper: "(s::u64) \<in> set ss \<Longrightarrow> s \<le> fold max ss x"
proof (induction ss arbitrary: x)
  case (Cons a ss)
  have "x \<le> fold max ss x" for x :: u64 by (induction ss arbitrary: x) (auto intro: order_trans [OF max.cobounded2])
  then show ?case using Cons by (auto intro: order_trans [OF max.cobounded1])
qed simp

lemma emplace_last: "\<forall>k \<in> fst ` set m. k < s \<Longrightarrow> emplace s e m = m @ [(s, e)]"
  by (induction m) auto

lemma less_plus_one: "unat (g::u64) + 1 < 2 ^ 64 \<Longrightarrow> k \<le> g \<Longrightarrow> k < g + 1"
  by (simp add: word_less_nat_alt word_le_nat_alt unat_plus_if_size word_size)

lemma unat_plus_one: "unat (g::u64) + 1 < 2 ^ 64 \<Longrightarrow> unat (g + 1) = unat g + 1"
  by (simp add: unat_plus_if_size word_size)

lemma fold_recover_records:
  "unat g + length es < 2 ^ 64 \<Longrightarrow> \<forall>k \<in> fst ` set m. k \<le> g \<Longrightarrow>
   fst (fold apply_rec (recover_records g es) (m, x)) =
     m @ zip (map (\<lambda>i. g + of_nat (Suc i)) [0..<length es]) es"
proof (induction es arbitrary: g m x)
  case (Cons e es)
  have g: "unat (g + 1) = unat g + 1" using Cons.prems(1) by (intro unat_plus_one) simp
  have lt: "\<forall>k \<in> fst ` set m. k < g + 1" using Cons.prems by (auto intro: less_plus_one)
  have "fst (fold apply_rec (recover_records (g + 1) es) (m @ [(g + 1, e)], max x (g + 1))) =
      (m @ [(g + 1, e)]) @ zip (map (\<lambda>i. g + 1 + of_nat (Suc i)) [0..<length es]) es"
    using Cons.prems g lt by (intro Cons.IH) (auto intro: less_imp_le)
  moreover have "map (\<lambda>i. g + of_nat (Suc i)) [0..<length (e # es)] =
      (g + 1) # map (\<lambda>i. g + 1 + of_nat (Suc i)) [0..<length es]"
    by (simp add: upt_conv_Cons map_Suc_upt [symmetric] o_def algebra_simps del: upt_Suc map_Suc_upt)
  ultimately show ?case using lt by (simp add: NextGlobalId_def emplace_last)
qed simp

lemma recover_records_seq:
  "unat g + length es < 2 ^ 64 \<Longrightarrow> r \<in> set (recover_records g es) \<Longrightarrow> g < rec_seq r"
proof (induction es arbitrary: g)
  case (Cons e es)
  have g: "unat (g + 1) = unat g + 1" using Cons.prems(1) by (intro unat_plus_one) simp
  have l: "g < g + 1" using Cons.prems(1) by (intro less_plus_one) simp_all
  from Cons.prems(2) consider "r = Pend (g + 1) e" | "r \<in> set (recover_records (g + 1) es)"
    by (auto simp: NextGlobalId_def)
  then show ?case
  proof cases
    case 2
    then have "g + 1 < rec_seq r" using Cons g by simp
    then show ?thesis using l by simp
  qed (use l in simp)
qed simp

lemma fold_apply_keys: "fst ` set (fst (fold apply_rec rs (m, x))) \<subseteq> rec_seq ` set rs \<union> fst ` set m"
proof (induction rs arbitrary: m x)
  case (Cons r rs)
  show ?case
  proof (cases r)
    case (Pend k e)
    then show ?thesis using Cons.IH [of "emplace k e m" "max x k"] by (auto simp: keys_emplace)
  next
    case (Done k)
    have "fst ` set (map_erase k m) \<subseteq> fst ` set m" by auto
    then show ?thesis using Cons.IH [of "map_erase k m" "max x k"] Done by auto
  qed
qed simp

lemma recover_records_clean: "\<forall>e \<in> set es. clean (we_data e) \<Longrightarrow> \<forall>r \<in> set (recover_records g es). clean_rec r"
  by (induction es arbitrary: g) (auto simp: NextGlobalId_def)

lemma length_recover_records [simp]: "length (recover_records g es) = length es"
  by (induction es arbitrary: g) (auto simp: NextGlobalId_def)

subsubsection \<open>What the parser returns\<close>

text \<open>Whatever the file holds, the entries read from it are clean and in order.\<close>

definition read_ok :: "wal_state \<Rightarrow> bool" where
  "read_ok st \<longleftrightarrow> ordered (fst st) \<and> (\<forall>e \<in> snd ` set (fst st). clean (we_data e))"

lemma emplace_subset: "set (emplace k v m) \<subseteq> insert (k, v) (set m)"
  by (induction k v m rule: emplace.induct) auto

lemma unescape_clean: "clean (wal_unescape [])" "getline nl ss = Some (d, r) \<Longrightarrow> clean (wal_unescape d)"
  by (auto simp: clean_def wal_unescape_def getline_def split: if_splits dest: set_takeWhileD)

lemma read_ok_emplace: "read_ok (m, x) \<Longrightarrow> clean (we_data e) \<Longrightarrow> read_ok (emplace s e m, y)"
  using emplace_subset [of s e m] by (fastforce simp: read_ok_def)

lemma read_ok_erase: "read_ok (m, x) \<Longrightarrow> read_ok (map_erase s m, y)"
  by (auto simp: read_ok_def)

lemma read_ok_max: "read_ok (m, x) \<Longrightarrow> read_ok (m, y)"
  by (simp add: read_ok_def)

lemma read_ok_line: "read_ok st \<Longrightarrow> read_ok (parse_line l st)"
  by (cases st)
    (auto simp: parse_line_def parse_pending_def parse_done_def Let_def dest: unescape_clean(2)
      intro!: read_ok_emplace unescape_clean(1) intro: read_ok_erase read_ok_max split: option.splits sum.splits)

lemma read_ok_lines: "read_ok st \<Longrightarrow> read_ok (parse_lines f st)"
proof (induction f st rule: parse_lines.induct)
  case (1 f st)
  show ?case
  proof (cases "getline nl f")
    case None
    with 1 show ?thesis by (subst parse_lines.simps) simp
  next
    case (Some p)
    obtain l r where p: "p = (l, r)" by force
    have "read_ok (if l = [] then st else parse_line l st)" using 1(2) read_ok_line by simp
    then show ?thesis using 1(1) [OF Some p [symmetric]] Some p by (subst parse_lines.simps) simp
  qed
qed

lemma read_ok_wal_read: "read_ok (wal_read d)"
  by (auto simp: wal_read_def parseWalFile_def read_ok_def [of "([], 0)"] intro!: read_ok_lines split: option.splits)

lemma parseWalFile_records:
  "\<forall>r \<in> set rs. clean_rec r \<Longrightarrow> parseWalFile (Some (concat (map rec_line rs))) st = fold apply_rec rs st"
  using parse_records [of rs "[]" st] by (simp add: parseWalFile_def)

lemma fold_wal_append:
  "fold (\<lambda>a. a) (map (\<lambda>r. wal_append (rec_line r)) rs) d =
     (if rs = [] then d
      else d\<lparr>wdWal := Some ((case wdWal d of None \<Rightarrow> [] | Some f \<Rightarrow> f) @ concat (map rec_line rs))\<rparr>)"
  by (induction rs arbitrary: d) (auto simp: wal_append_def)

subsection \<open>Properties\<close>

lemma wal_read_records:
  "\<forall>r \<in> set rs. clean_rec r \<Longrightarrow>
   wal_read \<lparr>wdWal = Some (concat (map rec_line rs)), wdBak = None\<rparr> = fold apply_rec rs ([], 0)"
  by (simp only: wal_read_def wal_disk.simps parseWalFile_records) (simp add: parseWalFile_def)

text \<open>
  C11: The log reads back as it was written. For any sequence of records whose data holds
  neither a line feed nor the substitute character 0x01, parsing the file gives the map that
  the records describe: a pending record adds its task (type, session and data unchanged,
  bars included) unless its number is present, a done record removes it.
\<close>

theorem wal_roundtrip:
  assumes "\<forall>r \<in> set rs. clean_rec r"
  shows "wal_read \<lparr>wdWal = Some (concat (map rec_line rs)), wdBak = None\<rparr> = fold apply_rec rs ([], 0)"
  using assms by (rule wal_read_records)

definition sample_entry :: "string \<Rightarrow> WalEntry" where
  "sample_entry s = \<lparr>we_type = UpdatePlayerData, we_session = 7, we_data = s\<rparr>"

theorem wal_roundtrip_witness:
  "clean ''a|b'' \<and>
   wal_read \<lparr>wdWal = Some (concat (map rec_line [Pend 1 (sample_entry ''x''), Pend 2 (sample_entry ''a|b''), Done 1])), wdBak = None\<rparr> =
     ([(2, sample_entry ''a|b'')], 2)"
  using wal_roundtrip [of "[Pend 1 (sample_entry ''x''), Pend 2 (sample_entry ''a|b''), Done 1]"]
  by (simp add: clean_def sample_entry_def map_erase_def)

lemma WalRecover_disk:
  assumes "wal_read d = (pm, mx)" and "pm \<noteq> []"
  shows "snd (WalRecover ok g d) = \<lparr>wdWal = Some (concat (map rec_line (recover_records g (map snd pm)))), wdBak = None\<rparr>"
proof -
  have ne: "recover_records g (map snd pm) \<noteq> []" using assms(2) length_recover_records [of g "map snd pm"] by force
  have "wdWal (wal_rename ok (remove_bak d)) = None" by (simp add: wal_rename_def remove_wal_def)
  then show ?thesis
    using assms ne
    by (simp add: WalRecover_def WalRecover_actions_def recover_appends_def fold_wal_append) (simp add: remove_bak_def)
qed

lemma WalRecover_read:
  assumes "wal_read d = (pm, mx)" and "pm \<noteq> []" and "unat g + length pm < 2 ^ 64"
  shows "fst (wal_read (snd (WalRecover ok g d))) = zip (map (\<lambda>i. g + of_nat (Suc i)) [0..<length pm]) (map snd pm)"
proof -
  have cl: "\<forall>e \<in> set (map snd pm). clean (we_data e)" using read_ok_wal_read [of d] assms(1) by (auto simp: read_ok_def)
  have "wal_read (snd (WalRecover ok g d)) = fold apply_rec (recover_records g (map snd pm)) ([], 0)"
    unfolding WalRecover_disk [OF assms(1,2)] by (rule wal_read_records [OF recover_records_clean [OF cl]])
  then show ?thesis using fold_recover_records [of g "map snd pm" "[]" 0] assms(3) by simp
qed

text \<open>
  A recovery that is not interrupted keeps the outstanding tasks. Whatever the two files
  hold, whether or not the rename works: \<open>WalRecover\<close> re-enqueues the tasks that were read,
  and the log it leaves behind reads as exactly these tasks in the same order, under the
  next numbers of the counter; the backup is gone.
\<close>

theorem wal_recover_complete:
  assumes "WalRecover ok g d = (es, d')" and "unat g + length es < 2 ^ 64"
  shows "map snd (fst (wal_read d')) = es \<and>
    (es \<noteq> [] \<longrightarrow> wdBak d' = None \<and> map fst (fst (wal_read d')) = map (\<lambda>i. g + of_nat (Suc i)) [0..<length es])"
proof (cases "es = []")
  case True
  obtain pm mx where r: "wal_read d = (pm, mx)" by force
  have "pm = []" using assms(1) True r by (simp add: WalRecover_def)
  moreover have "d' = (if mx = 0 then d else remove_bak (remove_wal d))"
    using assms(1) r \<open>pm = []\<close> by (auto simp: WalRecover_def WalRecover_actions_def)
  ultimately show ?thesis
    using True r by (auto simp: remove_bak_def remove_wal_def wal_read_def parseWalFile_def)
next
  case False
  obtain pm mx where r: "wal_read d = (pm, mx)" by force
  have es: "es = map snd pm" and d': "d' = snd (WalRecover ok g d)" using assms(1) r by (simp_all add: WalRecover_def)
  have "fst (wal_read d') = zip (map (\<lambda>i. g + of_nat (Suc i)) [0..<length es]) es"
    using WalRecover_read [OF r] False es d' assms(2) by simp
  then show ?thesis using WalRecover_disk [OF r] False es d' by simp
qed

definition sample_log :: "wal_rec list" where
  "sample_log = [Pend 1 (sample_entry ''A''), Done 1, Pend 2 (sample_entry ''B''), Pend 3 (sample_entry ''C'')]"

definition sample_disk :: wal_disk where
  "sample_disk = \<lparr>wdWal = Some (concat (map rec_line sample_log)), wdBak = None\<rparr>"

lemma sample_read: "wal_read sample_disk = ([(2, sample_entry ''B''), (3, sample_entry ''C'')], 3)"
  unfolding sample_disk_def
  by (subst wal_read_records) (simp_all add: sample_log_def sample_entry_def clean_def map_erase_def)

theorem wal_recover_complete_witness:
  "\<exists>d'. WalRecover True 0 sample_disk = ([sample_entry ''B'', sample_entry ''C''], d') \<and>
     map snd (fst (wal_read d')) = [sample_entry ''B'', sample_entry ''C'']"
proof -
  obtain d' where w: "WalRecover True 0 sample_disk = ([sample_entry ''B'', sample_entry ''C''], d')"
    by (simp add: WalRecover_def sample_read)
  with wal_recover_complete [OF w] show ?thesis by auto
qed

lemma recover_crash_disk:
  fixes rs n g
  defines "d \<equiv> \<lparr>wdWal = Some (concat (map rec_line rs)), wdBak = None\<rparr>"
  assumes "wal_read d = (pm, mx)" and "pm \<noteq> []"
  obtains "recover_crash n True g d = d"
  | "recover_crash n True g d = \<lparr>wdWal = None, wdBak = wdWal d\<rparr>"
  | j where "recover_crash n True g d =
      \<lparr>wdWal = Some (concat (map rec_line (take j (recover_records g (map snd pm))))), wdBak = wdWal d\<rparr>"
  | "recover_crash n True g d = snd (WalRecover True g d)"
proof -
  let ?as = "WalRecover_actions True g d" and ?rs = "recover_records g (map snd pm)"
  have as: "?as = remove_bak # wal_rename True # map (\<lambda>r. wal_append (rec_line r)) ?rs @ [remove_bak]"
    using assms(2,3) by (simp add: WalRecover_actions_def recover_appends_def)
  have two: "wal_rename True (remove_bak d) = \<lparr>wdWal = None, wdBak = wdWal d\<rparr>"
    by (simp add: d_def wal_rename_def remove_bak_def)
  consider "n = 0" | "n = 1" | "n = 2" | "2 < n" "n \<le> 2 + length ?rs" | "2 + length ?rs < n" by linarith
  then show ?thesis
  proof cases
    case 4
    then have "take n ?as = remove_bak # wal_rename True # map (\<lambda>r. wal_append (rec_line r)) (take (n - 2) ?rs)"
      unfolding as by (cases n) (auto simp: take_Cons' take_map)
    moreover have "take (n - 2) ?rs \<noteq> []" using 4 by (cases ?rs) auto
    ultimately show ?thesis
      by (intro that(3) [of "n - 2"]) (simp add: recover_crash_def two fold_wal_append)
  next
    case 5
    then have "take n ?as = ?as" unfolding as by simp
    then show ?thesis by (intro that(4)) (simp add: recover_crash_def WalRecover_def)
  qed (use that as two in \<open>auto simp: recover_crash_def numeral_2_eq_2 d_def remove_bak_def\<close>)
qed



text \<open>
  A crash during recovery can lose a task. \<open>KeyGenerator\<close> starts again at 0 in the new process
  and the largest number seen in the log is not used: with one finished task A (number 1) and
  outstanding tasks B and C (2 and 3) in the log, recovery writes B and C again as 1 and 2, and
  a crash before the backup is deleted leaves two files whose numbers collide. The done record
  of A in the backup then erases the new record of B, and the old record of B is ignored
  because its number is taken by C: the next start does not find B, which never ran.
\<close>

theorem wal_recovery_crash_loses_task:
  "fst (wal_read sample_disk) = [(2, sample_entry ''B''), (3, sample_entry ''C'')] \<and>
   (\<exists>n. map snd (fst (wal_read (recover_crash n True 0 sample_disk))) = [sample_entry ''C'', sample_entry ''C''])"
proof -
  let ?new = "[Pend 1 (sample_entry ''B''), Pend 2 (sample_entry ''C'')]"
  have cl: "\<forall>r \<in> set sample_log. clean_rec r" "\<forall>r \<in> set ?new. clean_rec r"
    by (simp_all add: sample_log_def sample_entry_def clean_def)
  have "WalRecover_actions True 0 sample_disk =
      [remove_bak, wal_rename True] @ map (\<lambda>r. wal_append (rec_line r)) ?new @ [remove_bak]"
    by (simp add: WalRecover_actions_def sample_read recover_appends_def NextGlobalId_def)
  then have "take 4 (WalRecover_actions True 0 sample_disk) =
      [remove_bak, wal_rename True] @ map (\<lambda>r. wal_append (rec_line r)) ?new" by simp
  then have "recover_crash 4 True 0 sample_disk =
      \<lparr>wdWal = Some (concat (map rec_line ?new)), wdBak = Some (concat (map rec_line sample_log))\<rparr>"
    by (simp add: recover_crash_def wal_append_def wal_rename_def remove_bak_def sample_disk_def)
  then have "wal_read (recover_crash 4 True 0 sample_disk) = fold apply_rec sample_log (fold apply_rec ?new ([], 0))"
    by (simp only: wal_read_def wal_disk.simps parseWalFile_records [OF cl(1)] parseWalFile_records [OF cl(2)])
  then have "map snd (fst (wal_read (recover_crash 4 True 0 sample_disk))) = [sample_entry ''C'', sample_entry ''C'']"
    by (simp add: sample_log_def map_erase_def)
  then show ?thesis by (intro conjI exI [of _ 4]) (simp_all only: sample_read fst_conv)
qed

text \<open>
  Records the format does not protect. A line feed in the data of a task cuts its record: the
  recovered data ends before it; the character 0x01 comes back as a bar; and a done record of task 12 that was cut off after its first digit
  cancels task 1.
\<close>

theorem wal_format_hazards:
  "fst (wal_read \<lparr>wdWal = Some (pending_line (sample_entry (''A'' @ [nl] @ ''B'')) 1), wdBak = None\<rparr>) = [(1, sample_entry ''A'')] \<and>
   fst (wal_read \<lparr>wdWal = Some (pending_line (sample_entry [soh]) 1), wdBak = None\<rparr>) = [(1, sample_entry ''|'')] \<and>
   (\<exists>n. map fst (fst (wal_read \<lparr>wdWal = Some (pending_line (sample_entry ''A'') 1 @
      pending_line (sample_entry ''B'') 12 @ take n (done_line 12)), wdBak = None\<rparr>)) = [12])"
proof (intro conjI exI [of _ 3])
  have d: "dec (Suc 0) = ''1''" "dec 12 = ''12''" by code_simp+
  let ?A = "Pend 1 (sample_entry ''A'')" and ?L = "Pend 12 (sample_entry ''B'')"
  have "pending_line (sample_entry (''A'' @ [nl] @ ''B'')) 1 = rec_line ?A @ ''B'' @ [nl]"
    by (simp add: pending_line_def sample_entry_def wal_escape_def)
  moreover have "parse_lines (''B'' @ [nl]) st = st" for st
    using getline_delim [of nl "''B''" "[]"] by (subst parse_lines.simps) (simp add: parse_line_def getline_last)
  ultimately show "fst (wal_read \<lparr>wdWal = Some (pending_line (sample_entry (''A'' @ [nl] @ ''B'')) 1), wdBak = None\<rparr>) = [(1, sample_entry ''A'')]"
    using parse_records [of "[?A]" "''B'' @ [nl]" "([], 0)"]
    by (simp add: wal_read_def parseWalFile_def clean_def sample_entry_def)
  have "pending_line (sample_entry [soh]) 1 = rec_line (Pend 1 (sample_entry ''|''))"
    by (simp add: pending_line_def sample_entry_def wal_escape_def)
  then show "fst (wal_read \<lparr>wdWal = Some (pending_line (sample_entry [soh]) 1), wdBak = None\<rparr>) = [(1, sample_entry ''|'')]"
    using wal_read_records [of "[Pend 1 (sample_entry ''|'')]"] by (simp add: clean_def sample_entry_def)
  have cut: "take 3 (done_line 12) = butlast (rec_line (Done 1))" "butlast (rec_line (Done 1)) = ''D|1''"
    by (simp_all add: done_line_def d)
  have "parse_lines ''D|1'' st = apply_rec (Done 1) st" for st
    using parse_rec_line [of "Done 1" st] cut(2) by (subst parse_lines.simps) (simp add: getline_last)
  then show "map fst (fst (wal_read \<lparr>wdWal = Some (pending_line (sample_entry ''A'') 1 @
      pending_line (sample_entry ''B'') 12 @ take 3 (done_line 12)), wdBak = None\<rparr>)) = [12]"
    using parse_records [of "[?A, ?L]" "''D|1''" "([], 0)"] cut
    by (simp add: wal_read_def parseWalFile_def clean_def sample_entry_def map_erase_def)
qed

end
