(* ===== verification/Db_Task_Queue.thy ===== *)
theory Db_Task_Queue
  imports Wal "HOL-Library.Multiset"
begin

section \<open>The database task queue of the test server\<close>

text \<open>
  \<open>TestServer/DBTaskQueue\<close>: tasks are logged, routed to a worker by their session, run against
  the database and marked done in the log. Callers of \<open>EnqueueTask\<close>, the workers and the thread in
  \<open>Shutdown\<close> are program counters; one event lets one of them perform its next atomic action, so
  a run is an interleaving and every state of a run is a state in which the process may crash.

  The environment decides what the database answers (\<open>db_answer\<close>) and whether the log can be
  opened. Fields from \<open>dqAccepted\<close> on are history. A callback is known by a number.
\<close>

subsection \<open>Tasks and state\<close>

record DBTask =
  dt_type :: DBTaskType
  dt_session :: ConnectionId
  dt_data :: string
  dt_callback :: "nat option"
  dt_walSeq :: u64

definition DBTask_new :: "DBTaskType \<Rightarrow> ConnectionId \<Rightarrow> string \<Rightarrow> nat option \<Rightarrow> DBTask" where
  "DBTask_new t i d cb = \<lparr>dt_type = t, dt_session = i, dt_data = d, dt_callback = cb, dt_walSeq = 0\<rparr>"

text \<open>The tasks of the public entry points \<open>RecordConnectTime\<close>, \<open>RecordDisconnectTime\<close>, \<open>UpdatePlayerData\<close>.\<close>

definition DQ_RecordConnectTime :: "ConnectionId \<Rightarrow> string \<Rightarrow> DBTask" where
  "DQ_RecordConnectTime sessionId timestamp = DBTask_new RecordConnectTime sessionId timestamp None"

definition DQ_RecordDisconnectTime :: "ConnectionId \<Rightarrow> string \<Rightarrow> DBTask" where
  "DQ_RecordDisconnectTime sessionId timestamp = DBTask_new RecordDisconnectTime sessionId timestamp None"

definition DQ_UpdatePlayerData :: "ConnectionId \<Rightarrow> string \<Rightarrow> nat option \<Rightarrow> DBTask" where
  "DQ_UpdatePlayerData sessionId jsonData callback = DBTask_new UpdatePlayerData sessionId jsonData callback"

text \<open>Program points of a worker.\<close>

datatype dq_worker_pc =
    WLoop             \<comment> \<open>at the test of the while loop\<close>
  | WLock             \<comment> \<open>about to enter the critical section\<close>
  | WPark             \<comment> \<open>the predicate was false, the mutex is still held\<close>
  | WSleep            \<comment> \<open>waiting on the condition variable\<close>
  | WProc DBTask      \<comment> \<open>outside the lock, about to run a task\<close>
  | WMark DBTask      \<comment> \<open>the task succeeded, about to mark it done\<close>
  | WExit

record WorkerData =
  wdQueue :: "DBTask list"
  wdThread :: dq_worker_pc

text \<open>Program points of \<open>EnqueueTask\<close>, and of \<open>Shutdown\<close>.\<close>

datatype enq_pc =
    EIdle
  | EEntry DBTask     \<comment> \<open>at the first test of \<open>mIsRunning\<close>\<close>
  | ESeq DBTask       \<comment> \<open>about to draw a sequence number\<close>
  | EPend DBTask      \<comment> \<open>about to log the pending record\<close>
  | ELock DBTask      \<comment> \<open>about to lock the worker's mutex and test again\<close>
  | EHold DBTask      \<comment> \<open>holds the mutex, about to push\<close>
  | ENotify nat
  | ECancel DBTask    \<comment> \<open>rejected, about to mark the record done\<close>

datatype dq_shut =
    SIdle
  | SNotify nat
  | SJoin nat
  | SCollect nat
  | SDrain nat "DBTask list"
  | SMark nat DBTask "DBTask list"
  | SClose

record DBTaskQueue =
  dqWorkers :: "WorkerData list"
  dqQueueSize :: size_t
  dqRunning :: bool
  dqProcessed :: size_t
  dqFailed :: size_t
  dqWalPath :: string
  dqWalOpen :: bool
  dqDatabase :: bool          \<comment> \<open>whether the injected pointer is not null\<close>
  dqDisk :: wal_disk
  dqSeq :: u64                \<comment> \<open>the global counter of \<open>KeyGenerator\<close>\<close>
  dqCallers :: "enq_pc list"
  dqShut :: dq_shut
  dqAccepted :: "DBTask list"
  dqExecuted :: "(DBTask \<times> bool) list"
  dqCallbacks :: "(nat \<times> bool \<times> string) list"
  dqSql :: "(string \<times> int \<times> string) list"

subsection \<open>The log\<close>

text \<open>\<open>opened\<close>: whether the file can be opened.\<close>

definition EnsureWalOpen :: "bool \<Rightarrow> DBTaskQueue \<Rightarrow> bool \<times> DBTaskQueue" where
  "EnsureWalOpen opened q = (if dqWalOpen q then (True, q) else (opened, q\<lparr>dqWalOpen := opened\<rparr>))"

definition task_entry :: "DBTask \<Rightarrow> WalEntry" where
  "task_entry t = \<lparr>we_type = dt_type t, we_session = dt_session t, we_data = dt_data t\<rparr>"

definition WalWritePending :: "bool \<Rightarrow> DBTask \<Rightarrow> u64 \<Rightarrow> DBTaskQueue \<Rightarrow> DBTaskQueue" where
  "WalWritePending opened t seq q =
     (if dqWalPath q = [] then q
      else (case EnsureWalOpen opened q of (ok, q') \<Rightarrow>
        if \<not> ok then q' else q'\<lparr>dqDisk := wal_append (pending_line (task_entry t) seq) (dqDisk q')\<rparr>))"

definition WalWriteDone :: "bool \<Rightarrow> u64 \<Rightarrow> DBTaskQueue \<Rightarrow> DBTaskQueue" where
  "WalWriteDone opened seq q =
     (if dqWalPath q = [] then q
      else (case EnsureWalOpen opened q of (ok, q') \<Rightarrow>
        if \<not> ok then q' else q'\<lparr>dqDisk := wal_append (done_line seq) (dqDisk q')\<rparr>))"

definition WalNextSeq :: "DBTaskQueue \<Rightarrow> u64 \<times> DBTaskQueue" where
  "WalNextSeq q = (case NextGlobalId (dqSeq q) of (s, g) \<Rightarrow> (s, q\<lparr>dqSeq := g\<rparr>))"

subsection \<open>Handlers\<close>

text \<open>What the database does with one task: it is offline, runs the script, or throws.\<close>

datatype db_answer = Offline | ExecOk | ExecThrows string

text \<open>The three handlers differ in their script and their messages.\<close>

definition Handle :: "string \<Rightarrow> string \<Rightarrow> string \<Rightarrow> db_answer \<Rightarrow> DBTask \<Rightarrow> DBTaskQueue \<Rightarrow> bool \<times> string \<times> DBTaskQueue" where
  "Handle script stored logged a t q =
     (if \<not> dqDatabase q then (False, ''Database pointer is null'', q)
      else (case a of
          ExecOk \<Rightarrow> (True, stored, q\<lparr>dqSql := dqSql q @ [(script, sint (dt_session t), dt_data t)]\<rparr>)
        | ExecThrows what \<Rightarrow> (False, ''DB error: '' @ what, q)
        | Offline \<Rightarrow> (True, logged, q)))"

definition HandleRecordConnectTime :: "db_answer \<Rightarrow> DBTask \<Rightarrow> DBTaskQueue \<Rightarrow> bool \<times> string \<times> DBTaskQueue" where
  "HandleRecordConnectTime =
     Handle ''SP/SP_InsertSessionConnectLog.sql'' ''Connect time recorded to DB'' ''Connect time logged (no DB)''"

definition HandleRecordDisconnectTime :: "db_answer \<Rightarrow> DBTask \<Rightarrow> DBTaskQueue \<Rightarrow> bool \<times> string \<times> DBTaskQueue" where
  "HandleRecordDisconnectTime =
     Handle ''SP/SP_InsertSessionDisconnectLog.sql'' ''Disconnect time recorded to DB'' ''Disconnect time logged (no DB)''"

definition HandleUpdatePlayerData :: "db_answer \<Rightarrow> DBTask \<Rightarrow> DBTaskQueue \<Rightarrow> bool \<times> string \<times> DBTaskQueue" where
  "HandleUpdatePlayerData =
     Handle ''SP/SP_UpsertPlayerData.sql'' ''Player data updated to DB'' ''Player data logged (no DB)''"

definition dq_callback :: "DBTask \<Rightarrow> bool \<Rightarrow> string \<Rightarrow> DBTaskQueue \<Rightarrow> DBTaskQueue" where
  "dq_callback t ok result q =
     (case dt_callback t of None \<Rightarrow> q | Some cb \<Rightarrow> q\<lparr>dqCallbacks := dqCallbacks q @ [(cb, ok, result)]\<rparr>)"

definition ProcessTask :: "db_answer \<Rightarrow> DBTask \<Rightarrow> DBTaskQueue \<Rightarrow> bool \<times> DBTaskQueue" where
  "ProcessTask a t q =
     (case (if dt_type t = RecordConnectTime then HandleRecordConnectTime a t q
            else if dt_type t = RecordDisconnectTime then HandleRecordDisconnectTime a t q
            else if dt_type t = UpdatePlayerData then HandleUpdatePlayerData a t q
            else (False, ''Unknown DB task type: '' @ dec (unat (dt_type t)), q)) of
        (success, result, q) \<Rightarrow>
          let q = (if success then q\<lparr>dqProcessed := dqProcessed q + 1\<rparr> else q\<lparr>dqFailed := dqFailed q + 1\<rparr>);
              q = q\<lparr>dqExecuted := dqExecuted q @ [(t, success)]\<rparr>
          in (success, dq_callback t success result q))"

subsection \<open>The worker\<close>

definition set_thread :: "nat \<Rightarrow> dq_worker_pc \<Rightarrow> DBTaskQueue \<Rightarrow> DBTaskQueue" where
  "set_thread w p q = q\<lparr>dqWorkers := (dqWorkers q)[w := (dqWorkers q ! w)\<lparr>wdThread := p\<rparr>]\<rparr>"

definition set_queue :: "nat \<Rightarrow> DBTask list \<Rightarrow> DBTaskQueue \<Rightarrow> DBTaskQueue" where
  "set_queue w ts q = q\<lparr>dqWorkers := (dqWorkers q)[w := (dqWorkers q ! w)\<lparr>wdQueue := ts\<rparr>]\<rparr>"

definition dq_notify :: "nat \<Rightarrow> DBTaskQueue \<Rightarrow> DBTaskQueue" where
  "dq_notify w q = (if wdThread (dqWorkers q ! w) = WSleep then set_thread w WLock q else q)"

definition worker_index :: "DBTask \<Rightarrow> DBTaskQueue \<Rightarrow> nat" where
  "worker_index t q = unat (dt_session t) mod length (dqWorkers q)"

text \<open>Whether some caller of \<open>EnqueueTask\<close> holds the mutex of worker \<open>w\<close>.\<close>

fun holds_mutex :: "DBTaskQueue \<Rightarrow> nat \<Rightarrow> enq_pc \<Rightarrow> bool" where
  "holds_mutex q w (EHold t) = (worker_index t q = w)"
| "holds_mutex q w _ = False"

definition WorkerThreadFunc_next :: "db_answer \<Rightarrow> bool \<Rightarrow> nat \<Rightarrow> DBTaskQueue \<Rightarrow> DBTaskQueue option" where
  "WorkerThreadFunc_next a opened w q =
     (if w < length (dqWorkers q) then
        (case wdThread (dqWorkers q ! w) of
           WLoop \<Rightarrow> Some (set_thread w (if dqRunning q then WLock else WExit) q)
         | WLock \<Rightarrow>
             if list_ex (holds_mutex q w) (dqCallers q) then None
             else (case wdQueue (dqWorkers q ! w) of
                     t # ts \<Rightarrow> Some (set_thread w (WProc t) (set_queue w ts (q\<lparr>dqQueueSize := dqQueueSize q - 1\<rparr>)))
                   | [] \<Rightarrow> Some (set_thread w (if dqRunning q then WPark else WLoop) q))
         | WPark \<Rightarrow> Some (set_thread w WSleep q)
         | WSleep \<Rightarrow> None
         | WProc t \<Rightarrow>
             (case ProcessTask a t q of (success, q') \<Rightarrow>
                Some (set_thread w (if success \<and> dt_walSeq t \<noteq> 0 then WMark t else WLoop) q'))
         | WMark t \<Rightarrow> Some (set_thread w WLoop (WalWriteDone opened (dt_walSeq t) q))
         | WExit \<Rightarrow> None)
      else None)"

subsection \<open>EnqueueTask\<close>

definition set_caller :: "nat \<Rightarrow> enq_pc \<Rightarrow> DBTaskQueue \<Rightarrow> DBTaskQueue" where
  "set_caller c p q = q\<lparr>dqCallers := (dqCallers q)[c := p]\<rparr>"

text \<open>
  The remainder by the number of workers is undefined when there is none: no step. The mutex of
  a worker is taken while another caller is about to push or the worker is about to sleep.
\<close>

definition EnqueueTask_next :: "bool \<Rightarrow> nat \<Rightarrow> DBTaskQueue \<Rightarrow> DBTaskQueue option" where
  "EnqueueTask_next opened c q =
     (if c < length (dqCallers q) then
        (case dqCallers q ! c of
           EIdle \<Rightarrow> None
         | EEntry t \<Rightarrow>
             if \<not> dqRunning q then Some (set_caller c EIdle (dq_callback t False ''DBTaskQueue not running'' q))
             else Some (set_caller c (if dt_walSeq t = 0 then ESeq t else ELock t) q)
         | ESeq t \<Rightarrow> (case WalNextSeq q of (s, q') \<Rightarrow> Some (set_caller c (EPend (t\<lparr>dt_walSeq := s\<rparr>)) q'))
         | EPend t \<Rightarrow> Some (set_caller c (ELock t) (WalWritePending opened t (dt_walSeq t) q))
         | ELock t \<Rightarrow>
             if dqWorkers q = [] then None
             else let w = worker_index t q
                  in if list_ex (holds_mutex q w) (dqCallers q) \<or> wdThread (dqWorkers q ! w) = WPark then None
                     else if dqRunning q then Some (set_caller c (EHold t) q)
                     else if dt_walSeq t \<noteq> 0 then Some (set_caller c (ECancel t) q)
                     else Some (set_caller c EIdle (dq_callback t False ''DBTaskQueue shutting down'' q))
         | EHold t \<Rightarrow>
             let w = worker_index t q
             in Some (set_caller c (ENotify w) (set_queue w (wdQueue (dqWorkers q ! w) @ [t])
                  (q\<lparr>dqQueueSize := dqQueueSize q + 1, dqAccepted := dqAccepted q @ [t]\<rparr>)))
         | ENotify w \<Rightarrow> Some (set_caller c EIdle (dq_notify w q))
         | ECancel t \<Rightarrow>
             Some (set_caller c EIdle (dq_callback t False ''DBTaskQueue shutting down''
               (WalWriteDone opened (dt_walSeq t) q))))
      else None)"

subsection \<open>Initialize and Shutdown\<close>

text \<open>
  The state \<open>Initialize\<close> leaves behind, before \<open>WalRecover\<close> enqueues what it found: \<open>n\<close> more workers
  (a second \<open>Initialize\<close> keeps those of the first). \<open>bootstrap\<close> is the outcome of the SQL bootstrap, which is run
  when a connected database was injected; its exception makes \<open>Initialize\<close> fail.
\<close>

definition DBTaskQueue_new :: "nat \<Rightarrow> DBTaskQueue" where
  "DBTaskQueue_new callers = \<lparr>dqWorkers = [], dqQueueSize = 0, dqRunning = False, dqProcessed = 0, dqFailed = 0,
     dqWalPath = [], dqWalOpen = False, dqDatabase = False, dqDisk = \<lparr>wdWal = None, wdBak = None\<rparr>, dqSeq = 0,
     dqCallers = replicate callers EIdle, dqShut = SIdle, dqAccepted = [], dqExecuted = [], dqCallbacks = [], dqSql = []\<rparr>"

definition DQ_Initialize :: "nat \<Rightarrow> string \<Rightarrow> (bool \<times> bool) option \<Rightarrow> DBTaskQueue \<Rightarrow> bool \<times> DBTaskQueue" where
  "DQ_Initialize n walPath db q =
     (if dqRunning q then (True, q)
      else let q = q\<lparr>dqDatabase := db \<noteq> None\<rparr>
           in case db of
                Some (True, False) \<Rightarrow> (False, q)
              | _ \<Rightarrow> (True, q\<lparr>dqRunning := True,
                  dqWorkers := map (\<lambda>w. w\<lparr>wdThread := WLoop\<rparr>) (dqWorkers q @ replicate n \<lparr>wdQueue = [], wdThread = WExit\<rparr>),
                  dqWalPath := walPath\<rparr>))"

definition DQ_Shutdown_next :: "db_answer \<Rightarrow> bool \<Rightarrow> DBTaskQueue \<Rightarrow> DBTaskQueue option" where
  "DQ_Shutdown_next a opened q =
     (case dqShut q of
        SIdle \<Rightarrow> if dqRunning q then Some (q\<lparr>dqRunning := False, dqShut := SNotify 0\<rparr>) else None
      | SNotify k \<Rightarrow>
          if k < length (dqWorkers q) then Some (dq_notify k q\<lparr>dqShut := SNotify (Suc k)\<rparr>)
          else Some (q\<lparr>dqShut := SJoin 0\<rparr>)
      | SJoin k \<Rightarrow>
          if k < length (dqWorkers q)
          then (if wdThread (dqWorkers q ! k) = WExit then Some (q\<lparr>dqShut := SJoin (Suc k)\<rparr>) else None)
          else Some (q\<lparr>dqShut := SCollect 0\<rparr>)
      | SCollect k \<Rightarrow>
          if k < length (dqWorkers q)
          then Some (set_queue k [] q\<lparr>dqShut := SDrain k (wdQueue (dqWorkers q ! k))\<rparr>)
          else Some (q\<lparr>dqShut := SClose\<rparr>)
      | SDrain k [] \<Rightarrow> Some (q\<lparr>dqShut := SCollect (Suc k)\<rparr>)
      | SDrain k (t # ts) \<Rightarrow>
          (case ProcessTask a t q of (success, q') \<Rightarrow>
             Some (q'\<lparr>dqShut := (if success \<and> dt_walSeq t \<noteq> 0 then SMark k t ts else SDrain k ts)\<rparr>))
      | SMark k t ts \<Rightarrow> Some (WalWriteDone opened (dt_walSeq t) q\<lparr>dqShut := SDrain k ts\<rparr>)
      | SClose \<Rightarrow> Some (q\<lparr>dqQueueSize := 0, dqWalOpen := False, dqShut := SIdle\<rparr>))"

definition GetQueueSize :: "DBTaskQueue \<Rightarrow> size_t" where "GetQueueSize q = dqQueueSize q"
definition GetProcessedCount :: "DBTaskQueue \<Rightarrow> size_t" where "GetProcessedCount q = dqProcessed q"
definition GetFailedCount :: "DBTaskQueue \<Rightarrow> size_t" where "GetFailedCount q = dqFailed q"
definition DQ_IsRunning :: "DBTaskQueue \<Rightarrow> bool" where "DQ_IsRunning q = dqRunning q"

subsection \<open>Runs\<close>

text \<open>A caller enters \<open>EnqueueTask\<close> with a task it constructed, whose \<open>walSeq\<close> is 0.\<close>

datatype dq_event =
    DCall nat DBTaskType ConnectionId string "nat option"
  | DCaller nat bool          \<comment> \<open>a caller's next action\<close>
  | DWorker nat db_answer bool
  | DWake nat                 \<comment> \<open>a spurious wake-up\<close>
  | DShutdown db_answer bool
  | DOther                    \<comment> \<open>another user of the global counter\<close>

fun dq_next :: "dq_event \<Rightarrow> DBTaskQueue \<Rightarrow> DBTaskQueue option" where
  "dq_next (DCall c ty i d cb) q =
     (if c < length (dqCallers q) \<and> dqCallers q ! c = EIdle
      then Some (set_caller c (EEntry (DBTask_new ty i d cb)) q) else None)"
| "dq_next (DCaller c opened) q = EnqueueTask_next opened c q"
| "dq_next (DWorker w a opened) q = WorkerThreadFunc_next a opened w q"
| "dq_next (DWake w) q = (if w < length (dqWorkers q) then Some (dq_notify w q) else None)"
| "dq_next (DShutdown a opened) q = DQ_Shutdown_next a opened q"
| "dq_next DOther q = Some (q\<lparr>dqSeq := snd (NextGlobalId (dqSeq q))\<rparr>)"

fun dq_run :: "dq_event list \<Rightarrow> DBTaskQueue \<Rightarrow> DBTaskQueue option" where
  "dq_run [] q = Some q"
| "dq_run (e # es) q = (case dq_next e q of None \<Rightarrow> None | Some q' \<Rightarrow> dq_run es q')"

subsection \<open>What the queue asks of its log\<close>

locale task_log =
  fixes wf :: "'d \<Rightarrow> bool"
    and entries :: "'d \<Rightarrow> (u64 \<times> WalEntry) list"
    and pend :: "WalEntry \<Rightarrow> u64 \<Rightarrow> 'd \<Rightarrow> 'd"
    and fin :: "u64 \<Rightarrow> 'd \<Rightarrow> 'd"
  assumes wf_ordered: "wf d \<Longrightarrow> ordered (entries d)"
    and wf_pend: "wf d \<Longrightarrow> clean (we_data e) \<Longrightarrow> wf (pend e s d)"
    and wf_fin: "wf d \<Longrightarrow> wf (fin s d)"
    and set_pend: "wf d \<Longrightarrow> clean (we_data e) \<Longrightarrow> s \<notin> fst ` set (entries d) \<Longrightarrow>
      set (entries (pend e s d)) = insert (s, e) (set (entries d))"
    and set_fin: "wf d \<Longrightarrow> set (entries (fin s d)) = {x \<in> set (entries d). fst x \<noteq> s}"
begin

lemma entries_distinct: "wf d \<Longrightarrow> distinct (map fst (entries d))"
  using wf_ordered strict_sorted_iff by blast

lemma mset_pend:
  assumes "wf d" and "clean (we_data e)" and "s \<notin> fst ` set (entries d)"
  shows "mset (entries (pend e s d)) = add_mset (s, e) (mset (entries d))"
proof -
  have "distinct (entries (pend e s d))" "distinct ((s, e) # entries d)"
    using entries_distinct [OF wf_pend [OF assms(1,2), of s]] entries_distinct [OF assms(1)] assms(3)
    by (force simp: distinct_map)+
  then have "mset (entries (pend e s d)) = mset ((s, e) # entries d)"
    using set_pend [OF assms] by (simp only: set_eq_iff_mset_eq_distinct [symmetric]) simp
  then show ?thesis by simp
qed

lemma mset_fin:
  assumes "wf d" and "mset (entries d) = add_mset (s, e) M"
  shows "mset (entries (fin s d)) = M"
proof -
  have d: "distinct (map fst (entries d))" "distinct (entries (fin s d))"
    using entries_distinct [OF assms(1)] entries_distinct [OF wf_fin [OF assms(1)]] by (auto simp: distinct_map)
  have "(s, e) \<in> set (entries d)" using assms(2) by (metis set_mset_mset union_single_eq_member)
  then have "set (entries (fin s d)) = set (remove1 (s, e) (entries d))"
    using set_fin [OF assms(1), of s] d(1) by (fastforce simp: distinct_map set_remove1_eq inj_on_def)
  moreover have "distinct (remove1 (s, e) (entries d))" using d(1) by (simp add: distinct_map)
  ultimately have "mset (entries (fin s d)) = mset (remove1 (s, e) (entries d))"
    using d(2) by (simp add: set_eq_iff_mset_eq_distinct)
  then show ?thesis using assms(2) by simp
qed

end

definition log_wf :: "wal_disk \<Rightarrow> bool" where
  "log_wf d \<longleftrightarrow> wdBak d = None \<and> (\<exists>rs. (\<forall>r \<in> set rs. clean_rec r) \<and>
     (case wdWal d of None \<Rightarrow> [] | Some f \<Rightarrow> f) = concat (map rec_line rs))"

lemma log_wf_read:
  assumes "log_wf d"
  obtains rs where "\<forall>r \<in> set rs. clean_rec r" "wal_read d = fold apply_rec rs ([], 0)"
    "(case wdWal d of None \<Rightarrow> [] | Some f \<Rightarrow> f) = concat (map rec_line rs)"
proof -
  obtain rs where rs: "\<forall>r \<in> set rs. clean_rec r" "(case wdWal d of None \<Rightarrow> [] | Some f \<Rightarrow> f) = concat (map rec_line rs)"
    using assms by (auto simp: log_wf_def)
  have "parseWalFile (wdWal d) st = parse_lines (concat (map rec_line rs)) st" for st
    using rs(2) by (cases "wdWal d") (simp_all add: parseWalFile_def del: concat_eq_Nil_conv Nil_eq_concat_conv)
  then have "wal_read d = fold apply_rec rs ([], 0)"
    using assms parse_records [OF rs(1), of "[]"] by (simp add: wal_read_def log_wf_def parseWalFile_def)
  with rs show ?thesis by (intro that)
qed

lemma log_wf_append:
  assumes "log_wf d" and "clean_rec r"
  shows "log_wf (wal_append (rec_line r) d)" and "wal_read (wal_append (rec_line r) d) = apply_rec r (wal_read d)"
proof -
  obtain rs where rs: "\<forall>r \<in> set rs. clean_rec r" "wal_read d = fold apply_rec rs ([], 0)"
    "(case wdWal d of None \<Rightarrow> [] | Some f \<Rightarrow> f) = concat (map rec_line rs)" using assms(1) by (rule log_wf_read)
  have d: "wal_append (rec_line r) d = \<lparr>wdWal = Some (concat (map rec_line (rs @ [r]))), wdBak = None\<rparr>"
    using rs(3) assms(1) by (simp add: wal_append_def log_wf_def)
  have cl: "\<forall>x \<in> set (rs @ [r]). clean_rec x" using rs(1) assms(2) by auto
  show "log_wf (wal_append (rec_line r) d)" unfolding log_wf_def d by (auto intro!: exI [of _ "rs @ [r]"] simp: cl [simplified])
  show "wal_read (wal_append (rec_line r) d) = apply_rec r (wal_read d)"
    unfolding d wal_read_records [OF cl] using rs(2) by simp
qed

interpretation wal: task_log log_wf "\<lambda>d. fst (wal_read d)" "\<lambda>e s. wal_append (pending_line e s)" "\<lambda>s. wal_append (done_line s)"
proof unfold_locales
  fix d :: wal_disk and e :: WalEntry and s
  assume d: "log_wf d"
  obtain m x where m: "wal_read d = (m, x)" by force
  show o: "ordered (fst (wal_read d))" using read_ok_wal_read by (simp add: read_ok_def)
  show "log_wf (wal_append (done_line s) d)" using log_wf_append(1) [OF d, of "Done s"] by simp
  show "set (fst (wal_read (wal_append (done_line s) d))) = {x \<in> set (fst (wal_read d)). fst x \<noteq> s}"
    using log_wf_append(2) [OF d, of "Done s"] m by simp
  assume c: "clean (we_data e)"
  show "log_wf (wal_append (pending_line e s) d)" using log_wf_append(1) [OF d, of "Pend s e"] c by simp
  assume "s \<notin> fst ` set (fst (wal_read d))"
  then show "set (fst (wal_read (wal_append (pending_line e s) d))) = insert (s, e) (set (fst (wal_read d)))"
    using log_wf_append(2) [OF d, of "Pend s e"] c m o by (simp add: set_emplace)
qed

subsection \<open>Outstanding tasks\<close>

text \<open>Tasks whose pending record is in the log and whose done record is not.\<close>

fun caller_live :: "enq_pc \<Rightarrow> DBTask list" where
  "caller_live (ELock t) = [t]"
| "caller_live (EHold t) = [t]"
| "caller_live (ECancel t) = [t]"
| "caller_live _ = []"

fun caller_drawn :: "enq_pc \<Rightarrow> DBTask list" where
  "caller_drawn (EPend t) = [t]"
| "caller_drawn _ = []"

fun thread_live :: "dq_worker_pc \<Rightarrow> DBTask list" where
  "thread_live (WProc t) = [t]"
| "thread_live (WMark t) = [t]"
| "thread_live _ = []"

definition worker_live :: "WorkerData \<Rightarrow> DBTask list" where
  "worker_live w = thread_live (wdThread w) @ wdQueue w"

fun shut_live :: "dq_shut \<Rightarrow> DBTask list" where
  "shut_live (SDrain k ts) = ts"
| "shut_live (SMark k t ts) = t # ts"
| "shut_live _ = []"

definition failed_tasks :: "DBTaskQueue \<Rightarrow> DBTask list" where
  "failed_tasks q = map fst (filter (\<lambda>x. \<not> snd x) (dqExecuted q))"

definition outstanding :: "DBTaskQueue \<Rightarrow> DBTask multiset" where
  "outstanding q = mset (concat (map caller_live (dqCallers q))) + mset (concat (map worker_live (dqWorkers q))) +
     mset (shut_live (dqShut q)) + mset (failed_tasks q)"

definition drawn :: "DBTaskQueue \<Rightarrow> DBTask multiset" where
  "drawn q = mset (concat (map caller_drawn (dqCallers q)))"

definition task_key :: "DBTask \<Rightarrow> u64 \<times> WalEntry" where
  "task_key t = (dt_walSeq t, task_entry t)"

lemma mset_concat_update:
  assumes "i < length xs"
  obtains R where "mset (concat (map f xs)) = mset (f (xs ! i)) + R"
    "\<And>x. mset (concat (map f (xs[i := x]))) = mset (f x) + R"
proof -
  let ?R = "mset (concat (map f (take i xs))) + mset (concat (map f (drop (Suc i) xs)))"
  have "mset (concat (map f xs)) = mset (concat (map f (take i xs @ xs ! i # drop (Suc i) xs)))"
    using assms by (simp only: id_take_nth_drop [symmetric])
  then have "mset (concat (map f xs)) = mset (f (xs ! i)) + ?R" by simp
  moreover have "mset (concat (map f (xs[i := x]))) = mset (f x) + ?R" for x
    using assms by (simp add: upd_conv_take_nth_drop)
  ultimately show ?thesis by (rule that)
qed

text \<open>What an operation leaves alone.\<close>

lemma set_caller_view [simp]:
  "dqWorkers (set_caller c p q) = dqWorkers q" "dqShut (set_caller c p q) = dqShut q"
  "dqDisk (set_caller c p q) = dqDisk q" "dqSeq (set_caller c p q) = dqSeq q"
  "failed_tasks (set_caller c p q) = failed_tasks q" "dqCallers (set_caller c p q) = (dqCallers q)[c := p]"
  "dqWalPath (set_caller c p q) = dqWalPath q" "dqRunning (set_caller c p q) = dqRunning q"
  "dqAccepted (set_caller c p q) = dqAccepted q" "dqExecuted (set_caller c p q) = dqExecuted q"
  by (simp_all add: set_caller_def failed_tasks_def)

lemma set_thread_view [simp]:
  "dqCallers (set_thread w p q) = dqCallers q" "dqShut (set_thread w p q) = dqShut q"
  "dqDisk (set_thread w p q) = dqDisk q" "dqSeq (set_thread w p q) = dqSeq q"
  "failed_tasks (set_thread w p q) = failed_tasks q" "dqWalPath (set_thread w p q) = dqWalPath q"
  "dqRunning (set_thread w p q) = dqRunning q"
  "dqAccepted (set_thread w p q) = dqAccepted q" "dqExecuted (set_thread w p q) = dqExecuted q"
  "length (dqWorkers (set_thread w p q)) = length (dqWorkers q)"
  "dqWorkers (set_thread w p q) = (dqWorkers q)[w := (dqWorkers q ! w)\<lparr>wdThread := p\<rparr>]"
  by (simp_all add: set_thread_def failed_tasks_def)

lemma set_queue_view [simp]:
  "dqCallers (set_queue w ts q) = dqCallers q" "dqShut (set_queue w ts q) = dqShut q"
  "dqDisk (set_queue w ts q) = dqDisk q" "dqSeq (set_queue w ts q) = dqSeq q"
  "failed_tasks (set_queue w ts q) = failed_tasks q" "dqWalPath (set_queue w ts q) = dqWalPath q"
  "dqRunning (set_queue w ts q) = dqRunning q"
  "dqAccepted (set_queue w ts q) = dqAccepted q" "dqExecuted (set_queue w ts q) = dqExecuted q"
  "length (dqWorkers (set_queue w ts q)) = length (dqWorkers q)"
  "dqWorkers (set_queue w ts q) = (dqWorkers q)[w := (dqWorkers q ! w)\<lparr>wdQueue := ts\<rparr>]"
  by (simp_all add: set_queue_def failed_tasks_def)

lemma dq_callback_view [simp]:
  "dqWorkers (dq_callback t ok r q) = dqWorkers q" "dqShut (dq_callback t ok r q) = dqShut q"
  "dqDisk (dq_callback t ok r q) = dqDisk q" "dqSeq (dq_callback t ok r q) = dqSeq q"
  "failed_tasks (dq_callback t ok r q) = failed_tasks q" "dqCallers (dq_callback t ok r q) = dqCallers q"
  "dqWalPath (dq_callback t ok r q) = dqWalPath q" "dqRunning (dq_callback t ok r q) = dqRunning q"
  "dqAccepted (dq_callback t ok r q) = dqAccepted q" "dqExecuted (dq_callback t ok r q) = dqExecuted q"
  by (simp_all add: dq_callback_def failed_tasks_def split: option.splits)

lemma WalWrite_view [simp]:
  "dqWorkers (WalWriteDone f s q) = dqWorkers q" "dqShut (WalWriteDone f s q) = dqShut q"
  "dqSeq (WalWriteDone f s q) = dqSeq q" "failed_tasks (WalWriteDone f s q) = failed_tasks q"
  "dqCallers (WalWriteDone f s q) = dqCallers q" "dqWalPath (WalWriteDone f s q) = dqWalPath q"
  "dqRunning (WalWriteDone f s q) = dqRunning q" "dqAccepted (WalWriteDone f s q) = dqAccepted q"
  "dqExecuted (WalWriteDone f s q) = dqExecuted q"
  "dqWorkers (WalWritePending f t s q) = dqWorkers q" "dqShut (WalWritePending f t s q) = dqShut q"
  "dqSeq (WalWritePending f t s q) = dqSeq q" "failed_tasks (WalWritePending f t s q) = failed_tasks q"
  "dqCallers (WalWritePending f t s q) = dqCallers q" "dqWalPath (WalWritePending f t s q) = dqWalPath q"
  "dqRunning (WalWritePending f t s q) = dqRunning q" "dqAccepted (WalWritePending f t s q) = dqAccepted q"
  "dqExecuted (WalWritePending f t s q) = dqExecuted q"
  by (simp_all add: WalWriteDone_def WalWritePending_def EnsureWalOpen_def failed_tasks_def)

lemma WalWrite_disk [simp]:
  assumes "dqWalPath q \<noteq> []"
  shows "dqDisk (WalWriteDone True s q) = wal_append (done_line s) (dqDisk q)"
    and "dqDisk (WalWritePending True t s q) = wal_append (pending_line (task_entry t) s) (dqDisk q)"
  using assms by (simp_all add: WalWriteDone_def WalWritePending_def EnsureWalOpen_def)

lemma ProcessTask_view:
  assumes "ProcessTask a t q = (ok, q')"
  shows "dqWorkers q' = dqWorkers q" "dqShut q' = dqShut q" "dqSeq q' = dqSeq q" "dqDisk q' = dqDisk q"
    "dqCallers q' = dqCallers q" "dqWalPath q' = dqWalPath q" "dqRunning q' = dqRunning q"
    "dqAccepted q' = dqAccepted q" "dqExecuted q' = dqExecuted q @ [(t, ok)]"
    "failed_tasks q' = failed_tasks q @ (if ok then [] else [t])"
    "dqProcessed q' = dqProcessed q + (if ok then 1 else 0)" "dqFailed q' = dqFailed q + (if ok then 0 else 1)"
proof -
  have h: "Handle s x y a t q = (ok', r, q1) \<Longrightarrow> \<exists>sql. q1 = q\<lparr>dqSql := sql\<rparr>" for s x y ok' r q1
    by (cases "dqDatabase q"; cases a) (auto simp: Handle_def intro: exI [of _ "dqSql q"])
  obtain ok' r q1 where r: "(if dt_type t = RecordConnectTime then HandleRecordConnectTime a t q
            else if dt_type t = RecordDisconnectTime then HandleRecordDisconnectTime a t q
            else if dt_type t = UpdatePlayerData then HandleUpdatePlayerData a t q
            else (False, ''Unknown DB task type: '' @ dec (unat (dt_type t)), q)) = (ok', r, q1)"
    using prod_cases3 by blast
  then have "\<exists>sql. q1 = q\<lparr>dqSql := sql\<rparr>"
    by (auto simp: HandleRecordConnectTime_def HandleRecordDisconnectTime_def HandleUpdatePlayerData_def
        intro: exI [of _ "dqSql q"] dest!: h split: if_splits)
  then obtain sql where q1: "q1 = q\<lparr>dqSql := sql\<rparr>" ..
  have q': "ok = ok'" "q' = dq_callback t ok' r ((if ok' then q1\<lparr>dqProcessed := dqProcessed q1 + 1\<rparr>
      else q1\<lparr>dqFailed := dqFailed q1 + 1\<rparr>)\<lparr>dqExecuted := dqExecuted q1 @ [(t, ok')]\<rparr>)"
    using assms unfolding ProcessTask_def r by (auto simp: Let_def)
  show "dqWorkers q' = dqWorkers q" "dqShut q' = dqShut q" "dqSeq q' = dqSeq q" "dqDisk q' = dqDisk q"
    "dqCallers q' = dqCallers q" "dqWalPath q' = dqWalPath q" "dqRunning q' = dqRunning q"
    "dqAccepted q' = dqAccepted q" "dqExecuted q' = dqExecuted q @ [(t, ok)]"
    "failed_tasks q' = failed_tasks q @ (if ok then [] else [t])"
    using q' q1 by (auto simp: failed_tasks_def dq_callback_def split: option.splits)
  show "dqProcessed q' = dqProcessed q + (if ok then 1 else 0)" "dqFailed q' = dqFailed q + (if ok then 0 else 1)"
    using q' q1 by (auto simp: dq_callback_def split: option.splits)
qed

subsection \<open>The log follows the outstanding tasks\<close>

text \<open>
  What one step does to the log, in a run in which the log can always be opened: nothing, or a
  number is drawn, or a pending record is written, or a task is marked done.
\<close>

fun opens :: "dq_event \<Rightarrow> bool" where
  "opens (DCaller c opened) = opened"
| "opens (DWorker w a opened) = opened"
| "opens (DShutdown a opened) = opened"
| "opens (DCall c ty i d cb) = clean d"
| "opens _ = True"

fun caller_ok :: "enq_pc \<Rightarrow> bool" where
  "caller_ok (EEntry t) = (dt_walSeq t = 0 \<and> clean (dt_data t))"
| "caller_ok (ESeq t) = (dt_walSeq t = 0 \<and> clean (dt_data t))"
| "caller_ok (EPend t) = (dt_walSeq t \<noteq> 0 \<and> clean (dt_data t))"
| "caller_ok (ELock t) = (dt_walSeq t \<noteq> 0)"
| "caller_ok _ = True"

lemma outstanding_set_caller:
  assumes "c < length (dqCallers q)"
  shows "outstanding (set_caller c p q) + mset (caller_live (dqCallers q ! c)) = outstanding q + mset (caller_live p)"
    and "drawn (set_caller c p q) + mset (caller_drawn (dqCallers q ! c)) = drawn q + mset (caller_drawn p)"
proof -
  obtain R where "mset (concat (map caller_live (dqCallers q))) = mset (caller_live (dqCallers q ! c)) + R"
    "\<And>x. mset (concat (map caller_live ((dqCallers q)[c := x]))) = mset (caller_live x) + R"
    using assms mset_concat_update [where f = caller_live] by metis
  then show "outstanding (set_caller c p q) + mset (caller_live (dqCallers q ! c)) = outstanding q + mset (caller_live p)"
    by (simp add: outstanding_def)
  obtain D where "mset (concat (map caller_drawn (dqCallers q))) = mset (caller_drawn (dqCallers q ! c)) + D"
    "\<And>x. mset (concat (map caller_drawn ((dqCallers q)[c := x]))) = mset (caller_drawn x) + D"
    using assms mset_concat_update [where f = caller_drawn] by metis
  then show "drawn (set_caller c p q) + mset (caller_drawn (dqCallers q ! c)) = drawn q + mset (caller_drawn p)"
    by (simp add: drawn_def)
qed

lemma outstanding_set_thread:
  assumes "w < length (dqWorkers q)"
  shows "outstanding (set_thread w p q) + mset (thread_live (wdThread (dqWorkers q ! w))) = outstanding q + mset (thread_live p)"
proof -
  obtain R where "mset (concat (map worker_live (dqWorkers q))) = mset (worker_live (dqWorkers q ! w)) + R"
    "\<And>x. mset (concat (map worker_live ((dqWorkers q)[w := x]))) = mset (worker_live x) + R"
    using assms mset_concat_update [where f = worker_live] by metis
  then show ?thesis by (simp add: outstanding_def worker_live_def)
qed

lemma outstanding_set_queue:
  assumes "w < length (dqWorkers q)"
  shows "outstanding (set_queue w ts q) + mset (wdQueue (dqWorkers q ! w)) = outstanding q + mset ts"
proof -
  obtain R where "mset (concat (map worker_live (dqWorkers q))) = mset (worker_live (dqWorkers q ! w)) + R"
    "\<And>x. mset (concat (map worker_live ((dqWorkers q)[w := x]))) = mset (worker_live x) + R"
    using assms mset_concat_update [where f = worker_live] by metis
  then show ?thesis by (simp add: outstanding_def worker_live_def)
qed

lemma outstanding_shut:
  fixes q :: DBTaskQueue
  shows "outstanding (q\<lparr>dqShut := p\<rparr>) + mset (shut_live (dqShut q)) = outstanding q + mset (shut_live p)"
  by (simp add: outstanding_def failed_tasks_def)

lemma outstanding_cong:
  "dqCallers q' = dqCallers q \<Longrightarrow> dqWorkers q' = dqWorkers q \<Longrightarrow> dqShut q' = dqShut q \<Longrightarrow>
   failed_tasks q' = failed_tasks q @ ts \<Longrightarrow> outstanding q' = outstanding q + mset ts"
  by (simp add: outstanding_def)

lemma drawn_cong: "dqCallers q' = dqCallers q \<Longrightarrow> drawn q' = drawn q"
  by (simp add: drawn_def)

lemma outstanding_view [simp]:
  "outstanding (dq_callback t ok r q) = outstanding q" "outstanding (WalWriteDone f s q) = outstanding q"
  "outstanding (WalWritePending f t s q) = outstanding q" "outstanding (q\<lparr>dqSeq := g\<rparr>) = outstanding q"
  "outstanding (q\<lparr>dqQueueSize := n\<rparr>) = outstanding q" "outstanding (q\<lparr>dqAccepted := acc\<rparr>) = outstanding q"
  "outstanding (q\<lparr>dqRunning := b\<rparr>) = outstanding q" "outstanding (q\<lparr>dqWalOpen := b\<rparr>) = outstanding q"
  by (simp_all add: outstanding_def) (simp_all add: failed_tasks_def)

lemma drawn_view [simp]:
  "drawn (dq_callback t ok r q) = drawn q" "drawn (WalWriteDone f s q) = drawn q" "drawn (WalWritePending f t s q) = drawn q"
  "drawn (set_thread w p q) = drawn q" "drawn (set_queue w ts q) = drawn q" "drawn (q\<lparr>dqSeq := g\<rparr>) = drawn q"
  "drawn (q\<lparr>dqQueueSize := n\<rparr>) = drawn q" "drawn (q\<lparr>dqAccepted := acc\<rparr>) = drawn q" "drawn (q\<lparr>dqShut := x\<rparr>) = drawn q"
  "drawn (q\<lparr>dqRunning := b\<rparr>) = drawn q" "drawn (q\<lparr>dqWalOpen := b\<rparr>) = drawn q"
  by (simp_all add: drawn_def)

lemma outstanding_notify [simp]: "w < length (dqWorkers q) \<Longrightarrow> outstanding (dq_notify w q) = outstanding q"
  using outstanding_set_thread [of w q WLock] by (auto simp: dq_notify_def)

lemma dq_notify_view [simp]:
  "drawn (dq_notify w q) = drawn q" "dqDisk (dq_notify w q) = dqDisk q" "dqSeq (dq_notify w q) = dqSeq q"
  "dqCallers (dq_notify w q) = dqCallers q" "dqWalPath (dq_notify w q) = dqWalPath q" "dqShut (dq_notify w q) = dqShut q"
  "dqRunning (dq_notify w q) = dqRunning q" "dqAccepted (dq_notify w q) = dqAccepted q"
  "dqExecuted (dq_notify w q) = dqExecuted q" "length (dqWorkers (dq_notify w q)) = length (dqWorkers q)"
  by (simp_all add: dq_notify_def)

definition log_same :: "DBTaskQueue \<Rightarrow> DBTaskQueue \<Rightarrow> bool" where
  "log_same q q' \<longleftrightarrow> outstanding q' = outstanding q \<and> drawn q' = drawn q \<and> dqDisk q' = dqDisk q"

definition log_draw :: "DBTask \<Rightarrow> DBTaskQueue \<Rightarrow> DBTaskQueue \<Rightarrow> bool" where
  "log_draw t q q' \<longleftrightarrow> outstanding q' = outstanding q \<and> drawn q' = add_mset t (drawn q) \<and> dqDisk q' = dqDisk q \<and>
     dt_walSeq t = dqSeq q'"

definition log_pend :: "DBTask \<Rightarrow> DBTaskQueue \<Rightarrow> DBTaskQueue \<Rightarrow> bool" where
  "log_pend t q q' \<longleftrightarrow> outstanding q' = add_mset t (outstanding q) \<and> drawn q = add_mset t (drawn q') \<and>
     dqDisk q' = wal_append (pending_line (task_entry t) (dt_walSeq t)) (dqDisk q) \<and> clean (dt_data t)"

definition log_fin :: "DBTask \<Rightarrow> DBTaskQueue \<Rightarrow> DBTaskQueue \<Rightarrow> bool" where
  "log_fin t q q' \<longleftrightarrow> outstanding q = add_mset t (outstanding q') \<and> drawn q' = drawn q \<and>
     dqDisk q' = wal_append (done_line (dt_walSeq t)) (dqDisk q)"

definition log_effect :: "DBTaskQueue \<Rightarrow> DBTaskQueue \<Rightarrow> bool" where
  "log_effect q q' \<longleftrightarrow> log_same q q' \<or> (\<exists>t. log_draw t q q' \<and> dqSeq q' = dqSeq q + 1) \<or> (\<exists>t. log_pend t q q') \<or> (\<exists>t. log_fin t q q')"

lemmas log_kinds = log_same_def log_draw_def log_pend_def log_fin_def

lemma caller_effect:
  assumes "EnqueueTask_next True c q = Some q'" and "dqWalPath q \<noteq> []" and "\<forall>p \<in> set (dqCallers q). caller_ok p"
    and "\<forall>w. ENotify w \<in> set (dqCallers q) \<longrightarrow> w < length (dqWorkers q)" and "dqWorkers q \<noteq> []"
  shows "log_effect q q'"
proof -
  have c: "c < length (dqCallers q)" using assms(1) by (auto simp: EnqueueTask_next_def split: if_splits)
  have ok: "caller_ok (dqCallers q ! c)" using assms(3) c by simp
  note step = assms(1) [unfolded EnqueueTask_next_def, simplified c if_True]
  show ?thesis
  proof (cases "dqCallers q ! c")
    case EIdle
    then show ?thesis using step by simp
  next
    case (EEntry t)
    then have "log_same q q'"
      using step ok outstanding_set_caller [of c "dq_callback t False ''DBTaskQueue not running'' q" EIdle]
        outstanding_set_caller [of c q "ESeq t"] c
      by (auto simp: log_same_def split: if_splits)
    then show ?thesis by (simp add: log_effect_def)
  next
    case (ESeq t)
    then have "log_draw (t\<lparr>dt_walSeq := dqSeq q'\<rparr>) q q' \<and> dqSeq q' = dqSeq q + 1"
      using step outstanding_set_caller [of c "q\<lparr>dqSeq := dqSeq q + 1\<rparr>" "EPend (t\<lparr>dt_walSeq := dqSeq q + 1\<rparr>)"] c
      by (auto simp: log_draw_def WalNextSeq_def NextGlobalId_def)
    then show ?thesis by (auto simp: log_effect_def)
  next
    case (EPend t)
    then have "log_pend t q q'"
      using step outstanding_set_caller [of c "WalWritePending True t (dt_walSeq t) q" "ELock t"] c assms(2) ok
      by (auto simp: log_pend_def)
    then show ?thesis by (auto simp: log_effect_def)
  next
    case (ELock t)
    then have "log_same q q'"
      using step c ok outstanding_set_caller [of c q "EHold t"] outstanding_set_caller [of c q "ECancel t"]
      by (auto simp: log_same_def Let_def split: if_splits)
    then show ?thesis by (simp add: log_effect_def)
  next
    case (EHold t)
    let ?w = "worker_index t q" and ?q = "q\<lparr>dqQueueSize := dqQueueSize q + 1, dqAccepted := dqAccepted q @ [t]\<rparr>"
    let ?s = "set_queue ?w (wdQueue (dqWorkers q ! ?w) @ [t]) ?q"
    have w: "?w < length (dqWorkers ?q)" using assms(5) by (simp add: worker_index_def)
    have q': "q' = set_caller c (ENotify ?w) ?s" using step EHold by (simp add: Let_def)
    have "outstanding ?s = add_mset t (outstanding q)"
      using outstanding_set_queue [OF w, of "wdQueue (dqWorkers q ! ?w) @ [t]"] by simp
    then have "log_same q q'"
      using q' c EHold outstanding_set_caller [of c ?s "ENotify ?w"] by (simp add: log_same_def)
    then show ?thesis by (simp add: log_effect_def)
  next
    case (ENotify w)
    then have "w < length (dqWorkers q)" using assms(4) c by (metis nth_mem)
    then have "log_same q q'"
      using step c ENotify outstanding_set_caller [of c "dq_notify w q" EIdle] by (auto simp: log_same_def)
    then show ?thesis by (simp add: log_effect_def)
  next
    case (ECancel t)
    then have "log_fin t q q'"
      using step outstanding_set_caller [of c "dq_callback t False ''DBTaskQueue shutting down'' (WalWriteDone True (dt_walSeq t) q)" EIdle] c assms(2)
      by (auto simp: log_fin_def)
    then show ?thesis by (auto simp: log_effect_def)
  qed
qed

lemma worker_effect:
  assumes "WorkerThreadFunc_next a True w q = Some q'" and "dqWalPath q \<noteq> []"
    and "\<forall>t \<in># outstanding q. dt_walSeq t \<noteq> 0"
  shows "log_effect q q'"
proof -
  have w: "w < length (dqWorkers q)" using assms(1) by (auto simp: WorkerThreadFunc_next_def split: if_splits)
  note step = assms(1) [unfolded WorkerThreadFunc_next_def, simplified w if_True]
  note thread = outstanding_set_thread [OF w]
  show ?thesis
  proof (cases "wdThread (dqWorkers q ! w)")
    case (WProc t)
    obtain ok q1 where p: "ProcessTask a t q = (ok, q1)" by force
    note v = ProcessTask_view [OF p]
    have "worker_live (dqWorkers q ! w) = t # wdQueue (dqWorkers q ! w)" using WProc by (simp add: worker_live_def)
    then have "t \<in># outstanding q" using nth_mem [OF w] by (auto simp: outstanding_def intro!: bexI [of _ "dqWorkers q ! w"])
    then have seq: "dt_walSeq t \<noteq> 0" using assms(3) by simp
    have "outstanding q1 = outstanding q + mset (if ok then [] else [t])" using v by (intro outstanding_cong) simp_all
    moreover have "drawn q1 = drawn q" using v by (intro drawn_cong) simp
    ultimately have "log_same q q'"
      using step WProc p v seq outstanding_set_thread [of w q1 "WMark t"] outstanding_set_thread [of w q1 WLoop] w
      by (auto simp: log_same_def split: if_splits)
    then show ?thesis by (simp add: log_effect_def)
  next
    case (WMark t)
    then have "log_fin t q q'"
      using step w assms(2) outstanding_set_thread [of w "WalWriteDone True (dt_walSeq t) q" WLoop] by (auto simp: log_fin_def)
    then show ?thesis by (auto simp: log_effect_def)
  next
    case WLock
    show ?thesis
    proof (cases "wdQueue (dqWorkers q ! w)")
      case Nil
      then have "log_same q q'"
        using step WLock thread [of WPark] thread [of WLoop] by (auto simp: log_same_def split: if_splits)
      then show ?thesis by (simp add: log_effect_def)
    next
      case (Cons t ts)
      let ?q = "q\<lparr>dqQueueSize := dqQueueSize q - 1\<rparr>"
      have q': "q' = set_thread w (WProc t) (set_queue w ts ?q)"
        using step WLock Cons by (auto split: if_splits)
      have "outstanding (set_queue w ts ?q) + {#t#} = outstanding q"
        using outstanding_set_queue [of w ?q ts] w Cons by simp
      then have "log_same q q'"
        using q' outstanding_set_thread [of w "set_queue w ts ?q" "WProc t"] w WLock by (simp add: log_same_def)
      then show ?thesis by (simp add: log_effect_def)
    qed
  qed (use step thread [of WLock] thread [of WExit] thread [of WSleep] in
      \<open>auto simp: log_effect_def log_same_def split: if_splits\<close>)
qed

lemma shutdown_effect:
  assumes "DQ_Shutdown_next a True q = Some q'" and "dqWalPath q \<noteq> []"
    and "\<forall>t \<in># outstanding q. dt_walSeq t \<noteq> 0"
  shows "log_effect q q'"
proof (cases "dqShut q")
  case SIdle
  then show ?thesis using assms(1) outstanding_shut [where q = "q\<lparr>dqRunning := False\<rparr>" and p = "SNotify 0"]
    by (auto simp: DQ_Shutdown_next_def log_effect_def log_same_def split: if_splits)
next
  case (SNotify k)
  then show ?thesis
    using assms(1) outstanding_shut [where q = "dq_notify k q" and p = "SNotify (Suc k)"] outstanding_shut [where q = q and p = "SJoin 0"]
    by (auto simp: DQ_Shutdown_next_def log_effect_def log_same_def split: if_splits)
next
  case (SJoin k)
  then show ?thesis using assms(1) outstanding_shut [where q = q and p = "SJoin (Suc k)"] outstanding_shut [where q = q and p = "SCollect 0"]
    by (auto simp: DQ_Shutdown_next_def log_effect_def log_same_def split: if_splits)
next
  case (SCollect k)
  show ?thesis
  proof (cases "k < length (dqWorkers q)")
    case True
    then have "log_same q q'"
      using assms(1) SCollect outstanding_set_queue [OF True, of "[]"]
        outstanding_shut [where q = "set_queue k [] q" and p = "SDrain k (wdQueue (dqWorkers q ! k))"]
      by (auto simp: DQ_Shutdown_next_def log_same_def)
    then show ?thesis by (simp add: log_effect_def)
  next
    case False
    then show ?thesis using assms(1) SCollect outstanding_shut [where q = q and p = SClose]
      by (auto simp: DQ_Shutdown_next_def log_effect_def log_same_def)
  qed
next
  case (SDrain k ts)
  show ?thesis
  proof (cases ts)
    case Nil
    then show ?thesis using assms(1) SDrain outstanding_shut [where q = q and p = "SCollect (Suc k)"]
      by (auto simp: DQ_Shutdown_next_def log_effect_def log_same_def)
  next
    case (Cons t us)
    obtain ok q1 where p: "ProcessTask a t q = (ok, q1)" by force
    note v = ProcessTask_view [OF p]
    have "t \<in># outstanding q" using SDrain Cons by (simp add: outstanding_def)
    then have seq: "dt_walSeq t \<noteq> 0" using assms(3) by simp
    have "outstanding q1 = outstanding q + mset (if ok then [] else [t])" using v by (intro outstanding_cong) simp_all
    moreover have "drawn q1 = drawn q" using v by (intro drawn_cong) simp
    ultimately have "log_same q q'"
      using assms(1) SDrain Cons p v seq outstanding_shut [where q = q1 and p = "SMark k t us"] outstanding_shut [where q = q1 and p = "SDrain k us"]
      by (auto simp: DQ_Shutdown_next_def log_same_def split: if_splits)
    then show ?thesis by (simp add: log_effect_def)
  qed
next
  case (SMark k t ts)
  then have "log_fin t q q'"
    using assms outstanding_shut [where q = "WalWriteDone True (dt_walSeq t) q" and p = "SDrain k ts"]
    by (auto simp: DQ_Shutdown_next_def log_fin_def)
  then show ?thesis by (auto simp: log_effect_def)
next
  case SClose
  then show ?thesis using assms(1) outstanding_shut [where q = "q\<lparr>dqQueueSize := 0, dqWalOpen := False\<rparr>" and p = SIdle]
    by (auto simp: DQ_Shutdown_next_def log_effect_def log_same_def)
qed

text \<open>What every step keeps, and how it moves one caller.\<close>

lemma Shutdown_frame:
  "DQ_Shutdown_next a f q = Some q' \<Longrightarrow> dqCallers q' = dqCallers q \<and> length (dqWorkers q') = length (dqWorkers q) \<and>
     dqWalPath q' = dqWalPath q \<and> dqSeq q' = dqSeq q \<and> dqAccepted q' = dqAccepted q"
  by (cases "dqShut q")
    (auto simp: DQ_Shutdown_next_def ProcessTask_view split: if_splits list.splits prod.splits)

lemma Worker_frame:
  "WorkerThreadFunc_next a f w q = Some q' \<Longrightarrow> dqCallers q' = dqCallers q \<and> length (dqWorkers q') = length (dqWorkers q) \<and>
     dqWalPath q' = dqWalPath q \<and> dqSeq q' = dqSeq q \<and> dqAccepted q' = dqAccepted q \<and> dqShut q' = dqShut q \<and> dqRunning q' = dqRunning q"
  by (cases "wdThread (dqWorkers q ! w)")
    (auto simp: WorkerThreadFunc_next_def ProcessTask_view split: if_splits list.splits prod.splits)

lemma Enqueue_frame:
  "EnqueueTask_next f c q = Some q' \<Longrightarrow> length (dqWorkers q') = length (dqWorkers q) \<and>
     dqWalPath q' = dqWalPath q \<and> dqSeq q' \<in> {dqSeq q, dqSeq q + 1} \<and> c < length (dqCallers q) \<and>
     dqShut q' = dqShut q \<and> dqRunning q' = dqRunning q \<and> dqExecuted q' = dqExecuted q \<and>
     (\<exists>p. dqCallers q' = (dqCallers q)[c := p] \<and>
        (caller_ok (dqCallers q ! c) \<longrightarrow> dqSeq q + 1 \<noteq> 0 \<longrightarrow> caller_ok p) \<and>
        (\<forall>w. p = ENotify w \<longrightarrow> dqWorkers q \<noteq> [] \<longrightarrow> w < length (dqWorkers q)))"
  by (cases "dqCallers q ! c")
    (auto simp: EnqueueTask_next_def WalNextSeq_def NextGlobalId_def Let_def worker_index_def split: if_splits)

lemma dq_frame:
  assumes "dq_next e q = Some q'"
  shows "length (dqWorkers q') = length (dqWorkers q)" "dqWalPath q' = dqWalPath q"
    "dqSeq q' \<in> {dqSeq q, dqSeq q + 1}"
    "dqCallers q' = dqCallers q \<or> (\<exists>c p. c < length (dqCallers q) \<and> dqCallers q' = (dqCallers q)[c := p] \<and>
        (caller_ok (dqCallers q ! c) \<longrightarrow> opens e \<longrightarrow> dqSeq q + 1 \<noteq> 0 \<longrightarrow> caller_ok p) \<and>
        (\<forall>w. p = ENotify w \<longrightarrow> dqWorkers q \<noteq> [] \<longrightarrow> w < length (dqWorkers q)))"
proof -
  show "length (dqWorkers q') = length (dqWorkers q)" "dqWalPath q' = dqWalPath q" "dqSeq q' \<in> {dqSeq q, dqSeq q + 1}"
    using assms by (cases e; auto simp: NextGlobalId_def dest: Shutdown_frame Worker_frame Enqueue_frame split: if_splits)+
  show "dqCallers q' = dqCallers q \<or> (\<exists>c p. c < length (dqCallers q) \<and> dqCallers q' = (dqCallers q)[c := p] \<and>
        (caller_ok (dqCallers q ! c) \<longrightarrow> opens e \<longrightarrow> dqSeq q + 1 \<noteq> 0 \<longrightarrow> caller_ok p) \<and>
        (\<forall>w. p = ENotify w \<longrightarrow> dqWorkers q \<noteq> [] \<longrightarrow> w < length (dqWorkers q)))"
  proof (cases e)
    case (DCall c ty i d cb)
    then show ?thesis
      using assms by (intro disjI2 exI [of _ c] exI [of _ "EEntry (DBTask_new ty i d cb)"]) (auto simp: DBTask_new_def split: if_splits)
  next
    case (DCaller c f)
    then show ?thesis using Enqueue_frame [of f c q q'] assms by auto
  qed (use assms Shutdown_frame Worker_frame in \<open>auto split: if_splits\<close>)
qed

lemma dq_log_effect:
  assumes "dq_next e q = Some q'" and "opens e" and "dqWalPath q \<noteq> []" and "\<forall>p \<in> set (dqCallers q). caller_ok p"
    and "\<forall>w. ENotify w \<in> set (dqCallers q) \<longrightarrow> w < length (dqWorkers q)" and "dqWorkers q \<noteq> []"
    and "\<forall>t \<in># outstanding q. dt_walSeq t \<noteq> 0"
  shows "log_effect q q'"
proof (cases e)
  case (DCall c ty i d cb)
  then show ?thesis
    using assms(1) outstanding_set_caller [of c q "EEntry (DBTask_new ty i d cb)"]
    by (auto simp: log_effect_def log_same_def split: if_splits)
next
  case (DWake w)
  then show ?thesis using assms(1) by (auto simp: log_effect_def log_same_def split: if_splits)
next
  case DOther
  then show ?thesis using assms(1) by (auto simp: log_effect_def log_same_def)
qed (use assms caller_effect worker_effect shutdown_effect in auto)

definition log_inv :: "DBTaskQueue \<Rightarrow> bool" where
  "log_inv q \<longleftrightarrow> dqWalPath q \<noteq> [] \<and> dqWorkers q \<noteq> [] \<and> (\<forall>p \<in> set (dqCallers q). caller_ok p) \<and>
     (\<forall>w. ENotify w \<in> set (dqCallers q) \<longrightarrow> w < length (dqWorkers q)) \<and>
     log_wf (dqDisk q) \<and> mset (fst (wal_read (dqDisk q))) = image_mset task_key (outstanding q) \<and>
     (\<forall>t \<in># outstanding q + drawn q. dt_walSeq t \<noteq> 0 \<and> dt_walSeq t \<le> dqSeq q) \<and>
     (\<forall>s. count (image_mset dt_walSeq (outstanding q + drawn q)) s \<le> 1)"

lemma plus_one_nonzero: "unat (g::u64) + 1 < 2 ^ 64 \<Longrightarrow> g + 1 \<noteq> 0"
  using unat_plus_one [of g] by (metis add_is_0 one_neq_zero unat_0)

lemma log_numbers:
  assumes "log_effect q q'" and "log_inv q" and "dqSeq q \<le> dqSeq q'" and "unat (dqSeq q) + 1 < 2 ^ 64"
  shows "(\<forall>t \<in># outstanding q' + drawn q'. dt_walSeq t \<noteq> 0 \<and> dt_walSeq t \<le> dqSeq q') \<and>
     (\<forall>s. count (image_mset dt_walSeq (outstanding q' + drawn q')) s \<le> 1)"
proof -
  let ?K = "outstanding q + drawn q" and ?K' = "outstanding q' + drawn q'"
  have old: "dt_walSeq t \<noteq> 0" "dt_walSeq t \<le> dqSeq q" "dt_walSeq t \<le> dqSeq q'" if "t \<in># ?K" for t
  proof -
    show "dt_walSeq t \<noteq> 0" and le: "dt_walSeq t \<le> dqSeq q" using assms(2) that by (auto simp: log_inv_def)
    show "dt_walSeq t \<le> dqSeq q'" using le assms(3) by (rule order_trans)
  qed
  have cnt: "count (image_mset dt_walSeq ?K) s \<le> 1" for s using assms(2) unfolding log_inv_def by blast
  consider "?K' \<subseteq># ?K" | t where "?K' = add_mset t ?K" "dt_walSeq t = dqSeq q'" "dqSeq q' = dqSeq q + 1"
    using assms(1) by (auto simp: log_effect_def log_kinds)
  then show ?thesis
  proof cases
    case 1
    then have "count (image_mset dt_walSeq ?K') s \<le> 1" for s
      using cnt [of s] mset_subset_eq_count [OF image_mset_subseteq_mono [OF 1], of dt_walSeq s] by linarith
    moreover have "dt_walSeq t \<noteq> 0 \<and> dt_walSeq t \<le> dqSeq q'" if "t \<in># ?K'" for t
      using mset_subset_eqD [OF 1 that] old by blast
    ultimately show ?thesis by blast
  next
    case 2
    have new: "dqSeq q < dqSeq q'" "dqSeq q' \<noteq> 0"
      using 2(3) less_plus_one [OF assms(4)] plus_one_nonzero [OF assms(4)] by auto
    then have "count (image_mset dt_walSeq ?K) (dqSeq q') = 0"
      unfolding count_eq_zero_iff using old(2) by (metis (no_types, lifting) image_iff leD set_image_mset)
    then have "count (image_mset dt_walSeq ?K') s \<le> 1" for s using cnt [of s] 2(1,2) by auto
    moreover have "dt_walSeq u \<noteq> 0 \<and> dt_walSeq u \<le> dqSeq q'" if "u \<in># ?K'" for u
      using that 2(1,2) new(2) old by auto
    ultimately show ?thesis by blast
  qed
qed

lemma log_inv_step:
  assumes "log_inv q" and "dq_next e q = Some q'" and "opens e" and "unat (dqSeq q) + 1 < 2 ^ 64"
  shows "log_inv q'"
proof -
  note f = dq_frame [OF assms(2)]
  have i: "dqWalPath q \<noteq> []" "dqWorkers q \<noteq> []" "\<forall>p \<in> set (dqCallers q). caller_ok p"
    "\<forall>w. ENotify w \<in> set (dqCallers q) \<longrightarrow> w < length (dqWorkers q)" "log_wf (dqDisk q)"
    "mset (fst (wal_read (dqDisk q))) = image_mset task_key (outstanding q)" "\<forall>t \<in># outstanding q. dt_walSeq t \<noteq> 0"
    using assms(1) by (auto simp: log_inv_def)
  have eff: "log_effect q q'" using dq_log_effect [OF assms(2,3) i(1,3,4,2,7)] .
  have callers: "(\<forall>p \<in> set (dqCallers q'). caller_ok p) \<and> (\<forall>w. ENotify w \<in> set (dqCallers q') \<longrightarrow> w < length (dqWorkers q'))"
    using f(4)
  proof (elim disjE exE conjE)
    fix c p
    assume "c < length (dqCallers q)" "dqCallers q' = (dqCallers q)[c := p]"
      "caller_ok (dqCallers q ! c) \<longrightarrow> opens e \<longrightarrow> dqSeq q + 1 \<noteq> 0 \<longrightarrow> caller_ok p"
      "\<forall>w. p = ENotify w \<longrightarrow> dqWorkers q \<noteq> [] \<longrightarrow> w < length (dqWorkers q)"
    then show ?thesis
      using i(2,3,4) assms(3) plus_one_nonzero [OF assms(4)] f(1) by (auto dest!: set_update_D)
  qed (use i(3,4) f(1) in auto)
  have disk: "log_wf (dqDisk q') \<and> mset (fst (wal_read (dqDisk q'))) = image_mset task_key (outstanding q')"
  proof -
    consider "log_same q q' \<or> (\<exists>t. log_draw t q q')" | t where "log_pend t q q'" | t where "log_fin t q q'"
      using eff by (auto simp: log_effect_def)
    then show ?thesis
    proof cases
      case 1
      then show ?thesis using i(5,6) by (auto simp: log_kinds)
    next
      case (2 t)
      have p: "outstanding q' = add_mset t (outstanding q)" "drawn q = add_mset t (drawn q')"
        "dqDisk q' = wal_append (pending_line (task_entry t) (dt_walSeq t)) (dqDisk q)" "clean (we_data (task_entry t))"
        using 2 by (simp_all add: log_pend_def task_entry_def)
      have "count (image_mset dt_walSeq (outstanding q + drawn q)) (dt_walSeq t) \<le> 1"
        using assms(1) unfolding log_inv_def by blast
      then have "count (image_mset dt_walSeq (outstanding q)) (dt_walSeq t) = 0" using p(2) by simp
      then have "dt_walSeq t \<notin># image_mset dt_walSeq (outstanding q)" by (simp only: count_eq_zero_iff not_False_eq_True)
      then have "dt_walSeq t \<notin> fst ` set_mset (image_mset task_key (outstanding q))" by (auto simp: task_key_def)
      then have "dt_walSeq t \<notin> fst ` set (fst (wal_read (dqDisk q)))"
        using arg_cong [OF i(6), of set_mset] by simp
      from wal.mset_pend [OF i(5) p(4) this] wal.wf_pend [OF i(5) p(4)] show ?thesis
        using p i(6) by (simp add: task_key_def)
    next
      case (3 t)
      then have "mset (fst (wal_read (dqDisk q))) = add_mset (dt_walSeq t, task_entry t) (image_mset task_key (outstanding q'))"
        using i(6) by (simp add: log_fin_def task_key_def)
      from wal.mset_fin [OF i(5) this] wal.wf_fin [OF i(5)] 3 show ?thesis by (simp add: log_fin_def)
    qed
  qed
  have "dqSeq q \<le> dqSeq q'" using f(3) less_plus_one [OF assms(4), of "dqSeq q"] by auto
  from log_numbers [OF eff assms(1) this assms(4)] callers disk i(1,2) f(1,2) show ?thesis
    unfolding log_inv_def by (metis length_0_conv)
qed

lemma dq_seq_grows: "dq_next e q = Some q' \<Longrightarrow> unat (dqSeq q) + 1 < 2 ^ 64 \<Longrightarrow> unat (dqSeq q') \<le> unat (dqSeq q) + 1"
  using dq_frame(3) [of e q q'] unat_plus_one [of "dqSeq q"] by auto

lemma log_inv_run:
  "log_inv q \<Longrightarrow> dq_run es q = Some q' \<Longrightarrow> list_all opens es \<Longrightarrow> unat (dqSeq q) + length es < 2 ^ 64 \<Longrightarrow> log_inv q'"
proof (induction es arbitrary: q)
  case (Cons e es)
  from Cons.prems(2) obtain q1 where s: "dq_next e q = Some q1" "dq_run es q1 = Some q'"
    by (auto split: option.splits)
  have b: "unat (dqSeq q) + 1 < 2 ^ 64" using Cons.prems(4) by simp
  have "log_inv q1" using log_inv_step [OF Cons.prems(1) s(1) _ b] Cons.prems(3) by simp
  moreover have "unat (dqSeq q1) + length es < 2 ^ 64" using dq_seq_grows [OF s(1) b] Cons.prems(4) by simp
  ultimately show ?case using Cons.IH [OF _ s(2)] Cons.prems(3) by simp
qed simp

lemma DQ_Initialize_start:
  assumes "DQ_Initialize n path db (DBTaskQueue_new c) = (True, q)"
  shows "dqWorkers q = replicate n \<lparr>wdQueue = [], wdThread = WLoop\<rparr>" "dqCallers q = replicate c EIdle" "dqSeq q = 0"
    "dqDisk q = \<lparr>wdWal = None, wdBak = None\<rparr>" "dqWalPath q = path" "dqShut q = SIdle" "dqExecuted q = []"
    "dqAccepted q = []" "dqRunning q" "dqProcessed q = 0" "dqFailed q = 0"
  using assms by (auto simp: DQ_Initialize_def DBTaskQueue_new_def Let_def split: option.splits prod.splits bool.splits)

lemma concat_replicate_Nil [simp]: "concat (replicate n []) = []"
  by (induction n) auto

lemma log_inv_start:
  assumes "DQ_Initialize n path db (DBTaskQueue_new c) = (True, q)" and "path \<noteq> []" and "0 < n"
  shows "log_inv q"
proof -
  note s = DQ_Initialize_start [OF assms(1)]
  have "outstanding q = {#}" "drawn q = {#}"
    using s by (simp_all add: outstanding_def drawn_def failed_tasks_def worker_live_def)
  moreover have "log_wf (dqDisk q)" unfolding log_wf_def s by (auto intro: exI [of _ "[]"])
  ultimately show ?thesis
    using s assms(2,3) by (auto simp: log_inv_def wal_read_def parseWalFile_def)
qed

subsection \<open>Order of execution\<close>

text \<open>
  Per worker: what was accepted for it is what it executed, followed by the task it is about
  to run, what \<open>Shutdown\<close> has taken out of its queue, and its queue.
\<close>

fun running_task :: "dq_worker_pc \<Rightarrow> DBTask list" where
  "running_task (WProc t) = [t]"
| "running_task _ = []"

fun drained :: "nat \<Rightarrow> dq_shut \<Rightarrow> DBTask list" where
  "drained w (SDrain k ts) = (if k = w then ts else [])"
| "drained w (SMark k t ts) = (if k = w then ts else [])"
| "drained w _ = []"

definition for_worker :: "nat \<Rightarrow> nat \<Rightarrow> DBTask list \<Rightarrow> DBTask list" where
  "for_worker n w ts = filter (\<lambda>t. unat (dt_session t) mod n = w) ts"

definition executed :: "DBTaskQueue \<Rightarrow> DBTask list" where
  "executed q = map fst (dqExecuted q)"

fun exited_upto :: "nat \<Rightarrow> dq_shut \<Rightarrow> nat" where
  "exited_upto n SIdle = 0"
| "exited_upto n (SNotify k) = 0"
| "exited_upto n (SJoin k) = k"
| "exited_upto n _ = n"

fun draining :: "dq_shut \<Rightarrow> nat option" where
  "draining (SDrain k ts) = Some k"
| "draining (SMark k t ts) = Some k"
| "draining _ = None"

text \<open>What worker \<open>w\<close> has executed and will execute.\<close>

definition pipeline :: "nat \<Rightarrow> DBTaskQueue \<Rightarrow> DBTask list" where
  "pipeline w q = for_worker (length (dqWorkers q)) w (executed q) @ running_task (wdThread (dqWorkers q ! w)) @
     drained w (dqShut q) @ wdQueue (dqWorkers q ! w)"

definition joined :: "DBTaskQueue \<Rightarrow> bool" where
  "joined q \<longleftrightarrow> (dqShut q \<noteq> SIdle \<longrightarrow> \<not> dqRunning q) \<and>
     (\<forall>w < exited_upto (length (dqWorkers q)) (dqShut q). w < length (dqWorkers q) \<longrightarrow> wdThread (dqWorkers q ! w) = WExit) \<and>
     (\<forall>k. draining (dqShut q) = Some k \<longrightarrow> k < length (dqWorkers q))"

definition fifo_inv :: "DBTaskQueue \<Rightarrow> bool" where
  "fifo_inv q \<longleftrightarrow> dqWorkers q \<noteq> [] \<and> joined q \<and>
     (\<forall>w < length (dqWorkers q). for_worker (length (dqWorkers q)) w (dqAccepted q) = pipeline w q)"

lemma for_worker_simps [simp]:
  "for_worker n w [] = []"
  "for_worker n w (ts @ us) = for_worker n w ts @ for_worker n w us"
  "for_worker n w (t # ts) = (if unat (dt_session t) mod n = w then t # for_worker n w ts else for_worker n w ts)"
  by (simp_all add: for_worker_def)

lemma executed_view [simp]:
  "executed (set_caller c p q) = executed q" "executed (set_thread w x q) = executed q" "executed (set_queue w ts q) = executed q"
  "executed (dq_callback t ok r q) = executed q" "executed (WalWriteDone f s q) = executed q"
  "executed (WalWritePending f t s q) = executed q" "executed (dq_notify w q) = executed q"
  "executed (q\<lparr>dqShut := sh\<rparr>) = executed q" "executed (q\<lparr>dqSeq := g\<rparr>) = executed q" "executed (q\<lparr>dqRunning := b\<rparr>) = executed q"
  "executed (q\<lparr>dqQueueSize := n\<rparr>) = executed q" "executed (q\<lparr>dqAccepted := acc\<rparr>) = executed q" "executed (q\<lparr>dqWalOpen := b\<rparr>) = executed q"
  by (simp_all add: executed_def)

lemma executed_ProcessTask: "ProcessTask a t q = (ok, q') \<Longrightarrow> executed q' = executed q @ [t]"
  by (simp add: executed_def ProcessTask_view)

lemma not_draining: "joined q \<Longrightarrow> w < length (dqWorkers q) \<Longrightarrow> wdThread (dqWorkers q ! w) \<noteq> WExit \<Longrightarrow> drained w (dqShut q) = []"
  by (cases "dqShut q") (auto simp: joined_def)

lemma pipeline_thread:
  assumes "w < length (dqWorkers q)" and "running_task p = running_task (wdThread (dqWorkers q ! w))"
  shows "pipeline v (set_thread w p q) = pipeline v q"
  using assms by (cases "v = w") (simp_all add: pipeline_def)

lemma pipeline_notify: "w < length (dqWorkers q) \<Longrightarrow> pipeline v (dq_notify w q) = pipeline v q"
  by (simp add: dq_notify_def pipeline_thread)

lemma joined_thread:
  assumes "joined q" and "w < length (dqWorkers q)" and "wdThread (dqWorkers q ! w) \<noteq> WExit"
  shows "joined (set_thread w p q)"
  using assms by (auto simp: joined_def nth_list_update)

lemma joined_notify: "joined q \<Longrightarrow> w < length (dqWorkers q) \<Longrightarrow> joined (dq_notify w q)"
  by (simp add: dq_notify_def joined_thread)

lemma joined_cong:
  assumes "length (dqWorkers q') = length (dqWorkers q)" "\<And>v. v < length (dqWorkers q) \<Longrightarrow> wdThread (dqWorkers q' ! v) = wdThread (dqWorkers q ! v)"
    "dqShut q' = dqShut q" "dqRunning q' = dqRunning q"
  shows "joined q' = joined q"
  unfolding joined_def using assms by metis

lemma thread_update_queue: "v < length ws \<Longrightarrow> wdThread (ws[w := (ws ! w)\<lparr>wdQueue := ts\<rparr>] ! v) = wdThread (ws ! v)"
  by (simp add: nth_update_if)

lemma Enqueue_quiet:
  assumes "EnqueueTask_next f c q = Some q'" and "\<nexists>t. dqCallers q ! c = EHold t" and "\<nexists>w. dqCallers q ! c = ENotify w"
  shows "dqWorkers q' = dqWorkers q \<and> dqShut q' = dqShut q \<and> dqRunning q' = dqRunning q \<and>
    executed q' = executed q \<and> dqAccepted q' = dqAccepted q"
  using assms by (cases "dqCallers q ! c")
    (auto simp: EnqueueTask_next_def WalNextSeq_def Let_def split: if_splits prod.splits)

lemma pipeline_cong:
  "dqWorkers q' = dqWorkers q \<Longrightarrow> dqShut q' = dqShut q \<Longrightarrow> executed q' = executed q @ ts \<Longrightarrow>
   for_worker (length (dqWorkers q)) v ts = [] \<Longrightarrow> pipeline v q' = pipeline v q"
  by (simp add: pipeline_def)

lemma fifo_caller:
  assumes "fifo_inv q" and "EnqueueTask_next f c q = Some q'" and "\<forall>w. ENotify w \<in> set (dqCallers q) \<longrightarrow> w < length (dqWorkers q)"
  shows "fifo_inv q'"
proof -
  have c: "c < length (dqCallers q)" using assms(2) by (auto simp: EnqueueTask_next_def split: if_splits)
  note step = assms(2) [unfolded EnqueueTask_next_def, simplified c if_True]
  consider (hold) t where "dqCallers q ! c = EHold t" | (notify) w where "dqCallers q ! c = ENotify w"
    | (quiet) "\<nexists>t. dqCallers q ! c = EHold t" "\<nexists>w. dqCallers q ! c = ENotify w" by blast
  then show ?thesis
  proof cases
    case quiet
    note s = Enqueue_quiet [OF assms(2) quiet]
    then have "joined q' = joined q" by (intro joined_cong) simp_all
    moreover have "pipeline v q' = pipeline v q" for v using s by (simp add: pipeline_def)
    ultimately show ?thesis using assms(1) s by (simp add: fifo_inv_def)
  next
    case (hold t)
    let ?w = "worker_index t q" and ?n = "length (dqWorkers q)"
    have w: "?w < ?n" using assms(1) by (simp add: fifo_inv_def worker_index_def)
    have q': "q' = set_caller c (ENotify ?w) (set_queue ?w (wdQueue (dqWorkers q ! ?w) @ [t])
        (q\<lparr>dqQueueSize := dqQueueSize q + 1, dqAccepted := dqAccepted q @ [t]\<rparr>))"
      using step hold by (simp add: Let_def)
    have "joined q' = joined q" using q' by (intro joined_cong) (simp_all add: thread_update_queue)
    moreover have "for_worker ?n v (dqAccepted q') = pipeline v q'" if "v < ?n" for v
    proof -
      have "for_worker ?n v (dqAccepted q) = pipeline v q" using assms(1) that by (simp add: fifo_inv_def)
      then show ?thesis using q' w by (cases "v = ?w") (simp_all add: pipeline_def worker_index_def)
    qed
    ultimately show ?thesis using q' assms(1) by (simp add: fifo_inv_def)
  next
    case (notify w)
    then have w: "w < length (dqWorkers q)" using assms(3) c by (metis nth_mem)
    have q': "q' = set_caller c EIdle (dq_notify w q)" using step notify by simp
    have "joined q' = joined (dq_notify w q)" using q' by (intro joined_cong) simp_all
    then have "joined q'" using joined_notify [OF _ w] assms(1) by (simp add: fifo_inv_def)
    moreover have "pipeline v q' = pipeline v q" for v using q' pipeline_notify [OF w, of v] by (simp add: pipeline_def)
    ultimately show ?thesis using assms(1) q' by (simp add: fifo_inv_def flip: length_greater_0_conv)
  qed
qed

lemma fifo_worker:
  assumes "fifo_inv q" and "WorkerThreadFunc_next a f w q = Some q'"
  shows "fifo_inv q'"
proof -
  let ?n = "length (dqWorkers q)"
  have w: "w < ?n" using assms(2) by (auto simp: WorkerThreadFunc_next_def split: if_splits)
  note step = assms(2) [unfolded WorkerThreadFunc_next_def, simplified w if_True]
  note fr = Worker_frame [OF assms(2)]
  have j: "joined q" and ne: "dqWorkers q \<noteq> []" and pipe: "\<And>v. v < ?n \<Longrightarrow> for_worker ?n v (dqAccepted q) = pipeline v q"
    using assms(1) by (simp_all add: fifo_inv_def)
  have live: "wdThread (dqWorkers q ! w) \<noteq> WExit" using step by (cases "wdThread (dqWorkers q ! w)") auto
  have fin: "fifo_inv q'" if "joined q'" "\<And>v. v < ?n \<Longrightarrow> pipeline v q' = pipeline v q"
    unfolding fifo_inv_def using that fr pipe ne by force
  have quiet: "fifo_inv q'" if "q' = set_thread w p q1" "dqWorkers q1 = dqWorkers q" "dqShut q1 = dqShut q"
    "executed q1 = executed q" "dqRunning q1 = dqRunning q" "running_task p = running_task (wdThread (dqWorkers q ! w))" for p q1
  proof (rule fin)
    have "joined q1" using j that by (simp add: joined_cong [of q1 q])
    then show "joined q'" unfolding that(1) using w live that(2) by (intro joined_thread) simp_all
    show "pipeline v q' = pipeline v q" for v
      unfolding that(1) using w that(2-6) pipeline_cong [of q1 q "[]" v] by (subst pipeline_thread) simp_all
  qed
  show ?thesis
  proof (cases "wdThread (dqWorkers q ! w)")
    case WLock
    show ?thesis
    proof (cases "wdQueue (dqWorkers q ! w)")
      case Nil
      then show ?thesis using step WLock by (intro quiet [of "if dqRunning q then WPark else WLoop" q]) (auto split: if_splits)
    next
      case (Cons t ts)
      let ?q = "set_queue w ts (q\<lparr>dqQueueSize := dqQueueSize q - 1\<rparr>)"
      have q': "q' = set_thread w (WProc t) ?q" using step WLock Cons by (auto split: if_splits)
      have "joined ?q = joined q" by (intro joined_cong) (simp_all add: thread_update_queue)
      then have "joined q'" unfolding q' using j w WLock by (intro joined_thread) simp_all
      moreover have "pipeline v q' = pipeline v q" for v
        using w Cons WLock not_draining [OF j w live] unfolding q' by (cases "v = w") (simp_all add: pipeline_def)
      ultimately show ?thesis by (intro fin)
    qed
  next
    case (WProc t)
    obtain ok q1 where p: "ProcessTask a t q = (ok, q1)" by force
    note v = ProcessTask_view [OF p] executed_ProcessTask [OF p]
    let ?p = "if ok \<and> dt_walSeq t \<noteq> 0 then WMark t else WLoop"
    have q': "q' = set_thread w ?p q1" using step WProc p by simp
    have "t \<in> set (for_worker ?n w (dqAccepted q))" using pipe [OF w] WProc by (simp add: pipeline_def)
    then have t: "unat (dt_session t) mod ?n = w" by (simp add: for_worker_def)
    have "joined q1 = joined q" using v by (intro joined_cong) simp_all
    then have "joined q'" unfolding q' using j w live v(1) by (intro joined_thread) simp_all
    moreover have "pipeline u q' = pipeline u q" if "u < ?n" for u
      using w t WProc v unfolding q' by (cases "u = w") (auto simp: pipeline_def)
    ultimately show ?thesis by (intro fin)
  next
    case (WMark t)
    then show ?thesis using step by (intro quiet [of WLoop "WalWriteDone f (dt_walSeq t) q"]) simp_all
  next
    case WLoop
    then show ?thesis using step by (intro quiet [of "if dqRunning q then WLock else WExit" q]) (auto split: if_splits)
  next
    case WPark
    then show ?thesis using step by (intro quiet [of WSleep q]) simp_all
  qed (use step in simp_all)
qed

lemma pipeline_shut:
  assumes "dqWorkers q' = dqWorkers q" and "executed q' = executed q" and "drained v (dqShut q') = drained v (dqShut q)"
  shows "pipeline v q' = pipeline v q"
  using assms by (simp add: pipeline_def)

lemma fifo_shutdown:
  assumes "fifo_inv q" and "DQ_Shutdown_next a f q = Some q'"
  shows "fifo_inv q'"
proof -
  let ?n = "length (dqWorkers q)"
  note fr = Shutdown_frame [OF assms(2)]
  have j: "joined q" and ne: "dqWorkers q \<noteq> []" and pipe: "\<And>v. v < ?n \<Longrightarrow> for_worker ?n v (dqAccepted q) = pipeline v q"
    using assms(1) by (simp_all add: fifo_inv_def)
  have fin: "fifo_inv q'" if "joined q'" "\<And>v. v < ?n \<Longrightarrow> pipeline v q' = pipeline v q"
    unfolding fifo_inv_def using that fr pipe ne by force
  show ?thesis
  proof (cases "dqShut q")
    case SIdle
    then have "q' = q\<lparr>dqRunning := False, dqShut := SNotify 0\<rparr>" using assms(2) by (auto simp: DQ_Shutdown_next_def split: if_splits)
    then show ?thesis using SIdle by (intro fin) (simp_all add: joined_def pipeline_def)
  next
    case (SNotify k)
    show ?thesis
    proof (cases "k < ?n")
      case True
      then have q': "q' = dq_notify k q\<lparr>dqShut := SNotify (Suc k)\<rparr>" using assms(2) SNotify by (simp add: DQ_Shutdown_next_def)
      have "joined (dq_notify k q)" using j True by (rule joined_notify)
      then have "joined q'" using q' SNotify by (simp add: joined_def)
      moreover have "pipeline v q' = pipeline v q" for v
        using pipeline_notify [OF True, of v] q' SNotify by (simp add: pipeline_def)
      ultimately show ?thesis by (intro fin)
    next
      case False
      then have "q' = q\<lparr>dqShut := SJoin 0\<rparr>" using assms(2) SNotify by (simp add: DQ_Shutdown_next_def)
      then show ?thesis using SNotify j by (intro fin) (simp_all add: joined_def pipeline_def)
    qed
  next
    case (SJoin k)
    then consider "q' = q\<lparr>dqShut := SJoin (Suc k)\<rparr>" "wdThread (dqWorkers q ! k) = WExit" | "q' = q\<lparr>dqShut := SCollect 0\<rparr>" "?n \<le> k"
      using assms(2) by (auto simp: DQ_Shutdown_next_def split: if_splits)
    then show ?thesis
    proof cases
      case 1
      then show ?thesis using SJoin j by (intro fin) (auto simp: joined_def pipeline_def less_Suc_eq)
    next
      case 2
      then show ?thesis using SJoin j by (intro fin) (auto simp: joined_def pipeline_def)
    qed
  next
    case (SCollect k)
    show ?thesis
    proof (cases "k < ?n")
      case True
      then have q': "q' = set_queue k [] q\<lparr>dqShut := SDrain k (wdQueue (dqWorkers q ! k))\<rparr>"
        using assms(2) SCollect by (simp add: DQ_Shutdown_next_def)
      have "joined q'" using j SCollect True q' by (auto simp: joined_def nth_update_if)
      moreover have "pipeline v q' = pipeline v q" if "v < ?n" for v
        using q' SCollect True by (cases "v = k") (simp_all add: pipeline_def)
      ultimately show ?thesis by (intro fin)
    next
      case False
      then have "q' = q\<lparr>dqShut := SClose\<rparr>" using assms(2) SCollect by (simp add: DQ_Shutdown_next_def)
      then show ?thesis using SCollect j by (intro fin) (simp_all add: joined_def pipeline_def)
    qed
  next
    case (SDrain k ts)
    have k: "k < ?n" "wdThread (dqWorkers q ! k) = WExit" using j SDrain by (auto simp: joined_def)
    show ?thesis
    proof (cases ts)
      case Nil
      then have "q' = q\<lparr>dqShut := SCollect (Suc k)\<rparr>" using assms(2) SDrain by (simp add: DQ_Shutdown_next_def)
      then show ?thesis using SDrain Nil j by (intro fin) (simp_all add: joined_def pipeline_def)
    next
      case (Cons t us)
      obtain ok q1 where p: "ProcessTask a t q = (ok, q1)" by force
      note v = ProcessTask_view [OF p] executed_ProcessTask [OF p]
      have q': "q' = q1\<lparr>dqShut := (if ok \<and> dt_walSeq t \<noteq> 0 then SMark k t us else SDrain k us)\<rparr>"
        using assms(2) SDrain Cons p by (simp add: DQ_Shutdown_next_def)
      have "t \<in> set (for_worker ?n k (dqAccepted q))" using pipe [OF k(1)] SDrain Cons by (simp add: pipeline_def)
      then have t: "unat (dt_session t) mod ?n = k" by (simp add: for_worker_def)
      have "joined q'" using j v SDrain q' by (auto simp: joined_def)
      moreover have "pipeline u q' = pipeline u q" if "u < ?n" for u
        using v t k SDrain Cons q' by (cases "u = k") (auto simp: pipeline_def)
      ultimately show ?thesis by (intro fin)
    qed
  next
    case (SMark k t ts)
    then have "q' = WalWriteDone f (dt_walSeq t) q\<lparr>dqShut := SDrain k ts\<rparr>" using assms(2) by (simp add: DQ_Shutdown_next_def)
    then show ?thesis using SMark j by (intro fin) (simp_all add: joined_def pipeline_def)
  next
    case SClose
    then have "q' = q\<lparr>dqQueueSize := 0, dqWalOpen := False, dqShut := SIdle\<rparr>" using assms(2) by (simp add: DQ_Shutdown_next_def)
    then show ?thesis using SClose by (intro fin) (simp_all add: joined_def pipeline_def)
  qed
qed

lemma fifo_step:
  assumes "fifo_inv q" and "dq_next e q = Some q'" and "\<forall>w. ENotify w \<in> set (dqCallers q) \<longrightarrow> w < length (dqWorkers q)"
  shows "fifo_inv q'"
proof (cases e)
  case (DCall c ty i d cb)
  then show ?thesis using assms(1,2) by (auto simp: fifo_inv_def joined_def pipeline_def split: if_splits)
next
  case (DWake w)
  then have w: "w < length (dqWorkers q)" and q': "q' = dq_notify w q" using assms(2) by (auto split: if_splits)
  then show ?thesis
    using assms(1) joined_notify [OF _ w] pipeline_notify [OF w] by (simp add: fifo_inv_def flip: length_greater_0_conv)
next
  case DOther
  then show ?thesis using assms(1,2) by (auto simp: fifo_inv_def joined_def pipeline_def)
next
  case (DCaller c f)
  then show ?thesis using fifo_caller [OF assms(1) _ assms(3), of f c] assms(2) by simp
next
  case (DWorker w a f)
  then show ?thesis using fifo_worker [OF assms(1), of a f w] assms(2) by simp
next
  case (DShutdown a f)
  then show ?thesis using fifo_shutdown [OF assms(1), of a f] assms(2) by simp
qed

text \<open>The callers' notifications stay inside the array of workers.\<close>

definition notify_ok :: "DBTaskQueue \<Rightarrow> bool" where
  "notify_ok q \<longleftrightarrow> (\<forall>w. ENotify w \<in> set (dqCallers q) \<longrightarrow> w < length (dqWorkers q))"

lemma notify_ok_step:
  assumes "notify_ok q" and "dqWorkers q \<noteq> []" and "dq_next e q = Some q'"
  shows "notify_ok q'"
  using dq_frame(1,4) [OF assms(3)] assms(1,2) by (auto simp: notify_ok_def dest!: set_update_D)

lemma fifo_run:
  "fifo_inv q \<Longrightarrow> notify_ok q \<Longrightarrow> dq_run es q = Some q' \<Longrightarrow>
   fifo_inv q' \<and> notify_ok q' \<and> length (dqWorkers q') = length (dqWorkers q)"
proof (induction es arbitrary: q)
  case (Cons e es)
  from Cons.prems(3) obtain q1 where s: "dq_next e q = Some q1" "dq_run es q1 = Some q'" by (auto split: option.splits)
  have "fifo_inv q1" using fifo_step [OF Cons.prems(1) s(1)] Cons.prems(2) by (simp add: notify_ok_def)
  moreover have "notify_ok q1" using notify_ok_step [OF Cons.prems(2) _ s(1)] Cons.prems(1) by (simp add: fifo_inv_def)
  ultimately show ?case using Cons.IH [OF _ _ s(2)] dq_frame(1) [OF s(1)] by simp
qed simp

lemma fifo_start:
  assumes "DQ_Initialize n path db (DBTaskQueue_new c) = (True, q)" and "0 < n"
  shows "fifo_inv q" and "notify_ok q"
  using DQ_Initialize_start [OF assms(1)] assms(2)
  by (simp_all add: fifo_inv_def notify_ok_def joined_def pipeline_def executed_def)

subsection \<open>Properties\<close>

lemma accepted_cases:
  assumes "fifo_inv q" and "t \<in> set (dqAccepted q)"
  shows "t \<in> set (executed q) \<or> t \<in># outstanding q"
proof -
  let ?n = "length (dqWorkers q)" and ?w = "unat (dt_session t) mod length (dqWorkers q)"
  have w: "?w < ?n" using assms(1) by (simp add: fifo_inv_def)
  have "t \<in> set (for_worker ?n ?w (dqAccepted q))" using assms(2) by (simp add: for_worker_def)
  then have "t \<in> set (pipeline ?w q)" using assms(1) w by (simp add: fifo_inv_def)
  then consider "t \<in> set (for_worker ?n ?w (executed q))"
    | "t \<in> set (worker_live (dqWorkers q ! ?w))" | "t \<in> set (drained ?w (dqShut q))"
    by (cases "wdThread (dqWorkers q ! ?w)") (auto simp: pipeline_def worker_live_def)
  then show ?thesis
  proof cases
    case 2
    then show ?thesis using nth_mem [OF w] by (auto simp: outstanding_def)
  next
    case 3
    then have "t \<in> set (shut_live (dqShut q))" by (cases "dqShut q") (auto split: if_splits)
    then show ?thesis by (simp add: outstanding_def)
  qed (simp add: for_worker_def)
qed

lemma executed_cases: "t \<in> set (executed q) \<Longrightarrow> (t, True) \<in> set (dqExecuted q) \<or> t \<in># outstanding q"
proof -
  assume "t \<in> set (executed q)"
  then obtain b where "(t, b) \<in> set (dqExecuted q)" by (auto simp: executed_def)
  then show ?thesis by (cases b) (force simp: outstanding_def failed_tasks_def)+
qed


text \<open>
  C34: Per session, tasks are executed in the order in which they were accepted, each at most once,
  in every interleaving of callers, workers and shutdown, the final draining included.
\<close>

theorem dbq_session_fifo:
  assumes "DQ_Initialize n path db (DBTaskQueue_new c) = (True, q0)" and "0 < n" and "dq_run es q0 = Some q"
  shows "prefix (filter (\<lambda>t. dt_session t = s) (executed q)) (filter (\<lambda>t. dt_session t = s) (dqAccepted q))"
proof -
  let ?n = "length (dqWorkers q)" and ?w = "unat s mod length (dqWorkers q)"
  have f: "fifo_inv q" using fifo_run [OF fifo_start [OF assms(1,2)] assms(3)] by simp
  then have "?w < ?n" by (simp add: fifo_inv_def)
  with f have "for_worker ?n ?w (dqAccepted q) = pipeline ?w q" by (simp add: fifo_inv_def)
  then have "prefix (for_worker ?n ?w (executed q)) (for_worker ?n ?w (dqAccepted q))" by (simp add: pipeline_def)
  then have "prefix (filter (\<lambda>t. dt_session t = s) (for_worker ?n ?w (executed q)))
      (filter (\<lambda>t. dt_session t = s) (for_worker ?n ?w (dqAccepted q)))" by (auto simp: prefix_def)
  moreover have "filter (\<lambda>t. dt_session t = s) (for_worker ?n ?w ts) = filter (\<lambda>t. dt_session t = s) ts" for ts
    unfolding for_worker_def filter_filter by (rule filter_cong) auto
  ultimately show ?thesis by simp
qed

text \<open>A shutdown that no call overlaps.\<close>

fun emptied :: "dq_shut \<Rightarrow> WorkerData list \<Rightarrow> bool" where
  "emptied SIdle ws = (\<forall>w < length ws. wdQueue (ws ! w) = [] \<and> wdThread (ws ! w) = WExit)"
| "emptied SClose ws = (\<forall>w < length ws. wdQueue (ws ! w) = [])"
| "emptied (SCollect k) ws = (\<forall>w < length ws. w < k \<longrightarrow> wdQueue (ws ! w) = [])"
| "emptied (SDrain k ts) ws = (\<forall>w < length ws. w \<le> k \<longrightarrow> wdQueue (ws ! w) = [])"
| "emptied (SMark k t ts) ws = (\<forall>w < length ws. w \<le> k \<longrightarrow> wdQueue (ws ! w) = [])"
| "emptied _ ws = True"

definition quiet_inv :: "DBTaskQueue \<Rightarrow> bool" where
  "quiet_inv q \<longleftrightarrow> \<not> dqRunning q \<and> (\<forall>p \<in> set (dqCallers q). p = EIdle \<or> (\<exists>t. p = EEntry t)) \<and>
     emptied (dqShut q) (dqWorkers q)"

lemma queue_update_thread: "v < length ws \<Longrightarrow> wdQueue (ws[w := (ws ! w)\<lparr>wdThread := p\<rparr>] ! v) = wdQueue (ws ! v)"
  by (simp add: nth_update_if)

lemma quiet_caller:
  assumes "quiet_inv q" and "EnqueueTask_next f c q = Some q'"
  shows "quiet_inv q' \<and> dqAccepted q' = dqAccepted q"
proof -
  have c: "c < length (dqCallers q)" using assms(2) by (auto simp: EnqueueTask_next_def split: if_splits)
  have "dqCallers q ! c = EIdle \<or> (\<exists>t. dqCallers q ! c = EEntry t)" using assms(1) nth_mem [OF c] unfolding quiet_inv_def by blast
  then obtain t where t: "dqCallers q ! c = EEntry t" using assms(2) c by (auto simp: EnqueueTask_next_def)
  have q': "q' = set_caller c EIdle (dq_callback t False ''DBTaskQueue not running'' q)"
    using assms t c by (simp add: EnqueueTask_next_def quiet_inv_def)
  have "\<forall>p \<in> set ((dqCallers q)[c := EIdle]). p = EIdle \<or> (\<exists>t. p = EEntry t)"
    using assms(1) by (auto simp: quiet_inv_def dest!: set_update_D)
  then show ?thesis using assms(1) unfolding q' quiet_inv_def by simp
qed

lemma quiet_worker:
  assumes "quiet_inv q" and "joined q" and "WorkerThreadFunc_next a f w q = Some q'"
  shows "quiet_inv q'"
proof -
  note fr = Worker_frame [OF assms(3)]
  have w: "w < length (dqWorkers q)" using assms(3) by (auto simp: WorkerThreadFunc_next_def split: if_splits)
  have "wdThread (dqWorkers q ! w) \<noteq> WExit" using assms(3) w by (auto simp: WorkerThreadFunc_next_def)
  then have "exited_upto (length (dqWorkers q)) (dqShut q) \<noteq> length (dqWorkers q) \<or> w \<ge> length (dqWorkers q)" "dqShut q \<noteq> SIdle"
    using assms(1,2) w by (auto simp: joined_def quiet_inv_def)
  then have "(\<exists>k. dqShut q = SNotify k) \<or> (\<exists>k. dqShut q = SJoin k)" using w by (cases "dqShut q") auto
  then show ?thesis using assms(1) fr by (auto simp: quiet_inv_def)
qed

lemma quiet_shutdown:
  assumes "quiet_inv q" and "joined q" and "DQ_Shutdown_next a f q = Some q'"
  shows "quiet_inv q'"
proof -
  note fr = Shutdown_frame [OF assms(3)]
  have nr: "\<not> dqRunning q" "\<forall>p \<in> set (dqCallers q). p = EIdle \<or> (\<exists>t. p = EEntry t)"
    using assms(1) by (simp_all add: quiet_inv_def)
  show ?thesis
  proof (cases "dqShut q")
    case SIdle
    then show ?thesis using assms(3) nr by (simp add: DQ_Shutdown_next_def)
  next
    case (SNotify k)
    then show ?thesis using assms(3) nr fr by (auto simp: DQ_Shutdown_next_def quiet_inv_def split: if_splits)
  next
    case (SJoin k)
    then show ?thesis using assms(3) nr fr by (auto simp: DQ_Shutdown_next_def quiet_inv_def split: if_splits)
  next
    case (SCollect k)
    then show ?thesis using assms(1,3) nr fr
      by (auto simp: DQ_Shutdown_next_def quiet_inv_def nth_update_if split: if_splits)
  next
    case (SDrain k ts)
    show ?thesis
    proof (cases ts)
      case (Cons t us)
      obtain ok q1 where p: "ProcessTask a t q = (ok, q1)" by force
      have "q' = q1\<lparr>dqShut := (if ok \<and> dt_walSeq t \<noteq> 0 then SMark k t us else SDrain k us)\<rparr>"
        using assms(3) SDrain Cons p by (simp add: DQ_Shutdown_next_def)
      then show ?thesis using assms(1) SDrain ProcessTask_view [OF p] by (auto simp: quiet_inv_def)
    qed (use assms(1,3) SDrain in \<open>auto simp: DQ_Shutdown_next_def quiet_inv_def\<close>)
  next
    case (SMark k t ts)
    then show ?thesis using assms(1,3) by (auto simp: DQ_Shutdown_next_def quiet_inv_def)
  next
    case SClose
    then show ?thesis using assms by (auto simp: DQ_Shutdown_next_def quiet_inv_def joined_def)
  qed
qed

lemma quiet_step:
  assumes "quiet_inv q" and "joined q" and "dq_next e q = Some q'"
  shows "quiet_inv q' \<and> dqAccepted q' = dqAccepted q"
proof (cases e)
  case (DCall c ty i d cb)
  then have q': "q' = set_caller c (EEntry (DBTask_new ty i d cb)) q" using assms(3) by (simp split: if_splits)
  have "\<forall>p \<in> set ((dqCallers q)[c := EEntry (DBTask_new ty i d cb)]). p = EIdle \<or> (\<exists>t. p = EEntry t)"
    using assms(1) by (auto simp: quiet_inv_def dest!: set_update_D)
  then show ?thesis using assms(1) unfolding q' quiet_inv_def by simp
next
  case (DWake w)
  then have w: "w < length (dqWorkers q)" "q' = dq_notify w q" using assms(3) by (auto split: if_splits)
  have "quiet_inv (set_thread w WLock q)" if "wdThread (dqWorkers q ! w) = WSleep"
    using assms(1) w(1) that
    by (cases "dqShut q") (auto simp: quiet_inv_def queue_update_thread nth_update_if)
  then show ?thesis using assms(1) w by (auto simp: dq_notify_def)
next
  case DOther
  then show ?thesis using assms by (auto simp: quiet_inv_def)
next
  case (DCaller c f)
  then show ?thesis using quiet_caller [OF assms(1), of f c] assms(3) by simp
next
  case (DWorker w a f)
  then show ?thesis using quiet_worker [OF assms(1,2), of a f w] Worker_frame [of a f w q q'] assms(3) by simp
next
  case (DShutdown a f)
  then show ?thesis using quiet_shutdown [OF assms(1,2), of a f] Shutdown_frame [of a f q q'] assms(3) by simp
qed

lemma quiet_run:
  "quiet_inv q \<Longrightarrow> fifo_inv q \<Longrightarrow> notify_ok q \<Longrightarrow> dq_run es q = Some q' \<Longrightarrow> quiet_inv q' \<and> dqAccepted q' = dqAccepted q"
proof (induction es arbitrary: q)
  case (Cons e es)
  from Cons.prems(4) obtain q1 where s: "dq_next e q = Some q1" "dq_run es q1 = Some q'" by (auto split: option.splits)
  have j: "joined q" using Cons.prems(2) by (simp add: fifo_inv_def)
  have "fifo_inv q1 \<and> notify_ok q1" using fifo_run [OF Cons.prems(2,3), of "[e]" q1] s(1) by simp
  with Cons.IH [OF _ _ _ s(2)] quiet_step [OF Cons.prems(1) j s(1)] show ?case by simp
qed simp

text \<open>
  C36: A shutdown that no call overlaps finishes everything. When \<open>Shutdown\<close> starts while no thread is
  inside \<open>EnqueueTask\<close>, then in the state in which it has returned every accepted task has been
  executed exactly once, whatever calls come in meanwhile.
\<close>

theorem dbq_quiet_shutdown:
  assumes "DQ_Initialize n path db (DBTaskQueue_new c) = (True, q0)" and "0 < n" and "dq_run es q0 = Some q1"
    and "set (dqCallers q1) \<subseteq> {EIdle}" and "dqShut q1 = SIdle"
    and "dq_next (DShutdown a f) q1 = Some q2" and "dq_run es' q2 = Some q" and "dqShut q = SIdle"
  shows "mset (executed q) = mset (dqAccepted q1) \<and> dqAccepted q = dqAccepted q1"
proof -
  have i1: "fifo_inv q1" "notify_ok q1" using fifo_run [OF fifo_start [OF assms(1,2)] assms(3)] by auto
  have i2: "fifo_inv q2" "notify_ok q2" using fifo_run [OF i1, of "[DShutdown a f]" q2] assms(6) by auto
  have "q2 = q1\<lparr>dqRunning := False, dqShut := SNotify 0\<rparr>"
    using assms(5,6) by (auto simp: DQ_Shutdown_next_def split: if_splits)
  then have "quiet_inv q2" and acc: "dqAccepted q2 = dqAccepted q1" using assms(4) by (auto simp: quiet_inv_def)
  then have qi: "quiet_inv q" "dqAccepted q = dqAccepted q1" using quiet_run [OF _ i2 assms(7)] by auto
  have f: "fifo_inv q" using fifo_run [OF i2 assms(7)] by simp
  let ?n = "length (dqWorkers q)"
  have w: "for_worker ?n w (dqAccepted q) = for_worker ?n w (executed q)" if "w < ?n" for w
    using f qi(1) that assms(8) by (simp add: fifo_inv_def pipeline_def quiet_inv_def)
  have n: "0 < ?n" using f by (simp add: fifo_inv_def)
  have "count (mset (executed q)) t = count (mset (dqAccepted q)) t" for t
  proof -
    have c: "count (mset ts) t = count (mset (for_worker ?n (unat (dt_session t) mod ?n) ts)) t" for ts
      by (induction ts) auto
    show ?thesis using c [of "executed q"] c [of "dqAccepted q"] w n by simp
  qed
  then have "mset (executed q) = mset (dqAccepted q)" by (rule multiset_eqI)
  then show ?thesis using qi(2) by simp
qed

subsubsection \<open>Runs of a small queue\<close>

lemmas dq_eval = EnqueueTask_next_def WorkerThreadFunc_next_def DQ_Shutdown_next_def set_caller_def set_thread_def
  set_queue_def dq_notify_def ProcessTask_def Handle_def HandleRecordConnectTime_def dq_callback_def WalNextSeq_def
  NextGlobalId_def WalWritePending_def WalWriteDone_def EnsureWalOpen_def DBTask_new_def worker_index_def Let_def

definition small_queue :: DBTaskQueue where
  "small_queue = snd (DQ_Initialize 1 ''db_tasks.wal'' (Some (True, True)) (DBTaskQueue_new 2))"

lemma small_queue_init: "DQ_Initialize 1 ''db_tasks.wal'' (Some (True, True)) (DBTaskQueue_new 2) = (True, small_queue)"
  by (simp add: small_queue_def DQ_Initialize_def DBTaskQueue_new_def Let_def)

lemma small_queue_eval:
  "small_queue = \<lparr>dqWorkers = [\<lparr>wdQueue = [], wdThread = WLoop\<rparr>], dqQueueSize = 0, dqRunning = True, dqProcessed = 0, dqFailed = 0,
     dqWalPath = ''db_tasks.wal'', dqWalOpen = False, dqDatabase = True, dqDisk = \<lparr>wdWal = None, wdBak = None\<rparr>, dqSeq = 0,
     dqCallers = [EIdle, EIdle], dqShut = SIdle, dqAccepted = [], dqExecuted = [], dqCallbacks = [], dqSql = []\<rparr>"
  by (simp add: small_queue_def DQ_Initialize_def DBTaskQueue_new_def Let_def numeral_2_eq_2)

definition small_task :: "u64 \<Rightarrow> u64 \<Rightarrow> string \<Rightarrow> DBTask" where
  "small_task s i d = \<lparr>dt_type = RecordConnectTime, dt_session = i, dt_data = d, dt_callback = None, dt_walSeq = s\<rparr>"

definition enqueue_one :: "nat \<Rightarrow> string \<Rightarrow> dq_event list" where
  "enqueue_one c d = DCall c RecordConnectTime 7 d None # replicate 6 (DCaller c True)"

lemma small_enqueue:
  "\<exists>q. dq_run (enqueue_one 0 ''a'') small_queue = Some q \<and> dqWorkers q = [\<lparr>wdQueue = [small_task 1 7 ''a''], wdThread = WLoop\<rparr>] \<and>
     dqCallers q = [EIdle, EIdle] \<and> dqShut q = SIdle \<and> dqAccepted q = [small_task 1 7 ''a''] \<and> dqExecuted q = [] \<and>
     dqRunning q \<and> dqDatabase q \<and> dqWalPath q = ''db_tasks.wal'' \<and> dqWalOpen q"
  by (simp add: enqueue_one_def small_queue_eval dq_eval eval_nat_numeral small_task_def)


definition run_one :: "dq_event list" where
  "run_one = enqueue_one 0 ''a'' @ replicate 4 (DWorker 0 ExecOk True)"

lemma dq_run_append: "dq_run (es @ es') q = (case dq_run es q of None \<Rightarrow> None | Some q' \<Rightarrow> dq_run es' q')"
  by (induction es arbitrary: q) (auto split: option.splits)

theorem dbq_session_fifo_witness:
  "\<exists>q. dq_run run_one small_queue = Some q \<and> executed q = [small_task 1 7 ''a''] \<and>
     prefix (filter (\<lambda>t. dt_session t = 7) (executed q)) (filter (\<lambda>t. dt_session t = 7) (dqAccepted q))"
proof -
  obtain q where q: "dq_run run_one small_queue = Some q" "executed q = [small_task 1 7 ''a'']"
    by (simp add: run_one_def enqueue_one_def small_queue_eval dq_eval eval_nat_numeral small_task_def executed_def)
  from dbq_session_fifo [OF small_queue_init _ q(1)] q show ?thesis by auto
qed

definition stop_quietly :: "dq_event list" where
  "stop_quietly = replicate 2 (DShutdown ExecOk True) @ DWorker 0 ExecOk True # replicate 8 (DShutdown ExecOk True)"

theorem dbq_quiet_shutdown_witness:
  "\<exists>q1 q2 q. dq_run (enqueue_one 0 ''a'') small_queue = Some q1 \<and> dq_next (DShutdown ExecOk True) q1 = Some q2 \<and>
     dq_run stop_quietly q2 = Some q \<and> mset (executed q) = {#small_task 1 7 ''a''#}"
proof -
  obtain q1 where q1: "dq_run (enqueue_one 0 ''a'') small_queue = Some q1"
    "dqWorkers q1 = [\<lparr>wdQueue = [small_task 1 7 ''a''], wdThread = WLoop\<rparr>]" "dqCallers q1 = [EIdle, EIdle]"
    "dqShut q1 = SIdle" "dqAccepted q1 = [small_task 1 7 ''a'']" "dqRunning q1" "dqDatabase q1"
    "dqWalPath q1 = ''db_tasks.wal''" "dqWalOpen q1" using small_enqueue by blast
  obtain q2 where q2: "dq_next (DShutdown ExecOk True) q1 = Some q2" "q2 = q1\<lparr>dqRunning := False, dqShut := SNotify 0\<rparr>"
    using q1 by (simp add: DQ_Shutdown_next_def)
  obtain q where q: "dq_run stop_quietly q2 = Some q" "dqShut q = SIdle"
    using q1 q2(2) by (simp add: stop_quietly_def eval_nat_numeral dq_eval small_task_def)
  from dbq_quiet_shutdown [OF small_queue_init _ q1(1) _ q1(4) q2(1) q] q1 q2(1) q(1) show ?thesis by auto
qed

text \<open>
  A push can come too late for the shutdown. \<open>EnqueueTask\<close> tests \<open>mIsRunning\<close> under the mutex of the
  worker and pushes, but \<open>Shutdown\<close> neither stores the flag nor drains under that mutex, and a worker
  that is busy with another task leaves its loop without it. In this run \<open>Shutdown\<close> has returned, the
  second task was accepted, it sits in the queue of an exited worker, and its callback is never
  called; only its record in the log is left.
\<close>

definition late_push :: "dq_event list" where
  "late_push = enqueue_one 0 ''a'' @ replicate 2 (DWorker 0 ExecOk True) @
     DCall 1 RecordConnectTime 7 ''b'' (Some 5) # replicate 4 (DCaller 1 True) @ replicate 3 (DShutdown ExecOk True) @
     replicate 3 (DWorker 0 ExecOk True) @ replicate 6 (DShutdown ExecOk True) @ replicate 2 (DCaller 1 True)"

theorem dbq_late_push_stranded:
  "\<exists>q t. dq_run late_push small_queue = Some q \<and> dqShut q = SIdle \<and> \<not> dqRunning q \<and> dqCallers q = [EIdle, EIdle] \<and>
     t \<in> set (dqAccepted q) \<and> dt_data t = ''b'' \<and> t \<notin> set (executed q) \<and> dqCallbacks q = [] \<and>
     dqWorkers q = [\<lparr>wdQueue = [t], wdThread = WExit\<rparr>] \<and> fst (wal_read (dqDisk q)) = [task_key t]"
proof -
  let ?t = "(small_task 2 7 ''b'')\<lparr>dt_callback := Some 5\<rparr>"
  obtain q where q: "dq_run late_push small_queue = Some q" "dqShut q = SIdle" "\<not> dqRunning q" "dqCallers q = [EIdle, EIdle]"
    "dqAccepted q = [small_task 1 7 ''a'', ?t]" "dqExecuted q = [(small_task 1 7 ''a'', True)]" "dqCallbacks q = []"
    "dqWorkers q = [\<lparr>wdQueue = [?t], wdThread = WExit\<rparr>]"
    by (simp add: late_push_def enqueue_one_def small_queue_eval dq_eval eval_nat_numeral small_task_def)
  have "list_all opens late_push" "length late_push < 2 ^ 64"
    by (auto simp: late_push_def enqueue_one_def list_all_iff clean_def)
  then have "log_inv q"
    using log_inv_run [OF log_inv_start [OF small_queue_init] q(1)] by (simp add: small_queue_eval)
  then have "mset (fst (wal_read (dqDisk q))) = {#task_key ?t#}"
    using q by (simp add: log_inv_def outstanding_def failed_tasks_def worker_live_def)
  then have "fst (wal_read (dqDisk q)) = [task_key ?t]" by (metis mset_single_iff_right mset_single_iff)
  then show ?thesis using q by (intro exI [of _ q] exI [of _ ?t]) (simp add: executed_def small_task_def)
qed

end
