(* ===== verification/Result_Code.thy ===== *)
theory Result_Code
  imports Prelude
begin

section \<open>Result codes\<close>

text \<open>
  \<open>Interfaces/ResultCode.h\<close>: the codes of replies and of calls between the servers. \<open>Max\<close> is the
  enumerator after the last one. A value that came over the wire and is none of them is printed
  as unknown.
\<close>

datatype ResultCode =
    RC_Success | RC_Unknown | RC_InvalidRequest | RC_Timeout | RC_NotInitialized | RC_ShuttingDown
  | RC_SessionNotFound | RC_SessionExpired | RC_NotAuthenticated | RC_PermissionDenied | RC_DuplicateSession
  | RC_DBConnectionFailed | RC_DBQueryFailed | RC_DBRecordNotFound | RC_DBDuplicateKey | RC_DBTransactionFailed
  | RC_DBServerNotConnected | RC_DBServerTimeout | RC_DBServerRejected
  | RC_InsufficientResources | RC_InvalidGameState | RC_ItemNotFound | RC_LevelRequirementNotMet
  | RC_Max

fun ResultCode_value :: "ResultCode \<Rightarrow> u32" where
  "ResultCode_value RC_Success = 0"
| "ResultCode_value RC_Unknown = 1"
| "ResultCode_value RC_InvalidRequest = 2"
| "ResultCode_value RC_Timeout = 3"
| "ResultCode_value RC_NotInitialized = 4"
| "ResultCode_value RC_ShuttingDown = 5"
| "ResultCode_value RC_SessionNotFound = 1000"
| "ResultCode_value RC_SessionExpired = 1001"
| "ResultCode_value RC_NotAuthenticated = 1002"
| "ResultCode_value RC_PermissionDenied = 1003"
| "ResultCode_value RC_DuplicateSession = 1004"
| "ResultCode_value RC_DBConnectionFailed = 2000"
| "ResultCode_value RC_DBQueryFailed = 2001"
| "ResultCode_value RC_DBRecordNotFound = 2002"
| "ResultCode_value RC_DBDuplicateKey = 2003"
| "ResultCode_value RC_DBTransactionFailed = 2004"
| "ResultCode_value RC_DBServerNotConnected = 3000"
| "ResultCode_value RC_DBServerTimeout = 3001"
| "ResultCode_value RC_DBServerRejected = 3002"
| "ResultCode_value RC_InsufficientResources = 4000"
| "ResultCode_value RC_InvalidGameState = 4001"
| "ResultCode_value RC_ItemNotFound = 4002"
| "ResultCode_value RC_LevelRequirementNotMet = 4003"
| "ResultCode_value RC_Max = 4004"

definition IsSuccess :: "ResultCode \<Rightarrow> bool" where
  "IsSuccess code \<longleftrightarrow> code = RC_Success"

fun ResultCode_ToString :: "ResultCode \<Rightarrow> string" where
  "ResultCode_ToString RC_Success = ''Success''"
| "ResultCode_ToString RC_Unknown = ''Unknown''"
| "ResultCode_ToString RC_InvalidRequest = ''InvalidRequest''"
| "ResultCode_ToString RC_Timeout = ''Timeout''"
| "ResultCode_ToString RC_NotInitialized = ''NotInitialized''"
| "ResultCode_ToString RC_ShuttingDown = ''ShuttingDown''"
| "ResultCode_ToString RC_SessionNotFound = ''SessionNotFound''"
| "ResultCode_ToString RC_SessionExpired = ''SessionExpired''"
| "ResultCode_ToString RC_NotAuthenticated = ''NotAuthenticated''"
| "ResultCode_ToString RC_PermissionDenied = ''PermissionDenied''"
| "ResultCode_ToString RC_DuplicateSession = ''DuplicateSession''"
| "ResultCode_ToString RC_DBConnectionFailed = ''DBConnectionFailed''"
| "ResultCode_ToString RC_DBQueryFailed = ''DBQueryFailed''"
| "ResultCode_ToString RC_DBRecordNotFound = ''DBRecordNotFound''"
| "ResultCode_ToString RC_DBDuplicateKey = ''DBDuplicateKey''"
| "ResultCode_ToString RC_DBTransactionFailed = ''DBTransactionFailed''"
| "ResultCode_ToString RC_DBServerNotConnected = ''DBServerNotConnected''"
| "ResultCode_ToString RC_DBServerTimeout = ''DBServerTimeout''"
| "ResultCode_ToString RC_DBServerRejected = ''DBServerRejected''"
| "ResultCode_ToString RC_InsufficientResources = ''InsufficientResources''"
| "ResultCode_ToString RC_InvalidGameState = ''InvalidGameState''"
| "ResultCode_ToString RC_ItemNotFound = ''ItemNotFound''"
| "ResultCode_ToString RC_LevelRequirementNotMet = ''LevelRequirementNotMet''"
| "ResultCode_ToString RC_Max = ''Unknown''"

lemma ResultCode_value_inj: "ResultCode_value a = ResultCode_value b \<longleftrightarrow> a = b"
  by (cases a; cases b) simp_all

text \<open>Different codes print differently, except that the end marker prints as the unknown code.\<close>

lemma ResultCode_ToString_inj:
  "ResultCode_ToString a = ResultCode_ToString b \<Longrightarrow> {a, b} \<noteq> {RC_Unknown, RC_Max} \<Longrightarrow> a = b"
  by (cases a; cases b) (simp_all add: insert_commute)

end
