(* ===== verification/Db_Server_Tasks.thy ===== *)
theory Db_Server_Tasks
  imports Packet Key_Gen Result_Code "HOL-Library.AList" "HOL-Library.Multiset"
begin

section \<open>Requests to the database server\<close>

text \<open>
  \<open>TestServer/DBServerTaskQueue\<close>: a worker turns tasks into request packets for the database
  server, with at most one request per session in flight, and completes them from replies and
  timeouts. Only its own thread touches a worker's sessions, so a worker is a sequential machine
  fed by two queues; its critical sections and the passes of its loop are the steps. The
  environment gives the clock (in milliseconds) and says which packets can be sent (\<open>send\<close>, by
  request number, which determines the packet); \<open>junk\<close> is what the packet's array held before.

  The map of sessions is an association list; no result depends on its order. A callback is
  known by its task; fields from \<open>dsAccepted\<close> on are history.
\<close>

subsection \<open>Tasks and workers\<close>

type_synonym DBServerTaskType = u8

definition SavePlayerProgress :: DBServerTaskType where "SavePlayerProgress = 0"
definition LoadPlayerData :: DBServerTaskType where "LoadPlayerData = 1"

text \<open>\<open>st_check\<close> is what the caller's check answers, \<open>None\<close> when there is none; \<open>st_id\<close> tells tasks apart.\<close>

record DBServerTask =
  st_id :: nat
  st_type :: DBServerTaskType
  st_session :: ConnectionId
  st_data :: "byte list"
  st_check :: "bool option"
  st_callback :: bool

record DBResponseEvent =
  re_requestId :: u64
  re_result :: ResultCode
  re_detail :: string

text \<open>\<open>ss_inflight\<close> is the task whose callback the session stores.\<close>

record DS_SessionState =
  ss_requestId :: u64
  ss_inflight :: "DBServerTask option"
  ss_pending :: "DBServerTask list"
  ss_deadline :: nat

definition DS_SessionState_new :: DS_SessionState where
  "DS_SessionState_new = \<lparr>ss_requestId = 0, ss_inflight = None, ss_pending = [], ss_deadline = 0\<rparr>"

record ds_worker =
  dsTasks :: "DBServerTask list"
  dsResponses :: "DBResponseEvent list"
  dsSessions :: "(ConnectionId \<times> DS_SessionState) list"
  dsKeyGen :: KeyGenerator
  dsAccepted :: "DBServerTask list"
  dsFinished :: "(DBServerTask \<times> ResultCode \<times> string) list"
  dsSent :: "(DBServerTask \<times> PKT_DBQueryReq) list"

definition ds_worker_new :: "u8 \<Rightarrow> ds_worker" where
  "ds_worker_new idx = \<lparr>dsTasks = [], dsResponses = [], dsSessions = [], dsKeyGen = KG_new KT_DBQuery idx,
     dsAccepted = [], dsFinished = [], dsSent = []\<rparr>"

definition kRequestTimeoutMs :: nat where "kRequestTimeoutMs = 5000"

subsection \<open>Processing\<close>

definition CheckTask :: "DBServerTask \<Rightarrow> bool" where
  "CheckTask t =
     (if st_type t = SavePlayerProgress then st_data t \<noteq> []
      else if st_type t = LoadPlayerData then True
      else False)"

definition check_passed :: "DBServerTask \<Rightarrow> bool" where
  "check_passed t \<longleftrightarrow> CheckTask t \<and> st_check t \<noteq> Some False"

text \<open>The request packet: at most 511 bytes of data and a terminator go into the array of 512.\<close>

definition build_query :: "byte list \<Rightarrow> u64 \<Rightarrow> DBServerTask \<Rightarrow> PKT_DBQueryReq" where
  "build_query junk requestId t =
     (let pkt = PKT_DBQueryReq_new junk;
          n = min (length (st_data t)) (length (dqq_data pkt) - 1)
      in pkt\<lparr>dqq_queryId := requestId, dqq_taskType := st_type t, dqq_dataLength := of_nat n,
             dqq_data := (take n (st_data t) @ drop n (dqq_data pkt))[n := 0]\<rparr>)"

text \<open>A task is finished: its callback is called when it has one.\<close>

definition finish :: "DBServerTask \<Rightarrow> ResultCode \<Rightarrow> string \<Rightarrow> ds_worker \<Rightarrow> ds_worker" where
  "finish t code detail w = w\<lparr>dsFinished := dsFinished w @ [(t, code, detail)]\<rparr>"

definition set_session :: "ConnectionId \<Rightarrow> DS_SessionState \<Rightarrow> ds_worker \<Rightarrow> ds_worker" where
  "set_session i ss w = w\<lparr>dsSessions := AList.update i ss (dsSessions w)\<rparr>"

definition erase_session :: "ConnectionId \<Rightarrow> ds_worker \<Rightarrow> ds_worker" where
  "erase_session i w = w\<lparr>dsSessions := AList.delete i (dsSessions w)\<rparr>"

definition session_state :: "ConnectionId \<Rightarrow> ds_worker \<Rightarrow> DS_SessionState" where
  "session_state i w = (case map_of (dsSessions w) i of Some ss \<Rightarrow> ss | None \<Rightarrow> DS_SessionState_new)"

definition DS_ProcessTask :: "(u64 \<Rightarrow> bool) \<Rightarrow> byte list \<Rightarrow> nat \<Rightarrow> DBServerTask \<Rightarrow> ds_worker \<Rightarrow> ds_worker" where
  "DS_ProcessTask send junk now t w =
     (let i = st_session t; ss = session_state i w
      in if ss_requestId ss \<noteq> 0 then set_session i (ss\<lparr>ss_pending := ss_pending ss @ [t]\<rparr>) w
         else if \<not> check_passed t then
           finish t RC_InvalidRequest ''Check failed''
             (if map_of (dsSessions w) i \<noteq> None \<and> ss_pending ss = [] then erase_session i w else w)
         else (case KG_Next (dsKeyGen w) of (requestId, g) \<Rightarrow>
           if send requestId then
             set_session i (ss\<lparr>ss_requestId := requestId, ss_inflight := Some t, ss_deadline := now + kRequestTimeoutMs\<rparr>)
               (w\<lparr>dsKeyGen := g, dsSent := dsSent w @ [(t, build_query junk requestId t)]\<rparr>)
           else
             finish t RC_DBServerNotConnected ''Send failed''
               (if ss_pending ss = [] then erase_session i (w\<lparr>dsKeyGen := g\<rparr>)
                else set_session i (ss\<lparr>ss_requestId := 0, ss_inflight := None, ss_deadline := now + kRequestTimeoutMs\<rparr>) (w\<lparr>dsKeyGen := g\<rparr>))))"

text \<open>
  The end of a request, shared by replies and timeouts: the callback, then the next pending task
  of the session, or the session is forgotten.
\<close>

definition complete :: "(u64 \<Rightarrow> bool) \<Rightarrow> byte list \<Rightarrow> nat \<Rightarrow> ConnectionId \<Rightarrow> ResultCode \<Rightarrow> string \<Rightarrow> ds_worker \<Rightarrow> ds_worker" where
  "complete send junk now i code detail w =
     (let ss = session_state i w;
          w = (case ss_inflight ss of None \<Rightarrow> w | Some t \<Rightarrow> finish t code detail w);
          ss = ss\<lparr>ss_requestId := 0, ss_inflight := None\<rparr>
      in case ss_pending ss of
           t # ts \<Rightarrow> DS_ProcessTask send junk now t (set_session i (ss\<lparr>ss_pending := ts\<rparr>) w)
         | [] \<Rightarrow> erase_session i w)"

definition HandleResponse :: "(u64 \<Rightarrow> bool) \<Rightarrow> byte list \<Rightarrow> nat \<Rightarrow> DBResponseEvent \<Rightarrow> ds_worker \<Rightarrow> ds_worker" where
  "HandleResponse send junk now r w =
     (case find (\<lambda>(i, ss). ss_requestId ss = re_requestId r) (dsSessions w) of
        None \<Rightarrow> w
      | Some (i, _) \<Rightarrow> complete send junk now i (re_result r) (re_detail r) w)"

definition timed_out :: "nat \<Rightarrow> ds_worker \<Rightarrow> ConnectionId list" where
  "timed_out now w = map fst (filter (\<lambda>(i, ss). ss_requestId ss \<noteq> 0 \<and> ss_deadline ss \<le> now) (dsSessions w))"

definition CheckTimeout :: "(u64 \<Rightarrow> bool) \<Rightarrow> byte list \<Rightarrow> nat \<Rightarrow> ConnectionId \<Rightarrow> ds_worker \<Rightarrow> ds_worker" where
  "CheckTimeout send junk now i w =
     (case map_of (dsSessions w) i of
        None \<Rightarrow> w
      | Some ss \<Rightarrow> if ss_requestId ss = 0 then w
                   else complete send junk now i RC_DBServerTimeout ''DB request timed out'' w)"

definition CheckTimeouts :: "(u64 \<Rightarrow> bool) \<Rightarrow> byte list \<Rightarrow> nat \<Rightarrow> ds_worker \<Rightarrow> ds_worker" where
  "CheckTimeouts send junk now w = fold (CheckTimeout send junk now) (timed_out now w) w"

text \<open>\<open>ShutdownDrain\<close>, after the worker's thread has been joined.\<close>

definition shut_session :: "DS_SessionState \<Rightarrow> ds_worker \<Rightarrow> ds_worker" where
  "shut_session ss w =
     fold (\<lambda>t. finish t RC_ShuttingDown ''Server shutting down'')
       ((case ss_inflight ss of Some t \<Rightarrow> if ss_requestId ss \<noteq> 0 then [t] else [] | None \<Rightarrow> []) @ ss_pending ss) w"

definition ShutdownDrain :: "ds_worker \<Rightarrow> ds_worker" where
  "ShutdownDrain w =
     (let w1 = (fold (\<lambda>(i, ss). shut_session ss) (dsSessions w) w)\<lparr>dsSessions := []\<rparr>;
          w2 = (fold (\<lambda>t. finish t RC_ShuttingDown ''Server shutting down'') (dsTasks w1) w1)\<lparr>dsTasks := []\<rparr>
      in w2\<lparr>dsResponses := []\<rparr>)"

subsection \<open>The queue\<close>

record DBServerTaskQueue =
  dsqWorkers :: "ds_worker list"
  dsqRunning :: bool
  dsqPendingCount :: size_t

definition DS_Initialize :: "nat \<Rightarrow> bool \<Rightarrow> DBServerTaskQueue \<Rightarrow> bool \<times> DBServerTaskQueue" where
  "DS_Initialize workerCount hasSend q =
     (if dsqRunning q then (True, q)
      else if workerCount = 0 \<or> 255 < workerCount then (False, q)
      else if \<not> hasSend then (False, q)
      else (True, q\<lparr>dsqRunning := True, dsqWorkers := dsqWorkers q @ map (\<lambda>i. ds_worker_new (of_nat i)) [0..<workerCount]\<rparr>))"

definition DS_route :: "ConnectionId \<Rightarrow> DBServerTaskQueue \<Rightarrow> nat" where
  "DS_route i q = unat i mod length (dsqWorkers q)"

text \<open>\<open>EnqueueTask\<close> outside a shutdown; the first component is what a refused task's callback is given.\<close>

definition DS_EnqueueTask :: "DBServerTask \<Rightarrow> DBServerTaskQueue \<Rightarrow> (ResultCode \<times> string) option \<times> DBServerTaskQueue" where
  "DS_EnqueueTask t q =
     (if \<not> dsqRunning q then (Some (RC_ShuttingDown, ''DBServerTaskQueue not running''), q)
      else if dsqWorkers q = [] then (Some (RC_NotInitialized, ''No workers''), q)
      else let k = DS_route (st_session t) q; w = dsqWorkers q ! k
           in (None, q\<lparr>dsqPendingCount := dsqPendingCount q + 1,
                       dsqWorkers := (dsqWorkers q)[k := w\<lparr>dsTasks := dsTasks w @ [t], dsAccepted := dsAccepted w @ [t]\<rparr>]\<rparr>))"

definition DS_SavePlayerProgress :: "nat \<Rightarrow> ConnectionId \<Rightarrow> byte list \<Rightarrow> bool \<Rightarrow> DBServerTaskQueue \<Rightarrow> (ResultCode \<times> string) option \<times> DBServerTaskQueue" where
  "DS_SavePlayerProgress i sessionId jsonData callback q =
     DS_EnqueueTask \<lparr>st_id = i, st_type = SavePlayerProgress, st_session = sessionId, st_data = jsonData, st_check = None, st_callback = callback\<rparr> q"

definition OnDBResponse :: "DBResponseEvent \<Rightarrow> DBServerTaskQueue \<Rightarrow> DBServerTaskQueue" where
  "OnDBResponse r q =
     (let k = unat (GetSlot (re_requestId r))
      in if length (dsqWorkers q) \<le> k then q
         else q\<lparr>dsqWorkers := (dsqWorkers q)[k := (dsqWorkers q ! k)\<lparr>dsResponses := dsResponses (dsqWorkers q ! k) @ [r]\<rparr>]\<rparr>)"

text \<open>\<open>Shutdown\<close> when no call overlaps it: the threads have ended, then every worker is drained.\<close>

definition DS_Shutdown :: "DBServerTaskQueue \<Rightarrow> DBServerTaskQueue" where
  "DS_Shutdown q = (if \<not> dsqRunning q then q
     else q\<lparr>dsqRunning := False, dsqWorkers := map ShutdownDrain (dsqWorkers q), dsqPendingCount := 0\<rparr>)"

definition GetPendingCount :: "DBServerTaskQueue \<Rightarrow> size_t" where "GetPendingCount q = dsqPendingCount q"
definition DS_IsRunning :: "DBServerTaskQueue \<Rightarrow> bool" where "DS_IsRunning q = dsqRunning q"

subsection \<open>A worker's run\<close>

text \<open>
  The steps of one worker: a task or a reply arrives, or its thread makes the timeout pass,
  handles the next reply, or takes the next task.
\<close>

datatype ds_event =
    DSEnqueue DBServerTask
  | DSResponse DBResponseEvent
  | DSTimeouts nat
  | DSHandle nat
  | DSTask nat

fun ds_next :: "(u64 \<Rightarrow> bool) \<Rightarrow> byte list \<Rightarrow> ds_event \<Rightarrow> ds_worker \<Rightarrow> ds_worker" where
  "ds_next send junk (DSEnqueue t) w = w\<lparr>dsTasks := dsTasks w @ [t], dsAccepted := dsAccepted w @ [t]\<rparr>"
| "ds_next send junk (DSResponse r) w = w\<lparr>dsResponses := dsResponses w @ [r]\<rparr>"
| "ds_next send junk (DSTimeouts now) w = CheckTimeouts send junk now w"
| "ds_next send junk (DSHandle now) w =
     (case dsResponses w of [] \<Rightarrow> w | r # rs \<Rightarrow> HandleResponse send junk now r (w\<lparr>dsResponses := rs\<rparr>))"
| "ds_next send junk (DSTask now) w =
     (case dsTasks w of [] \<Rightarrow> w | t # ts \<Rightarrow> DS_ProcessTask send junk now t (w\<lparr>dsTasks := ts\<rparr>))"

fun ds_run :: "(u64 \<Rightarrow> bool) \<Rightarrow> byte list \<Rightarrow> ds_event list \<Rightarrow> ds_worker \<Rightarrow> ds_worker" where
  "ds_run send junk [] w = w"
| "ds_run send junk (e # es) w = ds_run send junk es (ds_next send junk e w)"

text \<open>A step of worker \<open>k\<close>'s thread in the queue: taking a task lowers the count of pending tasks.\<close>

definition DS_worker_step :: "(u64 \<Rightarrow> bool) \<Rightarrow> byte list \<Rightarrow> nat \<Rightarrow> ds_event \<Rightarrow> DBServerTaskQueue \<Rightarrow> DBServerTaskQueue" where
  "DS_worker_step send junk k e q =
     (if k < length (dsqWorkers q)
      then let w = dsqWorkers q ! k
           in q\<lparr>dsqWorkers := (dsqWorkers q)[k := ds_next send junk e w],
                dsqPendingCount := dsqPendingCount q - (case e of DSTask _ \<Rightarrow> if dsTasks w = [] then 0 else 1 | _ \<Rightarrow> 0)\<rparr>
      else q)"

subsection \<open>Every task is finished once\<close>

definition session_tasks :: "DS_SessionState \<Rightarrow> DBServerTask list" where
  "session_tasks ss = (case ss_inflight ss of None \<Rightarrow> [] | Some t \<Rightarrow> [t]) @ ss_pending ss"

definition waiting :: "ds_worker \<Rightarrow> DBServerTask multiset" where
  "waiting w = mset (dsTasks w) + mset (concat (map (\<lambda>(i, ss). session_tasks ss) (dsSessions w)))"

definition finished :: "ds_worker \<Rightarrow> DBServerTask multiset" where
  "finished w = mset (map fst (dsFinished w))"

text \<open>A session stores a task exactly when it has a request number.\<close>

definition session_ok :: "ConnectionId \<Rightarrow> DS_SessionState \<Rightarrow> bool" where
  "session_ok i ss \<longleftrightarrow> (ss_requestId ss = 0 \<longleftrightarrow> ss_inflight ss = None) \<and>
     st_session ` set (session_tasks ss) \<subseteq> {i}"

definition ds_inv :: "ds_worker \<Rightarrow> bool" where
  "ds_inv w \<longleftrightarrow> distinct (map fst (dsSessions w)) \<and> (\<forall>(i, ss) \<in> set (dsSessions w). session_ok i ss)"

lemma session_ok_new [simp]: "session_ok i DS_SessionState_new"
  by (simp add: session_ok_def DS_SessionState_new_def session_tasks_def)

lemma ds_inv_session: "ds_inv w \<Longrightarrow> session_ok i (session_state i w)"
  by (auto simp: ds_inv_def session_state_def split: option.splits dest: map_of_SomeD)

lemma session_ok_prepare:
  "session_ok i ss \<Longrightarrow> session_ok i (ss\<lparr>ss_requestId := 0, ss_inflight := None\<rparr>)"
  by (auto simp: session_ok_def session_tasks_def)

lemma set_alist_update: "set (AList.update k v m) \<subseteq> insert (k, v) (set m)"
  by (induction m) auto

lemma ds_inv_set_session: "ds_inv w \<Longrightarrow> session_ok i ss \<Longrightarrow> ds_inv (set_session i ss w)"
  using set_alist_update [of i ss "dsSessions w"]
  by (auto simp: ds_inv_def set_session_def distinct_update)

lemma ds_inv_erase: "ds_inv w \<Longrightarrow> ds_inv (erase_session i w)"
  using distinct_delete [of "dsSessions w" i] by (auto simp: ds_inv_def erase_session_def AList.delete_eq)

lemma ds_inv_cong: "dsSessions w' = dsSessions w \<Longrightarrow> ds_inv w' = ds_inv w"
  by (simp add: ds_inv_def)

lemma mset_concat_alist_update:
  "mset (concat (map (\<lambda>(i, ss). session_tasks ss) (AList.update k v m))) +
     mset (session_tasks (case map_of m k of Some u \<Rightarrow> u | None \<Rightarrow> DS_SessionState_new)) =
   mset (concat (map (\<lambda>(i, ss). session_tasks ss) m)) + mset (session_tasks v)"
  by (induction m) (auto simp: session_tasks_def DS_SessionState_new_def)

lemma mset_concat_alist_delete:
  "distinct (map fst m) \<Longrightarrow>
   mset (concat (map (\<lambda>(i, ss). session_tasks ss) (AList.delete k m))) +
     mset (session_tasks (case map_of m k of Some u \<Rightarrow> u | None \<Rightarrow> DS_SessionState_new)) =
   mset (concat (map (\<lambda>(i, ss). session_tasks ss) m))"
proof (induction m)
  case (Cons x m)
  then show ?case
  proof (cases "fst x = k")
    case True
    then have "k \<notin> fst ` set m" using Cons.prems by auto
    then have "AList.delete k m = m" by (simp add: delete_idem)
    with True show ?thesis by (cases x) simp
  qed (use Cons in \<open>auto\<close>)
qed (simp add: session_tasks_def DS_SessionState_new_def)

lemma waiting_set_session:
  "waiting (set_session i ss w) + mset (session_tasks (session_state i w)) = waiting w + mset (session_tasks ss)"
  using mset_concat_alist_update [of i ss "dsSessions w"] by (simp add: waiting_def set_session_def session_state_def)

lemma waiting_erase:
  "ds_inv w \<Longrightarrow> waiting (erase_session i w) + mset (session_tasks (session_state i w)) = waiting w"
  using mset_concat_alist_delete [of "dsSessions w" i] by (simp add: waiting_def erase_session_def session_state_def ds_inv_def)

lemma waiting_view [simp]:
  "waiting (finish t c d w) = waiting w" "finished (finish t c d w) = add_mset t (finished w)"
  "finished (set_session i ss w) = finished w" "finished (erase_session i w) = finished w"
  "waiting (w\<lparr>dsKeyGen := g\<rparr>) = waiting w" "finished (w\<lparr>dsKeyGen := g\<rparr>) = finished w"
  "waiting (w\<lparr>dsSent := s\<rparr>) = waiting w" "finished (w\<lparr>dsSent := s\<rparr>) = finished w"
  "waiting (w\<lparr>dsResponses := r\<rparr>) = waiting w" "finished (w\<lparr>dsResponses := r\<rparr>) = finished w"
  "finished (w\<lparr>dsTasks := ts\<rparr>) = finished w"
  by (simp_all add: waiting_def finished_def finish_def set_session_def erase_session_def)

lemma session_view [simp]:
  "session_state i (finish t c d w) = session_state i w" "session_state i (w\<lparr>dsKeyGen := g\<rparr>) = session_state i w"
  "session_state i (w\<lparr>dsSent := s\<rparr>) = session_state i w" "session_state i (set_session i ss w) = ss"
  "session_state i (w\<lparr>dsTasks := ts\<rparr>) = session_state i w" "session_state i (w\<lparr>dsResponses := rs\<rparr>) = session_state i w"
  by (simp_all add: session_state_def finish_def set_session_def update_conv)

lemma ds_inv_view [simp]:
  "ds_inv (finish t c d w) = ds_inv w" "ds_inv (w\<lparr>dsKeyGen := g\<rparr>) = ds_inv w" "ds_inv (w\<lparr>dsSent := s\<rparr>) = ds_inv w"
  "ds_inv (w\<lparr>dsTasks := ts\<rparr>) = ds_inv w" "ds_inv (w\<lparr>dsResponses := rs\<rparr>) = ds_inv w" "ds_inv (w\<lparr>dsAccepted := acc\<rparr>) = ds_inv w"
  by (simp_all add: ds_inv_def finish_def)

definition balance :: "ds_worker \<Rightarrow> DBServerTask multiset" where
  "balance w = waiting w + finished w"

text \<open>The next request number is not 0.\<close>

lemma KG_Next_nonzero: "fst (KG_Next g) \<noteq> 0"
proof
  assume "fst (KG_Next g) = 0"
  then have "or (mPrefix g) (seq_of (mSeq g + 1)) = 0" by (simp add: KG_Next_eq)
  then show False using seq_of_pos [of "mSeq g + 1"] by (metis or_eq_0_iff)
qed

text \<open>The cases of \<open>ProcessTask\<close>.\<close>

lemma ProcessTask_cases:
  fixes t w
  defines "i \<equiv> st_session t" and "ss \<equiv> session_state (st_session t) w" and "kg \<equiv> KG_Next (dsKeyGen w)"
  obtains (queued) "ss_requestId ss \<noteq> 0" "DS_ProcessTask send junk now t w = set_session i (ss\<lparr>ss_pending := ss_pending ss @ [t]\<rparr>) w"
  | (refused) "ss_requestId ss = 0" "\<not> check_passed t" "ss_pending ss = []"
      "DS_ProcessTask send junk now t w = finish t RC_InvalidRequest ''Check failed'' (erase_session i w)"
  | (refused_keep) "ss_requestId ss = 0" "\<not> check_passed t"
      "DS_ProcessTask send junk now t w = finish t RC_InvalidRequest ''Check failed'' w"
  | (sent) "ss_requestId ss = 0" "check_passed t" "send (fst kg)"
      "DS_ProcessTask send junk now t w =
        set_session i (ss\<lparr>ss_requestId := fst kg, ss_inflight := Some t, ss_deadline := now + kRequestTimeoutMs\<rparr>)
          (w\<lparr>dsKeyGen := snd kg, dsSent := dsSent w @ [(t, build_query junk (fst kg) t)]\<rparr>)"
  | (failed) "ss_requestId ss = 0" "check_passed t" "\<not> send (fst kg)" "ss_pending ss = []"
      "DS_ProcessTask send junk now t w = finish t RC_DBServerNotConnected ''Send failed'' (erase_session i (w\<lparr>dsKeyGen := snd kg\<rparr>))"
  | (failed_keep) "ss_requestId ss = 0" "check_passed t" "\<not> send (fst kg)" "ss_pending ss \<noteq> []"
      "DS_ProcessTask send junk now t w = finish t RC_DBServerNotConnected ''Send failed''
        (set_session i (ss\<lparr>ss_requestId := 0, ss_inflight := None, ss_deadline := now + kRequestTimeoutMs\<rparr>) (w\<lparr>dsKeyGen := snd kg\<rparr>))"
proof -
  note P = DS_ProcessTask_def [of send junk now t w, unfolded Let_def split_beta, folded ss_def i_def kg_def]
  consider (q) "ss_requestId ss \<noteq> 0" | (r) "ss_requestId ss = 0" "\<not> check_passed t"
    | (s) "ss_requestId ss = 0" "check_passed t" "send (fst kg)" | (f) "ss_requestId ss = 0" "check_passed t" "\<not> send (fst kg)" by blast
  then show ?thesis
  proof cases
    case q
    then show ?thesis by (intro queued) (simp_all add: P)
  next
    case r
    show ?thesis
    proof (cases "map_of (dsSessions w) i \<noteq> None \<and> ss_pending ss = []")
      case True
      with r show ?thesis by (intro refused) (simp_all add: P)
    next
      case False
      with r show ?thesis by (intro refused_keep) (simp_all only: P if_False if_not_P if_P not_not simp_thms)
    qed
  next
    case s
    then show ?thesis by (intro sent) (simp_all add: P)
  next
    case f
    then show ?thesis using failed failed_keep unfolding P by (cases "ss_pending ss = []") simp_all
  qed
qed

lemma ProcessTask_step:
  assumes "ds_inv w"
  shows "ds_inv (DS_ProcessTask send junk now t w) \<and> balance (DS_ProcessTask send junk now t w) = add_mset t (balance w)"
proof -
  let ?i = "st_session t" and ?ss = "session_state (st_session t) w" and ?kg = "KG_Next (dsKeyGen w)"
  have ok: "session_ok ?i ?ss" using assms by (rule ds_inv_session)
  show ?thesis
  proof (cases rule: ProcessTask_cases [of t w send junk now])
    case queued
    have "session_ok ?i (?ss\<lparr>ss_pending := ss_pending ?ss @ [t]\<rparr>)" using ok by (auto simp: session_ok_def session_tasks_def)
    then show ?thesis
      using queued assms waiting_set_session [of ?i "?ss\<lparr>ss_pending := ss_pending ?ss @ [t]\<rparr>" w]
      by (simp add: balance_def session_tasks_def ds_inv_set_session)
  next
    case refused
    then have "session_tasks ?ss = []" using ok by (simp add: session_ok_def session_tasks_def)
    then show ?thesis using refused assms waiting_erase [OF assms, of ?i] by (simp add: balance_def ds_inv_erase)
  next
    case refused_keep
    then show ?thesis using assms by (simp add: balance_def)
  next
    case sent
    let ?s = "?ss\<lparr>ss_requestId := fst ?kg, ss_inflight := Some t, ss_deadline := now + kRequestTimeoutMs\<rparr>"
    have "ss_inflight ?ss = None" using sent(1) ok by (simp add: session_ok_def)
    moreover have "session_ok ?i ?s" using ok KG_Next_nonzero by (auto simp: session_ok_def session_tasks_def)
    ultimately show ?thesis
      using sent(4) assms waiting_set_session [of ?i ?s "w\<lparr>dsKeyGen := snd ?kg, dsSent := dsSent w @ [(t, build_query junk (fst ?kg) t)]\<rparr>"]
      by (simp add: balance_def session_tasks_def ds_inv_set_session)
  next
    case failed
    then have "session_tasks ?ss = []" using ok by (simp add: session_ok_def session_tasks_def)
    then show ?thesis
      using failed(5) assms waiting_erase [of "w\<lparr>dsKeyGen := snd ?kg\<rparr>" ?i] by (simp add: balance_def ds_inv_erase)
  next
    case failed_keep
    let ?s = "?ss\<lparr>ss_requestId := 0, ss_inflight := None, ss_deadline := now + kRequestTimeoutMs\<rparr>"
    have "ss_inflight ?ss = None" using failed_keep(1) ok by (simp add: session_ok_def)
    moreover have "session_ok ?i ?s" using ok by (auto simp: session_ok_def session_tasks_def)
    ultimately show ?thesis
      using failed_keep(5) assms waiting_set_session [of ?i ?s "w\<lparr>dsKeyGen := snd ?kg\<rparr>"]
      by (simp add: balance_def session_tasks_def ds_inv_set_session)
  qed
qed

lemma complete_step:
  assumes "ds_inv w"
  shows "ds_inv (complete send junk now i code detail w) \<and> balance (complete send junk now i code detail w) = balance w"
proof -
  let ?ss = "session_state i w"
  define w1 where "w1 = (case ss_inflight ?ss of None \<Rightarrow> w | Some t \<Rightarrow> finish t code detail w)"
  have w1: "ds_inv w1" "session_state i w1 = ?ss" "waiting w1 = waiting w"
    "finished w1 = finished w + mset (case ss_inflight ?ss of None \<Rightarrow> [] | Some t \<Rightarrow> [t])"
    using assms by (simp_all add: w1_def split: option.splits)
  have ok: "session_ok i ?ss" using assms by (rule ds_inv_session)
  show ?thesis
  proof (cases "ss_pending ?ss")
    case Nil
    then have "complete send junk now i code detail w = erase_session i w1" by (simp add: complete_def Let_def w1_def)
    then show ?thesis using waiting_erase [OF w1(1), of i] w1 Nil by (simp add: balance_def session_tasks_def ds_inv_erase)
  next
    case (Cons t ts)
    let ?s = "?ss\<lparr>ss_requestId := 0, ss_inflight := None, ss_pending := ts\<rparr>"
    have c: "complete send junk now i code detail w = DS_ProcessTask send junk now t (set_session i ?s w1)"
      using Cons by (simp add: complete_def Let_def w1_def)
    have "session_ok i ?s" using ok Cons by (auto simp: session_ok_def session_tasks_def)
    then have i: "ds_inv (set_session i ?s w1)" using w1(1) by (rule ds_inv_set_session [rotated])
    have "waiting (set_session i ?s w1) + mset (session_tasks ?ss) = waiting w + mset ts"
      using waiting_set_session [of i ?s w1] w1 by (simp add: session_tasks_def)
    then have "add_mset t (balance (set_session i ?s w1)) = balance w"
      using w1(4) Cons by (simp add: balance_def session_tasks_def split: option.splits)
    then show ?thesis using ProcessTask_step [OF i, of send junk now t] c by simp
  qed
qed

lemma CheckTimeout_step:
  "ds_inv w \<Longrightarrow> ds_inv (CheckTimeout send junk now i w) \<and> balance (CheckTimeout send junk now i w) = balance w"
  using complete_step by (auto simp: CheckTimeout_def split: option.splits)

lemma fold_CheckTimeout_step:
  "ds_inv w \<Longrightarrow> ds_inv (fold (CheckTimeout send junk now) is w) \<and> balance (fold (CheckTimeout send junk now) is w) = balance w"
  by (induction "is" arbitrary: w) (simp_all add: CheckTimeout_step)

lemma HandleResponse_step:
  "ds_inv w \<Longrightarrow> ds_inv (HandleResponse send junk now r w) \<and> balance (HandleResponse send junk now r w) = balance w"
  using complete_step by (auto simp: HandleResponse_def split: option.splits)

lemma accepted_view [simp]:
  "dsAccepted (finish t c d w) = dsAccepted w" "dsAccepted (set_session i ss w) = dsAccepted w" "dsAccepted (erase_session i w) = dsAccepted w"
  by (simp_all add: finish_def set_session_def erase_session_def)

lemma accepted_ops [simp]:
  "dsAccepted (DS_ProcessTask send junk now t w) = dsAccepted w"
  "dsAccepted (complete send junk now i code detail w) = dsAccepted w"
  "dsAccepted (HandleResponse send junk now r w) = dsAccepted w"
  "dsAccepted (CheckTimeout send junk now i w) = dsAccepted w"
proof -
  show P: "dsAccepted (DS_ProcessTask send junk now t w) = dsAccepted w" for t w
    by (simp add: DS_ProcessTask_def Let_def split: prod.split)
  show C: "dsAccepted (complete send junk now i code detail w) = dsAccepted w" for i code detail
    by (simp add: complete_def Let_def P split: option.split list.split)
  show "dsAccepted (HandleResponse send junk now r w) = dsAccepted w"
    by (simp add: HandleResponse_def C split: option.split prod.split)
  show "dsAccepted (CheckTimeout send junk now i w) = dsAccepted w"
    by (simp add: CheckTimeout_def C split: option.split)
qed

lemma accepted_timeouts [simp]: "dsAccepted (CheckTimeouts send junk now w) = dsAccepted w"
proof -
  have "dsAccepted (fold (CheckTimeout send junk now) is w) = dsAccepted w" for "is"
    by (induction "is" arbitrary: w) simp_all
  then show ?thesis by (simp add: CheckTimeouts_def)
qed

definition once_inv :: "ds_worker \<Rightarrow> bool" where
  "once_inv w \<longleftrightarrow> ds_inv w \<and> mset (dsAccepted w) = balance w"

lemma once_step:
  assumes "once_inv w"
  shows "once_inv (ds_next send junk e w)"
proof (cases e)
  case (DSTask now)
  show ?thesis
  proof (cases "dsTasks w")
    case (Cons t ts)
    have "ds_inv (w\<lparr>dsTasks := ts\<rparr>)" "add_mset t (balance (w\<lparr>dsTasks := ts\<rparr>)) = balance w"
      using assms Cons by (simp_all add: once_inv_def balance_def waiting_def finished_def)
    then show ?thesis using assms ProcessTask_step [of "w\<lparr>dsTasks := ts\<rparr>" send junk now t] DSTask Cons by (simp add: once_inv_def)
  qed (use assms DSTask in simp)
next
  case (DSHandle now)
  show ?thesis
  proof (cases "dsResponses w")
    case (Cons r rs)
    have "ds_inv (w\<lparr>dsResponses := rs\<rparr>)" "balance (w\<lparr>dsResponses := rs\<rparr>) = balance w"
      using assms by (simp_all add: once_inv_def balance_def)
    then show ?thesis using assms HandleResponse_step [of "w\<lparr>dsResponses := rs\<rparr>" send junk now r] DSHandle Cons by (simp add: once_inv_def)
  qed (use assms DSHandle in simp)
next
  case (DSTimeouts now)
  then show ?thesis
    using assms fold_CheckTimeout_step [of w send junk now "timed_out now w"] accepted_timeouts [of send junk now w]
    by (simp add: once_inv_def CheckTimeouts_def)
qed (use assms in \<open>simp_all add: once_inv_def balance_def waiting_def finished_def ds_inv_def\<close>)

lemma once_run: "once_inv w \<Longrightarrow> once_inv (ds_run send junk es w)"
  by (induction es arbitrary: w) (simp_all add: once_step)

lemma fold_finish: "fold (\<lambda>t. finish t c d) ts w = w\<lparr>dsFinished := dsFinished w @ map (\<lambda>t. (t, c, d)) ts\<rparr>"
  by (induction ts arbitrary: w) (simp_all add: finish_def)

lemma fold_shut_sessions:
  "\<forall>(i, ss) \<in> set m. session_ok i ss \<Longrightarrow>
   fold (\<lambda>(i, ss). shut_session ss) m w =
     w\<lparr>dsFinished := dsFinished w @ map (\<lambda>t. (t, RC_ShuttingDown, ''Server shutting down'')) (concat (map (\<lambda>(i, ss). session_tasks ss) m))\<rparr>"
proof (induction m arbitrary: w)
  case (Cons x m)
  obtain i ss where x: "x = (i, ss)" by force
  have "(case ss_inflight ss of Some t \<Rightarrow> if ss_requestId ss \<noteq> 0 then [t] else [] | None \<Rightarrow> []) @ ss_pending ss = session_tasks ss"
    using Cons.prems x by (auto simp: session_ok_def session_tasks_def split: option.splits)
  then have "shut_session ss w = w\<lparr>dsFinished := dsFinished w @ map (\<lambda>t. (t, RC_ShuttingDown, ''Server shutting down'')) (session_tasks ss)\<rparr>" for w
    by (simp add: shut_session_def fold_finish)
  then show ?case using Cons x by simp
qed simp

text \<open>
  C8: Every accepted task is finished exactly once. At any moment of any run, whatever replies,
  timeouts and send failures happen: the accepted tasks are those finished so far, each once,
  and those still waiting (queued, in flight or pending behind another request). After the
  final drain each accepted task has been finished exactly once.
\<close>

theorem dst_exactly_once:
  fixes send junk es idx
  defines "w \<equiv> ds_run send junk es (ds_worker_new idx)"
  shows "mset (dsAccepted w) = waiting w + finished w \<and> finished (ShutdownDrain w) = mset (dsAccepted w)"
proof -
  have "once_inv (ds_worker_new idx)"
    by (simp add: once_inv_def ds_worker_new_def ds_inv_def balance_def waiting_def finished_def)
  then have o: "once_inv w" unfolding w_def by (rule once_run)
  then have b: "mset (dsAccepted w) = waiting w + finished w" by (simp add: once_inv_def balance_def)
  have "\<forall>(i, ss) \<in> set (dsSessions w). session_ok i ss" using o by (simp add: once_inv_def ds_inv_def)
  from fold_shut_sessions [OF this, of w]
  have "finished (ShutdownDrain w) = finished w + waiting w"
    by (simp add: ShutdownDrain_def Let_def fold_finish finished_def waiting_def o_def)
  with b show ?thesis by simp
qed

subsection \<open>Replies reach the task they belong to\<close>

definition sent_ids :: "ds_worker \<Rightarrow> u64 list" where
  "sent_ids w = map (\<lambda>(t, p). dqq_queryId p) (dsSent w)"

definition used :: "ds_worker \<Rightarrow> nat" where
  "used w = length (dsSent w) + length (dsFinished w)"

text \<open>The numbers of the packets are distinct keys of the worker's generator, and an in-flight request is one of them.\<close>

definition keyed :: "u8 \<Rightarrow> ds_worker \<Rightarrow> bool" where
  "keyed idx w \<longleftrightarrow> distinct (sent_ids w) \<and> (\<exists>n \<le> used w. dsKeyGen w = (KG_new KT_DBQuery idx)\<lparr>mSeq := of_nat n\<rparr> \<and>
     set (sent_ids w) \<subseteq> set (KG_take n (KG_new KT_DBQuery idx)))"

definition backed :: "(DBServerTask \<times> PKT_DBQueryReq) list \<Rightarrow> DS_SessionState \<Rightarrow> bool" where
  "backed sent ss \<longleftrightarrow> (\<forall>t. ss_inflight ss = Some t \<longrightarrow> (\<exists>p. (t, p) \<in> set sent \<and> dqq_queryId p = ss_requestId ss))"

definition all_backed :: "ds_worker \<Rightarrow> bool" where
  "all_backed w \<longleftrightarrow> (\<forall>ss \<in> snd ` set (dsSessions w). backed (dsSent w) ss)"

definition id_inv :: "u8 \<Rightarrow> ds_worker \<Rightarrow> bool" where
  "id_inv idx w \<longleftrightarrow> all_backed w \<and> (used w < 2 ^ 48 \<longrightarrow> keyed idx w)"

lemma build_query_id [simp]: "dqq_queryId (build_query junk i t) = i"
  by (simp add: build_query_def Let_def)

lemma keyed_cong: "sent_ids w' = sent_ids w \<Longrightarrow> dsKeyGen w' = dsKeyGen w \<Longrightarrow> used w \<le> used w' \<Longrightarrow> keyed idx w \<Longrightarrow> keyed idx w'"
  unfolding keyed_def by (elim conjE exE, intro conjI exI) (auto intro: order_trans)

lemma id_inv_cong:
  "dsSessions w' = dsSessions w \<Longrightarrow> dsSent w' = dsSent w \<Longrightarrow> dsFinished w' = dsFinished w \<Longrightarrow> dsKeyGen w' = dsKeyGen w \<Longrightarrow>
   id_inv idx w' = id_inv idx w"
proof -
  assume eq: "dsSessions w' = dsSessions w" "dsSent w' = dsSent w" "dsFinished w' = dsFinished w" "dsKeyGen w' = dsKeyGen w"
  have "sent_ids w' = sent_ids w" "used w' = used w" "all_backed w' = all_backed w"
    unfolding sent_ids_def used_def all_backed_def eq by (rule refl)+
  then show ?thesis unfolding id_inv_def keyed_def eq(4) by simp
qed

lemma id_inv_finish:
  assumes "id_inv idx w"
  shows "id_inv idx (finish t c d w)"
proof -
  have "all_backed (finish t c d w)" using assms by (simp add: id_inv_def all_backed_def finish_def)
  moreover have "used w \<le> used (finish t c d w)" by (simp add: used_def finish_def)
  moreover have "keyed idx (finish t c d w)" if "keyed idx w"
    by (rule keyed_cong [OF _ _ _ that]) (simp_all add: sent_ids_def finish_def used_def)
  ultimately show ?thesis using assms by (simp add: id_inv_def)
qed

lemma id_inv_sessions:
  assumes "id_inv idx w" and "\<forall>ss \<in> snd ` set m. backed (dsSent w) ss"
  shows "id_inv idx (w\<lparr>dsSessions := m\<rparr>)"
  using assms by (simp add: id_inv_def all_backed_def keyed_def used_def sent_ids_def)

lemma id_inv_erase: "id_inv idx w \<Longrightarrow> id_inv idx (erase_session i w)"
  unfolding erase_session_def by (rule id_inv_sessions) (auto simp: id_inv_def all_backed_def AList.delete_eq)

lemma id_inv_set_session:
  assumes "id_inv idx w" and "backed (dsSent w) ss"
  shows "id_inv idx (set_session i ss w)"
  unfolding set_session_def
  by (rule id_inv_sessions [OF assms(1)]) (use set_alist_update [of i ss "dsSessions w"] assms in \<open>auto simp: id_inv_def all_backed_def\<close>)

lemma backed_state: "id_inv idx w \<Longrightarrow> backed (dsSent w) (session_state i w)"
proof (cases "map_of (dsSessions w) i")
  case (Some ss)
  assume "id_inv idx w"
  then show ?thesis using map_of_SomeD [OF Some] Some by (auto simp: id_inv_def all_backed_def session_state_def)
qed (simp add: session_state_def backed_def DS_SessionState_new_def)

lemma backed_idle: "ss_inflight ss = None \<Longrightarrow> backed sent ss"
  by (simp add: backed_def)

lemma keyed_next:
  assumes "keyed idx w" and "Suc (used w) < 2 ^ 48"
  obtains n where "n \<le> used w" "snd (KG_Next (dsKeyGen w)) = (KG_new KT_DBQuery idx)\<lparr>mSeq := of_nat (Suc n)\<rparr>"
    "set (sent_ids w) \<subseteq> set (KG_take n (KG_new KT_DBQuery idx))"
    "KG_take (Suc n) (KG_new KT_DBQuery idx) = KG_take n (KG_new KT_DBQuery idx) @ [fst (KG_Next (dsKeyGen w))]"
    "fst (KG_Next (dsKeyGen w)) \<notin> set (KG_take n (KG_new KT_DBQuery idx))"
proof -
  from assms(1) obtain n where n: "n \<le> used w" "dsKeyGen w = (KG_new KT_DBQuery idx)\<lparr>mSeq := of_nat n\<rparr>"
    "set (sent_ids w) \<subseteq> set (KG_take n (KG_new KT_DBQuery idx))" by (auto simp: keyed_def)
  have "mSeq (KG_new KT_DBQuery idx) = 0" by (simp add: KG_new_def)
  then have take: "KG_take (Suc n) (KG_new KT_DBQuery idx) = KG_take n (KG_new KT_DBQuery idx) @ [fst (KG_Next (dsKeyGen w))]"
    unfolding KG_take_Suc n(2) by simp
  have "Suc n < 2 ^ 48" using n(1) assms(2) by simp
  from KG_take_distinct [OF this, of KT_DBQuery idx]
  have "fst (KG_Next (dsKeyGen w)) \<notin> set (KG_take n (KG_new KT_DBQuery idx))" unfolding take by simp
  moreover have "snd (KG_Next (dsKeyGen w)) = (KG_new KT_DBQuery idx)\<lparr>mSeq := of_nat (Suc n)\<rparr>"
    using n(2) by (simp add: KG_Next_eq KG_new_def add.commute)
  ultimately show ?thesis using n take by (intro that)
qed

lemma id_inv_key:
  assumes "id_inv idx w"
  shows "id_inv idx (finish t c d (w\<lparr>dsKeyGen := snd (KG_Next (dsKeyGen w))\<rparr>))" (is "id_inv idx ?w")
proof -
  have u: "used ?w = Suc (used w)" by (simp add: used_def finish_def)
  have "keyed idx ?w" if lt: "used ?w < 2 ^ 48"
  proof -
    have k: "keyed idx w" using assms lt u by (simp add: id_inv_def)
    obtain n where n: "n \<le> used w" "snd (KG_Next (dsKeyGen w)) = (KG_new KT_DBQuery idx)\<lparr>mSeq := of_nat (Suc n)\<rparr>"
      "set (sent_ids w) \<subseteq> set (KG_take n (KG_new KT_DBQuery idx))"
      "KG_take (Suc n) (KG_new KT_DBQuery idx) = KG_take n (KG_new KT_DBQuery idx) @ [fst (KG_Next (dsKeyGen w))]"
      by (rule keyed_next [OF k]) (use lt u in \<open>simp_all only:\<close>)
    have s: "sent_ids ?w = sent_ids w" "dsKeyGen ?w = snd (KG_Next (dsKeyGen w))" by (simp_all add: sent_ids_def finish_def)
    have "set (sent_ids ?w) \<subseteq> set (KG_take (Suc n) (KG_new KT_DBQuery idx))" unfolding n(4) s using n(3) by auto
    moreover have "distinct (sent_ids ?w)" using k s by (simp add: keyed_def)
    ultimately show ?thesis unfolding keyed_def using n(1,2) s u by (intro conjI exI [of _ "Suc n"]) simp_all
  qed
  moreover have "all_backed ?w" using assms by (simp add: id_inv_def all_backed_def finish_def)
  ultimately show ?thesis by (simp add: id_inv_def)
qed

lemma id_inv_sent:
  fixes t w junk
  defines "k \<equiv> KG_Next (dsKeyGen w)"
  defines "w1 \<equiv> w\<lparr>dsKeyGen := snd k, dsSent := dsSent w @ [(t, build_query junk (fst k) t)]\<rparr>"
  assumes "id_inv idx w"
  shows "id_inv idx w1"
proof -
  have u: "used w1 = Suc (used w)" by (simp add: used_def w1_def)
  have "keyed idx w1" if lt: "used w1 < 2 ^ 48"
  proof -
    have kw: "keyed idx w" using assms(3) lt u by (simp add: id_inv_def)
    have "Suc (used w) < 2 ^ 48" using lt u by simp
    from keyed_next [OF kw this, folded k_def]
    obtain n where n: "n \<le> used w" "snd k = (KG_new KT_DBQuery idx)\<lparr>mSeq := of_nat (Suc n)\<rparr>"
      "set (sent_ids w) \<subseteq> set (KG_take n (KG_new KT_DBQuery idx))"
      "KG_take (Suc n) (KG_new KT_DBQuery idx) = KG_take n (KG_new KT_DBQuery idx) @ [fst k]"
      "fst k \<notin> set (KG_take n (KG_new KT_DBQuery idx))" by blast
    have s: "sent_ids w1 = sent_ids w @ [fst k]" "dsKeyGen w1 = snd k" by (simp_all add: sent_ids_def w1_def)
    have "set (sent_ids w1) \<subseteq> set (KG_take (Suc n) (KG_new KT_DBQuery idx))" unfolding n(4) s using n(3) by auto
    moreover have "distinct (sent_ids w1)" using kw n(3,5) s by (auto simp: keyed_def)
    ultimately show ?thesis unfolding keyed_def using n(1,2) s u by (intro conjI exI [of _ "Suc n"]) simp_all
  qed
  moreover have "all_backed w1" using assms(3) by (fastforce simp: id_inv_def all_backed_def backed_def w1_def)
  ultimately show ?thesis by (simp add: id_inv_def)
qed

lemma id_inv_ProcessTask:
  assumes "id_inv idx w"
  shows "id_inv idx (DS_ProcessTask send junk now t w)"
proof (cases rule: ProcessTask_cases [of t w send junk now])
  case queued
  have "backed (dsSent w) ((session_state (st_session t) w)\<lparr>ss_pending := ts\<rparr>)" for ts
    using backed_state [OF assms, of "st_session t"] by (simp add: backed_def)
  then show ?thesis unfolding queued(2) by (rule id_inv_set_session [OF assms])
next
  case refused
  then show ?thesis using id_inv_finish [OF id_inv_erase [OF assms]] by simp
next
  case refused_keep
  then show ?thesis using id_inv_finish [OF assms] by simp
next
  case sent
  show ?thesis unfolding sent(4) by (rule id_inv_set_session [OF id_inv_sent [OF assms]]) (auto simp: backed_def intro: exI [of _ "build_query junk (fst (KG_Next (dsKeyGen w))) t"])
next
  case failed
  let ?f = "finish t RC_DBServerNotConnected ''Send failed'' (w\<lparr>dsKeyGen := snd (KG_Next (dsKeyGen w))\<rparr>)"
  have "DS_ProcessTask send junk now t w = erase_session (st_session t) ?f"
    unfolding failed(5) by (simp add: finish_def erase_session_def)
  then show ?thesis using id_inv_erase [OF id_inv_key [OF assms]] by simp
next
  case failed_keep
  let ?f = "finish t RC_DBServerNotConnected ''Send failed'' (w\<lparr>dsKeyGen := snd (KG_Next (dsKeyGen w))\<rparr>)"
    and ?s = "(session_state (st_session t) w)\<lparr>ss_requestId := 0, ss_inflight := None, ss_deadline := now + kRequestTimeoutMs\<rparr>"
  have "DS_ProcessTask send junk now t w = set_session (st_session t) ?s ?f"
    unfolding failed_keep(5) by (simp add: finish_def set_session_def)
  then show ?thesis using id_inv_set_session [OF id_inv_key [OF assms]] by (simp add: backed_idle)
qed

lemma id_inv_complete:
  assumes "id_inv idx w"
  shows "id_inv idx (complete send junk now i code detail w)"
proof -
  let ?ss = "session_state i w"
  define w1 where "w1 = (case ss_inflight ?ss of None \<Rightarrow> w | Some t \<Rightarrow> finish t code detail w)"
  have w1: "id_inv idx w1" using assms id_inv_finish by (simp add: w1_def split: option.splits)
  show ?thesis
  proof (cases "ss_pending ?ss")
    case Nil
    then show ?thesis using id_inv_erase [OF w1, of i] by (simp add: complete_def Let_def w1_def)
  next
    case (Cons t ts)
    have "id_inv idx (set_session i (?ss\<lparr>ss_requestId := 0, ss_inflight := None, ss_pending := ts\<rparr>) w1)"
      using w1 by (rule id_inv_set_session) (simp add: backed_idle)
    from id_inv_ProcessTask [OF this] show ?thesis using Cons by (simp add: complete_def Let_def w1_def)
  qed
qed

lemma id_inv_CheckTimeout: "id_inv idx w \<Longrightarrow> id_inv idx (CheckTimeout send junk now i w)"
  using id_inv_complete by (simp add: CheckTimeout_def split: option.splits)

lemma id_inv_fold: "id_inv idx w \<Longrightarrow> id_inv idx (fold (CheckTimeout send junk now) is w)"
  by (induction "is" arbitrary: w) (simp_all add: id_inv_CheckTimeout)

lemma id_inv_step:
  assumes "id_inv idx w"
  shows "id_inv idx (ds_next send junk e w)"
proof (cases e)
  case (DSTimeouts now)
  then show ?thesis using id_inv_fold [OF assms] by (simp add: CheckTimeouts_def)
next
  case (DSHandle now)
  have "id_inv idx (w\<lparr>dsResponses := rs\<rparr>)" for rs using assms id_inv_cong [of "w\<lparr>dsResponses := rs\<rparr>" w] by simp
  then have "id_inv idx (HandleResponse send junk now r (w\<lparr>dsResponses := rs\<rparr>))" for r rs
    using id_inv_complete by (simp add: HandleResponse_def split: option.splits prod.splits)
  then show ?thesis using assms DSHandle by (simp split: list.splits)
next
  case (DSTask now)
  have "id_inv idx (w\<lparr>dsTasks := ts\<rparr>)" for ts using assms id_inv_cong [of "w\<lparr>dsTasks := ts\<rparr>" w] by simp
  from id_inv_ProcessTask [OF this] show ?thesis using assms DSTask by (simp split: list.splits)
next
  case (DSEnqueue t)
  then show ?thesis using assms id_inv_cong [of "ds_next send junk e w" w] by simp
next
  case (DSResponse r)
  then show ?thesis using assms id_inv_cong [of "ds_next send junk e w" w] by simp
qed

lemma id_inv_run: "id_inv idx w \<Longrightarrow> id_inv idx (ds_run send junk es w)"
  by (induction es arbitrary: w) (simp_all add: id_inv_step)

lemma id_inv_new: "id_inv idx (ds_worker_new idx)"
  by (auto simp: id_inv_def all_backed_def keyed_def used_def sent_ids_def ds_worker_new_def KG_new_def)

lemma KG_take_nonzero: "0 \<notin> set (KG_take n g)"
  by (induction n arbitrary: g) (use KG_Next_nonzero in \<open>auto simp: split_beta\<close>)

lemma ProcessTask_finished:
  "\<exists>rest. dsFinished (DS_ProcessTask send junk now t w) = dsFinished w @ rest \<and>
     set rest \<subseteq> {(t, RC_InvalidRequest, ''Check failed''), (t, RC_DBServerNotConnected, ''Send failed'')}"
  by (cases rule: ProcessTask_cases [of t w send junk now])
    (simp_all add: finish_def set_session_def erase_session_def)

lemma complete_finished:
  assumes "ss_inflight (session_state i w) = Some t"
  shows "\<exists>rest. dsFinished (complete send junk now i code detail w) = dsFinished w @ (t, code, detail) # rest \<and>
    fst ` snd ` set rest \<subseteq> {RC_InvalidRequest, RC_DBServerNotConnected}"
proof (cases "ss_pending (session_state i w)")
  case Nil
  then show ?thesis using assms by (simp add: complete_def finish_def erase_session_def)
next
  case (Cons t' ts)
  define w1 where "w1 = set_session i ((session_state i w)\<lparr>ss_requestId := 0, ss_inflight := None, ss_pending := ts\<rparr>) (finish t code detail w)"
  have "dsFinished w1 = dsFinished w @ [(t, code, detail)]" by (simp add: w1_def finish_def set_session_def)
  moreover have "complete send junk now i code detail w = DS_ProcessTask send junk now t' w1"
    using assms Cons by (simp add: complete_def w1_def)
  moreover obtain rest where "dsFinished (DS_ProcessTask send junk now t' w1) = dsFinished w1 @ rest"
    "set rest \<subseteq> {(t', RC_InvalidRequest, ''Check failed''), (t', RC_DBServerNotConnected, ''Send failed'')}"
    using ProcessTask_finished by blast
  moreover from this(2) have "fst ` snd ` set rest \<subseteq> {RC_InvalidRequest, RC_DBServerNotConnected}" by auto
  ultimately show ?thesis by simp
qed

text \<open>A request is in flight while a session still waits for its reply.\<close>

definition in_flight :: "DBServerTask \<Rightarrow> PKT_DBQueryReq \<Rightarrow> ds_worker \<Rightarrow> bool" where
  "in_flight t p w \<longleftrightarrow> list_ex (\<lambda>(i, ss). ss_requestId ss = dqq_queryId p \<and> ss_inflight ss = Some t) (dsSessions w)"

lemma sent_unique:
  assumes "distinct (sent_ids w)" and "(t, p) \<in> set (dsSent w)" and "(t', p') \<in> set (dsSent w)" and "dqq_queryId p' = dqq_queryId p"
  shows "t' = t"
  using assms inj_onD [of "\<lambda>(t, p). dqq_queryId p" "set (dsSent w)" "(t', p')" "(t, p)"]
  by (simp add: sent_ids_def distinct_map)

lemma request_owner:
  assumes "ds_inv w" and "id_inv idx w" and "used w < 2 ^ 48" and "(t, p) \<in> set (dsSent w)"
    and "(i, ss) \<in> set (dsSessions w)" and "ss_requestId ss = dqq_queryId p"
  shows "ss_inflight ss = Some t \<and> session_state i w = ss"
proof -
  have k: "keyed idx w" using assms(2,3) by (simp add: id_inv_def)
  have "dqq_queryId p \<in> set (sent_ids w)" using assms(4) by (force simp: sent_ids_def)
  then have "dqq_queryId p \<noteq> 0" using k KG_take_nonzero by (metis keyed_def subsetD)
  moreover have "session_ok i ss" using assms(1,5) by (auto simp: ds_inv_def)
  ultimately obtain t' where t': "ss_inflight ss = Some t'" using assms(6) by (auto simp: session_ok_def)
  have "backed (dsSent w) ss" using assms(2,5) by (force simp: id_inv_def all_backed_def)
  with t' assms(6) obtain p' where "(t', p') \<in> set (dsSent w)" "dqq_queryId p' = dqq_queryId p" by (auto simp: backed_def)
  with k assms(4) have "t' = t" by (auto simp: keyed_def intro: sent_unique)
  moreover have "session_state i w = ss" using assms(1,5) by (simp add: session_state_def ds_inv_def)
  ultimately show ?thesis using t' by simp
qed

lemma KG_take_slot:
  assumes "k \<in> set (KG_take n (KG_new tag slot))"
  shows "GetSlot k = slot"
  using assms key_fields(2) [OF seq_of_bits, of tag slot] by (auto simp: KG_take_eq)

lemma sent_slot:
  assumes "keyed idx w" and "(t, p) \<in> set (dsSent w)"
  shows "GetSlot (dqq_queryId p) = idx"
proof -
  have "dqq_queryId p \<in> set (sent_ids w)" using assms(2) by (force simp: sent_ids_def)
  then show ?thesis using assms(1) KG_take_slot by (metis keyed_def subsetD)
qed

text \<open>
  C21: A reply reaches the task it belongs to. As long as a worker has issued fewer than \<open>2^48\<close> request
  numbers, the reply that carries the number of a packet sent for a task gives that task its result
  when the task still waits for it, and changes nothing otherwise (a reply after the timeout, a
  duplicate), whichever tasks and sessions came in between. \<open>OnDBResponse\<close> hands it to that worker:
  the slot of the number is the worker's index.
\<close>

theorem dst_reply_matches:
  fixes send junk es idx now r
  defines "w \<equiv> ds_run send junk es (ds_worker_new idx)"
  defines "w' \<equiv> HandleResponse send junk now r w"
  assumes "length (dsSent w) + length (dsFinished w) < 2 ^ 48"
    and "(t, p) \<in> set (dsSent w)" and "re_requestId r = dqq_queryId p"
  shows "GetSlot (re_requestId r) = idx \<and> (if in_flight t p w
    then \<exists>rest. dsFinished w' = dsFinished w @ (t, re_result r, re_detail r) # rest \<and>
           fst ` snd ` set rest \<subseteq> {RC_InvalidRequest, RC_DBServerNotConnected}
    else w' = w)"
proof -
  have "once_inv (ds_worker_new idx)"
    by (simp add: once_inv_def ds_worker_new_def ds_inv_def balance_def waiting_def finished_def)
  then have i: "ds_inv w" using once_run [of _ send junk es] by (simp add: w_def once_inv_def)
  have id: "id_inv idx w" unfolding w_def by (rule id_inv_run [OF id_inv_new])
  have u: "used w < 2 ^ 48" using assms(3) by (simp add: used_def)
  note owner = request_owner [OF i id u assms(4)]
  have slot: "GetSlot (re_requestId r) = idx" using sent_slot [OF _ assms(4)] id u assms(5) by (simp add: id_inv_def)
  show ?thesis
  proof (cases "find (\<lambda>(i, ss). ss_requestId ss = re_requestId r) (dsSessions w)")
    case None
    then have "\<not> in_flight t p w" using assms(5) by (auto simp: in_flight_def find_None_iff list_ex_iff)
    with None slot show ?thesis by (simp add: w'_def HandleResponse_def)
  next
    case (Some x)
    obtain j ss where x: "x = (j, ss)" by force
    from Some x have m: "(j, ss) \<in> set (dsSessions w)" "ss_requestId ss = dqq_queryId p"
      using assms(5) by (auto simp: find_Some_iff dest: nth_mem)
    from owner [OF m] have o: "ss_inflight (session_state j w) = Some t" "ss_inflight ss = Some t" by simp_all
    have "in_flight t p w" using m o(2) by (auto simp: in_flight_def list_ex_iff)
    then show ?thesis using slot complete_finished [OF o(1)] Some x by (simp add: w'_def HandleResponse_def)
  qed
qed

subsection \<open>The order of a session's requests\<close>

definition of_session :: "ConnectionId \<Rightarrow> DBServerTask list \<Rightarrow> DBServerTask list" where
  "of_session i ts = filter (\<lambda>t. st_session t = i) ts"

definition session_sent :: "ConnectionId \<Rightarrow> ds_worker \<Rightarrow> DBServerTask list" where
  "session_sent i w = of_session i (map fst (dsSent w))"

text \<open>What has been sent for a session, followed by what waits behind its request.\<close>

definition session_line :: "ConnectionId \<Rightarrow> ds_worker \<Rightarrow> DBServerTask list" where
  "session_line i w = session_sent i w @ ss_pending (session_state i w)"

definition flowing :: "DS_SessionState \<Rightarrow> bool" where
  "flowing ss \<longleftrightarrow> (ss_requestId ss = 0 \<longrightarrow> ss_pending ss = []) \<and> list_all check_passed (ss_pending ss)"

definition order_inv :: "ds_worker \<Rightarrow> bool" where
  "order_inv w \<longleftrightarrow> ds_inv w \<and> (\<forall>i. flowing (session_state i w)) \<and> list_all check_passed (dsTasks w) \<and>
     (\<forall>i. of_session i (dsAccepted w) = session_line i w @ of_session i (dsTasks w))"

lemma session_state_update: "session_state j (set_session i ss w) = (if j = i then ss else session_state j w)"
  by (simp add: session_state_def set_session_def update_conv)

lemma session_state_erase: "session_state j (erase_session i w) = (if j = i then DS_SessionState_new else session_state j w)"
  by (simp add: session_state_def erase_session_def delete_conv)

lemma session_sent_view [simp]:
  "session_sent i (finish t c d w) = session_sent i w" "session_sent i (set_session j ss w) = session_sent i w"
  "session_sent i (erase_session j w) = session_sent i w" "session_sent i (w\<lparr>dsTasks := ts\<rparr>) = session_sent i w"
  "session_sent i (w\<lparr>dsResponses := rs\<rparr>) = session_sent i w"
  by (simp_all add: session_sent_def finish_def set_session_def erase_session_def)

lemma tasks_view [simp]:
  "dsTasks (finish t c d w) = dsTasks w" "dsTasks (set_session i ss w) = dsTasks w" "dsTasks (erase_session i w) = dsTasks w"
  by (simp_all add: finish_def set_session_def erase_session_def)

lemma tasks_ops [simp]:
  "dsTasks (DS_ProcessTask send junk now t w) = dsTasks w"
  "dsTasks (complete send junk now i code detail w) = dsTasks w"
proof -
  show P: "dsTasks (DS_ProcessTask send junk now t w) = dsTasks w" for t w
    by (simp add: DS_ProcessTask_def Let_def split: prod.split)
  show "dsTasks (complete send junk now i code detail w) = dsTasks w"
    by (simp add: complete_def Let_def P split: option.split list.split)
qed

lemma tasks_fold: "dsTasks (fold (CheckTimeout send junk now) is w) = dsTasks w"
  by (induction "is" arbitrary: w) (simp_all add: CheckTimeout_def split: option.split)

text \<open>\<open>GetPendingCount\<close> is the number of queued tasks, over calls of \<open>EnqueueTask\<close> and steps of the workers.\<close>

definition pending_exact :: "DBServerTaskQueue \<Rightarrow> bool" where
  "pending_exact q \<longleftrightarrow> GetPendingCount q = sum_list (map (\<lambda>w. of_nat (length (dsTasks w))) (dsqWorkers q))"

lemma pending_exact_enqueue: "pending_exact q \<Longrightarrow> pending_exact (snd (DS_EnqueueTask t q))"
  by (simp add: pending_exact_def GetPendingCount_def DS_EnqueueTask_def DS_route_def Let_def sum_list_map_update)

lemma pending_exact_step:
  assumes "pending_exact q" and "\<forall>t. e \<noteq> DSEnqueue t"
  shows "pending_exact (DS_worker_step send junk k e q)"
  using assms
  by (cases e) (auto simp: pending_exact_def GetPendingCount_def DS_worker_step_def Let_def sum_list_map_update CheckTimeouts_def
      tasks_fold HandleResponse_def split: list.split option.split)

text \<open>A task that passes its check joins the end of its session's line, or goes out ahead of what is pending.\<close>

lemma ProcessTask_line:
  fixes junk now w
  assumes "check_passed t"
  defines "w' \<equiv> DS_ProcessTask (\<lambda>_. True) junk now t w" and "ss \<equiv> session_state (st_session t) w"
  shows "j \<noteq> st_session t \<Longrightarrow> session_line j w' = session_line j w \<and> session_state j w' = session_state j w"
    and "ss_requestId ss \<noteq> 0 \<Longrightarrow> session_line (st_session t) w' = session_line (st_session t) w @ [t] \<and>
      session_state (st_session t) w' = ss\<lparr>ss_pending := ss_pending ss @ [t]\<rparr>"
    and "ss_requestId ss = 0 \<Longrightarrow> session_line (st_session t) w' = session_sent (st_session t) w @ t # ss_pending ss \<and>
      ss_requestId (session_state (st_session t) w') \<noteq> 0 \<and> ss_pending (session_state (st_session t) w') = ss_pending ss"
  using assms(1) KG_Next_nonzero [of "dsKeyGen w"] unfolding w'_def ss_def
  by (cases rule: ProcessTask_cases [of t w "\<lambda>_. True" junk now];
      simp add: session_line_def session_sent_def of_session_def session_state_update; simp add: set_session_def)+

lemma flowing_new [simp]: "flowing DS_SessionState_new"
  by (simp add: flowing_def DS_SessionState_new_def)

lemma complete_line:
  fixes junk now i code detail w
  assumes "ds_inv w" and "\<forall>i. flowing (session_state i w)"
  defines "w' \<equiv> complete (\<lambda>_. True) junk now i code detail w"
  shows "session_line j w' = session_line j w \<and> flowing (session_state j w')"
proof -
  let ?ss = "session_state i w"
  define w1 where "w1 = (case ss_inflight ?ss of None \<Rightarrow> w | Some t \<Rightarrow> finish t code detail w)"
  have w1: "session_sent j w1 = session_sent j w" "session_state j w1 = session_state j w" for j
    by (simp_all add: w1_def split: option.splits)
  show ?thesis
  proof (cases "ss_pending ?ss")
    case Nil
    then have "w' = erase_session i w1" by (simp add: w'_def complete_def Let_def w1_def)
    then show ?thesis using Nil w1 assms(2) by (simp add: session_line_def session_state_erase) (simp add: DS_SessionState_new_def)
  next
    case (Cons t ts)
    define w2 where "w2 = set_session i (?ss\<lparr>ss_requestId := 0, ss_inflight := None, ss_pending := ts\<rparr>) w1"
    have w': "w' = DS_ProcessTask (\<lambda>_. True) junk now t w2" using Cons by (simp add: w'_def complete_def Let_def w1_def w2_def)
    have "st_session t = i" using ds_inv_session [OF assms(1), of i] Cons by (auto simp: session_ok_def session_tasks_def)
    moreover have "list_all check_passed (t # ts)" using assms(2) Cons by (metis flowing_def)
    moreover have "session_line i w = session_sent i w @ t # ts" "session_sent i w2 = session_sent i w"
      "session_state i w2 = ?ss\<lparr>ss_requestId := 0, ss_inflight := None, ss_pending := ts\<rparr>"
      using Cons w1 by (simp_all add: session_line_def w2_def)
    moreover have "session_line j w2 = session_line j w" "session_state j w2 = session_state j w" if "j \<noteq> i"
      using that w1 by (simp_all add: session_line_def w2_def session_state_update)
    ultimately show ?thesis
      using ProcessTask_line(1) [where t = t and j = j and w = w2 and junk = junk and now = now]
        ProcessTask_line(3) [where t = t and w = w2 and junk = junk and now = now] assms(2)
      by (cases "j = i") (simp_all add: w' flowing_def)
  qed
qed

lemma order_complete:
  assumes "order_inv w"
  shows "order_inv (complete (\<lambda>_. True) junk now i code detail w)"
  using assms complete_line [where w = w and junk = junk and now = now and i = i and code = code and detail = detail] complete_step [of w "\<lambda>_. True" junk now i code detail]
  by (simp add: order_inv_def)

lemma order_timeouts: "order_inv w \<Longrightarrow> order_inv (fold (CheckTimeout (\<lambda>_. True) junk now) is w)"
  by (induction "is" arbitrary: w) (simp_all add: CheckTimeout_def order_complete split: option.split)

lemma order_responses: "order_inv (w\<lparr>dsResponses := rs\<rparr>) = order_inv w"
  by (simp add: order_inv_def session_line_def)

fun passes :: "ds_event \<Rightarrow> bool" where
  "passes (DSEnqueue t) = check_passed t"
| "passes e = True"

lemma order_step:
  assumes "order_inv w" and "passes e"
  shows "order_inv (ds_next (\<lambda>_. True) junk e w)"
proof (cases e)
  case (DSTask now)
  show ?thesis
  proof (cases "dsTasks w")
    case (Cons t ts)
    let ?w = "w\<lparr>dsTasks := ts\<rparr>" and ?ss = "session_state (st_session t) w"
    have c: "check_passed t" "list_all check_passed ts" "ds_inv w" "flowing (session_state j w)" for j
      using assms(1) Cons by (auto simp: order_inv_def)
    have a: "of_session j (dsAccepted w) = session_line j w @ of_session j (t # ts)" for j
      using assms(1) Cons by (simp add: order_inv_def)
    have "flowing (session_state j (DS_ProcessTask (\<lambda>_. True) junk now t ?w)) \<and>
      of_session j (dsAccepted w) = session_line j (DS_ProcessTask (\<lambda>_. True) junk now t ?w) @ of_session j ts" for j
      using ProcessTask_line(1) [OF c(1), where w = ?w and junk = junk and now = now and j = j]
        ProcessTask_line(2,3) [OF c(1), where w = ?w and junk = junk and now = now] c(1) c(4) [of j] a [of j]
      by (cases "j = st_session t"; cases "ss_requestId ?ss = 0") (auto simp: session_line_def flowing_def of_session_def)
    then show ?thesis using ProcessTask_step [of ?w "\<lambda>_. True" junk now t] c DSTask Cons by (simp add: order_inv_def)
  qed (use assms DSTask in simp)
next
  case (DSHandle now)
  then show ?thesis using assms
    by (auto simp: HandleResponse_def order_complete order_responses split: list.split option.split)
next
  case (DSTimeouts now)
  then show ?thesis using order_timeouts [OF assms(1)] by (simp add: CheckTimeouts_def)
next
  case (DSResponse r)
  then show ?thesis using assms by (simp add: order_responses)
next
  case (DSEnqueue t)
  then show ?thesis using assms
    by (simp add: order_inv_def session_line_def session_sent_def of_session_def session_state_def)
qed

lemma order_run: "order_inv w \<Longrightarrow> list_all passes es \<Longrightarrow> order_inv (ds_run (\<lambda>_. True) junk es w)"
  by (induction es arbitrary: w) (simp_all add: order_step)

text \<open>
  The requests of a session go out in the order in which its tasks were accepted, as long as the
  connection accepts every packet and every task passes its check; this holds across replies,
  timeouts and tasks of other sessions.
\<close>

theorem dst_session_order:
  fixes es junk idx
  defines "w \<equiv> ds_run (\<lambda>_. True) junk es (ds_worker_new idx)"
  assumes "list_all passes es"
  shows "of_session i (dsAccepted w) =
    of_session i (map fst (dsSent w)) @ ss_pending (session_state i w) @ of_session i (dsTasks w)"
proof -
  have "order_inv (ds_worker_new idx)"
    by (simp add: order_inv_def ds_worker_new_def ds_inv_def session_state_def session_line_def session_sent_def
        of_session_def DS_SessionState_new_def flowing_def)
  then have "order_inv w" using assms(2) unfolding w_def by (rule order_run)
  then show ?thesis by (simp add: order_inv_def session_line_def session_sent_def)
qed

definition load_task :: "nat \<Rightarrow> DBServerTask" where
  "load_task n = \<lparr>st_id = n, st_type = LoadPlayerData, st_session = 7, st_data = [], st_check = None, st_callback = True\<rparr>"

definition not_second :: "u64 \<Rightarrow> bool" where
  "not_second k \<longleftrightarrow> GetSeq k \<noteq> 2"

definition first_reply :: DBResponseEvent where
  "first_reply = \<lparr>re_requestId = 0x0100000000000001, re_result = RC_Success, re_detail = []\<rparr>"

definition strand :: "ds_event list" where
  "strand = map (DSEnqueue \<circ> load_task) [1, 2, 3] @
     [DSTask 0, DSTask 0, DSTask 0, DSResponse first_reply, DSHandle 10]"

lemmas ds_eval = DS_ProcessTask_def complete_def HandleResponse_def CheckTimeouts_def CheckTimeout_def timed_out_def
  finish_def set_session_def erase_session_def session_state_def DS_SessionState_new_def ds_worker_new_def Let_def
  check_passed_def CheckTask_def KG_Next_def KG_new_def kSeqMask_def load_task_def
  LoadPlayerData_def SavePlayerProgress_def

text \<open>
  Without that, tasks are stranded. When the task taken after a reply fails its check or cannot be
  sent, \<open>ProcessTask\<close> finishes it and leaves the session idle with the rest of its pending queue,
  which nothing looks at until another request of that session ends. Here the first task is answered,
  the packet of the second cannot be sent, and the third is left behind: its session waits for no
  reply, the timeout pass never reaches it, and the later fourth task is sent in its place.
\<close>

theorem dst_pending_stranded:
  fixes junk
  defines "w \<equiv> ds_run not_second junk strand (ds_worker_new 0)"
  shows "map fst (dsSent w) = [load_task 1] \<and> map fst (dsFinished w) = [load_task 1, load_task 2] \<and> dsTasks w = [] \<and>
    ss_pending (session_state 7 w) = [load_task 3] \<and> ss_requestId (session_state 7 w) = 0 \<and>
    CheckTimeouts not_second junk now w = w \<and>
    map fst (dsSent (ds_run not_second junk [DSEnqueue (load_task 4), DSTask 20] w)) = [load_task 1, load_task 4]"
  unfolding w_def by (simp add: strand_def first_reply_def ds_eval not_second_def GetSeq_def)

theorem dst_reply_matches_witness:
  "let w = ds_run (\<lambda>_. True) [] [DSEnqueue (load_task 1), DSTask 0] (ds_worker_new 0)
   in \<exists>rest. dsFinished (HandleResponse (\<lambda>_. True) [] 10 first_reply w) = (load_task 1, RC_Success, []) # rest"
proof -
  let ?w = "ds_run (\<lambda>_. True) [] [DSEnqueue (load_task 1), DSTask 0] (ds_worker_new 0)"
    and ?p = "build_query [] 0x0100000000000001 (load_task 1)"
  have w: "dsSent ?w = [(load_task 1, ?p)]" "dsFinished ?w = []" "in_flight (load_task 1) ?p ?w"
    by (simp_all add: ds_eval in_flight_def)
  have "length (dsSent ?w) + length (dsFinished ?w) < 2 ^ 48" "(load_task 1, ?p) \<in> set (dsSent ?w)"
    "re_requestId first_reply = dqq_queryId ?p" using w by (simp_all add: first_reply_def)
  from dst_reply_matches [OF this, of 10] w show ?thesis by (auto simp: first_reply_def)
qed

theorem dst_session_order_witness:
  "let w = ds_run (\<lambda>_. True) [] [DSEnqueue (load_task 1), DSEnqueue (load_task 2), DSTask 0, DSTask 0] (ds_worker_new 0)
   in of_session 7 (dsAccepted w) = of_session 7 (map fst (dsSent w)) @ ss_pending (session_state 7 w) \<and>
      ss_pending (session_state 7 w) = [load_task 2]"
proof -
  let ?es = "[DSEnqueue (load_task 1), DSEnqueue (load_task 2), DSTask 0, DSTask 0]"
  have "list_all passes ?es" by (simp add: ds_eval)
  from dst_session_order [OF this, of 7 "[]" 0]
  show ?thesis by (simp add: ds_eval of_session_def)
qed

text \<open>
  The data of a task longer than the packet's array is cut: the server reads its first 511 bytes
  and nothing tells the caller. Shorter data arrives whole. In both cases the packet is the one
  sent, whatever its array held before.
\<close>

lemma build_query_data:
  assumes "length junk = 511"
  shows "length (dqq_data (build_query junk i t)) = 512"
    and "unat (dqq_dataLength (build_query junk i t)) = min (length (st_data t)) 511"
    and "take (min (length (st_data t)) 511) (dqq_data (build_query junk i t)) = take 511 (st_data t)"
  using assms by (auto simp: build_query_def Let_def PKT_DBQueryReq_new_def unat_of_nat min_def)

theorem dst_query_truncates:
  fixes junk i t
  assumes "length junk = 511"
  defines "p \<equiv> PKT_DBQueryReq_read (PKT_DBQueryReq_bytes (build_query junk i t))"
  shows "dqq_queryId p = i \<and> dqq_taskType p = st_type t \<and>
    take (unat (dqq_dataLength p)) (dqq_data p) = take 511 (st_data t)"
proof -
  have "p = build_query junk i t" unfolding p_def by (rule DBQueryReq.decode_exact) (simp add: build_query_data assms)
  then show ?thesis using build_query_data [OF assms(1), where i = i and t = t] by (simp add: build_query_def Let_def)
qed

theorem dst_query_truncates_witness:
  "take (unat (dqq_dataLength (PKT_DBQueryReq_read (PKT_DBQueryReq_bytes (build_query (replicate 511 9) 1 (load_task 1))))))
     (dqq_data (PKT_DBQueryReq_read (PKT_DBQueryReq_bytes (build_query (replicate 511 9) 1 (load_task 1))))) = []"
  using dst_query_truncates [where junk = "replicate 511 9" and i = 1 and t = "load_task 1"] by (simp add: load_task_def)

end
