(* ===== verification/Connection_Pool.thy ===== *)
theory Connection_Pool
  imports Prelude
begin

section \<open>The pool of database connections\<close>

text \<open>
  \<open>Database/ConnectionPool\<close>. Every public call but the unlocked tests of \<open>mInitialized\<close> runs under
  the pool's mutex, which \<open>wait_for\<close> releases; a call is therefore a few atomic steps, and threads
  interleave between them. The database and its driver are the environment: it says whether a
  database object is made, whether it connects and what each attempt to make a connection yields, and
  it may lose a connection at any time. A connection object is known by a number; an object that is
  still referenced is never confused with a new one.
\<close>

subsection \<open>State\<close>

record PooledConnection =
  pcConn :: nat
  pcLastUsed :: nat
  pcInUse :: bool

definition PooledConnection_new :: "nat \<Rightarrow> nat \<Rightarrow> PooledConnection" where
  "PooledConnection_new now c = \<lparr>pcConn = c, pcLastUsed = now, pcInUse = False\<rparr>"

text \<open>\<open>cpOpen\<close> are the connections whose \<open>IsOpen\<close> answers true, \<open>cpNext\<close> the number of the next object.\<close>

record ConnectionPool =
  cpDatabase :: bool
  cpConns :: "PooledConnection list"
  cpInitialized :: bool
  cpActive :: size_t
  cpMax :: size_t
  cpMin :: size_t
  cpConnectionTimeout :: int
  cpIdleTimeout :: int
  cpOpen :: "nat set"
  cpNext :: nat

definition ConnectionPool_new :: ConnectionPool where
  "ConnectionPool_new =
     \<lparr>cpDatabase = False, cpConns = [], cpInitialized = False, cpActive = 0, cpMax = 10, cpMin = 2,
      cpConnectionTimeout = 30, cpIdleTimeout = 300, cpOpen = {}, cpNext = 0\<rparr>"

subsection \<open>Operations\<close>

text \<open>
  What an attempt to make a connection meets: a database that is not connected, no object, an
  \<open>Open\<close> that throws, or one that returns, with the connection open or not.
\<close>

datatype create_answer = NotConnected | NullConnection | OpenThrows string | Opened bool

definition CreateNewConnection :: "create_answer \<Rightarrow> ConnectionPool \<Rightarrow> (string + nat) \<times> ConnectionPool" where
  "CreateNewConnection a p =
     (if \<not> cpDatabase p \<or> a = NotConnected then (Inl ''Database not connected'', p)
      else case a of
        OpenThrows e \<Rightarrow> (Inl e, p\<lparr>cpNext := Suc (cpNext p)\<rparr>)
      | Opened b \<Rightarrow> (Inr (cpNext p), p\<lparr>cpNext := Suc (cpNext p), cpOpen := (if b then insert (cpNext p) (cpOpen p) else cpOpen p)\<rparr>)
      | _ \<Rightarrow> (Inl ''Failed to create connection'', p))"

text \<open>The loop that makes the first connections; the \<open>i\<close>-th attempt meets \<open>as i\<close>.\<close>

fun warm_up :: "nat \<Rightarrow> nat \<Rightarrow> (nat \<Rightarrow> create_answer) \<Rightarrow> nat \<Rightarrow> ConnectionPool \<Rightarrow> string option \<times> ConnectionPool" where
  "warm_up 0 i as now p = (None, p)"
| "warm_up (Suc n) i as now p =
     (case CreateNewConnection (as i) p of
        (Inl e, q) \<Rightarrow> (Some e, q)
      | (Inr c, q) \<Rightarrow> warm_up n (Suc i) as now (q\<lparr>cpConns := cpConns q @ [PooledConnection_new now c]\<rparr>))"

text \<open>What \<open>DatabaseFactory::CreateDatabase\<close> and \<open>Connect\<close> do; only the latter is called inside the \<open>try\<close>.\<close>

datatype database_answer = FactoryThrows string | NullDatabase | ConnectThrows | Connected

definition CP_Initialize :: "int \<Rightarrow> int \<Rightarrow> database_answer \<Rightarrow> (nat \<Rightarrow> create_answer) \<Rightarrow> nat \<Rightarrow> ConnectionPool \<Rightarrow> (string + bool) \<times> ConnectionPool" where
  "CP_Initialize maxSize minSize db as now p =
     (if cpInitialized p then (Inr True, p)
      else let p = p\<lparr>cpMax := of_int maxSize, cpMin := of_int minSize\<rparr> in
        case db of
          FactoryThrows e \<Rightarrow> (Inl e, p)
        | NullDatabase \<Rightarrow> (Inr False, p\<lparr>cpDatabase := False\<rparr>)
        | ConnectThrows \<Rightarrow> (Inr False, p\<lparr>cpDatabase := True, cpConns := []\<rparr>)
        | Connected \<Rightarrow>
            (case warm_up (unat (cpMin p)) 0 as now (p\<lparr>cpDatabase := True\<rparr>) of
               (Some e, q) \<Rightarrow> (Inr False, q\<lparr>cpConns := []\<rparr>)
             | (None, q) \<Rightarrow> (Inr True, q\<lparr>cpInitialized := True\<rparr>)))"

definition is_idle :: "nat set \<Rightarrow> PooledConnection \<Rightarrow> bool" where
  "is_idle opn pc \<longleftrightarrow> \<not> pcInUse pc \<and> pcConn pc \<in> opn"

text \<open>The predicate of the wait.\<close>

definition available :: "ConnectionPool \<Rightarrow> bool" where
  "available p \<longleftrightarrow> list_ex (is_idle (cpOpen p)) (cpConns p) \<or> length (cpConns p) < unat (cpMax p)"

text \<open>The first idle connection is marked as lent.\<close>

fun take_idle :: "nat set \<Rightarrow> nat \<Rightarrow> PooledConnection list \<Rightarrow> (nat \<times> PooledConnection list) option" where
  "take_idle opn now [] = None"
| "take_idle opn now (pc # pcs) =
     (if is_idle opn pc then Some (pcConn pc, pc\<lparr>pcInUse := True, pcLastUsed := now\<rparr> # pcs)
      else case take_idle opn now pcs of None \<Rightarrow> None | Some (c, pcs') \<Rightarrow> Some (c, pc # pcs'))"

text \<open>The end of \<open>GetConnection\<close>, once the wait has succeeded.\<close>

definition acquire :: "create_answer \<Rightarrow> nat \<Rightarrow> ConnectionPool \<Rightarrow> (string + nat) \<times> ConnectionPool" where
  "acquire a now p =
     (case take_idle (cpOpen p) now (cpConns p) of
        Some (c, pcs) \<Rightarrow> (Inr c, p\<lparr>cpConns := pcs, cpActive := cpActive p + 1\<rparr>)
      | None \<Rightarrow>
          if length (cpConns p) < unat (cpMax p) then
            (case CreateNewConnection a p of
               (Inl e, q) \<Rightarrow> (Inl e, q)
             | (Inr c, q) \<Rightarrow>
                 (Inr c, q\<lparr>cpConns := cpConns q @ [(PooledConnection_new now c)\<lparr>pcInUse := True\<rparr>], cpActive := cpActive q + 1\<rparr>))
          else (Inl ''No connections available'', p))"

fun return_to :: "nat \<Rightarrow> nat \<Rightarrow> PooledConnection list \<Rightarrow> PooledConnection list option" where
  "return_to now c [] = None"
| "return_to now c (pc # pcs) =
     (if pcConn pc = c then Some (pc\<lparr>pcInUse := False, pcLastUsed := now\<rparr> # pcs)
      else map_option ((#) pc) (return_to now c pcs))"

text \<open>\<open>ReturnConnection\<close> of a connection that is not null: the caller passes what it wants.\<close>

definition ReturnConnection :: "nat \<Rightarrow> nat \<Rightarrow> ConnectionPool \<Rightarrow> ConnectionPool" where
  "ReturnConnection now c p =
     (case return_to now c (cpConns p) of
        None \<Rightarrow> p
      | Some pcs \<Rightarrow> p\<lparr>cpConns := pcs, cpActive := cpActive p - 1\<rparr>)"

definition ClearLocked :: "ConnectionPool \<Rightarrow> ConnectionPool" where
  "ClearLocked p =
     p\<lparr>cpConns := filter pcInUse (cpConns p), cpOpen := cpOpen p - pcConn ` set (filter (\<lambda>pc. \<not> pcInUse pc) (cpConns p))\<rparr>"

definition CP_Clear :: "ConnectionPool \<Rightarrow> ConnectionPool" where
  "CP_Clear p = ClearLocked p"

definition GetActiveConnections :: "ConnectionPool \<Rightarrow> size_t" where
  "GetActiveConnections p = cpActive p"

definition GetAvailableConnections :: "ConnectionPool \<Rightarrow> size_t" where
  "GetAvailableConnections p = of_nat (length (filter (is_idle (cpOpen p)) (cpConns p)))"

definition GetTotalConnections :: "ConnectionPool \<Rightarrow> size_t" where
  "GetTotalConnections p = of_nat (length (cpConns p))"

definition SetMaxPoolSize :: "size_t \<Rightarrow> ConnectionPool \<Rightarrow> ConnectionPool" where
  "SetMaxPoolSize n p = p\<lparr>cpMax := n\<rparr>"

definition SetMinPoolSize :: "size_t \<Rightarrow> ConnectionPool \<Rightarrow> ConnectionPool" where
  "SetMinPoolSize n p = p\<lparr>cpMin := n\<rparr>"

definition SetConnectionTimeout :: "int \<Rightarrow> ConnectionPool \<Rightarrow> ConnectionPool" where
  "SetConnectionTimeout s p = p\<lparr>cpConnectionTimeout := s\<rparr>"

definition SetIdleTimeout :: "int \<Rightarrow> ConnectionPool \<Rightarrow> ConnectionPool" where
  "SetIdleTimeout s p = p\<lparr>cpIdleTimeout := s\<rparr>"

definition CP_IsInitialized :: "ConnectionPool \<Rightarrow> bool" where
  "CP_IsInitialized p = cpInitialized p"

text \<open>
  \<open>CleanupIdleConnections\<close>; the clock is in milliseconds. \<open>cleanup\<close> walks over the connections with
  the number that the pool still has and gives those kept and those closed.
\<close>

fun cleanup :: "nat \<Rightarrow> int \<Rightarrow> size_t \<Rightarrow> nat \<Rightarrow> PooledConnection list \<Rightarrow> PooledConnection list \<times> nat list" where
  "cleanup now idle minSize n [] = ([], [])"
| "cleanup now idle minSize n (pc # pcs) =
     (if \<not> pcInUse pc \<and> idle < int ((now - pcLastUsed pc) div 1000) \<and> unat minSize < n
      then (case cleanup now idle minSize (n - 1) pcs of (kept, closed) \<Rightarrow> (kept, pcConn pc # closed))
      else (case cleanup now idle minSize n pcs of (kept, closed) \<Rightarrow> (pc # kept, closed)))"

definition CleanupIdleConnections :: "nat \<Rightarrow> ConnectionPool \<Rightarrow> ConnectionPool" where
  "CleanupIdleConnections now p =
     (case cleanup now (cpIdleTimeout p) (cpMin p) (length (cpConns p)) (cpConns p) of
        (kept, closed) \<Rightarrow> p\<lparr>cpConns := kept, cpOpen := cpOpen p - set closed\<rparr>)"

text \<open>The locked block of \<open>Shutdown\<close>.\<close>

definition shutdown_locked :: "ConnectionPool \<Rightarrow> ConnectionPool" where
  "shutdown_locked p =
     (let p = p\<lparr>cpInitialized := False\<rparr>;
          p = (if 0 < cpActive p
               then p\<lparr>cpOpen := cpOpen p - pcConn ` set (cpConns p), cpConns := [], cpActive := 0\<rparr>
               else ClearLocked p)
      in p\<lparr>cpDatabase := False\<rparr>)"

text \<open>
  \<open>ScopedConnection\<close>: the connection it has, if any, and whether it still refers to the pool. A move
  gives the new object and what is left of the old one.
\<close>

record ScopedConnection =
  scConnection :: "nat option"
  scPool :: bool

definition ScopedConnection_new :: "nat option \<Rightarrow> bool \<Rightarrow> ScopedConnection" where
  "ScopedConnection_new c pool = \<lparr>scConnection = c, scPool = pool\<rparr>"

definition ScopedConnection_move :: "ScopedConnection \<Rightarrow> ScopedConnection \<times> ScopedConnection" where
  "ScopedConnection_move sc = (sc, \<lparr>scConnection = None, scPool = False\<rparr>)"

definition ScopedConnection_destroy :: "nat \<Rightarrow> ScopedConnection \<Rightarrow> ConnectionPool \<Rightarrow> ConnectionPool" where
  "ScopedConnection_destroy now sc p =
     (case scConnection sc of
        Some c \<Rightarrow> if scPool sc then ReturnConnection now c p else p
      | None \<Rightarrow> p)"

definition SC_IsValid :: "ScopedConnection \<Rightarrow> ConnectionPool \<Rightarrow> bool" where
  "SC_IsValid sc p = (case scConnection sc of Some c \<Rightarrow> c \<in> cpOpen p | None \<Rightarrow> False)"

text \<open>After a move, destroying both objects gives the connection back once.\<close>

lemma scoped_move_returns_once:
  "ScopedConnection_move sc = (new, old) \<Longrightarrow>
   ScopedConnection_destroy t new (ScopedConnection_destroy t' old p) = ScopedConnection_destroy t sc p"
  by (auto simp: ScopedConnection_move_def ScopedConnection_destroy_def split: option.split)

subsection \<open>Threads\<close>

datatype cp_pc = CIdle | GLock | GWait | SWait | SLock

text \<open>
  The pool with the threads that use it. History: \<open>csHeld\<close> are the connections that were handed out
  and not given back, with the thread that has them; \<open>csResults\<close> what the calls of \<open>GetConnection\<close>
  returned or threw.
\<close>

record cp_sys =
  csPool :: ConnectionPool
  csThreads :: "cp_pc list"
  csHeld :: "(nat \<times> nat) list"
  csResults :: "(nat \<times> (string + nat)) list"

definition set_thread :: "nat \<Rightarrow> cp_pc \<Rightarrow> cp_sys \<Rightarrow> cp_sys" where
  "set_thread i pc s = s\<lparr>csThreads := (csThreads s)[i := pc]\<rparr>"

text \<open>A call of \<open>GetConnection\<close> ends with a result.\<close>

definition get_ends :: "nat \<Rightarrow> (string + nat) \<times> ConnectionPool \<Rightarrow> cp_sys \<Rightarrow> cp_sys" where
  "get_ends i r s =
     s\<lparr>csPool := snd r, csThreads := (csThreads s)[i := CIdle], csResults := csResults s @ [(i, fst r)],
       csHeld := (case fst r of Inl _ \<Rightarrow> csHeld s | Inr c \<Rightarrow> csHeld s @ [(i, c)])\<rparr>"

text \<open>
  One step of a thread inside a call; \<open>expired\<close> says whether its deadline has passed. The wait
  evaluates its predicate with the mutex held (\<open>cv_wait\<close>).
\<close>

definition GetConnection_start :: "nat \<Rightarrow> cp_sys \<Rightarrow> cp_sys" where
  "GetConnection_start i s =
     (if \<not> cpInitialized (csPool s) then get_ends i (Inl ''Connection pool not initialized'', csPool s) s
      else set_thread i GLock s)"

definition GetConnection_wait :: "nat \<Rightarrow> bool \<Rightarrow> create_answer \<Rightarrow> nat \<Rightarrow> cp_sys \<Rightarrow> cp_sys" where
  "GetConnection_wait i expired a now s =
     (case cv_wait expired (available (csPool s)) of
        Blocked \<Rightarrow> set_thread i GWait s
      | Returned True \<Rightarrow> get_ends i (acquire a now (csPool s)) s
      | Returned False \<Rightarrow> get_ends i (Inl ''Connection pool timeout - no connections available'', csPool s) s)"

definition GetConnection_lock :: "nat \<Rightarrow> bool \<Rightarrow> create_answer \<Rightarrow> nat \<Rightarrow> cp_sys \<Rightarrow> cp_sys" where
  "GetConnection_lock i expired a now s =
     (if \<not> cpInitialized (csPool s) then get_ends i (Inl ''Connection pool is shutting down'', csPool s) s
      else GetConnection_wait i expired a now s)"

definition Shutdown_start :: "nat \<Rightarrow> cp_sys \<Rightarrow> cp_sys" where
  "Shutdown_start i s = (if \<not> cpInitialized (csPool s) then s else set_thread i SWait s)"

definition Shutdown_wait :: "nat \<Rightarrow> bool \<Rightarrow> cp_sys \<Rightarrow> cp_sys" where
  "Shutdown_wait i expired s =
     (case cv_wait expired (cpActive (csPool s) = 0) of
        Blocked \<Rightarrow> s
      | Returned _ \<Rightarrow> set_thread i SLock s)"

definition Shutdown_lock :: "nat \<Rightarrow> cp_sys \<Rightarrow> cp_sys" where
  "Shutdown_lock i s = set_thread i CIdle (s\<lparr>csPool := shutdown_locked (csPool s)\<rparr>)"

datatype cp_event =
    CPInitialize int int database_answer "nat \<Rightarrow> create_answer" nat
  | CPGet nat
  | CPShutdown nat
  | CPStep nat bool create_answer nat
  | CPReturn nat nat nat
  | CPClear
  | CPCleanup nat
  | CPSetMax size_t
  | CPSetMin size_t
  | CPSetIdle int
  | CPLost nat

text \<open>
  An event that cannot happen leaves the state as it is: a thread starts a call only when it is in
  none, and gives back only a connection it has.
\<close>

definition on_pool :: "(ConnectionPool \<Rightarrow> ConnectionPool) \<Rightarrow> cp_sys \<Rightarrow> cp_sys" where
  "on_pool f s = s\<lparr>csPool := f (csPool s)\<rparr>"

definition thread_at :: "nat \<Rightarrow> cp_sys \<Rightarrow> cp_pc option" where
  "thread_at i s = (if i < length (csThreads s) then Some (csThreads s ! i) else None)"

fun cp_next :: "cp_event \<Rightarrow> cp_sys \<Rightarrow> cp_sys" where
  "cp_next (CPInitialize maxSize minSize db as now) s = on_pool (\<lambda>p. snd (CP_Initialize maxSize minSize db as now p)) s"
| "cp_next (CPGet i) s = (if thread_at i s = Some CIdle then GetConnection_start i s else s)"
| "cp_next (CPShutdown i) s = (if thread_at i s = Some CIdle then Shutdown_start i s else s)"
| "cp_next (CPStep i expired a now) s =
     (case thread_at i s of
        Some GLock \<Rightarrow> GetConnection_lock i expired a now s
      | Some GWait \<Rightarrow> GetConnection_wait i expired a now s
      | Some SWait \<Rightarrow> Shutdown_wait i expired s
      | Some SLock \<Rightarrow> Shutdown_lock i s
      | _ \<Rightarrow> s)"
| "cp_next (CPReturn i c now) s =
     (if thread_at i s = Some CIdle \<and> (i, c) \<in> set (csHeld s)
      then on_pool (ReturnConnection now c) (s\<lparr>csHeld := remove1 (i, c) (csHeld s)\<rparr>) else s)"
| "cp_next CPClear s = on_pool CP_Clear s"
| "cp_next (CPCleanup now) s = on_pool (CleanupIdleConnections now) s"
| "cp_next (CPSetMax n) s = on_pool (SetMaxPoolSize n) s"
| "cp_next (CPSetMin n) s = on_pool (SetMinPoolSize n) s"
| "cp_next (CPSetIdle n) s = on_pool (SetIdleTimeout n) s"
| "cp_next (CPLost c) s = on_pool (\<lambda>p. p\<lparr>cpOpen := cpOpen p - {c}\<rparr>) s"

fun cp_run :: "cp_event list \<Rightarrow> cp_sys \<Rightarrow> cp_sys" where
  "cp_run [] s = s"
| "cp_run (e # es) s = cp_run es (cp_next e s)"

definition cp_start :: "nat \<Rightarrow> cp_sys" where
  "cp_start n = \<lparr>csPool = ConnectionPool_new, csThreads = replicate n CIdle, csHeld = [], csResults = []\<rparr>"

subsection \<open>No connection has two holders\<close>

text \<open>The pool and the set of connections that are out.\<close>

definition pool_ok :: "nat set \<Rightarrow> ConnectionPool \<Rightarrow> bool" where
  "pool_ok H p \<longleftrightarrow> distinct (map pcConn (cpConns p)) \<and> (\<forall>pc \<in> set (cpConns p). pcConn pc < cpNext p) \<and>
     (\<forall>pc \<in> set (cpConns p). pcInUse pc \<longleftrightarrow> pcConn pc \<in> H) \<and> (\<forall>c \<in> H. c < cpNext p)"

lemma take_idle_Some:
  "take_idle opn now pcs = Some (c, pcs') \<Longrightarrow>
   \<exists>as pc bs. pcs = as @ pc # bs \<and> is_idle opn pc \<and> pcConn pc = c \<and> pcs' = as @ pc\<lparr>pcInUse := True, pcLastUsed := now\<rparr> # bs"
proof (induction pcs arbitrary: pcs')
  case (Cons pc pcs)
  show ?case
  proof (cases "is_idle opn pc")
    case True
    with Cons.prems show ?thesis by (intro exI [of _ "[]"]) auto
  next
    case False
    with Cons.prems obtain qs where "take_idle opn now pcs = Some (c, qs)" "pcs' = pc # qs" by (auto split: option.splits)
    with Cons.IH [of qs] show ?thesis by (metis append_Cons)
  qed
qed simp

lemma take_idle_None: "take_idle opn now pcs = None \<longleftrightarrow> \<not> list_ex (is_idle opn) pcs"
  by (induction pcs) (auto split: option.splits)

lemma return_to_Some:
  "return_to now c pcs = Some pcs' \<Longrightarrow>
   \<exists>as pc bs. pcs = as @ pc # bs \<and> pcConn pc = c \<and> pcs' = as @ pc\<lparr>pcInUse := False, pcLastUsed := now\<rparr> # bs"
proof (induction pcs arbitrary: pcs')
  case (Cons pc pcs)
  show ?case
  proof (cases "pcConn pc = c")
    case True
    with Cons.prems show ?thesis by (intro exI [of _ "[]"]) auto
  next
    case False
    with Cons.prems obtain qs where "return_to now c pcs = Some qs" "pcs' = pc # qs" by auto
    with Cons.IH [of qs] show ?thesis by (metis append_Cons)
  qed
qed simp

lemma return_to_None: "return_to now c pcs = None \<longleftrightarrow> c \<notin> pcConn ` set pcs"
  by (induction pcs) auto

lemma subseq_set_distinct:
  "subseq xs ys \<Longrightarrow> set xs \<subseteq> set ys \<and> (distinct (map f ys) \<longrightarrow> distinct (map f xs))"
  by (induction rule: list_emb.induct) auto

lemma pool_ok_subseq:
  assumes "pool_ok H p" and "subseq (cpConns q) (cpConns p)" and "cpNext q = cpNext p"
  shows "pool_ok H q"
proof -
  from subseq_set_distinct [OF assms(2), of pcConn] show ?thesis using assms(1,3) by (auto simp: pool_ok_def)
qed

lemma pool_ok_create:
  assumes "pool_ok H p" and "CreateNewConnection a p = (r, q)"
  shows "pool_ok H q \<and> cpConns q = cpConns p \<and> cpActive q = cpActive p \<and>
    (\<forall>c. r = Inr c \<longrightarrow> c \<notin> H \<and> c \<notin> pcConn ` set (cpConns q) \<and> c < cpNext q)"
  using assms by (auto simp: CreateNewConnection_def pool_ok_def less_Suc_eq split: if_splits create_answer.splits)

lemma pool_ok_acquire:
  assumes "pool_ok H p" and "acquire a now p = (r, q)"
  shows "case r of Inl e \<Rightarrow> pool_ok H q | Inr c \<Rightarrow> c \<notin> H \<and> pool_ok (insert c H) q"
proof (cases "take_idle (cpOpen p) now (cpConns p)")
  case (Some x)
  obtain c pcs where x: "x = (c, pcs)" by force
  from take_idle_Some [OF Some [unfolded x]] obtain as pc bs where "cpConns p = as @ pc # bs" "is_idle (cpOpen p) pc"
    "pcConn pc = c" "pcs = as @ pc\<lparr>pcInUse := True, pcLastUsed := now\<rparr> # bs" by blast
  then show ?thesis using assms Some x by (auto simp: acquire_def pool_ok_def is_idle_def image_iff) metis+
next
  case None
  obtain r' q' where c: "CreateNewConnection a p = (r', q')" by force
  note ok = pool_ok_create [OF assms(1) c]
  show ?thesis using assms None c ok
    by (cases r') (auto simp: acquire_def pool_ok_def PooledConnection_new_def split: if_splits)
qed

lemma pool_ok_return:
  assumes "pool_ok H p"
  shows "pool_ok (H - {c}) (ReturnConnection now c p)"
proof (cases "return_to now c (cpConns p)")
  case None
  then have "c \<notin> pcConn ` set (cpConns p)" by (simp add: return_to_None)
  then show ?thesis using assms None by (auto simp: ReturnConnection_def pool_ok_def)
next
  case (Some pcs)
  from return_to_Some [OF Some] obtain as pc bs where "cpConns p = as @ pc # bs" "pcConn pc = c"
    "pcs = as @ pc\<lparr>pcInUse := False, pcLastUsed := now\<rparr> # bs" by blast
  then show ?thesis using assms Some by (auto simp: ReturnConnection_def pool_ok_def image_iff)
qed

lemma pool_ok_clear: "pool_ok H p \<Longrightarrow> pool_ok H (ClearLocked p)"
  by (rule pool_ok_subseq) (simp_all add: ClearLocked_def)

lemma cleanup_subseq: "subseq (fst (cleanup now idle m n pcs)) pcs"
proof (induction pcs arbitrary: n)
  case (Cons pc pcs)
  show ?case using Cons.IH [of n] Cons.IH [of "n - 1"] by (simp add: split_beta) (blast intro: list_emb.intros(2))
qed simp

lemma pool_ok_cleanup: "pool_ok H p \<Longrightarrow> pool_ok H (CleanupIdleConnections now p)"
  using cleanup_subseq [of now "cpIdleTimeout p" "cpMin p" "length (cpConns p)" "cpConns p"]
  by (elim pool_ok_subseq) (auto simp: CleanupIdleConnections_def split: prod.splits)

lemma pool_ok_shutdown: "pool_ok H p \<Longrightarrow> pool_ok H (shutdown_locked p)"
  by (erule pool_ok_subseq) (simp_all add: shutdown_locked_def ClearLocked_def Let_def)

lemma pool_ok_warm_up: "pool_ok H p \<Longrightarrow> pool_ok H (snd (warm_up n i as now p))"
proof (induction n i as now p rule: warm_up.induct)
  case (2 n i as now p)
  obtain r q where c: "CreateNewConnection (as i) p = (r, q)" by force
  note ok = pool_ok_create [OF 2(2) c]
  show ?case
  proof (cases r)
    case (Inr c')
    have "pool_ok H (q\<lparr>cpConns := cpConns q @ [PooledConnection_new now c']\<rparr>)"
      using ok Inr by (auto simp: pool_ok_def PooledConnection_new_def)
    then show ?thesis using 2(1) c Inr by simp
  qed (use c ok in simp)
qed simp

lemma pool_ok_initialize: "pool_ok H p \<Longrightarrow> pool_ok H (snd (CP_Initialize maxSize minSize db as now p))"
proof -
  assume ok: "pool_ok H p"
  let ?p = "p\<lparr>cpMax := of_int maxSize, cpMin := of_int minSize, cpDatabase := True\<rparr>"
  have sets: "pool_ok H (p\<lparr>cpMax := m, cpMin := m', cpDatabase := b\<rparr>)" "pool_ok H (p\<lparr>cpMax := m, cpMin := m'\<rparr>)" for m m' b
    using ok by (simp_all add: pool_ok_def)
  have empty: "pool_ok H q \<Longrightarrow> pool_ok H (q\<lparr>cpConns := []\<rparr>)" for q by (simp add: pool_ok_def)
  have init: "pool_ok H q \<Longrightarrow> pool_ok H (q\<lparr>cpInitialized := b\<rparr>)" for q b by (simp add: pool_ok_def)
  have "pool_ok H (snd (warm_up n i as now ?p))" for n i by (rule pool_ok_warm_up [OF sets(1)])
  then show ?thesis using ok sets empty [OF sets(1)]
    by (auto simp: CP_Initialize_def Let_def intro: empty init split: database_answer.split prod.split option.split)
      (metis empty init snd_conv)+
qed

definition held_conns :: "cp_sys \<Rightarrow> nat set" where
  "held_conns s = snd ` set (csHeld s)"

definition cp_inv :: "cp_sys \<Rightarrow> bool" where
  "cp_inv s \<longleftrightarrow> distinct (map snd (csHeld s)) \<and> pool_ok (held_conns s) (csPool s)"

lemma cp_inv_pool: "cp_inv s \<Longrightarrow> (\<And>H. pool_ok H (csPool s) \<Longrightarrow> pool_ok H (f (csPool s))) \<Longrightarrow> cp_inv (on_pool f s)"
  by (simp add: cp_inv_def on_pool_def held_conns_def)

lemma cp_inv_thread: "cp_inv (set_thread i pc s) = cp_inv s"
  by (simp add: cp_inv_def set_thread_def held_conns_def)

lemma cp_inv_get_fails: "cp_inv s \<Longrightarrow> cp_inv (get_ends i (Inl e, csPool s) s)"
  by (simp add: cp_inv_def get_ends_def held_conns_def)

lemma cp_inv_acquire:
  assumes "cp_inv s"
  shows "cp_inv (get_ends i (acquire a now (csPool s)) s)"
proof -
  obtain r q where r: "acquire a now (csPool s) = (r, q)" by force
  from assms have "pool_ok (held_conns s) (csPool s)" by (simp add: cp_inv_def)
  from pool_ok_acquire [OF this r] show ?thesis
    using assms r by (cases r) (auto simp: cp_inv_def get_ends_def held_conns_def)
qed

lemma cp_inv_wait: "cp_inv s \<Longrightarrow> cp_inv (GetConnection_wait i expired a now s)"
  by (simp add: GetConnection_wait_def cp_inv_thread cp_inv_acquire cp_inv_get_fails split: wait.split bool.split)

lemma remove1_held:
  assumes "distinct (map snd hs)" and "(i, c) \<in> set hs"
  shows "snd ` set (remove1 (i, c) hs) = snd ` set hs - {c}" and "distinct (map snd (remove1 (i, c) hs))"
proof -
  from assms(2) obtain as bs where hs: "hs = as @ (i, c) # bs" "(i, c) \<notin> set as" by (metis split_list_first)
  then have "remove1 (i, c) hs = as @ bs" by (simp add: remove1_append)
  with hs assms(1) show "snd ` set (remove1 (i, c) hs) = snd ` set hs - {c}" "distinct (map snd (remove1 (i, c) hs))" by auto
qed

lemma cp_inv_return:
  assumes "cp_inv s" and "(i, c) \<in> set (csHeld s)"
  shows "cp_inv (on_pool (ReturnConnection now c) (s\<lparr>csHeld := remove1 (i, c) (csHeld s)\<rparr>))"
  using assms remove1_held [of "csHeld s" i c] pool_ok_return [of "held_conns s" "csPool s" c now]
  by (simp add: cp_inv_def on_pool_def held_conns_def)

lemma cp_inv_step:
  assumes "cp_inv s"
  shows "cp_inv (cp_next e s)"
proof (cases e)
  case (CPStep i expired a now)
  have "cp_inv (Shutdown_lock i s)"
    using cp_inv_pool [OF assms, of shutdown_locked] pool_ok_shutdown
    by (simp add: Shutdown_lock_def cp_inv_thread on_pool_def)
  then show ?thesis using assms CPStep cp_inv_wait [OF assms]
    by (simp add: GetConnection_lock_def Shutdown_wait_def cp_inv_get_fails cp_inv_thread
        split: option.split cp_pc.split wait.split)
next
  case (CPReturn i c now)
  then show ?thesis using assms cp_inv_return [OF assms, of i c now] by simp
next
  case (CPGet i)
  then show ?thesis using assms by (simp add: GetConnection_start_def cp_inv_get_fails cp_inv_thread)
next
  case (CPShutdown i)
  then show ?thesis using assms by (simp add: Shutdown_start_def cp_inv_thread)
qed (use assms in \<open>simp_all add: cp_inv_pool pool_ok_initialize pool_ok_clear pool_ok_cleanup CP_Clear_def\<close>,
    (rule cp_inv_pool [OF assms], simp add: pool_ok_def SetMaxPoolSize_def SetMinPoolSize_def SetIdleTimeout_def)+)

lemma cp_inv_run: "cp_inv s \<Longrightarrow> cp_inv (cp_run es s)"
  by (induction es arbitrary: s) (simp_all add: cp_inv_step)

lemma cp_inv_start: "cp_inv (cp_start n)"
  by (simp add: cp_inv_def cp_start_def ConnectionPool_new_def held_conns_def pool_ok_def)

text \<open>
  C25: No connection has two holders. In every interleaving of calls, lost connections and shutdowns in
  which threads give back only what they have, no connection is out twice, the connections of the
  pool are distinct objects, and the pool's mark says of each of them whether it is out.
\<close>

theorem cp_exclusive:
  fixes es n
  defines "s \<equiv> cp_run es (cp_start n)"
  shows "distinct (map snd (csHeld s)) \<and> distinct (map pcConn (cpConns (csPool s))) \<and>
    list_all (\<lambda>pc. pcInUse pc = (pcConn pc \<in> snd ` set (csHeld s))) (cpConns (csPool s))"
  using cp_inv_run [OF cp_inv_start, of es n]
  by (force simp: s_def cp_inv_def pool_ok_def held_conns_def list_all_iff)

subsection \<open>Accounting and bounds\<close>

abbreviation lent :: "ConnectionPool \<Rightarrow> PooledConnection list" where
  "lent p \<equiv> filter pcInUse (cpConns p)"

definition acct :: "nat \<Rightarrow> ConnectionPool \<Rightarrow> bool" where
  "acct n p \<longleftrightarrow> cpActive p = of_nat (length (lent p)) \<and> length (cpConns p) \<le> n \<and>
     (if cpInitialized p then unat (cpMax p) \<le> n else \<not> cpDatabase p \<and> cpConns p = [])"

text \<open>
  Events whose pool sizes are at most \<open>n\<close>, and whose calls of \<open>Initialize\<close> succeed. (The sizes of the
  configuration are signed and converted: a negative one becomes huge.)
\<close>

fun sized :: "nat \<Rightarrow> cp_event \<Rightarrow> bool" where
  "sized n (CPInitialize maxSize minSize db as now) \<longleftrightarrow>
     db = Connected \<and> (\<forall>i. \<exists>b. as i = Opened b) \<and> unat (of_int maxSize :: size_t) \<le> n \<and> unat (of_int minSize :: size_t) \<le> n"
| "sized n (CPSetMax m) \<longleftrightarrow> unat m \<le> n"
| "sized n e \<longleftrightarrow> True"

lemma acct_acquire:
  assumes "acct n p"
  shows "acct n (snd (acquire a now p))"
proof (cases "take_idle (cpOpen p) now (cpConns p)")
  case (Some x)
  obtain c pcs where x: "x = (c, pcs)" by force
  from take_idle_Some [OF Some [unfolded x]] obtain as pc bs where "cpConns p = as @ pc # bs" "is_idle (cpOpen p) pc"
    "pcs = as @ pc\<lparr>pcInUse := True, pcLastUsed := now\<rparr> # bs" by blast
  then show ?thesis using assms Some x by (auto simp: acquire_def acct_def is_idle_def split: if_splits)
next
  case None
  then show ?thesis using assms
    by (auto simp: acquire_def acct_def CreateNewConnection_def PooledConnection_new_def
        split: create_answer.split if_splits)
qed

lemma acct_return:
  assumes "acct n p" and "pool_ok H p" and "c \<in> H"
  shows "acct n (ReturnConnection now c p)"
proof (cases "return_to now c (cpConns p)")
  case (Some pcs)
  from return_to_Some [OF Some] obtain as pc bs where pc: "cpConns p = as @ pc # bs" "pcConn pc = c"
    "pcs = as @ pc\<lparr>pcInUse := False, pcLastUsed := now\<rparr> # bs" by blast
  moreover have "pcInUse pc" using assms(2,3) pc by (auto simp: pool_ok_def)
  ultimately show ?thesis using assms(1) Some by (auto simp: ReturnConnection_def acct_def split: if_splits)
qed (use assms(1) in \<open>simp add: ReturnConnection_def\<close>)

lemma acct_lent: "acct n p \<Longrightarrow> length (lent p) \<le> n"
  by (rule order_trans [OF length_filter_le]) (simp add: acct_def)

lemma acct_clear: "acct n p \<Longrightarrow> acct n (ClearLocked p)"
  using acct_lent [of n p] by (auto simp: ClearLocked_def acct_def split: if_splits)

lemma cleanup_lent: "filter pcInUse (fst (cleanup now idle m k pcs)) = filter pcInUse pcs"
proof (induction pcs arbitrary: k)
  case (Cons pc pcs)
  show ?case using Cons.IH [of k] Cons.IH [of "k - 1"] by (simp add: split_beta)
qed simp

lemma acct_cleanup:
  assumes "acct n p"
  shows "acct n (CleanupIdleConnections now p)"
proof -
  let ?c = "cleanup now (cpIdleTimeout p) (cpMin p) (length (cpConns p)) (cpConns p)"
  have "length (fst ?c) \<le> length (cpConns p)" by (rule list_emb_length [OF cleanup_subseq])
  moreover have "filter pcInUse (fst ?c) = lent p" by (rule cleanup_lent)
  ultimately show ?thesis using assms by (auto simp: CleanupIdleConnections_def acct_def split_beta)
qed

lemma acct_shutdown:
  assumes "acct n p" and "n < 2 ^ 64"
  shows "acct n (shutdown_locked p)"
proof (cases "cpActive p = 0")
  case True
  have "length (lent p) < 2 ^ 64" using acct_lent [OF assms(1)] assms(2) by simp
  then have "lent p = []" using True assms(1) of_nat_size_0_iff [of "length (lent p)"] by (simp add: acct_def)
  then show ?thesis using True by (simp add: shutdown_locked_def ClearLocked_def acct_def)
next
  case False
  then have "0 < cpActive p" by (simp add: word_gt_0)
  then show ?thesis by (simp add: shutdown_locked_def acct_def)
qed

lemma warm_up_opened:
  assumes "\<forall>i. \<exists>b. as i = Opened b" and "cpDatabase p"
  shows "\<exists>q. warm_up k i as now p = (None, q) \<and> length (cpConns q) = length (cpConns p) + k \<and> lent q = lent p \<and>
    cpActive q = cpActive p \<and> cpMax q = cpMax p"
  using assms(2)
proof (induction k arbitrary: i p)
  case (Suc k)
  obtain b where b: "as i = Opened b" using assms(1) by blast
  define p' where "p' = p\<lparr>cpNext := Suc (cpNext p), cpOpen := (if b then insert (cpNext p) (cpOpen p) else cpOpen p),
    cpConns := cpConns p @ [PooledConnection_new now (cpNext p)]\<rparr>"
  have "warm_up (Suc k) i as now p = warm_up k (Suc i) as now p'"
    using b Suc.prems by (simp add: CreateNewConnection_def p'_def)
  moreover have "cpDatabase p'" "length (cpConns p') = Suc (length (cpConns p))" "lent p' = lent p" "cpActive p' = cpActive p"
    "cpMax p' = cpMax p" using Suc.prems by (simp_all add: p'_def PooledConnection_new_def)
  ultimately show ?case using Suc.IH [of p' "Suc i"] by simp
qed simp

lemma acct_initialize:
  assumes "acct n p" and "sized n (CPInitialize maxSize minSize db as now)"
  shows "acct n (snd (CP_Initialize maxSize minSize db as now p))"
proof (cases "cpInitialized p")
  case False
  let ?p = "p\<lparr>cpMax := of_int maxSize, cpMin := of_int minSize, cpDatabase := True\<rparr>"
  have "\<forall>i. \<exists>b. as i = Opened b" using assms(2) by simp
  from warm_up_opened [OF this, of ?p "unat (of_int minSize :: size_t)" 0 now]
  obtain q where "warm_up (unat (of_int minSize :: size_t)) 0 as now ?p = (None, q)"
    "length (cpConns q) = length (cpConns p) + unat (of_int minSize :: size_t)" "lent q = lent p"
    "cpActive q = cpActive p" "cpMax q = of_int maxSize" by auto
  then show ?thesis using assms False by (simp add: CP_Initialize_def acct_def)
qed (use assms in \<open>simp add: CP_Initialize_def\<close>)

lemma acct_wait: "acct n (csPool s) \<Longrightarrow> acct n (csPool (GetConnection_wait i expired a now s))"
  by (simp add: GetConnection_wait_def set_thread_def get_ends_def acct_acquire split: wait.split bool.split)

lemma acct_step:
  assumes "acct n (csPool s)" and "cp_inv s" and "sized n e" and "n < 2 ^ 64"
  shows "acct n (csPool (cp_next e s))"
proof (cases e)
  case (CPStep i expired a now)
  then show ?thesis using assms(1) acct_wait [OF assms(1)] acct_shutdown [OF assms(1,4)]
    by (simp add: GetConnection_lock_def Shutdown_wait_def Shutdown_lock_def get_ends_def set_thread_def
        split: option.split cp_pc.split wait.split)
next
  case (CPReturn i c now)
  have "pool_ok (held_conns s) (csPool s)" using assms(2) by (simp add: cp_inv_def)
  moreover have "c \<in> held_conns s" if "(i, c) \<in> set (csHeld s)" using that by (force simp: held_conns_def)
  ultimately show ?thesis using assms(1) acct_return [OF assms(1)] CPReturn by (simp add: on_pool_def)
next
  case (CPInitialize maxSize minSize db as now)
  then show ?thesis using acct_initialize [OF assms(1)] assms(3) by (simp add: on_pool_def)
next
  case (CPSetMax m)
  then show ?thesis using assms(1,3) by (simp add: on_pool_def SetMaxPoolSize_def acct_def)
qed (use assms(1) in \<open>simp_all add: on_pool_def GetConnection_start_def Shutdown_start_def get_ends_def set_thread_def
      CP_Clear_def acct_clear acct_cleanup SetMinPoolSize_def SetIdleTimeout_def\<close>, simp_all add: acct_def)

lemma acct_run:
  "acct n (csPool s) \<Longrightarrow> cp_inv s \<Longrightarrow> list_all (sized n) es \<Longrightarrow> n < 2 ^ 64 \<Longrightarrow> acct n (csPool (cp_run es s))"
  by (induction es arbitrary: s) (simp_all add: acct_step cp_inv_step)

text \<open>
  The pool's accounts are right: as long as the calls of \<open>Initialize\<close> succeed and no pool size above
  \<open>n\<close> is set, the atomic counter is the number of connections that are out, and the pool never has
  more than \<open>n\<close> connections, in every interleaving.
\<close>

theorem cp_accounts:
  fixes es k
  defines "p \<equiv> csPool (cp_run es (cp_start k))"
  assumes "list_all (sized n) es" and "n < 2 ^ 64"
  shows "unat (GetActiveConnections p) = length (filter pcInUse (cpConns p)) \<and> unat (GetTotalConnections p) \<le> n"
proof -
  have "acct n (csPool (cp_start k))" by (simp add: acct_def cp_start_def ConnectionPool_new_def)
  then have a: "acct n p" unfolding p_def using cp_inv_start assms(2,3) by (rule acct_run)
  have "length (lent p) < 2 ^ 64" "length (cpConns p) < 2 ^ 64" "length (cpConns p) \<le> n"
    using assms(3) a acct_lent [OF a] by (simp_all add: acct_def)
  then show ?thesis using a
    by (simp add: GetActiveConnections_def GetTotalConnections_def acct_def unat_of_nat)
qed

lemmas cp_eval = on_pool_def thread_at_def GetConnection_start_def GetConnection_lock_def GetConnection_wait_def
  get_ends_def set_thread_def acquire_def CreateNewConnection_def PooledConnection_new_def available_def is_idle_def
  CP_Initialize_def cp_start_def ConnectionPool_new_def ReturnConnection_def

theorem cp_accounts_witness:
  "let p = csPool (cp_run [CPInitialize 1 1 Connected (\<lambda>_. Opened True) 0, CPGet 0, CPStep 0 False NotConnected 5] (cp_start 1))
   in unat (GetActiveConnections p) = 1 \<and> unat (GetTotalConnections p) \<le> 1"
proof -
  let ?es = "[CPInitialize 1 1 Connected (\<lambda>_. Opened True) 0, CPGet 0, CPStep 0 False NotConnected 5]"
  have "list_all (sized 1) ?es" by (auto intro: exI [of _ True])
  from cp_accounts [OF this, of 1] show ?thesis by (simp add: cp_eval Let_def)
qed

subsection \<open>What the pool does not protect\<close>

text \<open>
  Dead connections are never replaced. When every connection of a pool of full size is closed, no
  call of \<open>GetConnection\<close> succeeds any more, whatever calls, returns and failures follow, until
  something empties the pool: the wait's predicate counts a closed idle connection as present, and
  \<open>CleanupIdleConnections\<close> is called from nowhere.
\<close>

definition dead :: "cp_sys \<Rightarrow> bool" where
  "dead s \<longleftrightarrow> list_all (\<lambda>c. c \<notin> cpOpen (csPool s)) (map pcConn (cpConns (csPool s))) \<and>
     unat (cpMax (csPool s)) \<le> length (map pcConn (cpConns (csPool s))) \<and> list_all (\<lambda>pc. pc \<notin> {SWait, SLock}) (csThreads s)"

fun client_event :: "cp_event \<Rightarrow> bool" where
  "client_event (CPGet i) = True"
| "client_event (CPStep i expired a now) = True"
| "client_event (CPReturn i c now) = True"
| "client_event (CPLost c) = True"
| "client_event (CPSetMin n) = True"
| "client_event (CPSetIdle n) = True"
| "client_event e = False"

definition failed_results :: "(nat \<times> (string + nat)) list \<Rightarrow> bool" where
  "failed_results rs \<longleftrightarrow> list_all (\<lambda>(i, r). case r of Inl _ \<Rightarrow> True | Inr _ \<Rightarrow> False) rs"

lemma return_to_conns: "return_to now c pcs = Some pcs' \<Longrightarrow> map pcConn pcs' = map pcConn pcs"
  using return_to_Some by fastforce

lemma dead_return:
  assumes "dead s"
  shows "dead (on_pool (ReturnConnection now c) (s\<lparr>csHeld := hs\<rparr>))"
proof -
  have "map pcConn (cpConns (ReturnConnection now c (csPool s))) = map pcConn (cpConns (csPool s))"
    using return_to_conns by (auto simp: ReturnConnection_def split: option.split)
  moreover have "cpOpen (ReturnConnection now c (csPool s)) = cpOpen (csPool s)" "cpMax (ReturnConnection now c (csPool s)) = cpMax (csPool s)"
    by (simp_all add: ReturnConnection_def split: option.split)
  ultimately show ?thesis using assms by (simp add: dead_def on_pool_def del: list.pred_map length_map)
qed

lemma dead_thread: "dead s \<Longrightarrow> pc \<notin> {SWait, SLock} \<Longrightarrow> dead (set_thread i pc s)"
  by (auto simp: dead_def set_thread_def list_all_iff dest!: set_update_D)

lemma dead_get_fails: "dead s \<Longrightarrow> dead (get_ends i (Inl e, csPool s) s)"
  by (auto simp: dead_def get_ends_def list_all_iff dest!: set_update_D)

lemma dead_unavailable: "dead s \<Longrightarrow> \<not> available (csPool s)"
  by (auto simp: dead_def available_def is_idle_def list_all_iff list_ex_iff)

text \<open>A step that hands nothing out.\<close>

definition only_fails :: "cp_sys \<Rightarrow> cp_sys \<Rightarrow> bool" where
  "only_fails s s' \<longleftrightarrow> dead s' \<and> set (csHeld s') \<subseteq> set (csHeld s) \<and>
     (\<exists>rs. csResults s' = csResults s @ rs \<and> failed_results rs)"

lemma only_fails_get: "dead s \<Longrightarrow> only_fails s (get_ends i (Inl e, csPool s) s)"
  by (simp add: only_fails_def dead_get_fails) (simp add: get_ends_def failed_results_def)

lemma only_fails_thread: "dead s \<Longrightarrow> pc \<notin> {SWait, SLock} \<Longrightarrow> only_fails s (set_thread i pc s)"
  using dead_thread [of s pc i] by (simp add: only_fails_def) (simp add: set_thread_def failed_results_def)

lemma only_fails_refl: "dead s \<Longrightarrow> only_fails s s"
  by (simp add: only_fails_def failed_results_def)

lemma only_fails_wait: "dead s \<Longrightarrow> only_fails s (GetConnection_wait i expired a now s)"
  using dead_unavailable [of s] only_fails_get only_fails_thread
  by (cases expired) (simp_all add: GetConnection_wait_def)

lemma only_fails_step:
  assumes "dead s" and "client_event e"
  shows "only_fails s (cp_next e s)"
proof (cases e)
  case (CPStep i expired a now)
  have "thread_at i s \<noteq> Some SWait \<and> thread_at i s \<noteq> Some SLock"
    using assms(1) by (auto simp: dead_def thread_at_def list_all_length)
  then show ?thesis using CPStep only_fails_wait [OF assms(1)] only_fails_get [OF assms(1)] only_fails_refl [OF assms(1)]
    by (auto simp: GetConnection_lock_def split: option.split cp_pc.split)
next
  case (CPReturn i c now)
  have "only_fails s (on_pool (ReturnConnection now c) (s\<lparr>csHeld := remove1 (i, c) (csHeld s)\<rparr>))"
    using dead_return [OF assms(1)] set_remove1_subset [of "(i, c)" "csHeld s"]
    by (simp add: only_fails_def) (simp add: on_pool_def failed_results_def)
  then show ?thesis using CPReturn only_fails_refl [OF assms(1)] by simp
next
  case (CPGet i)
  then show ?thesis using only_fails_get only_fails_thread only_fails_refl assms(1) by (simp add: GetConnection_start_def)
qed (use assms in \<open>auto simp: only_fails_def dead_def failed_results_def on_pool_def list_all_iff SetMinPoolSize_def SetIdleTimeout_def\<close>)

theorem cp_dead_pool_stuck:
  assumes "dead s" and "list_all client_event es"
  shows "dead (cp_run es s) \<and> set (csHeld (cp_run es s)) \<subseteq> set (csHeld s) \<and>
    (\<exists>rs. csResults (cp_run es s) = csResults s @ rs \<and> failed_results rs)"
  using assms
proof (induction es arbitrary: s)
  case (Cons e es)
  then have "only_fails s (cp_next e s)" by (simp add: only_fails_step)
  then obtain rs where "dead (cp_next e s)" "set (csHeld (cp_next e s)) \<subseteq> set (csHeld s)"
    "csResults (cp_next e s) = csResults s @ rs" "failed_results rs" by (auto simp: only_fails_def)
  with Cons.IH [of "cp_next e s"] Cons.prems(2) show ?case
    by (auto simp: failed_results_def)
qed (simp add: failed_results_def)

definition lost_pool :: cp_sys where
  "lost_pool = cp_run [CPInitialize 1 1 Connected (\<lambda>_. Opened True) 0, CPLost 0] (cp_start 1)"

theorem cp_dead_pool_stuck_witness:
  "let s = cp_run [CPGet 0, CPStep 0 True (Opened True) 5] lost_pool
   in csHeld s = [] \<and> csResults s = [(0, Inl ''Connection pool timeout - no connections available'')] \<and> dead s"
proof -
  have "dead lost_pool" by (simp add: dead_def lost_pool_def cp_eval)
  from cp_dead_pool_stuck [OF this, of "[CPGet 0, CPStep 0 True (Opened True) 5]"]
  show ?thesis by (simp add: lost_pool_def cp_eval)
qed

text \<open>
  \<open>ReturnConnection\<close> does not check that the connection is out. Given back twice in a row, a
  connection makes the counter of active connections wrap to its largest value. Given back a second
  time after another thread has got it, it is marked idle while that thread uses it, and the next
  call hands it out again: two threads have the same connection.
\<close>

definition one_connection :: ConnectionPool where
  "one_connection = snd (CP_Initialize 1 1 Connected (\<lambda>_. Opened True) 0 ConnectionPool_new)"

theorem cp_double_return:
  fixes p1 p2 p3 p4
  defines "p1 \<equiv> snd (acquire NotConnected 1 one_connection)" and "p2 \<equiv> ReturnConnection 2 0 p1"
    and "p3 \<equiv> snd (acquire NotConnected 3 p2)" and "p4 \<equiv> ReturnConnection 4 0 p3"
  shows "fst (acquire NotConnected 1 one_connection) = Inr 0 \<and> GetActiveConnections (ReturnConnection 3 0 p2) = - 1 \<and>
    fst (acquire NotConnected 3 p2) = Inr 0 \<and> fst (acquire NotConnected 5 p4) = Inr 0"
  by (simp add: p4_def p3_def p2_def p1_def one_connection_def cp_eval GetActiveConnections_def)

end
