(* ===== verification/Sql_Script.thy ===== *)
theory Sql_Script
  imports String_Util
begin

section \<open>SQL scripts: dialects, lookup and manifest\<close>

text \<open>
  \<open>Interfaces/DatabaseConfig.h\<close> (dialects and connection strings), \<open>Database/SqlScriptRunner.h\<close> (which
  script file is used for a configuration, and its text) and the manifest hash of
  \<open>Database/SqlModuleBootstrap.h\<close>.

  A \<open>std::filesystem::path\<close> is the list of its components, from the root for an absolute one; module
  names are single components. The file system is a function that gives the contents of regular files;
  it does not change during a call. A \<open>DatabaseException\<close> is its message, on the left of a sum.
\<close>

subsection \<open>Configuration\<close>

datatype DatabaseType = ODBC | OLEDB | MySQL | PostgreSQL | SQLite | Mock

datatype SqlDialect = DAuto | DGeneric | DSQLite | DMySQL | DPostgreSQL | DSQLServer

record DatabaseConfig =
  mConnectionString :: string
  mType :: DatabaseType
  mSqlDialectHint :: SqlDialect
  mConnectionTimeout :: int
  mCommandTimeout :: int
  mAutoCommit :: bool
  mMaxPoolSize :: int
  mMinPoolSize :: int
  mHost :: string
  mPort :: u16
  mDatabaseName :: string
  mUser :: string
  mPassword :: string

definition DatabaseConfig_new :: DatabaseConfig where
  "DatabaseConfig_new =
     \<lparr>mConnectionString = [], mType = ODBC, mSqlDialectHint = DAuto, mConnectionTimeout = 30, mCommandTimeout = 30,
      mAutoCommit = True, mMaxPoolSize = 10, mMinPoolSize = 2, mHost = ''localhost'', mPort = 1433,
      mDatabaseName = [], mUser = [], mPassword = []\<rparr>"

definition ResolveSqlDialect :: "DatabaseConfig \<Rightarrow> SqlDialect" where
  "ResolveSqlDialect c =
     (if mSqlDialectHint c \<noteq> DAuto then mSqlDialectHint c
      else case mType c of
        SQLite \<Rightarrow> DSQLite | MySQL \<Rightarrow> DMySQL | PostgreSQL \<Rightarrow> DPostgreSQL | OLEDB \<Rightarrow> DSQLServer | _ \<Rightarrow> DGeneric)"

definition BuildODBCConnectionString :: "DatabaseConfig \<Rightarrow> string" where
  "BuildODBCConnectionString c =
     (let db = ''Database='' @ mDatabaseName c @ '';''; login = ''UID='' @ mUser c @ '';'' @ ''PWD='' @ mPassword c @ '';''
      in if ResolveSqlDialect c \<in> {DMySQL, DPostgreSQL}
         then ''Server='' @ mHost c @ '';'' @ ''Port='' @ dec (unat (mPort c)) @ '';'' @ db @ login
         else if ResolveSqlDialect c = DSQLite then db
         else ''Server='' @ mHost c @ '','' @ dec (unat (mPort c)) @ '';'' @ db @ login)"

definition BuildOLEDBConnectionString :: "DatabaseConfig \<Rightarrow> string" where
  "BuildOLEDBConnectionString c =
     ''Provider=SQLOLEDB;'' @ ''Data Source='' @ mHost c @ '','' @ dec (unat (mPort c)) @ '';'' @
     ''Initial Catalog='' @ mDatabaseName c @ '';'' @ ''User Id='' @ mUser c @ '';'' @ ''Password='' @ mPassword c @ '';''"

text \<open>\<open>Utils::BuildODBCConnectionString\<close> and its OLE DB twin, on the entries of the map in order.\<close>

fun join_params :: "bool \<Rightarrow> (string \<times> string) list \<Rightarrow> string" where
  "join_params fst_one [] = []"
| "join_params fst_one ((k, v) # ps) = (if fst_one then [] else '';'') @ k @ ''='' @ v @ join_params False ps"

definition build_params :: "(string \<times> string) list \<Rightarrow> string" where
  "build_params ps = join_params True ps"

subsection \<open>The dialect of a configuration\<close>

text \<open>\<open>text.find(pattern) != npos\<close>\<close>

fun str_find :: "string \<Rightarrow> string \<Rightarrow> bool" where
  "str_find pat [] = (pat = [])"
| "str_find pat (c # cs) = (prefix pat (c # cs) \<or> str_find pat cs)"

definition ToLowerCopy :: "string \<Rightarrow> string" where
  "ToLowerCopy s = map tolower s"

definition DetectDialect_type :: "DatabaseType \<Rightarrow> SqlDialect option" where
  "DetectDialect_type t =
     (case t of OLEDB \<Rightarrow> Some DSQLServer | SQLite \<Rightarrow> Some DSQLite | MySQL \<Rightarrow> Some DMySQL | PostgreSQL \<Rightarrow> Some DPostgreSQL
      | _ \<Rightarrow> None)"

definition DetectDialectFromText :: "string \<Rightarrow> SqlDialect option" where
  "DetectDialectFromText s =
     (let l = ToLowerCopy s in
      if str_find ''mysql'' l \<or> str_find ''mariadb'' l then Some DMySQL
      else if str_find ''sqlite'' l then Some DSQLite
      else if str_find ''postgres'' l \<or> str_find ''psqlodbc'' l then Some DPostgreSQL
      else if str_find ''sql server'' l \<or> str_find ''mssql'' l \<or> str_find ''sqloledb'' l \<or> str_find ''msodbcsql'' l \<or>
        str_find ''native client'' l then Some DSQLServer
      else None)"

definition DetectDialect :: "DatabaseConfig \<Rightarrow> SqlDialect" where
  "DetectDialect c =
     (if mSqlDialectHint c \<noteq> DAuto then mSqlDialectHint c
      else case DetectDialect_type (mType c) of
        Some d \<Rightarrow> d
      | None \<Rightarrow> (case DetectDialectFromText (mConnectionString c) of Some d \<Rightarrow> d | None \<Rightarrow> DGeneric))"

definition InferSqlDialectHint :: "string \<Rightarrow> SqlDialect" where
  "InferSqlDialectHint s = (case DetectDialectFromText s of Some d \<Rightarrow> d | None \<Rightarrow> DAuto)"

definition GetDialectDirectoryName :: "SqlDialect \<Rightarrow> string option" where
  "GetDialectDirectoryName d =
     (case d of DSQLite \<Rightarrow> Some ''SQLite'' | DMySQL \<Rightarrow> Some ''MySQL'' | DPostgreSQL \<Rightarrow> Some ''PostgreSQL''
      | DSQLServer \<Rightarrow> Some ''SQLServer'' | _ \<Rightarrow> None)"

subsection \<open>Finding a script\<close>

type_synonym path = "string list"

text \<open>The empty path has an empty file name.\<close>

definition filename :: "path \<Rightarrow> string" where
  "filename p = (if p = [] then [] else last p)"

definition parent_path :: "path \<Rightarrow> path" where
  "parent_path p = butlast p"

definition BuildVariantRelativePath :: "path \<Rightarrow> DatabaseConfig option \<Rightarrow> path" where
  "BuildVariantRelativePath relativePath config =
     (case config of
        None \<Rightarrow> []
      | Some c \<Rightarrow>
          (case GetDialectDirectoryName (DetectDialect c) of
             None \<Rightarrow> []
           | Some d \<Rightarrow>
               if parent_path relativePath = [] then [d, filename relativePath]
               else parent_path relativePath @ [d, filename relativePath]))"

text \<open>
  The search from the working directory upwards. At the root the parent is the root itself.
\<close>

type_synonym file_system = "path \<Rightarrow> string option"

fun resolve_from :: "file_system \<Rightarrow> nat \<Rightarrow> string \<Rightarrow> path \<Rightarrow> path \<Rightarrow> path option" where
  "resolve_from fs 0 moduleName dbRelative cursor = None"
| "resolve_from fs (Suc depth) moduleName dbRelative cursor =
     (if fs (cursor @ [moduleName] @ dbRelative) \<noteq> None then Some (cursor @ [moduleName] @ dbRelative)
      else if fs (cursor @ [''Server''] @ [moduleName] @ dbRelative) \<noteq> None
      then Some (cursor @ [''Server''] @ [moduleName] @ dbRelative)
      else if parent_path cursor = cursor then None
      else resolve_from fs depth moduleName dbRelative (parent_path cursor))"

definition TryResolveScriptPath :: "file_system \<Rightarrow> path \<Rightarrow> string \<Rightarrow> path \<Rightarrow> path option" where
  "TryResolveScriptPath fs cwd moduleName relativePath = resolve_from fs 6 moduleName (''DB'' # relativePath) cwd"

definition path_string :: "path \<Rightarrow> string" where
  "path_string p = concat (map (\<lambda>c. CHR ''/'' # c) p)"

definition ResolveScriptPath :: "file_system \<Rightarrow> path \<Rightarrow> string \<Rightarrow> path \<Rightarrow> DatabaseConfig option \<Rightarrow> string + path" where
  "ResolveScriptPath fs cwd moduleName relativePath config =
     (let variant = BuildVariantRelativePath relativePath config in
      case (if variant = [] then None else TryResolveScriptPath fs cwd moduleName variant) of
        Some p \<Rightarrow> Inr p
      | None \<Rightarrow>
          (case TryResolveScriptPath fs cwd moduleName relativePath of
             Some p \<Rightarrow> Inr p
           | None \<Rightarrow> Inl (''SQL script not found: module='' @ moduleName @ '', path='' @ drop 1 (path_string relativePath) @
                          '', cwd='' @ path_string cwd)))"

text \<open>The byte order mark EF BB BF is dropped; an empty script is refused.\<close>

definition bom :: string where
  "bom = [CHR 0xEF, CHR 0xBB, CHR 0xBF]"

definition ReadScriptText :: "file_system \<Rightarrow> path \<Rightarrow> string + string" where
  "ReadScriptText fs p =
     (case fs p of
        None \<Rightarrow> Inl (''Failed to open SQL script: '' @ path_string p)
      | Some t \<Rightarrow>
          let text = (if 3 \<le> length t \<and> take 3 t = bom then drop 3 t else t)
          in if text = [] then Inl (''SQL script is empty: '' @ path_string p) else Inr text)"

definition LoadScript :: "file_system \<Rightarrow> path \<Rightarrow> string \<Rightarrow> path \<Rightarrow> DatabaseConfig option \<Rightarrow> string + string" where
  "LoadScript fs cwd moduleName relativePath config =
     (case ResolveScriptPath fs cwd moduleName relativePath config of Inl e \<Rightarrow> Inl e | Inr p \<Rightarrow> ReadScriptText fs p)"

subsection \<open>The manifest\<close>

record ModuleSpec =
  msModule :: string
  msTables :: "path list"
  msManaged :: "path list"

definition kFnvPrime :: u64 where "kFnvPrime = 1099511628211"

definition AppendHash :: "u64 \<Rightarrow> string \<Rightarrow> u64" where
  "AppendHash current value =
     (let current = foldl (\<lambda>h c. xor h (of_char c) * kFnvPrime) current value
      in xor current 0xff * kFnvPrime)"

definition hex_digit :: "nat \<Rightarrow> char" where
  "hex_digit n = (if n < 10 then char_of (48 + n) else char_of (87 + n))"

text \<open>\<open>std::hex\<close> with \<open>std::setw(16)\<close> and \<open>std::setfill('0')\<close>.\<close>

definition ToHexString :: "u64 \<Rightarrow> string" where
  "ToHexString v = map (\<lambda>i. hex_digit (unat (take_bit 4 (drop_bit (4 * i) v)))) (rev [0..<16])"

definition kInitialHash :: u64 where "kInitialHash = 1469598103934665603"

fun manifest_loop :: "file_system \<Rightarrow> path \<Rightarrow> DatabaseConfig option \<Rightarrow> string \<Rightarrow> path list \<Rightarrow> u64 \<Rightarrow> string + u64" where
  "manifest_loop fs cwd config m [] h = Inr h"
| "manifest_loop fs cwd config m (p # ps) h =
     (case LoadScript fs cwd m p config of
        Inl e \<Rightarrow> Inl e
      | Inr text \<Rightarrow> manifest_loop fs cwd config m ps (AppendHash (AppendHash h (drop 1 (path_string p))) text))"

definition ComputeManifestHash :: "file_system \<Rightarrow> path \<Rightarrow> DatabaseConfig option \<Rightarrow> ModuleSpec \<Rightarrow> string + string" where
  "ComputeManifestHash fs cwd config spec =
     (case manifest_loop fs cwd config (msModule spec) (msManaged spec) (AppendHash kInitialHash (msModule spec)) of
        Inl e \<Rightarrow> Inl e
      | Inr h \<Rightarrow> Inr (ToHexString h))"

subsection \<open>Dialects\<close>

text \<open>
  The program decides the dialect of a configuration twice, in \<open>ResolveSqlDialect\<close> for connection
  strings and in \<open>DetectDialect\<close> for scripts. The two agree except for a configuration without hint
  whose backend does not determine the dialect and whose connection string names one: then only the
  scripts follow the connection string.
\<close>

theorem dialects_agree:
  "DetectDialect c =
     (if mSqlDialectHint c = DAuto \<and> mType c \<in> {ODBC, Mock}
      then (case DetectDialectFromText (mConnectionString c) of Some d \<Rightarrow> d | None \<Rightarrow> ResolveSqlDialect c)
      else ResolveSqlDialect c)"
  by (cases "mType c") (auto simp: DetectDialect_def ResolveSqlDialect_def DetectDialect_type_def split: option.split)

lemma str_find_iff: "str_find pat s \<longleftrightarrow> sublist pat s"
  by (induction s) (auto simp: sublist_Cons_right)

subsection \<open>The search\<close>

text \<open>The paths in the order in which they are tried.\<close>

definition candidates :: "nat \<Rightarrow> string \<Rightarrow> path \<Rightarrow> path \<Rightarrow> path list" where
  "candidates depth moduleName dbRelative cwd =
     concat (map (\<lambda>k. [take (length cwd - k) cwd @ [moduleName] @ dbRelative,
                       take (length cwd - k) cwd @ [''Server''] @ [moduleName] @ dbRelative])
       [0..<min depth (Suc (length cwd))])"

lemma candidates_0: "candidates 0 m r cwd = []"
  by (simp add: candidates_def)

lemma candidates_Suc:
  "candidates (Suc d) m r cwd =
     [cwd @ [m] @ r, cwd @ [''Server''] @ [m] @ r] @ (if cwd = [] then [] else candidates d m r (butlast cwd))"
proof (cases cwd rule: rev_cases)
  case (snoc ys y)
  have "map f [0..<min (Suc d) (Suc (Suc (length ys)))] = f 0 # map (\<lambda>k. f (Suc k)) [0..<min d (Suc (length ys))]" for f :: "nat \<Rightarrow> path list"
    by (simp add: upt_conv_Cons map_Suc_upt [symmetric] comp_def del: upt_Suc)
  then show ?thesis by (simp add: candidates_def snoc take_Cons' del: upt_Suc)
qed (simp add: candidates_def)

lemma resolve_from_find: "resolve_from fs d m r cwd = find (\<lambda>p. fs p \<noteq> None) (candidates d m r cwd)"
proof (induction d arbitrary: cwd)
  case (Suc d)
  have "parent_path cwd = cwd \<longleftrightarrow> cwd = []" by (cases cwd rule: rev_cases) (simp_all add: parent_path_def)
  then show ?case by (simp add: Suc candidates_Suc parent_path_def)
qed (simp add: candidates_0)

text \<open>
  C40: The search finds the first existing candidate: the nearest ancestor of the working directory wins,
  the module's own directory before the one under \<open>Server\<close>, at most five levels up; when it gives up,
  none of the candidates is a regular file. With a configuration, the dialect's variant wins over the
  common script even when it lies further up.
\<close>

theorem resolve_is_first_candidate:
  "TryResolveScriptPath fs cwd m r = find (\<lambda>p. fs p \<noteq> None) (candidates 6 m (''DB'' # r) cwd)"
  by (simp add: TryResolveScriptPath_def resolve_from_find)

lemma resolve_variant_first:
  "TryResolveScriptPath fs cwd m (BuildVariantRelativePath r config) = Some p \<Longrightarrow> BuildVariantRelativePath r config \<noteq> [] \<Longrightarrow>
   ResolveScriptPath fs cwd m r config = Inr p"
  by (simp add: ResolveScriptPath_def)

lemma resolve_exists: "ResolveScriptPath fs cwd m r config = Inr p \<Longrightarrow> fs p \<noteq> None"
  by (auto simp: ResolveScriptPath_def Let_def TryResolveScriptPath_def resolve_from_find find_Some_iff
      split: option.splits if_splits)

subsection \<open>What the manifest hash tells apart\<close>

definition fnv_step :: "u64 \<Rightarrow> char \<Rightarrow> u64" where
  "fnv_step h c = xor h (of_char c) * kFnvPrime"

text \<open>The bytes that are hashed: every string is followed by the byte FF.\<close>

definition frame :: "string \<Rightarrow> string" where
  "frame s = s @ [CHR 0xFF]"

definition manifest_bytes :: "string \<Rightarrow> path list \<Rightarrow> string list \<Rightarrow> string" where
  "manifest_bytes m ps ts = frame m @ concat (map (\<lambda>(p, t). frame (drop 1 (path_string p)) @ frame t) (zip ps ts))"

lemma AppendHash_fnv: "AppendHash h s = foldl fnv_step h (frame s)"
  by (simp add: AppendHash_def frame_def fnv_step_def Let_def foldl_append fnv_step_def [abs_def])

lemma manifest_loop_fnv:
  assumes "list_all2 (\<lambda>p t. LoadScript fs cwd m p config = Inr t) ps ts"
  shows "manifest_loop fs cwd config m ps h =
    Inr (foldl fnv_step h (concat (map (\<lambda>(p, t). frame (drop 1 (path_string p)) @ frame t) (zip ps ts))))"
  using assms by (induction arbitrary: h rule: list_all2_induct) (simp_all add: AppendHash_fnv)

lemma kFnvPrime_inverse: "kFnvPrime * 14886173955864302971 = 1"
  unfolding kFnvPrime_def by transfer simp

lemma kFnvPrime_cancel: "x * kFnvPrime = y * kFnvPrime \<longleftrightarrow> x = y"
proof
  assume "x * kFnvPrime = y * kFnvPrime"
  then have "x * (kFnvPrime * 14886173955864302971) = y * (kFnvPrime * 14886173955864302971)"
    by (simp only: mult.assoc [symmetric])
  then show "x = y" by (simp add: kFnvPrime_inverse)
qed simp

lemma fnv_step_inj: "fnv_step h c = fnv_step h' c \<Longrightarrow> h = h'"
proof -
  assume "fnv_step h c = fnv_step h' c"
  then have "xor h (of_char c) = xor h' (of_char c)" by (simp add: fnv_step_def kFnvPrime_cancel)
  then have "xor (xor h (of_char c)) (of_char c) = xor (xor h' (of_char c)) (of_char c)" by simp
  then show "h = h'" by (simp add: xor.assoc)
qed

lemma unat_of_char: "unat (of_char c :: u64) = of_char c"
proof -
  have "(of_char c :: nat) < 2 ^ 64" by (rule less_trans [OF nat_of_char_less_256]) simp
  then have "unat (of_nat (of_char c) :: u64) = of_char c" by (simp add: unat_of_nat del: of_nat_of_char)
  then show ?thesis by (simp only: of_nat_of_char)
qed

lemma fnv_step_char: "fnv_step h a = fnv_step h b \<Longrightarrow> a = b"
proof -
  assume "fnv_step h a = fnv_step h b"
  then have "xor h (of_char a) = xor h (of_char b)" by (simp add: fnv_step_def kFnvPrime_cancel)
  then have "xor h (xor h (of_char a)) = xor h (xor h (of_char b :: u64))" by simp
  then have "(of_char a :: u64) = of_char b" by (simp add: xor.assoc [symmetric])
  then have "unat (of_char a :: u64) = unat (of_char b :: u64)" by simp
  then have "(of_char a :: nat) = of_char b"
    by (simp add: unat_of_char)
  then show "a = b" by simp
qed

lemma fnv_inj: "foldl fnv_step h s = foldl fnv_step h' s \<Longrightarrow> h = h'"
  by (induction s arbitrary: h h') (auto dest: fnv_step_inj)

lemma fnv_edit: "a \<noteq> b \<Longrightarrow> foldl fnv_step h (xs @ a # ys) \<noteq> foldl fnv_step h (xs @ b # ys)"
  by (auto dest: fnv_inj fnv_step_char)

lemma hex_digit_inj: "m < 16 \<Longrightarrow> n < 16 \<Longrightarrow> hex_digit m = hex_digit n \<Longrightarrow> m = n"
proof -
  assume m: "m < 16" and n: "n < 16" and eq: "hex_digit m = hex_digit n"
  have c: "(of_char (hex_digit k) :: nat) = (if k < 10 then 48 + k else 87 + k)" if "k < 16" for k
    using that by (simp add: hex_digit_def of_char_char_of)
  have "(if m < 10 then 48 + m else 87 + m) = (if n < 10 then 48 + n else 87 + n)"
    unfolding c [OF m, symmetric] c [OF n, symmetric] eq by (rule refl)
  then show "m = n" by (simp split: if_splits)
qed

lemma take_bit_4_less: "unat (take_bit 4 (w :: u64)) < 16"
proof -
  have "take_bit 4 (unat w) < 2 ^ 4" by (rule take_bit_nat_less_exp)
  then show ?thesis by (simp add: unsigned_take_bit_eq)
qed

lemma ToHexString_inj: "ToHexString v = ToHexString w \<Longrightarrow> v = w"
proof (rule bit_word_eqI)
  fix n assume eq: "ToHexString v = ToHexString w" and n: "n < LENGTH(64)"
  let ?i = "n div 4"
  have "?i \<in> set (rev [0..<16])" using n by simp
  with eq have "hex_digit (unat (take_bit 4 (drop_bit (4 * ?i) v))) = hex_digit (unat (take_bit 4 (drop_bit (4 * ?i) w)))"
    unfolding ToHexString_def map_eq_conv by blast
  then have "unat (take_bit 4 (drop_bit (4 * ?i) v)) = unat (take_bit 4 (drop_bit (4 * ?i) w))"
    by (intro hex_digit_inj take_bit_4_less)
  then have "take_bit 4 (drop_bit (4 * ?i) v) = take_bit 4 (drop_bit (4 * ?i) w)" by (rule unsigned_word_eqI)
  then have "bit (take_bit 4 (drop_bit (4 * ?i) v)) (n mod 4) = bit (take_bit 4 (drop_bit (4 * ?i) w)) (n mod 4)" by simp
  then show "bit v n = bit w n" by (simp add: bit_take_bit_iff bit_drop_bit_eq)
qed

text \<open>The scripts of a module as a run reads them.\<close>

definition loads :: "file_system \<Rightarrow> path \<Rightarrow> DatabaseConfig option \<Rightarrow> ModuleSpec \<Rightarrow> string list \<Rightarrow> bool" where
  "loads fs cwd config spec ts \<longleftrightarrow> list_all2 (\<lambda>p t. LoadScript fs cwd (msModule spec) p config = Inr t) (msManaged spec) ts"

lemma manifest_hash_fnv:
  "loads fs cwd config spec ts \<Longrightarrow>
   ComputeManifestHash fs cwd config spec = Inr (ToHexString (foldl fnv_step kInitialHash (manifest_bytes (msModule spec) (msManaged spec) ts)))"
  by (simp add: loads_def ComputeManifestHash_def manifest_loop_fnv manifest_bytes_def AppendHash_fnv)

lemma manifest_bytes_edit:
  assumes "length ps = length ts" and "k < length ts" and "ts ! k = u @ a # v"
  shows "\<exists>xs ys. manifest_bytes m ps ts = xs @ a # ys \<and> (\<forall>b. manifest_bytes m ps (ts[k := u @ b # v]) = xs @ b # ys)"
  using assms
proof (induction ps ts arbitrary: m k rule: list_induct2)
  case (Cons p ps t ts)
  show ?case
  proof (cases k)
    case 0
    then show ?thesis using Cons.prems
      by (intro exI [of _ "frame m @ frame (drop 1 (path_string p)) @ u"] exI [of _ "v @ [CHR 0xFF] @ concat (map (\<lambda>(p, t). frame (drop 1 (path_string p)) @ frame t) (zip ps ts))"])
        (simp add: manifest_bytes_def frame_def)
  next
    case (Suc j)
    with Cons.prems obtain xs ys where "manifest_bytes t ps ts = xs @ a # ys" "\<And>b. manifest_bytes t ps (ts[j := u @ b # v]) = xs @ b # ys"
      using Cons.IH [of j t] by auto
    then show ?thesis using Suc
      by (intro exI [of _ "frame m @ frame (drop 1 (path_string p)) @ xs"] exI [of _ ys]) (simp add: manifest_bytes_def)
  qed
qed simp

text \<open>
  The recorded hash is the iterated FNV-1a step over the module name and every path and text, each
  followed by the byte FF, printed as 16 digits; changing any one byte of any managed script changes
  it. (The step is a bijection of the state for each byte and the digits determine the value.)
\<close>

theorem manifest_detects_edit:
  assumes "loads fs cwd config spec ts" and "k < length ts" and "ts ! k = u @ a # v" and "a \<noteq> b"
    and "loads fs' cwd config spec (ts[k := u @ b # v])"
  shows "ComputeManifestHash fs cwd config spec \<noteq> ComputeManifestHash fs' cwd config spec"
proof -
  have "length (msManaged spec) = length ts" using assms(1) by (auto simp: loads_def dest: list_all2_lengthD)
  from manifest_bytes_edit [OF this assms(2,3), of "msModule spec"]
  obtain xs ys where "manifest_bytes (msModule spec) (msManaged spec) ts = xs @ a # ys"
    "manifest_bytes (msModule spec) (msManaged spec) (ts[k := u @ b # v]) = xs @ b # ys" by blast
  with manifest_hash_fnv [OF assms(1)] manifest_hash_fnv [OF assms(5)] fnv_edit [OF assms(4), of kInitialHash xs ys]
  show ?thesis by (auto dest: ToHexString_inj)
qed

definition one_script :: "string \<Rightarrow> file_system" where
  "one_script t p = (if p = [''M'', ''DB'', ''T.sql''] then Some t else None)"

definition one_spec :: ModuleSpec where
  "one_spec = \<lparr>msModule = ''M'', msTables = [[''T.sql'']], msManaged = [[''T.sql'']]\<rparr>"

lemma loads_one_script: "t \<noteq> [] \<Longrightarrow> length t < 3 \<Longrightarrow> loads (one_script t) [] None one_spec [t]"
  by (simp add: loads_def one_spec_def LoadScript_def ResolveScriptPath_def BuildVariantRelativePath_def
      TryResolveScriptPath_def eval_nat_numeral one_script_def ReadScriptText_def)

theorem manifest_detects_edit_witness:
  "ComputeManifestHash (one_script ''ab'') [] None one_spec \<noteq> ComputeManifestHash (one_script ''ac'') [] None one_spec"
  by (rule manifest_detects_edit [OF loads_one_script, of "''ab''" 0 "''a''" "CHR ''b''" "[]" "CHR ''c''" "one_script ''ac''"])
    (simp_all add: loads_one_script)

text \<open>
  The framing is not injective: a text that contains the byte FF is hashed as two strings, so two
  different manifests can have the same bytes. Valid UTF-8 never contains it.
\<close>

lemma frame_ambiguous: "frame (a @ CHR 0xFF # b) = frame a @ frame b"
  by (simp add: frame_def)

end
