(* ===== verification/Sql_Bootstrap.thy ===== *)
theory Sql_Bootstrap
  imports Sql_Script
begin

section \<open>Applying a module's tables once\<close>

text \<open>
  \<open>Database/SqlModuleBootstrap.h\<close>. Several server processes may start at the same time against one
  database; \<open>BootstrapModuleIfNeeded\<close> lets one of them create the tables of a module and records it in
  the table \<open>T_ModuleBootstrapState\<close>. A process is a sequence of statements; the processes interleave
  between statements, a statement may fail, with or without having taken effect, and a process may
  die between any two.

  The database is not part of the program: what its documentation says of the four statements on the
  state table (a primary key, errors for a missing table, a duplicate key and a table that exists) is
  written out below, and the texts of its errors are a parameter.
\<close>

subsection \<open>Errors of the database\<close>

definition IsMissingTableError :: "string \<Rightarrow> bool" where
  "IsMissingTableError e =
     (let m = ToLowerCopy e in
      str_find ''no such table'' m \<or> str_find (''doesn'' @ [CHR 0x27] @ ''t exist'') m \<or> str_find ''does not exist'' m \<or>
      str_find ''unknown table'' m \<or> str_find ''invalid object name'' m \<or> str_find ''base table or view not found'' m \<or>
      str_find ''table not found'' m)"

definition IsDuplicateKeyError :: "string \<Rightarrow> bool" where
  "IsDuplicateKeyError e =
     (let m = ToLowerCopy e in str_find ''duplicate'' m \<or> str_find ''unique constraint failed'' m)"

definition IsTableAlreadyExistsError :: "string \<Rightarrow> bool" where
  "IsTableAlreadyExistsError e =
     (let m = ToLowerCopy e in
      str_find ''already exists'' m \<or> str_find ''already an object named'' m \<or>
      str_find (''table '' @ [CHR 0x27] @ ''t_modulebootstrapstate'' @ [CHR 0x27] @ '' already exists'') m \<or>
      str_find (''relation '' @ [CHR 0x22] @ ''t_modulebootstrapstate'' @ [CHR 0x22] @ '' already exists'') m)"

subsection \<open>The database\<close>

record sql_texts =
  txMissing :: string
  txDuplicate :: string
  txExists :: string

text \<open>
  \<open>bdTable\<close> is the state table, if it exists: for each module its manifest hash and status. History:
  \<open>bdOwner\<close> is the process whose row a module has, \<open>bdLog\<close> the scripts that took effect, with their
  module and process.
\<close>

record boot_db =
  bdTable :: "(string \<Rightarrow> (string \<times> string) option) option"
  bdOwner :: "string \<Rightarrow> nat option"
  bdLog :: "(string \<times> nat \<times> string) list"

datatype outcome = Fine | Refused string | Lost string

definition perform :: "outcome \<Rightarrow> (string + 'a) \<times> boot_db \<Rightarrow> boot_db \<Rightarrow> (string + 'a) \<times> boot_db" where
  "perform out r db = (case out of Fine \<Rightarrow> r | Refused e \<Rightarrow> (Inl e, db) | Lost e \<Rightarrow> (Inl e, snd r))"

definition sql_create :: "sql_texts \<Rightarrow> boot_db \<Rightarrow> (string + unit) \<times> boot_db" where
  "sql_create tx db =
     (case bdTable db of
        None \<Rightarrow> (Inr (), db\<lparr>bdTable := Some (\<lambda>_. None)\<rparr>)
      | Some _ \<Rightarrow> (Inl (txExists tx), db))"

definition sql_select :: "sql_texts \<Rightarrow> string \<Rightarrow> boot_db \<Rightarrow> (string + (string \<times> string) option) \<times> boot_db" where
  "sql_select tx m db = (case bdTable db of None \<Rightarrow> (Inl (txMissing tx), db) | Some t \<Rightarrow> (Inr (t m), db))"

definition sql_insert :: "sql_texts \<Rightarrow> nat \<Rightarrow> string \<Rightarrow> string \<Rightarrow> string \<Rightarrow> boot_db \<Rightarrow> (string + unit) \<times> boot_db" where
  "sql_insert tx i m h st db =
     (case bdTable db of
        None \<Rightarrow> (Inl (txMissing tx), db)
      | Some t \<Rightarrow>
          if t m \<noteq> None then (Inl (txDuplicate tx), db)
          else (Inr (), db\<lparr>bdTable := Some (t(m := Some (h, st))), bdOwner := (bdOwner db)(m := Some i)\<rparr>))"

definition sql_update :: "sql_texts \<Rightarrow> string \<Rightarrow> string \<Rightarrow> string \<Rightarrow> boot_db \<Rightarrow> (string + unit) \<times> boot_db" where
  "sql_update tx m h st db =
     (case bdTable db of
        None \<Rightarrow> (Inl (txMissing tx), db)
      | Some t \<Rightarrow> (Inr (), if t m = None then db else db\<lparr>bdTable := Some (t(m := Some (h, st)))\<rparr>))"

definition sql_script :: "nat \<Rightarrow> string \<Rightarrow> string \<Rightarrow> boot_db \<Rightarrow> (string + unit) \<times> boot_db" where
  "sql_script i m q db = (Inr (), db\<lparr>bdLog := bdLog db @ [(m, i, q)]\<rparr>)"

subsection \<open>The start of a process\<close>

definition kBootstrapStatusInProgress :: string where "kBootstrapStatusInProgress = ''IN_PROGRESS''"
definition kBootstrapStatusCompleted :: string where "kBootstrapStatusCompleted = ''COMPLETED''"
definition kBootstrapStatusFailed :: string where "kBootstrapStatusFailed = ''FAILED''"

text \<open>What a process does the rest with: its module, manifest hash and table scripts as they load.\<close>

record boot_inst =
  biModule :: string
  biHash :: string
  biTexts :: "(string + string) list"

definition ValidateModuleSpec :: "ModuleSpec \<Rightarrow> string option" where
  "ValidateModuleSpec spec =
     (if msModule spec = [] then Some ''SQL module bootstrap requires a module name''
      else if msTables spec = [] then Some (''SQL module bootstrap requires at least one table script: '' @ msModule spec)
      else if msManaged spec = [] then Some (''SQL module bootstrap requires managed scripts: '' @ msModule spec)
      else None)"

definition table_texts :: "file_system \<Rightarrow> path \<Rightarrow> DatabaseConfig option \<Rightarrow> ModuleSpec \<Rightarrow> (string + string) list" where
  "table_texts fs cwd config spec = map (\<lambda>p. LoadScript fs cwd (msModule spec) p config) (msTables spec)"

definition BootstrapStart :: "file_system \<Rightarrow> path \<Rightarrow> DatabaseConfig \<Rightarrow> bool \<Rightarrow> ModuleSpec \<Rightarrow> string + boot_inst" where
  "BootstrapStart fs cwd config connected spec =
     (case ValidateModuleSpec spec of
        Some e \<Rightarrow> Inl e
      | None \<Rightarrow>
          if \<not> connected then Inl (''Cannot bootstrap SQL module on a disconnected database: '' @ msModule spec)
          else (case ComputeManifestHash fs cwd (Some config) spec of
                  Inl e \<Rightarrow> Inl e
                | Inr h \<Rightarrow> Inr \<lparr>biModule = msModule spec, biHash = h, biTexts = table_texts fs cwd (Some config) spec\<rparr>))"

text \<open>\<open>ExecuteBootstrapTables\<close>, all that is done on a mock database: the scripts up to the first that does not load.\<close>

fun ExecuteBootstrapTables :: "(string + string) list \<Rightarrow> string list \<times> string option" where
  "ExecuteBootstrapTables [] = ([], None)"
| "ExecuteBootstrapTables (Inl e # ts) = ([], Some e)"
| "ExecuteBootstrapTables (Inr q # ts) = (case ExecuteBootstrapTables ts of (qs, r) \<Rightarrow> (q # qs, r))"

subsection \<open>The statements of a process\<close>

datatype boot_pc =
    BConnect
  | BRead1
  | BCreate
  | BRead2
  | BInsert
  | BRace string
  | BScript nat
  | BFail string
  | BDone "string + bool"

text \<open>\<open>TryReadBootstrapState\<close>: \<open>Inr None\<close> when the table is missing, and then the row, if there is one.\<close>

definition TryReadBootstrapState :: "sql_texts \<Rightarrow> outcome \<Rightarrow> string \<Rightarrow> boot_db \<Rightarrow> string + (string \<times> string) option option" where
  "TryReadBootstrapState tx out m db =
     (case fst (perform out (sql_select tx m db) db) of
        Inr row \<Rightarrow> Inr (Some row)
      | Inl e \<Rightarrow> if IsMissingTableError e then Inr None else Inl e)"

definition decide :: "boot_inst \<Rightarrow> (string \<times> string) option \<Rightarrow> boot_pc" where
  "decide b row =
     (case row of
        None \<Rightarrow> BInsert
      | Some (h, st) \<Rightarrow>
          if st \<noteq> kBootstrapStatusCompleted
          then BDone (Inl (''SQL bootstrap state is not completed for module '' @ biModule b @ '' (status='' @ st @
            ''). Automatic patching is disabled after the first bootstrap.''))
          else if h \<noteq> biHash b
          then BDone (Inl (''SQL manifest changed for module '' @ biModule b @
            ''. Automatic patching is disabled after the first bootstrap.''))
          else BDone (Inr False))"

definition decide_race :: "boot_inst \<Rightarrow> string \<Rightarrow> (string \<times> string) option option \<Rightarrow> boot_pc" where
  "decide_race b e row =
     (case row of
        Some (Some (h, st)) \<Rightarrow>
          if st \<noteq> kBootstrapStatusCompleted
          then BDone (Inl (''Concurrent SQL bootstrap detected for module '' @ biModule b @
            '' but the state is not completed (status='' @ st @ '').''))
          else if h \<noteq> biHash b
          then BDone (Inl (''Concurrent SQL bootstrap detected with a different manifest for module '' @ biModule b @ ''.''))
          else BDone (Inr False)
      | _ \<Rightarrow> BDone (Inl e))"

text \<open>One statement of \<open>BootstrapModuleIfNeeded\<close>, from the connection on.\<close>

fun boot_next :: "sql_texts \<Rightarrow> nat \<Rightarrow> boot_inst \<Rightarrow> outcome \<Rightarrow> boot_pc \<Rightarrow> boot_db \<Rightarrow> boot_pc \<times> boot_db" where
  "boot_next tx i b out BConnect db =
     (case perform out (Inr (), db) db of (Inl e, _) \<Rightarrow> (BDone (Inl e), db) | (Inr _, _) \<Rightarrow> (BRead1, db))"
| "boot_next tx i b out BRead1 db =
     (case TryReadBootstrapState tx out (biModule b) db of
        Inl e \<Rightarrow> (BDone (Inl e), db) | Inr None \<Rightarrow> (BCreate, db) | Inr (Some row) \<Rightarrow> (decide b row, db))"
| "boot_next tx i b out BCreate db =
     (case perform out (sql_create tx db) db of
        (Inl e, db') \<Rightarrow> (if IsTableAlreadyExistsError e then BRead2 else BDone (Inl e), db')
      | (Inr _, db') \<Rightarrow> (BRead2, db'))"
| "boot_next tx i b out BRead2 db =
     (case TryReadBootstrapState tx out (biModule b) db of
        Inl e \<Rightarrow> (BDone (Inl e), db)
      | Inr None \<Rightarrow> (BDone (Inl (''Failed to load bootstrap state table for module: '' @ biModule b)), db)
      | Inr (Some row) \<Rightarrow> (decide b row, db))"
| "boot_next tx i b out BInsert db =
     (case perform out (sql_insert tx i (biModule b) (biHash b) kBootstrapStatusInProgress db) db of
        (Inl e, db') \<Rightarrow> (if IsDuplicateKeyError e then BRace e else BDone (Inl e), db')
      | (Inr _, db') \<Rightarrow> (BScript 0, db'))"
| "boot_next tx i b out (BRace e) db =
     (case TryReadBootstrapState tx out (biModule b) db of
        Inl e' \<Rightarrow> (BDone (Inl e'), db) | Inr row \<Rightarrow> (decide_race b e row, db))"
| "boot_next tx i b out (BScript k) db =
     (if k < length (biTexts b) then
        (case biTexts b ! k of
           Inl e \<Rightarrow> (BFail e, db)
         | Inr q \<Rightarrow>
             (case perform out (sql_script i (biModule b) q db) db of
                (Inl e, db') \<Rightarrow> (BFail e, db') | (Inr _, db') \<Rightarrow> (BScript (Suc k), db')))
      else
        (case perform out (sql_update tx (biModule b) (biHash b) kBootstrapStatusCompleted db) db of
           (Inl e, db') \<Rightarrow> (BFail e, db') | (Inr _, db') \<Rightarrow> (BDone (Inr True), db')))"
| "boot_next tx i b out (BFail e) db =
     (BDone (Inl e), snd (perform out (sql_update tx (biModule b) (biHash b) kBootstrapStatusFailed db) db))"
| "boot_next tx i b out (BDone r) db = (BDone r, db)"

subsection \<open>Many processes\<close>

text \<open>A process makes its next statement, or dies before its end.\<close>

fun is_done :: "boot_pc \<Rightarrow> bool" where
  "is_done (BDone r) = True"
| "is_done _ = False"

inductive boot_step :: "sql_texts \<Rightarrow> boot_inst list \<Rightarrow> boot_pc list \<times> boot_db \<Rightarrow> boot_pc list \<times> boot_db \<Rightarrow> bool"
  for tx bs where
  statement: "i < length bs \<Longrightarrow> boot_next tx i (bs ! i) out (pcs ! i) db = (pc, db') \<Longrightarrow>
    boot_step tx bs (pcs, db) (pcs[i := pc], db')"
| dies: "i < length bs \<Longrightarrow> \<not> is_done (pcs ! i) \<Longrightarrow> boot_step tx bs (pcs, db) (pcs[i := BDone (Inl ''process died'')], db)"

inductive boot_reach :: "sql_texts \<Rightarrow> boot_inst list \<Rightarrow> boot_pc list \<times> boot_db \<Rightarrow> bool"
  for tx bs where
  start: "boot_reach tx bs (map (\<lambda>_. BConnect) bs, \<lparr>bdTable = None, bdOwner = (\<lambda>_. None), bdLog = []\<rparr>)"
| later: "boot_reach tx bs s \<Longrightarrow> boot_step tx bs s s' \<Longrightarrow> boot_reach tx bs s'"

inductive_cases boot_stepE: "boot_step tx bs (pcs, db) s'"

subsection \<open>Who may apply the tables\<close>

definition row :: "boot_db \<Rightarrow> string \<Rightarrow> (string \<times> string) option" where
  "row db m = (case bdTable db of None \<Rightarrow> None | Some t \<Rightarrow> t m)"

text \<open>The scripts of a module that took effect.\<close>

definition entries :: "boot_db \<Rightarrow> string \<Rightarrow> (string \<times> nat \<times> string) list" where
  "entries db m = filter (\<lambda>x. fst x = m) (bdLog db)"

definition log_of :: "boot_db \<Rightarrow> string \<Rightarrow> (string + string) list" where
  "log_of db m = map (\<lambda>x. Inr (snd (snd x))) (entries db m)"

definition owned_ok :: "boot_inst list \<Rightarrow> boot_db \<Rightarrow> string \<Rightarrow> nat \<Rightarrow> bool" where
  "owned_ok bs db m j \<longleftrightarrow> j < length bs \<and> biModule (bs ! j) = m \<and> prefix (log_of db m) (biTexts (bs ! j)) \<and>
     (fst \<circ> snd) ` set (entries db m) \<subseteq> {j} \<and>
     (\<exists>st. row db m = Some (biHash (bs ! j), st) \<and> (st = kBootstrapStatusCompleted \<longrightarrow> log_of db m = biTexts (bs ! j)))"

definition db_ok :: "boot_inst list \<Rightarrow> boot_db \<Rightarrow> bool" where
  "db_ok bs db \<longleftrightarrow> (\<forall>m. case bdOwner db m of None \<Rightarrow> row db m = None \<and> log_of db m = [] | Some j \<Rightarrow> owned_ok bs db m j)"

text \<open>The module's tables are there, applied by a process with the same manifest.\<close>

definition applied :: "boot_inst list \<Rightarrow> boot_db \<Rightarrow> nat \<Rightarrow> bool" where
  "applied bs db i \<longleftrightarrow> (\<exists>j. bdOwner db (biModule (bs ! i)) = Some j \<and> biHash (bs ! j) = biHash (bs ! i) \<and>
     log_of db (biModule (bs ! i)) = biTexts (bs ! j))"

fun pc_ok :: "boot_inst list \<Rightarrow> boot_db \<Rightarrow> nat \<Rightarrow> boot_pc \<Rightarrow> bool" where
  "pc_ok bs db i (BScript k) \<longleftrightarrow> bdOwner db (biModule (bs ! i)) = Some i \<and> k \<le> length (biTexts (bs ! i)) \<and>
     log_of db (biModule (bs ! i)) = take k (biTexts (bs ! i)) \<and>
     (\<exists>h. row db (biModule (bs ! i)) = Some (h, kBootstrapStatusInProgress))"
| "pc_ok bs db i (BFail e) \<longleftrightarrow> bdOwner db (biModule (bs ! i)) = Some i"
| "pc_ok bs db i (BDone (Inr r)) \<longleftrightarrow> applied bs db i"
| "pc_ok bs db i _ \<longleftrightarrow> True"

text \<open>What a statement can do to the database.\<close>

datatype effect = ENone | EInsert | ELog string | EStatus string

fun has_effect :: "boot_inst \<Rightarrow> nat \<Rightarrow> effect \<Rightarrow> boot_db \<Rightarrow> boot_db \<Rightarrow> bool" where
  "has_effect b i ENone db db' \<longleftrightarrow> row db' = row db \<and> bdOwner db' = bdOwner db \<and> bdLog db' = bdLog db"
| "has_effect b i EInsert db db' \<longleftrightarrow> row db (biModule b) = None \<and> row db' = (row db)(biModule b := Some (biHash b, kBootstrapStatusInProgress)) \<and>
     bdOwner db' = (bdOwner db)(biModule b := Some i) \<and> bdLog db' = bdLog db"
| "has_effect b i (ELog q) db db' \<longleftrightarrow> row db' = row db \<and> bdOwner db' = bdOwner db \<and> bdLog db' = bdLog db @ [(biModule b, i, q)]"
| "has_effect b i (EStatus st) db db' \<longleftrightarrow> row db' = (row db)(biModule b := Some (biHash b, st)) \<and> bdOwner db' = bdOwner db \<and> bdLog db' = bdLog db"

text \<open>Which effects a process may have where it is.\<close>

fun may :: "boot_inst \<Rightarrow> boot_pc \<Rightarrow> effect \<Rightarrow> boot_pc \<Rightarrow> bool" where
  "may b (BScript k) ENone pc \<longleftrightarrow> (\<exists>e. pc = BFail e)"
| "may b (BScript k) (ELog q) pc \<longleftrightarrow> k < length (biTexts b) \<and> biTexts b ! k = Inr q \<and> (pc = BScript (Suc k) \<or> (\<exists>e. pc = BFail e))"
| "may b (BScript k) (EStatus st) pc \<longleftrightarrow> length (biTexts b) \<le> k \<and> st = kBootstrapStatusCompleted \<and> (pc = BDone (Inr True) \<or> (\<exists>e. pc = BFail e))"
| "may b (BScript k) EInsert pc \<longleftrightarrow> False"
| "may b (BFail e) ef pc \<longleftrightarrow> (ef = ENone \<or> ef = EStatus kBootstrapStatusFailed) \<and> pc = BDone (Inl e)"
| "may b BInsert ef pc \<longleftrightarrow> (ef = ENone \<and> (\<exists>e. pc = BRace e \<or> pc = BDone (Inl e)) \<or>
     ef = EInsert \<and> (pc = BScript 0 \<or> (\<exists>e. pc = BRace e \<or> pc = BDone (Inl e))))"
| "may b (BDone r) ef pc \<longleftrightarrow> ef = ENone \<and> pc = BDone r"
| "may b _ ef pc \<longleftrightarrow> ef = ENone"

lemma row_simps [simp]:
  "row (db\<lparr>bdTable := Some t\<rparr>) = t" "row (db\<lparr>bdOwner := w\<rparr>) = row db" "row (db\<lparr>bdLog := l\<rparr>) = row db"
  by (simp_all add: row_def fun_eq_iff)

lemma row_table: "bdTable db = Some t \<Longrightarrow> row db = t" "bdTable db = None \<Longrightarrow> row db = (\<lambda>_. None)"
  by (simp_all add: row_def fun_eq_iff)

lemma row_create: "row (snd (sql_create tx db)) = row db" "bdOwner (snd (sql_create tx db)) = bdOwner db" "bdLog (snd (sql_create tx db)) = bdLog db"
  by (simp_all add: sql_create_def row_table split: option.split)

lemma perform_cases:
  assumes "perform out r db = (x, db')"
  obtains (none) e where "x = Inl e" "db' = db" | (performed) "x = fst r \<or> (\<exists>e. x = Inl e)" "db' = snd r"
proof (cases out)
  case Fine
  then show ?thesis using assms by (intro performed) (simp_all add: perform_def)
next
  case (Refused e)
  then show ?thesis using assms by (intro none) (auto simp: perform_def)
next
  case (Lost e)
  then show ?thesis using assms by (intro performed) (auto simp: perform_def)
qed

lemma insert_effect: "has_effect b i ENone db (snd (sql_insert tx i (biModule b) (biHash b) kBootstrapStatusInProgress db)) \<and>
    (\<exists>e. fst (sql_insert tx i (biModule b) (biHash b) kBootstrapStatusInProgress db) = Inl e) \<or>
  has_effect b i EInsert db (snd (sql_insert tx i (biModule b) (biHash b) kBootstrapStatusInProgress db))"
proof (cases "bdTable db")
  case (Some t)
  then show ?thesis by (cases "t (biModule b)") (simp_all add: sql_insert_def row_table)
qed (simp add: sql_insert_def row_table)

lemma update_effect:
  assumes "row db (biModule b) \<noteq> None"
  shows "has_effect b i (EStatus st) db (snd (sql_update tx (biModule b) (biHash b) st db)) \<and>
    fst (sql_update tx (biModule b) (biHash b) st db) = Inr ()"
proof (cases "bdTable db")
  case (Some t)
  then obtain r where "t (biModule b) = Some r" using assms by (auto simp: row_table)
  then show ?thesis using Some by (simp add: sql_update_def row_table)
qed (use assms in \<open>simp add: row_table\<close>)

lemma script_effect: "has_effect b i (ELog q) db (snd (sql_script i (biModule b) q db)) \<and> fst (sql_script i (biModule b) q db) = Inr ()"
  by (simp add: sql_script_def)

lemma no_effect [simp]: "has_effect b i ENone db db"
  by simp

lemma next_effect:
  assumes "boot_next tx i b out pc db = (pc', db')" and "(\<exists>k. pc = BScript k) \<or> (\<exists>e. pc = BFail e) \<Longrightarrow> row db (biModule b) \<noteq> None"
  shows "\<exists>ef. has_effect b i ef db db' \<and> may b pc ef pc'"
proof (cases pc)
  case BCreate
  obtain x d where p: "perform out (sql_create tx db) db = (x, d)" by force
  then have "has_effect b i ENone db d" by (cases rule: perform_cases) (auto simp: row_create)
  moreover have "db' = d" using assms(1) p BCreate by (auto split: sum.splits)
  ultimately show ?thesis using BCreate by (intro exI [of _ ENone]) simp
next
  case BInsert
  let ?r = "sql_insert tx i (biModule b) (biHash b) kBootstrapStatusInProgress db"
  obtain x d where p: "perform out ?r db = (x, d)" by force
  have pc: "db' = d" "\<exists>e. x = Inl e \<Longrightarrow> \<exists>e. pc' = BRace e \<or> pc' = BDone (Inl e)" "x = Inr () \<Longrightarrow> pc' = BScript 0"
    using assms(1) p BInsert by (auto split: sum.splits if_splits)
  from p show ?thesis
  proof (cases rule: perform_cases)
    case none
    then show ?thesis using pc BInsert by (intro exI [of _ ENone]) simp
  next
    case performed
    from insert_effect [of b i db tx] show ?thesis
    proof
      assume "has_effect b i ENone db (snd ?r) \<and> (\<exists>e. fst ?r = Inl e)"
      then show ?thesis using pc(1,2) performed BInsert by (intro exI [of _ ENone]) auto
    next
      assume e: "has_effect b i EInsert db (snd ?r)"
      have "may b pc EInsert pc'" using pc(2,3) BInsert by (cases x) auto
      then show ?thesis using e pc(1) performed by blast
    qed
  qed
next
  case (BScript k)
  have ne: "row db (biModule b) \<noteq> None" using assms(2) BScript by blast
  show ?thesis
  proof (cases "k < length (biTexts b)")
    case k: True
    show ?thesis
    proof (cases "biTexts b ! k")
      case (Inl e)
      then show ?thesis using assms(1) BScript k by (intro exI [of _ ENone]) auto
    next
      case (Inr q)
      obtain x d where p: "perform out (sql_script i (biModule b) q db) db = (x, d)" by force
      have pc: "db' = d" "pc' = BScript (Suc k) \<or> (\<exists>e. pc' = BFail e)" "\<exists>e. x = Inl e \<Longrightarrow> \<exists>e. pc' = BFail e"
        using assms(1) p BScript Inr k by (auto split: sum.splits)
      from p show ?thesis
      proof (cases rule: perform_cases)
        case none
        then show ?thesis using pc BScript by (intro exI [of _ ENone]) auto
      next
        case performed
        then show ?thesis using pc(1,2) BScript k Inr script_effect [of b i q db] by (intro exI [of _ "ELog q"]) auto
      qed
    qed
  next
    case k: False
    let ?r = "sql_update tx (biModule b) (biHash b) kBootstrapStatusCompleted db"
    obtain x d where p: "perform out ?r db = (x, d)" by force
    have pc: "db' = d" "pc' = BDone (Inr True) \<or> (\<exists>e. pc' = BFail e)" "\<exists>e. x = Inl e \<Longrightarrow> \<exists>e. pc' = BFail e"
      using assms(1) p BScript k by (auto split: sum.splits)
    from p show ?thesis
    proof (cases rule: perform_cases)
      case none
      then show ?thesis using pc BScript by (intro exI [of _ ENone]) auto
    next
      case performed
      then show ?thesis using pc(1,2) BScript k update_effect [OF ne, of i kBootstrapStatusCompleted tx]
        by (intro exI [of _ "EStatus kBootstrapStatusCompleted"]) auto
    qed
  qed
next
  case (BFail e)
  have ne: "row db (biModule b) \<noteq> None" using assms(2) BFail by blast
  obtain x d where p: "perform out (sql_update tx (biModule b) (biHash b) kBootstrapStatusFailed db) db = (x, d)" by force
  have pc: "db' = d" "pc' = BDone (Inl e)" using assms(1) p BFail by auto
  from p show ?thesis
  proof (cases rule: perform_cases)
    case none
    then show ?thesis using pc BFail by (intro exI [of _ ENone]) auto
  next
    case performed
    then show ?thesis using pc BFail update_effect [OF ne, of i kBootstrapStatusFailed tx]
      by (intro exI [of _ "EStatus kBootstrapStatusFailed"]) auto
  qed
qed (use assms(1) in \<open>auto intro!: exI [of _ ENone] split: sum.splits option.splits prod.splits\<close>)

text \<open>A process that reads decides from the row of its module.\<close>

lemma read_row: "TryReadBootstrapState tx out m db = Inr (Some r) \<Longrightarrow> r = row db m"
  by (auto simp: TryReadBootstrapState_def perform_def sql_select_def row_def split: outcome.splits option.splits sum.splits if_splits)

fun reading :: "boot_pc \<Rightarrow> bool" where
  "reading (BScript k) = False"
| "reading (BFail e) = False"
| "reading BInsert = False"
| "reading (BDone r) = False"
| "reading _ = True"

lemma decide_pc:
  "decide b r \<noteq> BScript k" "decide b r \<noteq> BFail e" "decide_race b e' r' \<noteq> BScript k" "decide_race b e' r' \<noteq> BFail e"
  "decide b r = BDone (Inr x) \<Longrightarrow> r = Some (biHash b, kBootstrapStatusCompleted)"
  "decide_race b e' r' = BDone (Inr x) \<Longrightarrow> r' = Some (Some (biHash b, kBootstrapStatusCompleted))"
  by (auto simp: decide_def decide_race_def split: option.splits prod.splits if_splits)

lemma reading_next:
  assumes "boot_next tx i b out pc db = (pc', db')" and "reading pc"
  shows "(\<forall>k. pc' \<noteq> BScript k) \<and> (\<forall>e. pc' \<noteq> BFail e) \<and>
    (\<forall>x. pc' = BDone (Inr x) \<longrightarrow> row db (biModule b) = Some (biHash b, kBootstrapStatusCompleted))"
  using assms decide_pc read_row
  by (cases pc) (auto split: sum.splits option.splits prod.splits if_splits dest!: decide_pc(5,6) read_row)

text \<open>The invariant looks at one module at a time.\<close>

definition same_at :: "string \<Rightarrow> boot_db \<Rightarrow> boot_db \<Rightarrow> bool" where
  "same_at m db db' \<longleftrightarrow> row db' m = row db m \<and> bdOwner db' m = bdOwner db m \<and> entries db' m = entries db m"

lemma owned_ok_same: "same_at m db db' \<Longrightarrow> owned_ok bs db' m j = owned_ok bs db m j"
  by (simp add: same_at_def owned_ok_def log_of_def)

lemma pc_ok_same: "same_at (biModule (bs ! j)) db db' \<Longrightarrow> pc_ok bs db' j pc = pc_ok bs db j pc"
  by (cases "(bs, db, j, pc)" rule: pc_ok.cases) (simp_all add: same_at_def applied_def log_of_def)

lemma db_ok_change:
  assumes "db_ok bs db" and "\<And>m'. m' \<noteq> m \<Longrightarrow> same_at m' db db'" and "bdOwner db' m = Some j" and "owned_ok bs db' m j"
  shows "db_ok bs db'"
  unfolding db_ok_def
proof
  fix m'
  show "case bdOwner db' m' of None \<Rightarrow> row db' m' = None \<and> log_of db' m' = [] | Some j \<Rightarrow> owned_ok bs db' m' j"
  proof (cases "m' = m")
    case False
    have "case bdOwner db m' of None \<Rightarrow> row db m' = None \<and> log_of db m' = [] | Some j \<Rightarrow> owned_ok bs db m' j"
      using assms(1) unfolding db_ok_def by blast
    then show ?thesis using assms(2) [OF False] owned_ok_same [OF assms(2) [OF False]]
      by (cases "bdOwner db m'") (simp_all add: same_at_def log_of_def)
  qed (use assms(3,4) in simp)
qed

lemma db_ok_same:
  assumes "db_ok bs db" and "\<And>m. same_at m db db'"
  shows "db_ok bs db'"
  unfolding db_ok_def
proof
  fix m
  have "case bdOwner db m of None \<Rightarrow> row db m = None \<and> log_of db m = [] | Some j \<Rightarrow> owned_ok bs db m j"
    using assms(1) unfolding db_ok_def by blast
  then show "case bdOwner db' m of None \<Rightarrow> row db' m = None \<and> log_of db' m = [] | Some j \<Rightarrow> owned_ok bs db' m j"
    using assms(2) [of m] owned_ok_same [OF assms(2) [of m]] by (cases "bdOwner db m") (simp_all add: same_at_def log_of_def)
qed

lemma effect_elsewhere: "has_effect b i ef db db' \<Longrightarrow> m' \<noteq> biModule b \<Longrightarrow> same_at m' db db'"
  by (cases ef) (auto simp: same_at_def entries_def)

lemma db_ok_row: "db_ok bs db \<Longrightarrow> row db m = Some r \<Longrightarrow> \<exists>j. bdOwner db m = Some j \<and> owned_ok bs db m j"
  by (drule spec [where x = m, OF db_ok_def [THEN iffD1]]) (auto split: option.splits)

lemma db_ok_owner: "db_ok bs db \<Longrightarrow> bdOwner db m = Some j \<Longrightarrow> owned_ok bs db m j"
  by (drule spec [where x = m, OF db_ok_def [THEN iffD1]]) auto

lemma db_ok_none: "db_ok bs db \<Longrightarrow> row db m = None \<Longrightarrow> bdOwner db m = None \<and> entries db m = []"
  by (drule spec [where x = m, OF db_ok_def [THEN iffD1]]) (auto simp: owned_ok_def log_of_def split: option.splits)

lemma completed_applied:
  assumes "db_ok bs db" and "row db (biModule (bs ! i)) = Some (biHash (bs ! i), kBootstrapStatusCompleted)"
  shows "applied bs db i"
  using db_ok_row [OF assms] assms(2) by (auto simp: owned_ok_def applied_def)

definition boot_inv :: "boot_inst list \<Rightarrow> boot_pc list \<times> boot_db \<Rightarrow> bool" where
  "boot_inv bs s \<longleftrightarrow> (case s of (pcs, db) \<Rightarrow> length pcs = length bs \<and> db_ok bs db \<and> (\<forall>i < length bs. pc_ok bs db i (pcs ! i)))"

text \<open>A statement keeps the database as it should be, the other processes as they are, and its own.\<close>

lemma pc_ok_others:
  assumes "has_effect (bs ! i) i ef db db'" and "may (bs ! i) pc ef pc'" and "pc_ok bs db i pc" and "db_ok bs db" and "j \<noteq> i" and "pc_ok bs db j q"
  shows "pc_ok bs db' j q"
proof (cases "biModule (bs ! j) = biModule (bs ! i)")
  case False
  then show ?thesis using assms(1,6) pc_ok_same effect_elsewhere by blast
next
  case True
  show ?thesis
  proof (cases ef)
    case ENone
    then have "same_at (biModule (bs ! j)) db db'" using assms(1) by (simp add: same_at_def entries_def)
    then show ?thesis using assms(6) pc_ok_same by blast
  next
    case EInsert
    then have "bdOwner db (biModule (bs ! i)) = None" using assms(1,4) db_ok_none by simp
    then show ?thesis using assms(6) True by (cases "(bs, db, j, q)" rule: pc_ok.cases) (simp_all add: applied_def)
  next
    case (ELog t)
    with assms(2) obtain k where k: "pc = BScript k" "k < length (biTexts (bs ! i))" by (cases pc) auto
    with assms(3) have "bdOwner db (biModule (bs ! i)) = Some i" "log_of db (biModule (bs ! i)) \<noteq> biTexts (bs ! i)" by auto
    then show ?thesis using assms(5,6) True by (cases "(bs, db, j, q)" rule: pc_ok.cases) (simp_all add: applied_def)
  next
    case (EStatus st)
    with assms(2,3) have o: "bdOwner db (biModule (bs ! i)) = Some i" by (cases pc) auto
    have "entries db' = entries db" "bdOwner db' = bdOwner db" using assms(1) EStatus by (simp_all add: entries_def fun_eq_iff)
    then show ?thesis using assms(5,6) True o by (cases "(bs, db, j, q)" rule: pc_ok.cases) (simp_all add: applied_def log_of_def)
  qed
qed

lemma db_ok_effect:
  assumes "has_effect (bs ! i) i ef db db'" and "may (bs ! i) pc ef pc'" and "pc_ok bs db i pc" and "db_ok bs db" and "i < length bs"
  shows "db_ok bs db'"
proof -
  let ?m = "biModule (bs ! i)"
  have other: "\<And>m'. m' \<noteq> ?m \<Longrightarrow> same_at m' db db'" using assms(1) effect_elsewhere by blast
  show ?thesis
  proof (cases ef)
    case ENone
    then show ?thesis using db_ok_same [OF assms(4), of db'] assms(1) by (simp add: same_at_def entries_def)
  next
    case EInsert
    then have "entries db ?m = []" using assms(1,4) db_ok_none by simp
    then have "owned_ok bs db' ?m i" "bdOwner db' ?m = Some i" using EInsert assms(1,5)
      by (simp_all add: owned_ok_def log_of_def entries_def kBootstrapStatusCompleted_def kBootstrapStatusInProgress_def)
    then show ?thesis using db_ok_change [OF assms(4) other] by blast
  next
    case (ELog q)
    with assms(2) obtain k where k: "pc = BScript k" "k < length (biTexts (bs ! i))" "biTexts (bs ! i) ! k = Inr q" by (cases pc) auto
    with assms(3) obtain h where o: "bdOwner db ?m = Some i" "log_of db ?m = take k (biTexts (bs ! i))" "row db ?m = Some (h, kBootstrapStatusInProgress)" by auto
    have "log_of db' ?m = take (Suc k) (biTexts (bs ! i))"
      using o(2) k assms(1) ELog by (simp add: log_of_def entries_def take_Suc_conv_app_nth)
    moreover have "owned_ok bs db ?m i" using db_ok_owner [OF assms(4) o(1)] .
    ultimately have "owned_ok bs db' ?m i" using o(3) assms(1) ELog
      by (simp add: owned_ok_def entries_def take_is_prefix kBootstrapStatusCompleted_def kBootstrapStatusInProgress_def)
    then show ?thesis using db_ok_change [OF assms(4) other] o(1) assms(1) ELog by simp
  next
    case (EStatus st)
    with assms(2,3) have o: "bdOwner db ?m = Some i" by (cases pc) auto
    have same: "entries db' = entries db" "bdOwner db' = bdOwner db" "row db' ?m = Some (biHash (bs ! i), st)"
      using assms(1) EStatus by (simp_all add: entries_def fun_eq_iff)
    have "log_of db ?m = biTexts (bs ! i)" if "st = kBootstrapStatusCompleted"
      using assms(2,3) EStatus that by (cases pc) (auto simp: kBootstrapStatusFailed_def kBootstrapStatusCompleted_def)
    then have "owned_ok bs db' ?m i" using db_ok_owner [OF assms(4) o] same by (auto simp: owned_ok_def log_of_def)
    then show ?thesis using db_ok_change [OF assms(4) other] o same by simp
  qed
qed

lemma pc_ok_own:
  assumes "boot_next tx i (bs ! i) out pc db = (pc', db')" and "has_effect (bs ! i) i ef db db'" and "may (bs ! i) pc ef pc'"
    and "pc_ok bs db i pc" and "db_ok bs db"
  shows "pc_ok bs db' i pc'"
proof (cases "reading pc")
  case True
  from reading_next [OF assms(1) True]
  have n: "\<And>k. pc' \<noteq> BScript k" "\<And>e. pc' \<noteq> BFail e" "\<And>x. pc' = BDone (Inr x) \<Longrightarrow> applied bs db i"
    using completed_applied [OF assms(5)] by blast+
  have "ef = ENone" using assms(3) True by (cases pc) auto
  then have "same_at (biModule (bs ! i)) db db'" using assms(2) by (simp add: same_at_def entries_def)
  moreover have "pc_ok bs db i pc'" using n by (cases "(bs, db, i, pc')" rule: pc_ok.cases) auto
  ultimately show ?thesis using pc_ok_same by blast
next
  case False
  show ?thesis
  proof (cases pc)
    case (BScript k)
    with assms(4) have o: "bdOwner db (biModule (bs ! i)) = Some i" "log_of db (biModule (bs ! i)) = take k (biTexts (bs ! i))"
      "\<exists>h. row db (biModule (bs ! i)) = Some (h, kBootstrapStatusInProgress)" by auto
    show ?thesis using assms(2,3) o BScript
      by (cases ef) (auto simp: log_of_def entries_def take_Suc_conv_app_nth applied_def)
  next
    case BInsert
    then have "entries db (biModule (bs ! i)) = []" if "ef = EInsert" using that assms(2,5) db_ok_none by simp
    then show ?thesis using assms(2,3) BInsert by (cases ef) (auto simp: log_of_def entries_def)
  next
    case (BDone r)
    then have "same_at (biModule (bs ! i)) db db'" "pc' = pc" using assms(2,3) by (simp_all add: same_at_def entries_def)
    then show ?thesis using assms(4) pc_ok_same by blast
  qed (use False assms(3) in auto)
qed

lemma boot_inv_step:
  assumes "boot_inv bs s" and "boot_step tx bs s s'"
  shows "boot_inv bs s'"
  using assms(2,1)
proof (induction rule: boot_step.induct)
  case (statement i out pcs db pc db')
  then have inv: "length pcs = length bs" "db_ok bs db" "\<And>j. j < length bs \<Longrightarrow> pc_ok bs db j (pcs ! j)" by (auto simp: boot_inv_def)
  have ok: "pc_ok bs db i (pcs ! i)" using inv(3) statement(1) .
  have "row db (biModule (bs ! i)) \<noteq> None" if "(\<exists>k. pcs ! i = BScript k) \<or> (\<exists>e. pcs ! i = BFail e)"
  proof -
    have "bdOwner db (biModule (bs ! i)) = Some i" using ok that by auto
    from db_ok_owner [OF inv(2) this] show ?thesis by (auto simp: owned_ok_def)
  qed
  from next_effect [OF statement(2) this] obtain ef where ef: "has_effect (bs ! i) i ef db db'" "may (bs ! i) (pcs ! i) ef pc" by blast
  have "pc_ok bs db' j (pcs[i := pc] ! j)" if "j < length bs" for j
    using pc_ok_own [OF statement(2) ef ok inv(2)] pc_ok_others [OF ef ok inv(2)] inv(1,3) that statement(1)
    by (cases "j = i") simp_all
  then show ?case using db_ok_effect [OF ef ok inv(2) statement(1)] inv(1) by (simp add: boot_inv_def)
next
  case (dies i pcs db)
  then show ?case by (auto simp: boot_inv_def nth_list_update)
qed

lemma boot_inv_reach: "boot_reach tx bs s \<Longrightarrow> boot_inv bs s"
proof (induction rule: boot_reach.induct)
  case start
  show ?case by (simp add: boot_inv_def db_ok_def row_def log_of_def entries_def)
next
  case (later s s')
  then show ?case using boot_inv_step by blast
qed

text \<open>
  C23: At most one process applies the tables of a module. Whatever the interleaving, the errors and the
  deaths of processes, the scripts that took effect for a module all come from one process, in the
  order of its list, each once.
\<close>

theorem boot_once:
  assumes "boot_reach tx bs (pcs, db)" and "log_of db m \<noteq> []"
  shows "\<exists>j < length bs. biModule (bs ! j) = m \<and> prefix (log_of db m) (biTexts (bs ! j)) \<and>
    (fst \<circ> snd) ` set (entries db m) = {j}"
proof -
  have ok: "db_ok bs db" using boot_inv_reach [OF assms(1)] by (simp add: boot_inv_def)
  from db_ok_none [OF ok, of m] assms(2) obtain r where "row db m = Some r" by (cases "row db m") (auto simp: log_of_def)
  from db_ok_row [OF ok this] obtain j where "owned_ok bs db m j" by blast
  moreover have "(fst \<circ> snd) ` set (entries db m) \<noteq> {}" using assms(2) by (simp add: log_of_def)
  ultimately show ?thesis by (intro exI [of _ j]) (simp add: owned_ok_def subset_singleton_iff)
qed

text \<open>
  Success means that the tables are there. When \<open>BootstrapModuleIfNeeded\<close> has returned in a process,
  with true or false, a process with the same manifest hash has applied all of its table scripts.
\<close>

theorem boot_success_applied:
  assumes "boot_reach tx bs (pcs, db)" and "i < length bs" and "pcs ! i = BDone (Inr r)"
  shows "\<exists>j < length bs. biModule (bs ! j) = biModule (bs ! i) \<and> biHash (bs ! j) = biHash (bs ! i) \<and>
    log_of db (biModule (bs ! i)) = biTexts (bs ! j)"
proof -
  have inv: "boot_inv bs (pcs, db)" by (rule boot_inv_reach [OF assms(1)])
  then have "applied bs db i" using assms(2,3) by (auto simp: boot_inv_def)
  then obtain j where j: "bdOwner db (biModule (bs ! i)) = Some j" "biHash (bs ! j) = biHash (bs ! i)"
    "log_of db (biModule (bs ! i)) = biTexts (bs ! j)" by (auto simp: applied_def)
  from inv have "db_ok bs db" by (simp add: boot_inv_def)
  from db_ok_owner [OF this j(1)] j show ?thesis by (intro exI [of _ j]) (simp add: owned_ok_def)
qed

subsection \<open>A process ends\<close>

fun boot_rank :: "boot_inst \<Rightarrow> boot_pc \<Rightarrow> nat" where
  "boot_rank b BConnect = length (biTexts b) + 7"
| "boot_rank b BRead1 = length (biTexts b) + 6"
| "boot_rank b BCreate = length (biTexts b) + 5"
| "boot_rank b BRead2 = length (biTexts b) + 4"
| "boot_rank b BInsert = length (biTexts b) + 3"
| "boot_rank b (BScript k) = length (biTexts b) - k + 2"
| "boot_rank b (BRace e) = 1"
| "boot_rank b (BFail e) = 1"
| "boot_rank b (BDone r) = 0"

lemma boot_rank_decide: "boot_rank b (decide b r) \<le> length (biTexts b) + 3" "boot_rank b (decide_race b e r') = 0"
  by (auto simp: decide_def decide_race_def split: option.split prod.split)

lemma boot_rank_next: "\<not> is_done pc \<Longrightarrow> boot_rank b (fst (boot_next tx i b out pc db)) < boot_rank b pc"
  by (cases pc) (simp_all add: boot_rank_decide(2) le_less_trans [OF boot_rank_decide(1)] diff_less_mono2 split: prod.split sum.split option.split)

text \<open>The statements of one process, each with its outcome and the database as the others have left it.\<close>

fun boot_pcs :: "sql_texts \<Rightarrow> nat \<Rightarrow> boot_inst \<Rightarrow> (outcome \<times> boot_db) list \<Rightarrow> boot_pc \<Rightarrow> boot_pc" where
  "boot_pcs tx i b [] pc = pc"
| "boot_pcs tx i b ((out, db) # ws) pc = boot_pcs tx i b ws (fst (boot_next tx i b out pc db))"

lemma boot_pcs_done: "is_done pc \<Longrightarrow> boot_pcs tx i b ws pc = pc"
  by (induction ws) (cases pc, auto)+

lemma boot_pcs_rank: "boot_rank b pc \<le> length ws \<Longrightarrow> is_done (boot_pcs tx i b ws pc)"
proof (induction ws arbitrary: pc)
  case Nil
  then show ?case by (cases pc) auto
next
  case (Cons w ws)
  obtain out db where w: "w = (out, db)" by force
  show ?case
  proof (cases "is_done pc")
    case True
    then show ?thesis by (simp add: boot_pcs_done)
  next
    case False
    from boot_rank_next [OF this, of b tx i out db] Cons show ?thesis by (simp add: w)
  qed
qed

text \<open>
  C39: A process ends: after at most seven statements more than it has table scripts it has returned or
  thrown, whatever the outcomes of its statements and whatever other processes do in between.
\<close>

theorem boot_terminates:
  "length (biTexts b) + 7 \<le> length ws \<Longrightarrow> is_done (boot_pcs tx i b ws BConnect)"
  by (rule boot_pcs_rank) simp

subsection \<open>The first start\<close>

fun boot_alone :: "sql_texts \<Rightarrow> nat \<Rightarrow> boot_inst \<Rightarrow> nat \<Rightarrow> boot_pc \<times> boot_db \<Rightarrow> boot_pc \<times> boot_db" where
  "boot_alone tx i b 0 s = s"
| "boot_alone tx i b (Suc n) s = boot_alone tx i b n (boot_next tx i b Fine (fst s) (snd s))"

lemma boot_alone_add: "boot_alone tx i b (m + n) s = boot_alone tx i b n (boot_alone tx i b m s)"
  by (induction m arbitrary: s) simp_all

lemma boot_alone_scripts:
  assumes "biTexts b = map Inr qs" and "k + n \<le> length qs"
  shows "boot_alone tx i b n (BScript k, db) =
    (BScript (k + n), db\<lparr>bdLog := bdLog db @ map (\<lambda>q. (biModule b, i, q)) (take n (drop k qs))\<rparr>)"
  using assms(2)
proof (induction n arbitrary: k db)
  case (Suc n)
  then have "drop k qs = qs ! k # drop (Suc k) qs" by (simp add: Cons_nth_drop_Suc)
  then show ?case using Suc assms(1) by (simp add: perform_def sql_script_def)
qed simp

definition empty_db :: boot_db where
  "empty_db = \<lparr>bdTable = None, bdOwner = (\<lambda>_. None), bdLog = []\<rparr>"

definition applied_db :: "nat \<Rightarrow> boot_inst \<Rightarrow> string list \<Rightarrow> boot_db" where
  "applied_db i b qs = \<lparr>bdTable = Some ((\<lambda>_. None)(biModule b := Some (biHash b, kBootstrapStatusCompleted))),
     bdOwner = (\<lambda>_. None)(biModule b := Some i), bdLog = map (\<lambda>q. (biModule b, i, q)) qs\<rparr>"

lemma boot_first_start_aux:
  assumes "IsMissingTableError (txMissing tx)" and "biTexts b = map Inr qs"
  shows "boot_alone tx i b (length qs + 6) (BConnect, empty_db) = (BDone (Inr True), applied_db i b qs)"
proof -
  let ?db0 = "\<lparr>bdTable = Some ((\<lambda>_. None)(biModule b := Some (biHash b, kBootstrapStatusInProgress))),
    bdOwner = (\<lambda>_. None)(biModule b := Some i), bdLog = []\<rparr>"
  have "boot_alone tx i b 5 (BConnect, empty_db) = (BScript 0, ?db0)"
    using assms(1) by (simp add: eval_nat_numeral empty_db_def perform_def TryReadBootstrapState_def sql_select_def
        sql_create_def sql_insert_def decide_def)
  moreover have "boot_alone tx i b (length qs) (BScript 0, ?db0) = (BScript (length qs), ?db0\<lparr>bdLog := map (\<lambda>q. (biModule b, i, q)) qs\<rparr>)"
    using boot_alone_scripts [OF assms(2), of 0 "length qs" tx i ?db0] by simp
  moreover have "boot_alone tx i b 1 (BScript (length qs), ?db0\<lparr>bdLog := map (\<lambda>q. (biModule b, i, q)) qs\<rparr>) = (BDone (Inr True), applied_db i b qs)"
    using assms(2) by (simp add: perform_def sql_update_def applied_db_def)
  ultimately have "boot_alone tx i b (5 + length qs + 1) (BConnect, empty_db) = (BDone (Inr True), applied_db i b qs)"
    by (simp only: boot_alone_add)
  then show ?thesis by (simp add: add.commute add.left_commute)
qed

text \<open>
  The first start on an empty database, alone and without failures, applies the scripts, records the
  module as completed and returns true; a second start with the same scripts then returns false and
  does nothing, one with a changed manifest is refused. The database's text for a missing table has
  to be one that \<open>IsMissingTableError\<close> knows.
\<close>

theorem boot_first_start:
  assumes "IsMissingTableError (txMissing tx)" and "biTexts b = map Inr qs"
  shows "boot_alone tx i b (length qs + 6) (BConnect, empty_db) = (BDone (Inr True), applied_db i b qs) \<and>
    (biModule b' = biModule b \<longrightarrow>
       (\<exists>r. boot_alone tx j b' 2 (BConnect, applied_db i b qs) = (BDone r, applied_db i b qs) \<and>
          (r = Inr False \<longleftrightarrow> biHash b' = biHash b) \<and> r \<noteq> Inr True))"
proof -
  have "boot_alone tx j b' 2 (BConnect, applied_db i b qs) =
    (decide b' (Some (biHash b, kBootstrapStatusCompleted)), applied_db i b qs)" if "biModule b' = biModule b"
    using that by (simp add: eval_nat_numeral perform_def TryReadBootstrapState_def sql_select_def applied_db_def)
  then show ?thesis using boot_first_start_aux [OF assms] by (auto simp: decide_def)
qed

text \<open>The texts that SQLite and a PostgreSQL server give.\<close>

definition sqlite_texts :: sql_texts where
  "sqlite_texts = \<lparr>txMissing = ''no such table: T_ModuleBootstrapState'',
     txDuplicate = ''UNIQUE constraint failed: T_ModuleBootstrapState.module_name'',
     txExists = ''table T_ModuleBootstrapState already exists''\<rparr>"

definition two_tables :: boot_inst where
  "two_tables = \<lparr>biModule = ''M'', biHash = ''00'', biTexts = [Inr ''a'', Inr ''b'']\<rparr>"

lemma sqlite_texts_known:
  "IsMissingTableError (txMissing sqlite_texts) \<and> IsDuplicateKeyError (txDuplicate sqlite_texts) \<and>
   IsTableAlreadyExistsError (txExists sqlite_texts)"
  by code_simp

theorem boot_first_start_witness:
  "fst (boot_alone sqlite_texts 0 two_tables 8 (BConnect, empty_db)) = BDone (Inr True)"
  using boot_first_start [of sqlite_texts two_tables "[''a'', ''b'']" 0] sqlite_texts_known by (simp add: two_tables_def)

theorem boot_terminates_witness:
  "is_done (boot_pcs sqlite_texts 0 two_tables (replicate 9 (Refused ''server has gone away'', empty_db)) BConnect)"
  by (rule boot_terminates) (simp add: two_tables_def)

lemma boot_reach_alone:
  assumes "boot_reach tx [b] ([pc], db)"
  shows "boot_reach tx [b] ([fst (boot_alone tx 0 b n (pc, db))], snd (boot_alone tx 0 b n (pc, db)))"
  using assms
proof (induction n arbitrary: pc db)
  case (Suc n)
  obtain pc' db' where n: "boot_next tx 0 b Fine pc db = (pc', db')" by force
  have "boot_step tx [b] ([pc], db) ([pc][0 := pc'], db')" by (rule statement) (use n in simp_all)
  with Suc.prems have "boot_reach tx [b] ([pc'], db')" using later by fastforce
  with Suc.IH n show ?case by simp
qed simp

lemma two_tables_run:
  defines "s \<equiv> boot_alone sqlite_texts 0 two_tables 8 (BConnect, empty_db)"
  shows "boot_reach sqlite_texts [two_tables] ([BDone (Inr True)], snd s) \<and> log_of (snd s) ''M'' = [Inr ''a'', Inr ''b'']"
proof -
  have "boot_reach sqlite_texts [two_tables] ([BConnect], empty_db)"
    using start [of sqlite_texts "[two_tables]"] by (simp add: empty_db_def)
  from boot_reach_alone [OF this, of 8] show ?thesis
    using boot_first_start_aux [of sqlite_texts two_tables "[''a'', ''b'']" 0] sqlite_texts_known
    by (simp add: s_def two_tables_def log_of_def entries_def applied_db_def)
qed

theorem boot_once_witness:
  "\<exists>db. log_of db ''M'' = [Inr ''a'', Inr ''b''] \<and> (fst \<circ> snd) ` set (entries db ''M'') = {0}"
proof -
  obtain db where r: "boot_reach sqlite_texts [two_tables] ([BDone (Inr True)], db)" and l: "log_of db ''M'' = [Inr ''a'', Inr ''b'']"
    using two_tables_run by blast
  from boot_once [OF r, of "''M''"] l show ?thesis by (auto intro!: exI [of _ db])
qed

theorem boot_success_applied_witness:
  "\<exists>db. boot_reach sqlite_texts [two_tables] ([BDone (Inr True)], db) \<and> log_of db ''M'' = biTexts two_tables"
proof -
  obtain db where r: "boot_reach sqlite_texts [two_tables] ([BDone (Inr True)], db)" using two_tables_run by blast
  from boot_success_applied [OF r, of 0 True] show ?thesis using r by (auto simp: two_tables_def)
qed

end
