(* ===== verification/Event_Bus.thy ===== *)
theory Event_Bus
  imports Exec_Queue Key_Gen
begin

section \<open>The event bus\<close>

text \<open>
  \<open>Network/Core/NetworkEventBus\<close>: subscriptions by event type, each with a weak reference to a channel.
  A channel is known by a number; the live ones are in \<open>ebChannels\<close>, and a subscription whose channel
  is not there has expired. \<open>Publish\<close> collects the live channels under the lock, sends to them without
  it and then removes expired subscriptions.
\<close>

subsection \<open>State and operations\<close>

datatype NetworkEvent = EvConnected | EvDisconnected | EvDataReceived | EvDataSent | EvError

record NetworkBusEventData =
  be_eventType :: NetworkEvent
  be_connectionId :: ConnectionId
  be_dataSize :: size_t
  be_errorCode :: int
  be_timestamp :: Timestamp
  be_data :: "byte list"

record Subscription =
  su_handle :: u64
  su_channel :: nat

record NetworkEventBus =
  ebSubscribers :: "NetworkEvent \<Rightarrow> Subscription list"
  ebNextHandle :: u64
  ebChannels :: "nat \<Rightarrow> NetworkBusEventData Channel option"

definition NetworkEventBus_new :: NetworkEventBus where
  "NetworkEventBus_new = \<lparr>ebSubscribers = (\<lambda>_. []), ebNextHandle = 1, ebChannels = (\<lambda>_. None)\<rparr>"

definition expired :: "NetworkEventBus \<Rightarrow> Subscription \<Rightarrow> bool" where
  "expired b s \<longleftrightarrow> ebChannels b (su_channel s) = None"

definition publish_snapshot :: "NetworkEvent \<Rightarrow> NetworkEventBus \<Rightarrow> nat list \<times> bool" where
  "publish_snapshot t b =
     (map su_channel (filter (\<lambda>s. \<not> expired b s) (ebSubscribers b t)), list_ex (expired b) (ebSubscribers b t))"

definition publish_send :: "NetworkBusEventData \<Rightarrow> nat \<Rightarrow> NetworkEventBus \<Rightarrow> NetworkEventBus" where
  "publish_send d c b =
     (case ebChannels b c of
        None \<Rightarrow> b
      | Some ch \<Rightarrow> if Channel_IsShutdown ch then b else b\<lparr>ebChannels := (ebChannels b)(c := Some (snd (TrySend d ch)))\<rparr>)"

definition publish_prune :: "NetworkEvent \<Rightarrow> NetworkEventBus \<Rightarrow> NetworkEventBus" where
  "publish_prune t b =
     b\<lparr>ebSubscribers := (ebSubscribers b)(t := filter (\<lambda>s. \<not> expired b s) (ebSubscribers b t))\<rparr>"

definition Publish :: "NetworkEvent \<Rightarrow> NetworkBusEventData \<Rightarrow> NetworkEventBus \<Rightarrow> NetworkEventBus" where
  "Publish t d b =
     (case publish_snapshot t b of
        (live, needsPrune) \<Rightarrow>
          let b' = fold (publish_send d) live b
          in if needsPrune then publish_prune t b' else b')"

definition Subscribe :: "NetworkEvent \<Rightarrow> nat \<Rightarrow> NetworkEventBus \<Rightarrow> u64 \<times> NetworkEventBus" where
  "Subscribe t c b =
     (ebNextHandle b,
      b\<lparr>ebNextHandle := ebNextHandle b + 1,
        ebSubscribers := (ebSubscribers b)(t := ebSubscribers b t @ [\<lparr>su_handle = ebNextHandle b, su_channel = c\<rparr>])\<rparr>)"

definition Unsubscribe :: "u64 \<Rightarrow> NetworkEventBus \<Rightarrow> NetworkEventBus" where
  "Unsubscribe h b = b\<lparr>ebSubscribers := (\<lambda>t. filter (\<lambda>s. su_handle s \<noteq> h) (ebSubscribers b t))\<rparr>"

subsection \<open>What a publication does\<close>

abbreviation queued :: "'t Channel \<Rightarrow> 't list" where
  "queued ch \<equiv> eqQueue (chQueue ch)"

text \<open>How many of \<open>n\<close> copies a channel takes.\<close>

definition room :: "nat \<Rightarrow> 't Channel \<Rightarrow> nat" where
  "room n ch = (if Channel_IsShutdown ch then 0 else if eqCap (chQueue ch) = 0 then n else min n (eqCap (chQueue ch) - length (queued ch)))"

lemma TrySend_effect:
  "eqShutdown (chQueue (snd (TrySend d ch))) = eqShutdown (chQueue ch) \<and> eqOptions (chQueue (snd (TrySend d ch))) = eqOptions (chQueue ch) \<and>
   queued (snd (TrySend d ch)) = queued ch @ replicate (room 1 ch) d"
  by (auto simp: TrySend_def EQ_TryPush_def EQ_TryPushImpl_def EQ_enqueue_def room_def Channel_IsShutdown_def EQ_IsShutdown_def
      min_def split: prod.splits)

definition takes :: "NetworkBusEventData \<Rightarrow> nat \<Rightarrow> NetworkBusEventData Channel \<Rightarrow> NetworkBusEventData Channel \<Rightarrow> bool" where
  "takes d n ch ch' \<longleftrightarrow> eqShutdown (chQueue ch') = eqShutdown (chQueue ch) \<and> eqOptions (chQueue ch') = eqOptions (chQueue ch) \<and>
     queued ch' = queued ch @ replicate (room n ch) d"

lemma takes_0: "takes d 0 ch ch"
  by (simp add: takes_def room_def)

lemma takes_trans: "takes d n ch ch' \<Longrightarrow> takes d m ch' ch'' \<Longrightarrow> takes d (n + m) ch ch''"
  by (auto simp: takes_def room_def Channel_IsShutdown_def EQ_IsShutdown_def replicate_add [symmetric] min_def)

lemma publish_send_takes:
  assumes "ebChannels b c = Some ch"
  shows "\<exists>ch'. ebChannels (publish_send d c' b) c = Some ch' \<and> takes d (if c' = c then 1 else 0) ch ch'"
  using assms TrySend_effect [of d ch] takes_0 [of d ch]
  by (auto simp: publish_send_def takes_def room_def Channel_IsShutdown_def EQ_IsShutdown_def split: option.split)

lemma publish_send_live: "ebChannels (publish_send d c' b) c = None \<longleftrightarrow> ebChannels b c = None"
  by (auto simp: publish_send_def split: option.split)

lemma fold_send_takes:
  assumes "ebChannels b c = Some ch"
  shows "\<exists>ch'. ebChannels (fold (publish_send d) cs b) c = Some ch' \<and> takes d (count_list cs c) ch ch'"
  using assms
proof (induction cs arbitrary: b ch)
  case (Cons c' cs)
  obtain ch1 where 1: "ebChannels (publish_send d c' b) c = Some ch1" "takes d (if c' = c then 1 else 0) ch ch1"
    using publish_send_takes [OF Cons.prems] by blast
  from Cons.IH [OF 1(1)] obtain ch2 where "ebChannels (fold (publish_send d) cs (publish_send d c' b)) c = Some ch2"
    "takes d (count_list cs c) ch1 ch2" by blast
  with takes_trans [OF 1(2)] show ?case by (cases "c' = c") fastforce+
qed (simp add: takes_0)

lemma fold_send_other: "ebSubscribers (fold (publish_send d) cs b) = ebSubscribers b \<and> ebNextHandle (fold (publish_send d) cs b) = ebNextHandle b \<and>
    (ebChannels (fold (publish_send d) cs b) c = None \<longleftrightarrow> ebChannels b c = None)"
  by (induction cs arbitrary: b) (auto simp: publish_send_live, auto simp: publish_send_def split: option.split)

lemma snapshot_count:
  "ebChannels b c \<noteq> None \<Longrightarrow> count_list (fst (publish_snapshot t b)) c = length (filter (\<lambda>s. su_channel s = c) (ebSubscribers b t))"
proof -
  assume live: "ebChannels b c \<noteq> None"
  have "count_list (map su_channel (filter (\<lambda>s. \<not> expired b s) ss)) c = length (filter (\<lambda>s. su_channel s = c) ss)" for ss
    using live by (induction ss) (auto simp: expired_def)
  then show ?thesis by (simp add: publish_snapshot_def)
qed

text \<open>
  Publishing an event reaches every live subscriber once per subscription: a channel that is not shut
  down receives as many copies, at the end of its queue, as it has subscriptions for that event, except
  those its capacity does not admit; other channels and the subscriptions to other events do not
  change, and of the subscriptions to this event exactly those with a live channel are left.
\<close>

theorem bus_publish_exact:
  "(\<forall>c ch. ebChannels b c = Some ch \<longrightarrow>
       (\<exists>ch'. ebChannels (Publish t d b) c = Some ch' \<and>
          queued ch' = queued ch @ replicate (room (length (filter (\<lambda>s. su_channel s = c) (ebSubscribers b t))) ch) d)) \<and>
   (\<forall>t'. ebSubscribers (Publish t d b) t' =
      (if t' = t then filter (\<lambda>s. \<not> expired b s) (ebSubscribers b t) else ebSubscribers b t'))"
proof (intro conjI allI impI)
  define b' where "b' = Publish t d b"
  obtain live pr where s: "publish_snapshot t b = (live, pr)" by force
  let ?f = "fold (publish_send d) live b"
  have ch: "ebChannels b' = ebChannels ?f" by (simp add: b'_def Publish_def s publish_prune_def Let_def)
  {
    fix c ch0 assume c: "ebChannels b c = Some ch0"
    from fold_send_takes [OF this, of d live] obtain ch' where "ebChannels ?f c = Some ch'" "takes d (count_list live c) ch0 ch'" by blast
    moreover have "count_list live c = length (filter (\<lambda>s. su_channel s = c) (ebSubscribers b t))"
      using snapshot_count [of b c t] c s by simp
    ultimately show "\<exists>ch'. ebChannels (Publish t d b) c = Some ch' \<and>
        queued ch' = queued ch0 @ replicate (room (length (filter (\<lambda>s. su_channel s = c) (ebSubscribers b t))) ch0) d"
      using ch by (auto simp: takes_def b'_def)
  }
  fix t'
  have e: "expired ?f = expired b" using fold_send_other [of d live b] by (auto simp: expired_def fun_eq_iff)
  have "filter (\<lambda>s. \<not> expired b s) (ebSubscribers b t) = ebSubscribers b t" if "\<not> pr"
    using that s by (auto simp: publish_snapshot_def list_ex_iff filter_id_conv)
  then show "ebSubscribers (Publish t d b) t' = (if t' = t then filter (\<lambda>s. \<not> expired b s) (ebSubscribers b t) else ebSubscribers b t')"
    using fold_send_other [of d live b] e by (auto simp: Publish_def s publish_prune_def Let_def)
qed

text \<open>After \<open>Unsubscribe\<close> no event type has a subscription with that handle.\<close>

lemma unsubscribe_gone: "su_handle ` set (ebSubscribers (Unsubscribe h b) t) \<inter> {h} = {}"
  by (auto simp: Unsubscribe_def)

definition one_subscriber :: NetworkEventBus where
  "one_subscriber = snd (Subscribe EvConnected 7 (NetworkEventBus_new\<lparr>ebChannels := (\<lambda>c. if c = 7 then Some (Channel_new default_options) else None)\<rparr>))"

theorem bus_publish_exact_witness:
  "\<forall>d. \<exists>ch'. ebChannels (Publish EvConnected d one_subscriber) 7 = Some ch' \<and> queued ch' = [d]"
proof
  fix d
  have "ebChannels one_subscriber 7 = Some (Channel_new default_options)"
    by (simp add: one_subscriber_def Subscribe_def NetworkEventBus_new_def)
  then obtain ch' where "ebChannels (Publish EvConnected d one_subscriber) 7 = Some ch'"
    "queued ch' = queued (Channel_new default_options :: NetworkBusEventData Channel) @
       replicate (room (length (filter (\<lambda>s. su_channel s = 7) (ebSubscribers one_subscriber EvConnected))) (Channel_new default_options :: NetworkBusEventData Channel)) d"
    using bus_publish_exact [of one_subscriber EvConnected d] by blast
  then show "\<exists>ch'. ebChannels (Publish EvConnected d one_subscriber) 7 = Some ch' \<and> queued ch' = [d]"
    by (simp add: one_subscriber_def Subscribe_def NetworkEventBus_new_def room_def Channel_new_def EQ_new_def default_options_def
        Channel_IsShutdown_def EQ_IsShutdown_def)
qed

end
