(* ===== verification/Engine.thy ===== *)
theory Engine
  imports Session Event_Bus
begin

section \<open>The network engine\<close>

text \<open>
  \<open>Network/Core/BaseNetworkEngine\<close>, the part that all platforms share, on top of sessions, the logic
  dispatcher, the async scopes, the event bus and the session manager. The I/O threads of a platform
  report completions; the dispatcher's workers run the tasks those submit. Of the dispatcher the model
  keeps what its clients rely on: accepted tasks run in the order of acceptance per key, one at a time
  per key (shown in \<open>Keyed_Dispatcher\<close>); whether it accepts a task is left to the environment.

  A session object is known by its connection id, which is never used twice. Platform calls, logging
  and the send path (\<open>Session_Send\<close>) are left out.
\<close>

subsection \<open>State\<close>

text \<open>
  The functions given to the dispatcher: the first two through the session's scope, the others, of the
  accepting thread, directly.
\<close>

datatype logic_task = TRecv "byte list" | TDisconnect | TConnected | TDisconnected

fun scoped :: "logic_task \<Rightarrow> bool" where
  "scoped (TRecv _) = True"
| "scoped TDisconnect = True"
| "scoped TConnected = False"
| "scoped TDisconnected = False"

text \<open>
  \<open>enSessions\<close> are the session objects, \<open>enRegistered\<close> those in the manager's map, \<open>enQueue\<close> the accepted
  tasks, \<open>enBusy\<close> those whose function is running. \<open>enRemoving\<close> are the sessions that some thread is
  about to remove. History: the events fired, those given to a callback, the packets given to the
  sessions' receivers, and the chunks whose task was accepted.
\<close>

record engine =
  enInitialized :: bool
  enRunning :: bool
  enCallbacks :: "NetworkEvent \<Rightarrow> bool"
  enBus :: NetworkEventBus
  enSessions :: "ConnectionId \<Rightarrow> Session option"
  enRegistered :: "ConnectionId list"
  enQueue :: "(ConnectionId \<times> logic_task) list"
  enBusy :: "(ConnectionId \<times> logic_task) list"
  enRemoving :: "ConnectionId list"
  enTotalConnections :: u64
  enBytesSent :: u64
  enBytesReceived :: u64
  enSendErrors :: u64
  enRecvErrors :: u64
  enFired :: "(NetworkEvent \<times> ConnectionId \<times> byte list) list"
  enCalled :: "(NetworkEvent \<times> ConnectionId \<times> byte list) list"
  enDelivered :: "(ConnectionId \<times> byte list) list"
  enIncoming :: "(ConnectionId \<times> byte list) list"

definition engine_new :: engine where
  "engine_new =
     \<lparr>enInitialized = False, enRunning = False, enCallbacks = (\<lambda>_. False), enBus = NetworkEventBus_new,
      enSessions = (\<lambda>_. None), enRegistered = [], enQueue = [], enBusy = [], enRemoving = [],
      enTotalConnections = 0, enBytesSent = 0, enBytesReceived = 0, enSendErrors = 0, enRecvErrors = 0,
      enFired = [], enCalled = [], enDelivered = [], enIncoming = []\<rparr>"

subsection \<open>Life cycle, callbacks, statistics\<close>

text \<open>
  \<open>Initialize\<close>: the answers are those of the session pool, the dispatcher, the timer queue and the
  platform, in the order of the calls.
\<close>

definition EN_Initialize :: "bool \<Rightarrow> bool \<Rightarrow> bool \<Rightarrow> bool \<Rightarrow> engine \<Rightarrow> bool \<times> engine" where
  "EN_Initialize pool dispatcher timers platform e =
     (if enInitialized e then (False, e)
      else if \<not> pool \<or> \<not> dispatcher \<or> \<not> timers \<or> \<not> platform then (False, e)
      else (True, e\<lparr>enInitialized := True\<rparr>))"

definition EN_Start :: "bool \<Rightarrow> engine \<Rightarrow> bool \<times> engine" where
  "EN_Start platform e =
     (if \<not> enInitialized e then (False, e)
      else if enRunning e then (False, e)
      else if \<not> platform then (False, e\<lparr>enRunning := False\<rparr>)
      else (True, e\<lparr>enRunning := True\<rparr>))"

definition close_object :: "ConnectionId \<Rightarrow> engine \<Rightarrow> engine" where
  "close_object i e =
     (case enSessions e i of None \<Rightarrow> e | Some s \<Rightarrow> e\<lparr>enSessions := (enSessions e)(i := Some (snd (Session_Close s)))\<rparr>)"

text \<open>\<open>Stop\<close>: the timers and the platform's threads have ended, then every registered session is closed.\<close>

definition EN_Stop :: "engine \<Rightarrow> engine" where
  "EN_Stop e =
     (if \<not> enRunning e then e
      else (fold close_object (enRegistered e) (e\<lparr>enRunning := False\<rparr>))\<lparr>enRegistered := [], enInitialized := False\<rparr>)"

definition EN_IsRunning :: "engine \<Rightarrow> bool" where "EN_IsRunning e = enRunning e"

definition RegisterEventCallback :: "NetworkEvent \<Rightarrow> engine \<Rightarrow> bool \<times> engine" where
  "RegisterEventCallback t e = (True, e\<lparr>enCallbacks := (enCallbacks e)(t := True)\<rparr>)"

definition UnregisterEventCallback :: "NetworkEvent \<Rightarrow> engine \<Rightarrow> engine" where
  "UnregisterEventCallback t e = e\<lparr>enCallbacks := (enCallbacks e)(t := False)\<rparr>"

definition EN_GetSession :: "ConnectionId \<Rightarrow> engine \<Rightarrow> Session option" where
  "EN_GetSession i e = (if i \<in> set (enRegistered e) then enSessions e i else None)"

text \<open>\<open>SendData\<close>; \<open>result\<close> is what \<open>Session::Send\<close> answers.\<close>

definition SendData :: "SendResult \<Rightarrow> ConnectionId \<Rightarrow> byte list \<Rightarrow> engine \<Rightarrow> bool \<times> engine" where
  "SendData result i data e =
     (if data = [] then (False, e)
      else case EN_GetSession i e of
        None \<Rightarrow> (False, e)
      | Some s \<Rightarrow> if \<not> IsConnected s \<or> result \<noteq> SR_Ok then (False, e)
                  else (True, e\<lparr>enBytesSent := enBytesSent e + of_nat (length data)\<rparr>))"

record Statistics =
  st_totalConnections :: u64
  st_activeConnections :: size_t
  st_totalBytesSent :: u64
  st_totalBytesReceived :: u64

definition GetStatistics :: "engine \<Rightarrow> Statistics" where
  "GetStatistics e = \<lparr>st_totalConnections = enTotalConnections e, st_activeConnections = of_nat (length (enRegistered e)),
     st_totalBytesSent = enBytesSent e, st_totalBytesReceived = enBytesReceived e\<rparr>"

subsection \<open>Events and tasks\<close>

definition FireEvent :: "NetworkEvent \<Rightarrow> ConnectionId \<Rightarrow> byte list \<Rightarrow> int \<Rightarrow> Timestamp \<Rightarrow> engine \<Rightarrow> engine" where
  "FireEvent t i data errorCode now e =
     e\<lparr>enFired := enFired e @ [(t, i, data)],
       enCalled := enCalled e @ (if enCallbacks e t then [(t, i, data)] else []),
       enBus := Publish t \<lparr>be_eventType = t, be_connectionId = i, be_dataSize = of_nat (length data),
                  be_errorCode = errorCode, be_timestamp = now, be_data = data\<rparr> (enBus e)\<rparr>"

text \<open>\<open>session->mAsyncScope.Submit(mLogicDispatcher, id, task)\<close>\<close>

definition submit :: "bool \<Rightarrow> ConnectionId \<Rightarrow> logic_task \<Rightarrow> engine \<Rightarrow> bool \<times> engine" where
  "submit accepts i t e =
     (case enSessions e i of
        None \<Rightarrow> (False, e)
      | Some s \<Rightarrow>
          if AS_IsCancelled (mAsyncScope s) \<or> \<not> accepts then (False, e)
          else (True, e\<lparr>enSessions := (enSessions e)(i := Some (s\<lparr>mAsyncScope := AS_BeginTask (mAsyncScope s)\<rparr>)),
                        enQueue := enQueue e @ [(i, t)]\<rparr>))"

text \<open>\<open>SessionManager::RemoveSession(session)\<close>\<close>

definition remove_session :: "ConnectionId \<Rightarrow> engine \<Rightarrow> engine" where
  "remove_session i e =
     (case enSessions e i of
        None \<Rightarrow> e
      | Some s \<Rightarrow> (if IsConnected s then close_object i e else e)\<lparr>enRegistered := removeAll i (enRegistered e)\<rparr>)"

text \<open>
  \<open>ProcessRecvCompletion\<close>: with data, and with a count that is not positive. The call of \<open>RemoveSession\<close>
  at their end is a step of its own (\<open>enRemoving\<close>).
\<close>

definition recv_data :: "bool \<Rightarrow> ConnectionId \<Rightarrow> byte list \<Rightarrow> engine \<Rightarrow> engine" where
  "recv_data accepts i data e =
     (case enSessions e i of
        None \<Rightarrow> e
      | Some s \<Rightarrow>
          if \<not> IsConnected s then e
          else (case submit accepts i (TRecv data) (e\<lparr>enBytesReceived := enBytesReceived e + of_nat (length data)\<rparr>) of
                  (True, e') \<Rightarrow> e'\<lparr>enIncoming := enIncoming e' @ [(i, data)]\<rparr>
                | (False, e') \<Rightarrow> e'\<lparr>enRemoving := enRemoving e' @ [i]\<rparr>))"

definition recv_closed :: "bool \<Rightarrow> ConnectionId \<Rightarrow> engine \<Rightarrow> engine" where
  "recv_closed accepts i e =
     (case enSessions e i of
        None \<Rightarrow> e
      | Some s \<Rightarrow>
          if \<not> IsConnected s then e
          else (case submit accepts i TDisconnect e of (_, e') \<Rightarrow> e'\<lparr>enRemoving := enRemoving e' @ [i]\<rparr>))"

definition ProcessRecvCompletion :: "bool \<Rightarrow> ConnectionId \<Rightarrow> byte list \<Rightarrow> engine \<Rightarrow> engine" where
  "ProcessRecvCompletion accepts i data e = (if data = [] then recv_closed accepts i e else recv_data accepts i data e)"

definition ProcessErrorCompletion :: "bool \<Rightarrow> bool \<Rightarrow> ConnectionId \<Rightarrow> engine \<Rightarrow> engine" where
  "ProcessErrorCompletion isSend accepts i e =
     (case enSessions e i of
        None \<Rightarrow> e
      | Some _ \<Rightarrow>
          ProcessRecvCompletion accepts i []
            (if isSend then e\<lparr>enSendErrors := enSendErrors e + 1\<rparr> else e\<lparr>enRecvErrors := enRecvErrors e + 1\<rparr>))"

definition ProcessSendCompletion :: "ConnectionId \<Rightarrow> Timestamp \<Rightarrow> engine \<Rightarrow> engine" where
  "ProcessSendCompletion i now e = (case enSessions e i of None \<Rightarrow> e | Some s \<Rightarrow> FireEvent EvDataSent (mId s) [] 0 now e)"

definition CloseConnection :: "bool \<Rightarrow> ConnectionId \<Rightarrow> engine \<Rightarrow> engine" where
  "CloseConnection accepts i e =
     (case EN_GetSession i e of
        None \<Rightarrow> e
      | Some s \<Rightarrow> (case submit accepts i TDisconnect e of (_, e') \<Rightarrow> e'\<lparr>enRemoving := enRemoving e' @ [i]\<rparr>))"

text \<open>The periodic check: which sessions it closes, and whether the timer goes on.\<close>

definition timed_out_session :: "u32 \<Rightarrow> Timestamp \<Rightarrow> Session \<Rightarrow> bool" where
  "timed_out_session pingTimeoutMs now s \<longleftrightarrow> IsConnected s \<and> mLastPingTime s \<noteq> 0 \<and> ucast pingTimeoutMs < now - mLastPingTime s"

definition timeout_check :: "u32 \<Rightarrow> Timestamp \<Rightarrow> bool \<Rightarrow> engine \<Rightarrow> bool \<times> engine" where
  "timeout_check pingTimeoutMs now accepts e =
     (if \<not> enRunning e then (False, e)
      else (True, fold (\<lambda>i e. case enSessions e i of
                          None \<Rightarrow> e
                        | Some s \<Rightarrow> if timed_out_session pingTimeoutMs now s then CloseConnection accepts i e else e)
                    (enRegistered e) e))"

subsection \<open>The workers\<close>

text \<open>The next task of a key.\<close>

fun next_task :: "ConnectionId \<Rightarrow> (ConnectionId \<times> logic_task) list \<Rightarrow> (logic_task \<times> (ConnectionId \<times> logic_task) list) option" where
  "next_task i [] = None"
| "next_task i ((j, t) # q) =
     (if j = i then Some (t, q)
      else case next_task i q of None \<Rightarrow> None | Some (t', q') \<Rightarrow> Some (t', (j, t) # q'))"

definition end_task :: "ConnectionId \<Rightarrow> engine \<Rightarrow> engine" where
  "end_task i e =
     (case enSessions e i of None \<Rightarrow> e
      | Some s \<Rightarrow> e\<lparr>enSessions := (enSessions e)(i := Some (s\<lparr>mAsyncScope := snd (AS_EndTask (mAsyncScope s))\<rparr>))\<rparr>)"

text \<open>The functions that the tasks run.\<close>

definition task_body :: "Timestamp \<Rightarrow> ConnectionId \<Rightarrow> logic_task \<Rightarrow> engine \<Rightarrow> engine" where
  "task_body now i t e =
     (case enSessions e i of
        None \<Rightarrow> e
      | Some s \<Rightarrow>
          (case t of
             TRecv data \<Rightarrow>
               (case ProcessRawRecv data s of
                  (ps, s') \<Rightarrow> FireEvent EvDataReceived (mId s') data 0 now
                    (e\<lparr>enSessions := (enSessions e)(i := Some s'), enDelivered := enDelivered e @ map (Pair i) ps\<rparr>))
           | TDisconnect \<Rightarrow> FireEvent EvDisconnected i [] 0 now e
           | TConnected \<Rightarrow> FireEvent EvConnected i [] 0 now e
           | TDisconnected \<Rightarrow> FireEvent EvDisconnected i [] 0 now e))"

text \<open>The wrapper of a task begins: a cancelled scope makes it end at once.\<close>

definition task_start :: "ConnectionId \<Rightarrow> engine \<Rightarrow> engine" where
  "task_start i e =
     (if i \<in> fst ` set (enBusy e) then e
      else case (enSessions e i, next_task i (enQueue e)) of
        (Some s, Some (t, q)) \<Rightarrow>
          if scoped t \<and> AS_IsCancelled (mAsyncScope s) then end_task i (e\<lparr>enQueue := q\<rparr>)
          else e\<lparr>enQueue := q, enBusy := enBusy e @ [(i, t)]\<rparr>
      | _ \<Rightarrow> e)"

text \<open>The function of the running task is executed and the wrapper ends.\<close>

definition task_finish :: "Timestamp \<Rightarrow> ConnectionId \<Rightarrow> engine \<Rightarrow> engine" where
  "task_finish now i e =
     (case next_task i (enBusy e) of
        None \<Rightarrow> e
      | Some (t, busy) \<Rightarrow>
          let e' = task_body now i t (e\<lparr>enBusy := busy\<rparr>) in if scoped t then end_task i e' else e')"

text \<open>\<open>mLogicDispatcher.Dispatch(id, task)\<close>; its answer is ignored.\<close>

definition dispatch :: "bool \<Rightarrow> ConnectionId \<Rightarrow> logic_task \<Rightarrow> engine \<Rightarrow> engine" where
  "dispatch accepts i t e = (if accepts then e\<lparr>enQueue := enQueue e @ [(i, t)]\<rparr> else e)"

text \<open>
  The accepting thread after \<open>accept\<close> (Linux): a session is created, associated with the provider and
  announced, and its first receive is queued. \<open>associated\<close> and \<open>recvQueued\<close> are the provider's answers. When
  no session can be created the socket is closed and nothing else happens.
\<close>

definition connect :: "ConnectionId \<Rightarrow> int \<Rightarrow> Timestamp \<Rightarrow> bool \<Rightarrow> bool \<Rightarrow> bool \<Rightarrow> bool \<Rightarrow> engine \<Rightarrow> engine" where
  "connect i socket now associated accepts recvQueued accepts' e =
     (if enSessions e i \<noteq> None then e
      else
        let s = SetOnRecv True (Session_Initialize i socket now Session_new);
            e = e\<lparr>enSessions := (enSessions e)(i := Some s), enRegistered := enRegistered e @ [i]\<rparr>
        in if \<not> associated then e\<lparr>enRemoving := enRemoving e @ [i]\<rparr>
           else
             let e = e\<lparr>enSessions := (enSessions e)(i := Some (SetAsyncProvider True s)),
                       enTotalConnections := enTotalConnections e + 1\<rparr>;
                 e = dispatch accepts i TConnected e
             in if recvQueued then e
                else (dispatch accepts' i TDisconnected e)\<lparr>enRemoving := enRemoving e @ [i]\<rparr>)"

datatype engine_event =
    EConnect ConnectionId int Timestamp bool bool bool bool
  | ERecv bool ConnectionId "byte list"
  | EError bool bool ConnectionId
  | ESent ConnectionId Timestamp
  | EClose bool ConnectionId
  | ECheck u32 Timestamp bool
  | EPing ConnectionId Timestamp
  | ERemove ConnectionId
  | EStart ConnectionId
  | EFinish ConnectionId Timestamp

definition set_ping :: "ConnectionId \<Rightarrow> Timestamp \<Rightarrow> engine \<Rightarrow> engine" where
  "set_ping i now e =
     (case enSessions e i of None \<Rightarrow> e | Some s \<Rightarrow> e\<lparr>enSessions := (enSessions e)(i := Some (SetLastPingTime now s))\<rparr>)"

fun engine_next :: "engine_event \<Rightarrow> engine \<Rightarrow> engine" where
  "engine_next (EConnect i socket now assoc acc rq acc') e = connect i socket now assoc acc rq acc' e"
| "engine_next (ERecv accepts i data) e = ProcessRecvCompletion accepts i data e"
| "engine_next (EError isSend accepts i) e = ProcessErrorCompletion isSend accepts i e"
| "engine_next (ESent i now) e = ProcessSendCompletion i now e"
| "engine_next (EClose accepts i) e = CloseConnection accepts i e"
| "engine_next (ECheck timeout now accepts) e = snd (timeout_check timeout now accepts e)"
| "engine_next (EPing i now) e = set_ping i now e"
| "engine_next (ERemove i) e =
     (if i \<in> set (enRemoving e) then remove_session i (e\<lparr>enRemoving := remove1 i (enRemoving e)\<rparr>) else e)"
| "engine_next (EStart i) e = task_start i e"
| "engine_next (EFinish i now) e = task_finish now i e"

fun engine_run :: "engine_event list \<Rightarrow> engine \<Rightarrow> engine" where
  "engine_run [] e = e"
| "engine_run (ev # evs) e = engine_run evs (engine_next ev e)"


subsection \<open>The stream of a session\<close>

text \<open>What the history and the queues say of one session.\<close>

definition of_session :: "ConnectionId \<Rightarrow> (ConnectionId \<times> 'a) list \<Rightarrow> 'a list" where
  "of_session i xs = map snd (filter (\<lambda>p. fst p = i) xs)"

fun chunks :: "logic_task list \<Rightarrow> byte list list" where
  "chunks [] = []"
| "chunks (TRecv d # ts) = d # chunks ts"
| "chunks (TDisconnect # ts) = chunks ts"
| "chunks (TConnected # ts) = chunks ts"
| "chunks (TDisconnected # ts) = chunks ts"

definition delivered :: "ConnectionId \<Rightarrow> engine \<Rightarrow> byte list list" where
  "delivered i e = of_session i (enDelivered e)"

definition incoming :: "ConnectionId \<Rightarrow> engine \<Rightarrow> byte list list" where
  "incoming i e = of_session i (enIncoming e)"

definition waiting :: "ConnectionId \<Rightarrow> engine \<Rightarrow> byte list list" where
  "waiting i e = chunks (of_session i (enBusy e)) @ chunks (of_session i (enQueue e))"

definition cancelled :: "Session \<Rightarrow> bool" where
  "cancelled s = AS_IsCancelled (mAsyncScope s)"

lemma of_session_simps [simp]:
  "of_session i [] = []"
  "of_session i (p # xs) = (if fst p = i then snd p # of_session i xs else of_session i xs)"
  "of_session i (xs @ ys) = of_session i xs @ of_session i ys"
  by (auto simp: of_session_def)

lemma of_session_Pair [simp]: "of_session i (map (Pair j) xs) = (if i = j then xs else [])"
  by (induction xs) auto

lemma of_session_none: "i \<notin> fst ` set xs \<Longrightarrow> of_session i xs = []"
  by (induction xs) auto

lemma chunks_append [simp]: "chunks (xs @ ys) = chunks xs @ chunks ys"
  by (induction xs rule: chunks.induct) auto

lemma next_task_none: "next_task i q = None \<longleftrightarrow> of_session i q = []"
  by (induction q) (auto split: option.splits)

lemma next_task_some:
  "next_task i q = Some (t, q') \<Longrightarrow>
   of_session i q = t # of_session i q' \<and> (\<forall>j. j \<noteq> i \<longrightarrow> of_session j q' = of_session j q)"
  by (induction q arbitrary: q') (auto split: option.splits if_splits)

text \<open>A step that concerns the stream of a session in no way.\<close>

definition same_session :: "Session \<Rightarrow> Session \<Rightarrow> bool" where
  "same_session s s' \<longleftrightarrow> mState s' = mState s \<and> mRecvAccumBuffer s' = mRecvAccumBuffer s \<and>
     mRecvAccumOffset s' = mRecvAccumOffset s \<and> mOnRecvCb s' = mOnRecvCb s \<and> cancelled s' = cancelled s"

definition same_stream :: "ConnectionId \<Rightarrow> engine \<Rightarrow> engine \<Rightarrow> bool" where
  "same_stream i e e' \<longleftrightarrow> rel_option same_session (enSessions e i) (enSessions e' i) \<and>
     delivered i e' = delivered i e \<and> incoming i e' = incoming i e \<and>
     of_session i (enBusy e') = of_session i (enBusy e) \<and> chunks (of_session i (enQueue e')) = chunks (of_session i (enQueue e))"

lemma same_session_refl [simp]: "same_session s s"
  by (simp add: same_session_def)

lemma same_session_trans: "same_session s s' \<Longrightarrow> same_session s' s'' \<Longrightarrow> same_session s s''"
  by (simp add: same_session_def)

lemma same_stream_refl [simp]: "same_stream i e e"
  by (simp add: same_stream_def option.rel_refl)

lemma same_stream_trans: "same_stream i e e' \<Longrightarrow> same_stream i e' e'' \<Longrightarrow> same_stream i e e''"
  by (auto simp: same_stream_def option_rel_Some1 elim!: option.rel_cases intro: same_session_trans)

lemmas stream_eval = same_stream_def same_session_def delivered_def incoming_def cancelled_def
  AS_IsCancelled_def AS_BeginTask_def AS_EndTask_def option.rel_refl

lemma submit_disconnect_same [simp]: "same_stream i e (snd (submit a j TDisconnect e))"
  by (auto simp: submit_def stream_eval rel_option_iff split: option.split)

lemma submit_same: "i \<noteq> j \<Longrightarrow> same_stream i e (snd (submit a j t e))"
  by (auto simp: submit_def stream_eval rel_option_iff split: option.split)

lemma removing_same [simp]: "same_stream i e (e'\<lparr>enRemoving := r\<rparr>) = same_stream i e e'"
  by (simp add: same_stream_def delivered_def incoming_def)

lemma recv_closed_same: "same_stream i e (recv_closed a j e)"
  by (cases "submit a j TDisconnect e") (use submit_disconnect_same [of i e a j] in \<open>simp add: recv_closed_def split: option.split\<close>)

lemma CloseConnection_same: "same_stream i e (CloseConnection a j e)"
  by (cases "submit a j TDisconnect e") (use submit_disconnect_same [of i e a j] in \<open>simp add: CloseConnection_def split: option.split\<close>)

lemma ProcessErrorCompletion_same: "same_stream i e (ProcessErrorCompletion sd a j e)"
proof -
  have "same_stream i e (if sd then e\<lparr>enSendErrors := enSendErrors e + 1\<rparr> else e\<lparr>enRecvErrors := enRecvErrors e + 1\<rparr>)"
    by (simp add: stream_eval rel_option_iff split: option.split)
  then show ?thesis
    by (auto simp: ProcessErrorCompletion_def ProcessRecvCompletion_def intro: same_stream_trans recv_closed_same split: option.split)
qed

lemma timeout_check_same: "same_stream i e (snd (timeout_check t now a e))"
proof -
  have "same_stream i e (fold (\<lambda>j e. case enSessions e j of None \<Rightarrow> e
      | Some s \<Rightarrow> if timed_out_session t now s then CloseConnection a j e else e) js e)" for js
  proof (induction js arbitrary: e)
    case (Cons j js)
    have "same_stream i e (case enSessions e j of None \<Rightarrow> e | Some s \<Rightarrow> if timed_out_session t now s then CloseConnection a j e else e)"
      by (simp add: CloseConnection_same split: option.split)
    then show ?case by (auto intro: same_stream_trans Cons.IH)
  qed simp
  then show ?thesis by (simp add: timeout_check_def)
qed

lemma FireEvent_same [simp]: "same_stream i e (FireEvent t j d c now e)"
  by (simp add: FireEvent_def stream_eval rel_option_iff split: option.split)

lemma ProcessSendCompletion_same: "same_stream i e (ProcessSendCompletion j now e)"
  by (simp add: ProcessSendCompletion_def split: option.split)

lemma set_ping_same: "same_stream i e (set_ping j now e)"
  by (auto simp: set_ping_def SetLastPingTime_def stream_eval rel_option_iff split: option.split)

lemma end_task_same [simp]: "same_stream i e (end_task j e)"
  by (auto simp: end_task_def stream_eval rel_option_iff split: option.split)

subsection \<open>The invariant\<close>

text \<open>
  The chunks of a session were accepted in the order \<open>done @ rest\<close>; those of \<open>done\<close> are parsed, and the
  receiver got their packets. As long as the session is open, \<open>rest\<close> waits and the buffer holds what
  the parsed ones left over.
\<close>

definition stream_ok :: "ConnectionId \<Rightarrow> engine \<Rightarrow> bool" where
  "stream_ok i e \<longleftrightarrow>
     length (of_session i (enBusy e)) \<le> 1 \<and> (\<forall>c \<in> set (incoming i e). length c \<le> 8192) \<and>
     (case enSessions e i of
        None \<Rightarrow> incoming i e = [] \<and> delivered i e = [] \<and> waiting i e = []
      | Some s \<Rightarrow> mOnRecvCb s \<and>
          (\<exists>parsed rest r. incoming i e = parsed @ rest \<and> frames (concat parsed) = (delivered i e, r, False) \<and>
            (if cancelled s then chunks (of_session i (enBusy e)) = []
             else rest = waiting i e \<and> r = unread s \<and> recv_inv s \<and> mState s = Connected)))"

lemma stream_ok_same: "same_stream i e e' \<Longrightarrow> stream_ok i e \<Longrightarrow> stream_ok i e'"
  by (auto simp: same_stream_def stream_ok_def waiting_def same_session_def unread_def recv_inv_def rel_option_iff
      split: option.splits if_splits)

lemma stream_ok_new: "stream_ok i engine_new"
  by (simp add: stream_ok_def engine_new_def incoming_def delivered_def waiting_def)

text \<open>What happens to a session does not concern the streams of the others.\<close>

lemma connect_same: "i \<noteq> j \<Longrightarrow> same_stream i e (connect j socket now as a q a' e)"
  by (simp add: connect_def dispatch_def Let_def stream_eval rel_option_iff split: option.split)

lemma recv_data_same:
  assumes "i \<noteq> j" shows "same_stream i e (recv_data a j d e)"
proof -
  let ?e = "e\<lparr>enBytesReceived := enBytesReceived e + of_nat (length d)\<rparr>"
  have "same_stream i e ?e" by (simp add: stream_eval rel_option_iff split: option.split)
  then have "same_stream i e (snd (submit a j (TRecv d) ?e))" using submit_same [OF assms] same_stream_trans by blast
  then show ?thesis using assms
    by (cases "submit a j (TRecv d) ?e") (auto simp: recv_data_def stream_eval split: option.split bool.split)
qed

lemma close_object_same: "i \<noteq> j \<Longrightarrow> same_stream i e (close_object j e)"
  by (simp add: close_object_def stream_eval rel_option_iff split: option.split)

lemma registered_same [simp]: "same_stream i e (e'\<lparr>enRegistered := r\<rparr>) = same_stream i e e'"
  by (simp add: same_stream_def delivered_def incoming_def)

lemma remove_session_same: "i \<noteq> j \<Longrightarrow> same_stream i e (remove_session j e)"
  by (simp add: remove_session_def close_object_same split: option.split)

lemma task_start_same:
  assumes "i \<noteq> j" shows "same_stream i e (task_start j e)"
proof (cases "next_task j (enQueue e)")
  case (Some a)
  obtain t q where a: "a = (t, q)" by force
  have q: "of_session i q = of_session i (enQueue e)" using next_task_some Some a assms by auto
  then have "same_stream i e (e\<lparr>enQueue := q\<rparr>)" "same_stream i e (e\<lparr>enQueue := q, enBusy := enBusy e @ [(j, t)]\<rparr>)"
    using assms by (simp_all add: stream_eval rel_option_iff split: option.split)
  then show ?thesis using Some a same_stream_trans [OF _ end_task_same]
    by (auto simp: task_start_def split: option.split)
qed (simp add: task_start_def split: option.split)

lemma task_body_same:
  assumes "i \<noteq> j" shows "same_stream i e (task_body now j t e)"
proof (cases "enSessions e j")
  case (Some s)
  show ?thesis
  proof (cases t)
    case (TRecv d)
    obtain ps s' where p: "ProcessRawRecv d s = (ps, s')" by force
    have "same_stream i e (e\<lparr>enSessions := (enSessions e)(j := Some s'), enDelivered := enDelivered e @ map (Pair j) ps\<rparr>)"
      using assms by (simp add: stream_eval rel_option_iff split: option.split)
    from same_stream_trans [OF this FireEvent_same] show ?thesis using Some TRecv p by (simp add: task_body_def)
  qed (simp_all add: task_body_def Some)
qed (simp add: task_body_def)

lemma task_finish_same:
  assumes "i \<noteq> j" shows "same_stream i e (task_finish now j e)"
proof (cases "next_task j (enBusy e)")
  case (Some a)
  obtain t b where a: "a = (t, b)" by force
  have q: "of_session i b = of_session i (enBusy e)" using next_task_some Some a assms by auto
  then have 1: "same_stream i e (e\<lparr>enBusy := b\<rparr>)"
    by (simp add: stream_eval rel_option_iff split: option.split)
  have "same_stream i (e\<lparr>enBusy := b\<rparr>) (task_body now j t (e\<lparr>enBusy := b\<rparr>))" using assms by (rule task_body_same)
  with 1 have "same_stream i e (task_body now j t (e\<lparr>enBusy := b\<rparr>))" by (rule same_stream_trans)
  with same_stream_trans [OF this end_task_same] show ?thesis using Some a by (simp add: task_finish_def Let_def)
qed (simp add: task_finish_def)

lemma stream_ok_connect: "stream_ok i e \<Longrightarrow> stream_ok i (connect i socket now as a q a' e)"
  by (auto simp: connect_def dispatch_def Let_def SetAsyncProvider_def stream_ok_def waiting_def incoming_def delivered_def SetOnRecv_def Session_Initialize_def Session_new_def
      cancelled_def AS_IsCancelled_def AS_new_def unread_def recv_inv_def split: option.splits)

lemma stream_ok_recv_data:
  assumes ok: "stream_ok i e" and d: "length d \<le> 8192"
  shows "stream_ok i (recv_data a i d e)"
proof (cases "\<exists>s. enSessions e i = Some s \<and> IsConnected s \<and> \<not> cancelled s \<and> a")
  case True
  then show ?thesis using ok d
    by (auto simp: recv_data_def submit_def stream_ok_def waiting_def incoming_def delivered_def cancelled_def
        AS_IsCancelled_def AS_BeginTask_def unread_def recv_inv_def)
next
  case False
  then have "same_stream i e (recv_data a i d e)"
    by (auto simp: recv_data_def submit_def cancelled_def stream_eval rel_option_iff split: option.splits if_splits)
  with ok stream_ok_same show ?thesis by blast
qed

lemma stream_ok_close:
  assumes ok: "stream_ok i e" and idle: "of_session i (enBusy e) = []"
  shows "stream_ok i (remove_session i e)"
proof -
  have "stream_ok i (close_object i e)" if "enSessions e i = Some s" "IsConnected s" for s
    using that ok idle
    by (auto simp: close_object_def Session_Close_def IsConnected_def stream_ok_def waiting_def incoming_def delivered_def
        cancelled_def AS_IsCancelled_def AS_Cancel_def split: if_splits)
  moreover have "stream_ok i e \<Longrightarrow> stream_ok i (e\<lparr>enRegistered := r\<rparr>)" for e r
    by (rule stream_ok_same [of i e]) simp
  ultimately show ?thesis using ok by (auto simp: remove_session_def split: option.split)
qed

lemma stream_ok_start:
  assumes ok: "stream_ok i e" shows "stream_ok i (task_start i e)"
proof (cases "i \<in> fst ` set (enBusy e) \<or> enSessions e i = None \<or> next_task i (enQueue e) = None")
  case True
  then show ?thesis using ok by (auto simp: task_start_def split: option.split prod.split)
next
  case False
  then obtain s t q where s: "enSessions e i = Some s" and n: "next_task i (enQueue e) = Some (t, q)"
    and idle: "of_session i (enBusy e) = []" by (auto simp: of_session_none)
  note q = next_task_some [OF n]
  have busy: "i \<notin> fst ` set (enBusy e)" using False by simp
  show ?thesis
  proof (cases "cancelled s \<and> scoped t")
    case True
    have "stream_ok i (e\<lparr>enQueue := q\<rparr>)"
      using ok s True q by (auto simp: stream_ok_def waiting_def incoming_def delivered_def)
    then have "stream_ok i (end_task i (e\<lparr>enQueue := q\<rparr>))" using stream_ok_same end_task_same by blast
    then show ?thesis using True busy s n by (simp add: task_start_def cancelled_def)
  next
    case nc: False
    have "stream_ok i (e\<lparr>enQueue := q, enBusy := enBusy e @ [(i, t)]\<rparr>)"
      using ok s nc q idle by (cases t) (auto simp: stream_ok_def waiting_def incoming_def delivered_def split: if_splits)
    then show ?thesis using nc busy s n by (auto simp: task_start_def cancelled_def)
  qed
qed

text \<open>A call of \<open>ProcessRawRecv\<close> that disconnects has cancelled the scope.\<close>

lemma Session_Close_cancels:
  "mOnRecvCb (snd (Session_Close s)) = mOnRecvCb s \<and> (mState s = Connected \<longrightarrow> cancelled (snd (Session_Close s)))"
  by (simp add: Session_Close_def cancelled_def AS_IsCancelled_def AS_Cancel_def)

lemma ProcessRawRecv_cancels:
  assumes "mState s = Connected" and "mState (snd (ProcessRawRecv d s)) = Disconnected"
  shows "mOnRecvCb (snd (ProcessRawRecv d s)) = mOnRecvCb s \<and> cancelled (snd (ProcessRawRecv d s))"
  using assms
  by (auto simp: ProcessRawRecv_def Let_def Session_Close_cancels split: if_splits prod.splits)

lemma stream_ok_parse:
  assumes ok: "stream_ok i e" and s: "enSessions e i = Some s" and n: "next_task i (enBusy e) = Some (TRecv d, b)"
    and p: "ProcessRawRecv d s = (ps, s')"
  shows "stream_ok i (e\<lparr>enBusy := b, enSessions := (enSessions e)(i := Some s'), enDelivered := enDelivered e @ map (Pair i) ps\<rparr>)"
proof -
  have b: "of_session i (enBusy e) = [TRecv d]" "of_session i b = []"
    using next_task_some [OF n] ok by (auto simp: stream_ok_def)
  with ok s obtain parsed rest where inv: "mOnRecvCb s" "\<not> cancelled s" "mState s = Connected" "recv_inv s"
      "incoming i e = parsed @ d # rest" "rest = chunks (of_session i (enQueue e))"
      "frames (concat parsed) = (delivered i e, unread s, False)" and len: "\<forall>c \<in> set (incoming i e). length c \<le> 8192"
    by (auto simp: stream_ok_def waiting_def split: if_splits)
  have small: "length d \<le> 8192" using inv(5) len by simp
  obtain qs r bad where f: "frames (unread s @ d) = (qs, r, bad)" by (cases "frames (unread s @ d)")
  note R = ProcessRawRecv_frames [OF inv(4,1) small f]
  show ?thesis
  proof (cases bad)
    case True
    with R p have "ps = []" "mState s' = Disconnected" by simp_all
    with ProcessRawRecv_cancels [OF inv(3), of d] p have "mOnRecvCb s'" "cancelled s'" "ps = []" using inv(1) by simp_all
    then show ?thesis using inv b len
      by (auto simp: stream_ok_def incoming_def delivered_def)
  next
    case False
    with R p obtain a k where s': "s' = s\<lparr>mRecvAccumBuffer := a, mRecvAccumOffset := k\<rparr>" "ps = qs" "recv_inv s'" "unread s' = r"
      by (auto simp: unread_def)
    have "frames (concat (parsed @ [d])) = (delivered i e @ ps, unread s', False)"
      using frames_append [of "concat parsed" d] inv(7) f False s' by simp
    moreover have "incoming i e = (parsed @ [d]) @ rest" using inv(5) by simp
    moreover have "cancelled s' = cancelled s" "mState s' = mState s" "mOnRecvCb s' = mOnRecvCb s" using s'(1) by (simp_all add: cancelled_def)
    ultimately show ?thesis using inv b len s'(3)
      unfolding stream_ok_def waiting_def incoming_def delivered_def by (simp del: concat_append)
  qed
qed

lemma stream_ok_body:
  assumes ok: "stream_ok i e" and n: "next_task i (enBusy e) = Some (t, b)"
  shows "stream_ok i (task_body now i t (e\<lparr>enBusy := b\<rparr>))"
proof -
  have n': "of_session i (enBusy e) = t # of_session i b" using next_task_some [OF n] by blast
  show ?thesis
  proof (cases "enSessions e i")
    case None
    then show ?thesis using ok n'
      by (cases t) (simp_all add: task_body_def stream_ok_def waiting_def incoming_def delivered_def)
  next
    case (Some s)
    have other: "stream_ok i (e\<lparr>enBusy := b\<rparr>)" if "t = t'" "chunks [t'] = []" for t'
    proof -
      have "chunks (of_session i b) = chunks (of_session i (enBusy e))" "length (of_session i b) \<le> 1"
        using n' that ok by (cases t', simp_all add: stream_ok_def)+
      then show ?thesis using ok by (simp add: stream_ok_def waiting_def incoming_def delivered_def Some cong: if_cong)
    qed
    show ?thesis
    proof (cases t)
      case (TRecv d)
      obtain ps s' where p: "ProcessRawRecv d s = (ps, s')" by (cases "ProcessRawRecv d s")
      have "stream_ok i (e\<lparr>enBusy := b, enSessions := (enSessions e)(i := Some s'), enDelivered := enDelivered e @ map (Pair i) ps\<rparr>)"
        using stream_ok_parse [OF ok Some _ p] n TRecv by simp
      from stream_ok_same [OF FireEvent_same [of i _ EvDataReceived "mId s'" d 0 now] this] show ?thesis
        using Some p TRecv by (simp add: task_body_def)
    next
      case TDisconnect
      from stream_ok_same [OF FireEvent_same [of i _ EvDisconnected i "[]" 0 now] other [of TDisconnect]] show ?thesis
        using Some TDisconnect by (simp add: task_body_def)
    next
      case TConnected
      from stream_ok_same [OF FireEvent_same [of i _ EvConnected i "[]" 0 now] other [of TConnected]] show ?thesis
        using Some TConnected by (simp add: task_body_def)
    next
      case TDisconnected
      from stream_ok_same [OF FireEvent_same [of i _ EvDisconnected i "[]" 0 now] other [of TDisconnected]] show ?thesis
        using Some TDisconnected by (simp add: task_body_def)
    qed
  qed
qed

lemma stream_ok_finish:
  assumes ok: "stream_ok i e" shows "stream_ok i (task_finish now i e)"
proof (cases "next_task i (enBusy e)")
  case None
  then show ?thesis using ok by (simp add: task_finish_def)
next
  case (Some a)
  obtain t b where a: "a = (t, b)" by (cases a)
  have n: "next_task i (enBusy e) = Some (t, b)" using Some a by simp
  from stream_ok_body [OF ok n] stream_ok_same [OF end_task_same [of i _ i] stream_ok_body [OF ok n]]
  show ?thesis using n by (simp add: task_finish_def Let_def)
qed

subsection \<open>The engine delivers the stream\<close>

text \<open>
  The environment the code counts on: a session is not closed by another thread while the function of
  one of its tasks runs, and a completion brings no more than the receive buffer holds.
\<close>

fun allowed :: "engine_event \<Rightarrow> engine \<Rightarrow> bool" where
  "allowed (ERemove i) e = (i \<notin> fst ` set (enBusy e))"
| "allowed (ERecv a i d) e = (length d \<le> unat RECV_BUFFER_SIZE)"
| "allowed _ e = True"

fun serialized :: "engine_event list \<Rightarrow> engine \<Rightarrow> bool" where
  "serialized [] e = True"
| "serialized (ev # evs) e = (allowed ev e \<and> serialized evs (engine_next ev e))"

lemma stream_ok_next:
  assumes ok: "stream_ok i e" and al: "allowed ev e"
  shows "stream_ok i (engine_next ev e)"
proof (cases ev)
  case (EConnect j so now as a q a')
  then show ?thesis using stream_ok_connect [OF ok] stream_ok_same [OF connect_same ok] by (cases "i = j") simp_all
next
  case (ERecv a j d)
  then have "length d \<le> 8192" using al by (simp add: RECV_BUFFER_SIZE_def)
  then have "stream_ok i (recv_data a j d e)"
    using stream_ok_recv_data [OF ok] stream_ok_same [OF recv_data_same ok] by (cases "i = j") simp_all
  then show ?thesis using ok stream_ok_same [OF recv_closed_same] ERecv by (simp add: ProcessRecvCompletion_def)
next
  case (ERemove j)
  let ?e = "e\<lparr>enRemoving := remove1 j (enRemoving e)\<rparr>"
  have ok': "stream_ok i ?e" by (rule stream_ok_same [OF _ ok]) simp
  have "of_session j (enBusy ?e) = []" using al ERemove by (simp add: of_session_none)
  then have "stream_ok i (remove_session j ?e)"
    using stream_ok_close [OF ok'] stream_ok_same [OF remove_session_same ok'] by (cases "i = j") simp_all
  then show ?thesis using ok ERemove by simp
next
  case (EStart j)
  then show ?thesis using stream_ok_start [OF ok] stream_ok_same [OF task_start_same ok] by (cases "i = j") simp_all
next
  case (EFinish j now)
  then show ?thesis using stream_ok_finish [OF ok] stream_ok_same [OF task_finish_same ok] by (cases "i = j") simp_all
qed (use ok stream_ok_same [OF _ ok] ProcessErrorCompletion_same ProcessSendCompletion_same CloseConnection_same
    timeout_check_same set_ping_same in simp_all)

lemma stream_ok_run: "stream_ok i e \<Longrightarrow> serialized evs e \<Longrightarrow> stream_ok i (engine_run evs e)"
  by (induction evs arbitrary: e) (simp_all add: stream_ok_next)

lemma stream_ok_prefix:
  assumes "stream_ok i e" shows "\<exists>qs. fst (frames (concat (incoming i e))) = delivered i e @ qs"
proof (cases "enSessions e i")
  case (Some s)
  with assms obtain parsed rest r where "incoming i e = parsed @ rest" "frames (concat parsed) = (delivered i e, r, False)"
    by (auto simp: stream_ok_def)
  then show ?thesis using frames_append [of "concat parsed" "concat rest"] by simp
qed (use assms in \<open>simp add: stream_ok_def\<close>)



text \<open>A packet that arrives in two pieces, with another connection in between.\<close>

definition two_chunks :: "engine_event list" where
  "two_chunks =
     [EConnect 7 3 100 True True True True, EConnect 8 4 100 True True True True, ERecv True 7 [6, 0, 1], ERecv True 8 [4, 0, 2, 0], ERecv True 7 [0, 9, 9],
      EStart 8, EStart 7, EFinish 7 101, EFinish 8 102, EStart 8, EFinish 8 103, EStart 7, EFinish 7 104,
      EStart 7, EFinish 7 105]"

lemmas engine_eval = connect_def ProcessRecvCompletion_def recv_data_def recv_closed_def submit_def task_start_def
  task_finish_def task_body_def end_task_def FireEvent_def remove_session_def close_object_def engine_new_def
  Session_Initialize_def SetOnRecv_def Session_new_def IsConnected_def AS_new_def AS_IsCancelled_def AS_BeginTask_def
  AS_EndTask_def AS_Cancel_def Session_Close_def

lemma two_chunks_serialized: "serialized two_chunks engine_new"
  by code_simp

lemma two_chunks_incoming: "incoming 7 (engine_run two_chunks engine_new) = [[6, 0, 1], [0, 9, 9]]"
  by code_simp


subsection \<open>What the code does not ensure\<close>

definition close_race :: "engine_event list" where
  "close_race =
     [EConnect 7 3 100 True True True True, EStart 7, EFinish 7 100, ERecv True 7 [8, 0, 1, 0], EStart 7, EFinish 7 101, ERecv True 7 [4, 0, 2, 0], EStart 7,
      EClose True 7, ERemove 7, EFinish 7 102]"

text \<open>
  the comments say that \<open>Close\<close> and \<open>ProcessRawRecv\<close> of a session run on the same worker. But
  \<open>RemoveSession\<close> closes the session on the thread that reports the completion or checks the timeouts,
  also while a task of the session is past its test of the scope. \<open>Close\<close> then empties the buffer, the
  task parses its chunk from the middle of a packet, and the receiver is given bytes of the payload as
  a packet.
\<close>

theorem engine_close_race:
  "delivered 7 (engine_run close_race engine_new) = [[4, 0, 2, 0]] \<and>
   frames (concat (incoming 7 (engine_run close_race engine_new))) = ([[8, 0, 1, 0, 4, 0, 2, 0]], [], False)"
  by code_simp

definition lost_disconnect :: "engine_event list" where
  "lost_disconnect = [EConnect 7 3 100 True True True True, EStart 7, EFinish 7 101, ERecv True 7 [], ERemove 7, EStart 7, EFinish 7 102]"

text \<open>
  The disconnect event is submitted to the session's scope, and the session is removed and so closed
  by the same thread right after: when the worker comes too late, the scope is cancelled and the event
  of a connection that the peer has ended is never fired.
\<close>

theorem engine_disconnect_lost:
  "enFired (engine_run lost_disconnect engine_new) = [(EvConnected, 7, [])] \<and> enQueue (engine_run lost_disconnect engine_new) = [] \<and>
   enRegistered (engine_run lost_disconnect engine_new) = []"
  by code_simp

subsection \<open>The timeout check\<close>

text \<open>What the check reads of a session.\<close>

definition ping_view :: "engine \<Rightarrow> ConnectionId \<Rightarrow> (SessionState \<times> Timestamp) option" where
  "ping_view e i = map_option (\<lambda>s. (mState s, mLastPingTime s)) (enSessions e i)"

definition timed_out_id :: "u32 \<Rightarrow> Timestamp \<Rightarrow> engine \<Rightarrow> ConnectionId \<Rightarrow> bool" where
  "timed_out_id timeout now e i \<longleftrightarrow> (case enSessions e i of None \<Rightarrow> False | Some s \<Rightarrow> timed_out_session timeout now s)"

lemma timed_out_view: "ping_view e' i = ping_view e i \<Longrightarrow> timed_out_id timeout now e' i = timed_out_id timeout now e i"
  by (auto simp: ping_view_def timed_out_id_def timed_out_session_def IsConnected_def split: option.splits)

lemma CloseConnection_effect:
  "ping_view (CloseConnection a j e) = ping_view e \<and> enRegistered (CloseConnection a j e) = enRegistered e \<and>
   (j \<in> set (enRegistered e) \<longrightarrow> enSessions e j \<noteq> None \<longrightarrow> enRemoving (CloseConnection a j e) = enRemoving e @ [j])"
  by (auto simp: CloseConnection_def submit_def EN_GetSession_def ping_view_def split: option.split if_splits)

lemma timeout_fold:
  assumes "set js \<subseteq> set (enRegistered e)"
  shows "enRemoving (fold (\<lambda>j e. case enSessions e j of None \<Rightarrow> e
      | Some s \<Rightarrow> if timed_out_session timeout now s then CloseConnection a j e else e) js e) =
    enRemoving e @ filter (timed_out_id timeout now e) js"
  using assms
proof (induction js arbitrary: e)
  case (Cons j js)
  let ?f = "\<lambda>j e. case enSessions e j of None \<Rightarrow> e | Some s \<Rightarrow> if timed_out_session timeout now s then CloseConnection a j e else e"
  have f: "?f j e = (if timed_out_id timeout now e j then CloseConnection a j e else e)"
    by (simp add: timed_out_id_def split: option.split)
  have v: "ping_view (?f j e) = ping_view e" "enRegistered (?f j e) = enRegistered e" and
    r: "enRemoving (?f j e) = enRemoving e @ (if timed_out_id timeout now e j then [j] else [])"
    using CloseConnection_effect [of a j e] Cons.prems unfolding f by (auto simp: timed_out_id_def split: option.splits)
  have "timed_out_id timeout now (?f j e) = timed_out_id timeout now e"
    by (intro ext timed_out_view) (simp add: v(1))
  with Cons.IH [of "?f j e"] Cons.prems v(2) r show ?case by simp
qed simp

text \<open>
  C28: the periodic check starts the removal of exactly the registered sessions that are connected, have
  a time of the last ping and are silent for longer than the timeout, in the order of the registry, each
  once. A session whose last ping is later than the time the check has read (it connected in between)
  is removed as well, because the difference wraps around.
\<close>

theorem timeout_check_exact:
  assumes "enRunning e" and "timeout_check timeout now accepts e = (goes_on, e')"
  shows "goes_on \<and> enRemoving e' = enRemoving e @ filter (\<lambda>i. \<exists>s. enSessions e i = Some s \<and> IsConnected s \<and> mLastPingTime s \<noteq> 0 \<and>
      (if mLastPingTime s \<le> now then unat timeout < unat now - unat (mLastPingTime s)
       else unat timeout < unat now + 2 ^ 64 - unat (mLastPingTime s))) (enRegistered e)"
proof -
  have "timed_out_session timeout now s \<longleftrightarrow> IsConnected s \<and> mLastPingTime s \<noteq> 0 \<and>
      (if mLastPingTime s \<le> now then unat timeout < unat now - unat (mLastPingTime s)
       else unat timeout < unat now + 2 ^ 64 - unat (mLastPingTime s))" for s
    by (simp add: timed_out_session_def word_less_nat_alt word_le_nat_alt unat_sub_if_size word_size unat_widen)
  then have "timed_out_id timeout now e = (\<lambda>i. \<exists>s. enSessions e i = Some s \<and> IsConnected s \<and> mLastPingTime s \<noteq> 0 \<and>
      (if mLastPingTime s \<le> now then unat timeout < unat now - unat (mLastPingTime s)
       else unat timeout < unat now + 2 ^ 64 - unat (mLastPingTime s)))"
    by (auto simp: timed_out_id_def fun_eq_iff split: option.split)
  with timeout_fold [of "enRegistered e" e timeout now accepts] assms show ?thesis
    by (auto simp: timeout_check_def)
qed


text \<open>
  Only the ping handlers of an application call \<open>SetLastPingTime\<close>; received data as such does not refresh the
  time. So a client that has just sent other data is removed, as is one that connected after the check read the
  clock.
\<close>

definition active_client :: engine where
  "active_client = engine_run [EConnect 7 3 100 True True True True, EConnect 8 4 5102 True True True True, EStart 7, EFinish 7 101,
      ERecv True 7 [4, 0, 2, 0], EStart 7, EFinish 7 5099]
     (snd (EN_Start True (snd (EN_Initialize True True True True engine_new))))"

lemma active_client_running: "enRunning active_client"
  by code_simp

theorem timeout_check_exact_witness:
  "enRemoving (snd (timeout_check 5000 5101 True active_client)) = [7, 8]"
proof -
  have "enRemoving (snd (timeout_check 5000 5101 True active_client)) = enRemoving active_client @
      filter (\<lambda>i. \<exists>s. enSessions active_client i = Some s \<and> IsConnected s \<and> mLastPingTime s \<noteq> 0 \<and>
        (if mLastPingTime s \<le> 5101 then unat (5000 :: u32) < unat (5101 :: u64) - unat (mLastPingTime s)
         else unat (5000 :: u32) < unat (5101 :: u64) + 2 ^ 64 - unat (mLastPingTime s))) (enRegistered active_client)"
    by (rule conjunct2 [OF timeout_check_exact [OF active_client_running prod.collapse [symmetric]]])
  moreover have "enRegistered active_client = [7, 8]" "enRemoving active_client = []"
    by (code_simp, code_simp)
  moreover obtain s t where "enSessions active_client 7 = Some s" "mState s = Connected" "mLastPingTime s = 100"
    "enSessions active_client 8 = Some t" "mState t = Connected" "mLastPingTime t = 5102"
  proof -
    have "ping_view active_client 7 = Some (Connected, 100)" "ping_view active_client 8 = Some (Connected, 5102)"
      by (code_simp, code_simp)
    then show ?thesis using that by (auto simp: ping_view_def)
  qed
  ultimately show ?thesis by (simp add: IsConnected_def)
qed

end
