(* ===== verification/Epoll_Provider.thy ===== *)
theory Epoll_Provider
  imports Key_Gen
begin

section \<open>The epoll provider\<close>

text \<open>
  \<open>Platforms/Linux/EpollAsyncIOProvider\<close>: asynchronous sends and receives on top of \<open>epoll\<close> with
  \<open>EPOLLONESHOT\<close>. Several worker threads are inside \<open>ProcessCompletions\<close> while others call \<open>SendAsync\<close> and
  \<open>RecvAsync\<close>; a step is a block under the provider's mutex or a system call.

  Of the kernel the model has what the manual pages say: a registration is disarmed when an event is
  reported and armed again by \<open>EPOLL_CTL_MOD\<close>; closing a descriptor removes it; \<open>recv\<close> takes bytes from
  the socket's input in order; \<open>send\<close> takes a prefix of what it is given. How much, and which errors
  occur, is up to the environment. All registrations of the code ask for \<open>EPOLLIN\<close> and the error events,
  so they differ in \<open>EPOLLOUT\<close> only. Texts of errors and completion times are left out.
\<close>

subsection \<open>State\<close>

datatype AsyncIOError =
    Success | NotInitialized | InvalidSocket | OperationPending | OperationFailed | InvalidBuffer | NoResources
  | AE_Timeout | PlatformNotSupported | AlreadyInitialized | InvalidParameter | AllocationFailed | ResourceExhausted

datatype AsyncIOType = AT_Send | AT_Recv | AT_Accept | AT_Connect | AT_Timeout | AT_Error

record CompletionEntry =
  ce_context :: u64
  ce_type :: AsyncIOType
  ce_result :: int
  ce_osError :: int

text \<open>A pending operation; \<open>po_buffer\<close> are the bytes of a send that are left.\<close>

record PendingOperation =
  po_context :: u64
  po_type :: AsyncIOType
  po_buffer :: "byte list"
  po_size :: u32

datatype interest = Disarmed | ArmIn | ArmInOut

record ev_flags =
  evIn :: bool
  evOut :: bool
  evErr :: bool
  evHup :: bool   \<comment> \<open>\<open>EPOLLHUP\<close> or \<open>EPOLLRDHUP\<close>\<close>

text \<open>
  The provider, the kernel's part (\<open>epReg\<close> the registrations, \<open>epInput\<close> bytes received and not read,
  \<open>epEof\<close> the peer has closed), and the history: \<open>epWire\<close> are the bytes given to \<open>send\<close>, \<open>epRead\<close> those
  read, \<open>epAccepted\<close> the bytes for which \<open>SendAsync\<close> returned success; \<open>epLost\<close> says that an unfinished
  send was discarded.
\<close>

record provider =
  epInitialized :: bool
  epFd :: bool
  epRecv :: "int \<Rightarrow> PendingOperation option"
  epSend :: "int \<Rightarrow> PendingOperation option"
  epTotalRequests :: u64
  epTotalCompletions :: u64
  epPendingRequests :: u64
  epReg :: "int \<Rightarrow> interest option"
  epInput :: "int \<Rightarrow> byte list"
  epEof :: "int \<Rightarrow> bool"
  epWire :: "int \<Rightarrow> byte list"
  epRead :: "int \<Rightarrow> byte list"
  epAccepted :: "int \<Rightarrow> byte list"
  epLost :: "int \<Rightarrow> bool"

definition EP_new :: provider where
  "EP_new = \<lparr>epInitialized = False, epFd = False, epRecv = (\<lambda>_. None), epSend = (\<lambda>_. None), epTotalRequests = 0,
     epTotalCompletions = 0, epPendingRequests = 0, epReg = (\<lambda>_. None), epInput = (\<lambda>_. []), epEof = (\<lambda>_. False),
     epWire = (\<lambda>_. []), epRead = (\<lambda>_. []), epAccepted = (\<lambda>_. []), epLost = (\<lambda>_. False)\<rparr>"

subsection \<open>Life cycle and registration\<close>

text \<open>\<open>created\<close> is the success of \<open>epoll_create1\<close>; a new instance has no registrations.\<close>

definition EP_Initialize :: "bool \<Rightarrow> provider \<Rightarrow> AsyncIOError \<times> provider" where
  "EP_Initialize created p =
     (if epInitialized p then (AlreadyInitialized, p)
      else if \<not> created then (OperationFailed, p\<lparr>epFd := False\<rparr>)
      else (Success, p\<lparr>epFd := True, epReg := (\<lambda>_. None), epInitialized := True\<rparr>))"

text \<open>\<open>Shutdown\<close>: the exchange of the flag, then the block under the mutex.\<close>

definition EP_Shutdown_cas :: "provider \<Rightarrow> bool \<times> provider" where
  "EP_Shutdown_cas p = (epInitialized p, p\<lparr>epInitialized := False\<rparr>)"

definition EP_Shutdown_clear :: "provider \<Rightarrow> provider" where
  "EP_Shutdown_clear p =
     p\<lparr>epFd := False, epReg := (\<lambda>_. None), epRecv := (\<lambda>_. None), epSend := (\<lambda>_. None),
       epLost := (\<lambda>s. epLost p s \<or> epSend p s \<noteq> None)\<rparr>"

definition EP_IsInitialized :: "provider \<Rightarrow> bool" where
  "EP_IsInitialized p = epInitialized p"

text \<open>\<open>epoll_ctl\<close> with \<open>EPOLL_CTL_MOD\<close>\<close>

definition ctl_mod :: "int \<Rightarrow> interest \<Rightarrow> provider \<Rightarrow> bool \<times> provider" where
  "ctl_mod s k p = (case epReg p s of None \<Rightarrow> (False, p) | Some _ \<Rightarrow> (True, p\<lparr>epReg := (epReg p)(s := Some k)\<rparr>))"

text \<open>\<open>AssociateSocket\<close>; \<open>isOpen\<close> says that the descriptor is open.\<close>

definition AssociateSocket :: "bool \<Rightarrow> int \<Rightarrow> provider \<Rightarrow> AsyncIOError \<times> provider" where
  "AssociateSocket isOpen s p =
     (if \<not> epInitialized p then (NotInitialized, p)
      else if \<not> epFd p \<or> \<not> isOpen \<or> epReg p s \<noteq> None then (OperationFailed, p)
      else (Success, p\<lparr>epReg := (epReg p)(s := Some ArmIn)\<rparr>))"

definition RegisterBuffer :: "byte list \<Rightarrow> int" where
  "RegisterBuffer b = - 1"

definition UnregisterBuffer :: "int \<Rightarrow> AsyncIOError" where
  "UnregisterBuffer i = PlatformNotSupported"

definition FlushRequests :: "provider \<Rightarrow> AsyncIOError" where
  "FlushRequests p = (if \<not> epInitialized p then NotInitialized else Success)"

subsection \<open>Requests\<close>

text \<open>\<open>SendAsync\<close>; \<open>None\<close> is a null buffer.\<close>

definition SendAsync :: "int \<Rightarrow> byte list option \<Rightarrow> u64 \<Rightarrow> provider \<Rightarrow> AsyncIOError \<times> provider" where
  "SendAsync s buffer context p =
     (if \<not> epInitialized p then (NotInitialized, p)
      else case buffer of
        None \<Rightarrow> (InvalidParameter, p)
      | Some b \<Rightarrow>
          if s < 0 \<or> b = [] then (InvalidParameter, p)
          else if 2 ^ 32 - 1 < int (length b) then (InvalidParameter, p)
          else if epSend p s \<noteq> None then (OperationFailed, p)
          else
            let op = \<lparr>po_context = context, po_type = AT_Send, po_buffer = b, po_size = of_nat (length b)\<rparr>
            in case ctl_mod s ArmInOut
                 (p\<lparr>epSend := (epSend p)(s := Some op), epTotalRequests := epTotalRequests p + 1,
                   epPendingRequests := epPendingRequests p + 1\<rparr>) of
                 (True, p') \<Rightarrow> (Success, p'\<lparr>epAccepted := (epAccepted p')(s := epAccepted p' s @ b)\<rparr>)
               | (False, p') \<Rightarrow>
                   (OperationFailed, p'\<lparr>epSend := (epSend p')(s := None), epPendingRequests := epPendingRequests p' - 1\<rparr>))"

text \<open>\<open>RecvAsync\<close>; the size is cut to 32 bits.\<close>

definition RecvAsync :: "int \<Rightarrow> bool \<Rightarrow> size_t \<Rightarrow> u64 \<Rightarrow> provider \<Rightarrow> AsyncIOError \<times> provider" where
  "RecvAsync s buffer sz context p =
     (if \<not> epInitialized p then (NotInitialized, p)
      else if s < 0 \<or> \<not> buffer \<or> sz = 0 then (InvalidParameter, p)
      else
        let op = \<lparr>po_context = context, po_type = AT_Recv, po_buffer = [], po_size = ucast sz\<rparr>
        in case ctl_mod s ArmIn
             (p\<lparr>epRecv := (epRecv p)(s := Some op), epTotalRequests := epTotalRequests p + 1,
               epPendingRequests := epPendingRequests p + 1\<rparr>) of
             (True, p') \<Rightarrow> (Success, p')
           | (False, p') \<Rightarrow>
               (OperationFailed, p'\<lparr>epRecv := (epRecv p')(s := None), epTotalRequests := epTotalRequests p' - 1,
                  epPendingRequests := epPendingRequests p' - 1\<rparr>))"

subsection \<open>Completions\<close>

text \<open>Answers of the system calls, and what \<open>recv\<close> gives.\<close>

datatype answer = Got nat | Failed int

datatype recv_result = Received "byte list" | WouldBlock | RecvFailed int

definition sys_recv :: "answer \<Rightarrow> u32 \<Rightarrow> int \<Rightarrow> provider \<Rightarrow> recv_result" where
  "sys_recv a sz s p =
     (case a of
        Failed e \<Rightarrow> RecvFailed e
      | Got n \<Rightarrow>
          let d = take (min n (unat sz)) (epInput p s)
          in if d = [] \<and> sz \<noteq> 0 \<and> (epInput p s \<noteq> [] \<or> \<not> epEof p s) then WouldBlock else Received d)"

text \<open>
  A worker inside \<open>ProcessCompletions\<close>: the events that \<open>epoll_wait\<close> gave and that are not yet looked at,
  the size of the caller's array, its entries so far, and where the thread is.
\<close>

datatype worker_pc =
    WIdle
  | WNext                                  \<comment> \<open>at the top of the loop\<close>
  | WRecv int PendingOperation ev_flags    \<comment> \<open>about to call \<open>recv\<close>\<close>
  | WReinsert int PendingOperation         \<comment> \<open>the call would block\<close>
  | WRearm int interest                    \<comment> \<open>about to call \<open>epoll_ctl\<close>, then to continue\<close>
  | WOut int                               \<comment> \<open>at the \<open>EPOLLOUT\<close> block\<close>
  | WSendDone int CompletionEntry          \<comment> \<open>about to call \<open>epoll_ctl\<close>, then to report\<close>

record ep_worker =
  wPc :: worker_pc
  wEvents :: "(int \<times> ev_flags) list"
  wMax :: nat
  wEntries :: "CompletionEntry list"

definition full :: "ep_worker \<Rightarrow> bool" where
  "full w \<longleftrightarrow> wMax w \<le> length (wEntries w)"

definition add_entry :: "CompletionEntry \<Rightarrow> ep_worker \<Rightarrow> ep_worker" where
  "add_entry c w = w\<lparr>wEntries := wEntries w @ [c]\<rparr>"

definition error_block :: "int \<Rightarrow> ev_flags \<Rightarrow> ep_worker \<Rightarrow> provider \<Rightarrow> ep_worker \<times> provider" where
  "error_block s f w p =
     (let rc = (case epRecv p s of None \<Rightarrow> 0 | Some op \<Rightarrow> po_context op);
          rn = (if epRecv p s = None then 0 else 1);
          context = (case epSend p s of None \<Rightarrow> rc | Some op \<Rightarrow> if rc = 0 then po_context op else rc);
          sn = (if epSend p s = None then 0 else 1);
          p' = p\<lparr>epRecv := (epRecv p)(s := None), epSend := (epSend p)(s := None),
                 epPendingRequests := epPendingRequests p - rn - sn,
                 epLost := (epLost p)(s := epLost p s \<or> epSend p s \<noteq> None)\<rparr>
      in if context \<noteq> 0
         then (add_entry \<lparr>ce_context = context, ce_type = AT_Recv, ce_result = - 1, ce_osError = (if evErr f then 5 else 0)\<rparr> w,
               p'\<lparr>epTotalCompletions := epTotalCompletions p' + 1\<rparr>)
         else (w, p'))"

definition after_in :: "int \<Rightarrow> ev_flags \<Rightarrow> worker_pc" where
  "after_in s f = (if evOut f then WOut s else WNext)"

text \<open>The top of the loop up to the lookup of the pending receive.\<close>

definition event_block :: "int \<Rightarrow> ev_flags \<Rightarrow> ep_worker \<Rightarrow> provider \<Rightarrow> ep_worker \<times> provider" where
  "event_block s f w p =
     (if full w then (w, snd (ctl_mod s (if evOut f then ArmInOut else ArmIn) p))
      else if evErr f \<or> evHup f then error_block s f w p
      else if evIn f then
        (case epRecv p s of
           Some op \<Rightarrow> (w\<lparr>wPc := WRecv s op f\<rparr>, p\<lparr>epRecv := (epRecv p)(s := None), epPendingRequests := epPendingRequests p - 1\<rparr>)
         | None \<Rightarrow> (w\<lparr>wPc := after_in s f\<rparr>, p))
      else (w\<lparr>wPc := after_in s f\<rparr>, p))"

definition recv_block :: "answer \<Rightarrow> int \<Rightarrow> PendingOperation \<Rightarrow> ev_flags \<Rightarrow> ep_worker \<Rightarrow> provider \<Rightarrow> ep_worker \<times> provider" where
  "recv_block a s op f w p =
     (case sys_recv a (po_size op) s p of
        Received d \<Rightarrow>
          (add_entry \<lparr>ce_context = po_context op, ce_type = AT_Recv, ce_result = int (length d), ce_osError = 0\<rparr> (w\<lparr>wPc := after_in s f\<rparr>),
           p\<lparr>epInput := (epInput p)(s := drop (length d) (epInput p s)), epRead := (epRead p)(s := epRead p s @ d),
             epTotalCompletions := epTotalCompletions p + 1\<rparr>)
      | WouldBlock \<Rightarrow> (w\<lparr>wPc := WReinsert s op\<rparr>, p)
      | RecvFailed e \<Rightarrow>
          (add_entry \<lparr>ce_context = po_context op, ce_type = AT_Recv, ce_result = - 1, ce_osError = e\<rparr> (w\<lparr>wPc := WNext\<rparr>),
           p\<lparr>epTotalCompletions := epTotalCompletions p + 1\<rparr>))"

definition send_block :: "answer \<Rightarrow> int \<Rightarrow> ep_worker \<Rightarrow> provider \<Rightarrow> ep_worker \<times> provider" where
  "send_block a s w p =
     (if full w then (w\<lparr>wPc := WRearm s ArmInOut\<rparr>, p)
      else case epSend p s of
        None \<Rightarrow> (w\<lparr>wPc := WRearm s ArmIn\<rparr>, p)
      | Some op \<Rightarrow>
          (case a of
             Got n \<Rightarrow>
               let d = take n (po_buffer op); rest = drop n (po_buffer op);
                   p' = p\<lparr>epWire := (epWire p)(s := epWire p s @ d)\<rparr>
               in if length d < unat (po_size op)
                  then (w\<lparr>wPc := WRearm s ArmInOut\<rparr>,
                        p'\<lparr>epSend := (epSend p)(s := Some (op\<lparr>po_buffer := rest, po_size := po_size op - of_nat (length d)\<rparr>))\<rparr>)
                  else (w\<lparr>wPc := WSendDone s \<lparr>ce_context = po_context op, ce_type = AT_Send, ce_result = int (length d), ce_osError = 0\<rparr>\<rparr>,
                        p'\<lparr>epSend := (epSend p)(s := None), epPendingRequests := epPendingRequests p - 1\<rparr>)
           | Failed e \<Rightarrow>
               (w\<lparr>wPc := WSendDone s \<lparr>ce_context = po_context op, ce_type = AT_Send, ce_result = - 1, ce_osError = e\<rparr>\<rparr>,
                p\<lparr>epSend := (epSend p)(s := None), epPendingRequests := epPendingRequests p - 1,
                  epLost := (epLost p)(s := True)\<rparr>)))"

definition worker_step :: "answer \<Rightarrow> ep_worker \<Rightarrow> provider \<Rightarrow> ep_worker \<times> provider" where
  "worker_step a w p =
     (case wPc w of
        WIdle \<Rightarrow> (w, p)
      | WNext \<Rightarrow>
          (case wEvents w of
             [] \<Rightarrow> (w\<lparr>wPc := WIdle\<rparr>, p)
           | (s, f) # evs \<Rightarrow> event_block s f (w\<lparr>wEvents := evs\<rparr>) p)
      | WRecv s op f \<Rightarrow> recv_block a s op f w p
      | WReinsert s op \<Rightarrow>
          (w\<lparr>wPc := WRearm s ArmIn\<rparr>,
           p\<lparr>epRecv := (epRecv p)(s := Some op), epPendingRequests := epPendingRequests p + 1\<rparr>)
      | WRearm s k \<Rightarrow> (w\<lparr>wPc := WNext\<rparr>, snd (ctl_mod s k p))
      | WOut s \<Rightarrow> send_block a s w p
      | WSendDone s c \<Rightarrow>
          (add_entry c (w\<lparr>wPc := WNext\<rparr>),
           (snd (ctl_mod s ArmIn p))\<lparr>epTotalCompletions := epTotalCompletions p + 1\<rparr>))"


subsection \<open>The whole system\<close>

text \<open>
  What \<open>epoll_wait\<close> can report: an armed registration, with all that is ready. The level-triggered
  flags for input and for the peer's close are as the socket is, \<open>EPOLLOUT\<close> only when asked for.
\<close>

definition reportable :: "provider \<Rightarrow> int \<times> ev_flags \<Rightarrow> bool" where
  "reportable p e \<longleftrightarrow>
     (case e of (s, f) \<Rightarrow>
        epReg p s \<in> {Some ArmIn, Some ArmInOut} \<and> (evOut f \<longrightarrow> epReg p s = Some ArmInOut) \<and>
        (evIn f \<longleftrightarrow> epInput p s \<noteq> [] \<or> epEof p s) \<and> (epEof p s \<longrightarrow> evHup f) \<and> (evIn f \<or> evOut f \<or> evErr f \<or> evHup f))"

definition disarm :: "int list \<Rightarrow> provider \<Rightarrow> provider" where
  "disarm ss p = p\<lparr>epReg := (\<lambda>s. if s \<in> set ss then Some Disarmed else epReg p s)\<rparr>"

text \<open>The beginning of \<open>ProcessCompletions\<close>, with what \<open>epoll_wait\<close> gives.\<close>

definition enter :: "nat \<Rightarrow> (int \<times> ev_flags) list \<Rightarrow> ep_worker \<Rightarrow> provider \<Rightarrow> ep_worker \<times> provider" where
  "enter maxEntries evs w p =
     (if wPc w \<noteq> WIdle \<or> \<not> epInitialized p \<or> maxEntries = 0 \<or> \<not> epFd p \<or> maxEntries < length evs \<or>
         \<not> distinct (map fst evs) \<or> \<not> list_all (reportable p) evs
      then (w, p)
      else (\<lparr>wPc = WNext, wEvents = evs, wMax = maxEntries, wEntries = []\<rparr>, disarm (map fst evs) p))"

record ep_sys =
  esP :: provider
  esW :: "ep_worker list"

datatype ep_event =
    EpInitialize bool
  | EpShutdownCas
  | EpShutdownClear
  | EpAssociate bool int
  | EpSend int "byte list option" u64
  | EpRecv int bool size_t u64
  | EpClose int
  | EpPeer int "byte list"
  | EpPeerClose int
  | EpWait nat nat "(int \<times> ev_flags) list"
  | EpStep nat answer

definition on_provider :: "(provider \<Rightarrow> provider) \<Rightarrow> ep_sys \<Rightarrow> ep_sys" where
  "on_provider f y = y\<lparr>esP := f (esP y)\<rparr>"

definition on_worker :: "nat \<Rightarrow> (ep_worker \<Rightarrow> provider \<Rightarrow> ep_worker \<times> provider) \<Rightarrow> ep_sys \<Rightarrow> ep_sys" where
  "on_worker c f y =
     (if c < length (esW y) then (case f (esW y ! c) (esP y) of (w, p) \<Rightarrow> y\<lparr>esP := p, esW := (esW y)[c := w]\<rparr>) else y)"

text \<open>\<open>close\<close> of a descriptor; the next socket with that number starts afresh.\<close>

definition sys_close :: "int \<Rightarrow> provider \<Rightarrow> provider" where
  "sys_close s p = p\<lparr>epReg := (epReg p)(s := None), epInput := (epInput p)(s := []), epEof := (epEof p)(s := False)\<rparr>"

definition peer_sends :: "int \<Rightarrow> byte list \<Rightarrow> provider \<Rightarrow> provider" where
  "peer_sends s d p = (if epEof p s then p else p\<lparr>epInput := (epInput p)(s := epInput p s @ d)\<rparr>)"

definition peer_closes :: "int \<Rightarrow> provider \<Rightarrow> provider" where
  "peer_closes s p = p\<lparr>epEof := (epEof p)(s := True)\<rparr>"

text \<open>The calls that are one step.\<close>

fun call :: "ep_event \<Rightarrow> provider \<Rightarrow> provider" where
  "call (EpInitialize ok) p = snd (EP_Initialize ok p)"
| "call EpShutdownCas p = snd (EP_Shutdown_cas p)"
| "call EpShutdownClear p = EP_Shutdown_clear p"
| "call (EpAssociate ok s) p = snd (AssociateSocket ok s p)"
| "call (EpSend s b x) p = snd (SendAsync s b x p)"
| "call (EpRecv s b n x) p = snd (RecvAsync s b n x p)"
| "call (EpClose s) p = sys_close s p"
| "call (EpPeer s d) p = peer_sends s d p"
| "call (EpPeerClose s) p = peer_closes s p"
| "call (EpWait _ _ _) p = p"
| "call (EpStep _ _) p = p"

definition ep_next :: "ep_event \<Rightarrow> ep_sys \<Rightarrow> ep_sys" where
  "ep_next e y =
     (case e of
        EpWait c n evs \<Rightarrow> on_worker c (enter n evs) y
      | EpStep c a \<Rightarrow> on_worker c (worker_step a) y
      | _ \<Rightarrow> on_provider (call e) y)"

fun ep_run :: "ep_event list \<Rightarrow> ep_sys \<Rightarrow> ep_sys" where
  "ep_run [] y = y"
| "ep_run (e # es) y = ep_run es (ep_next e y)"

definition idle_worker :: ep_worker where
  "idle_worker = \<lparr>wPc = WIdle, wEvents = [], wMax = 0, wEntries = []\<rparr>"

definition ep_start :: "nat \<Rightarrow> ep_sys" where
  "ep_start n = \<lparr>esP = EP_new, esW = replicate n idle_worker\<rparr>"

lemmas ep_blocks = event_block_def error_block_def recv_block_def send_block_def add_entry_def after_in_def ctl_mod_def

text \<open>
  A property of the provider and of each worker alone is kept along every run of permitted events, when
  the calls keep it and a step of a worker keeps it for the provider and that worker.
\<close>

locale ep_kept =
  fixes permitted :: "ep_event \<Rightarrow> bool" and I :: "provider \<Rightarrow> bool" and J :: "ep_worker \<Rightarrow> bool"
  assumes calls: "permitted e \<Longrightarrow> I p \<Longrightarrow> I (call e p)"
    and enters: "permitted (EpWait c m evs) \<Longrightarrow> I p \<Longrightarrow> J w \<Longrightarrow> I (snd (enter m evs w p)) \<and> J (fst (enter m evs w p))"
    and steps: "I p \<Longrightarrow> J w \<Longrightarrow> I (snd (worker_step a w p)) \<and> J (fst (worker_step a w p))"
begin

lemma next_kept:
  assumes "permitted e" and "I (esP y)" and "list_all J (esW y)"
  shows "I (esP (ep_next e y)) \<and> list_all J (esW (ep_next e y))"
proof -
  have w: "I (esP (on_worker c f y)) \<and> list_all J (esW (on_worker c f y))"
    if "\<And>w. J w \<Longrightarrow> I (snd (f w (esP y))) \<and> J (fst (f w (esP y)))" for c f
    using assms that [of "esW y ! c"]
    by (cases "f (esW y ! c) (esP y)") (auto simp: on_worker_def list_all_length nth_list_update)
  show ?thesis
  proof (cases e)
    case (EpWait c m evs)
    then show ?thesis using w [of "enter m evs" c] enters [of c m evs "esP y"] assms by (simp add: ep_next_def)
  next
    case (EpStep c a)
    then show ?thesis using w [of "worker_step a" c] steps [OF assms(2)] by (simp add: ep_next_def)
  qed (use calls [OF assms(1,2)] assms(3) in \<open>simp_all add: ep_next_def on_provider_def\<close>)
qed

lemma run_kept:
  "list_all permitted es \<Longrightarrow> I (esP y) \<Longrightarrow> list_all J (esW y) \<Longrightarrow> I (esP (ep_run es y)) \<and> list_all J (esW (ep_run es y))"
  by (induction es arbitrary: y) (use next_kept in simp_all)

end

locale ep_invariant = ep_kept "\<lambda>_. True" I J for I J +
  assumes start: "I EP_new" and idle: "J idle_worker"
begin

lemma run_inv:
  "I (esP (ep_run es (ep_start n))) \<and> list_all J (esW (ep_run es (ep_start n)))"
  by (rule run_kept) (simp_all add: start idle ep_start_def list_all_length)

end

subsection \<open>Sending\<close>

text \<open>What was accepted for a descriptor is what was sent and what is left.\<close>

definition send_ok :: "provider \<Rightarrow> bool" where
  "send_ok p \<longleftrightarrow> (\<forall>s. (\<not> epLost p s \<longrightarrow>
       epAccepted p s = epWire p s @ (case epSend p s of None \<Rightarrow> [] | Some op \<Rightarrow> po_buffer op)) \<and>
     (\<forall>op. epSend p s = Some op \<longrightarrow> unat (po_size op) = length (po_buffer op)))"

lemma unat_of_length: "length (b :: byte list) \<le> 2 ^ 32 - 1 \<Longrightarrow> unat (of_nat (length b) :: u32) = length b"
  by (simp add: unat_of_nat)


lemma send_ok_calls:
  assumes "send_ok p"
  shows "send_ok (snd (EP_Initialize ok p))" "send_ok (snd (EP_Shutdown_cas p))" "send_ok (EP_Shutdown_clear p)"
    "send_ok (snd (AssociateSocket ok s p))" "send_ok (snd (RecvAsync s r n x p))"
    "send_ok (sys_close s p)" "send_ok (peer_sends s d p)" "send_ok (peer_closes s p)"
  using assms
  by (auto simp: send_ok_def EP_Initialize_def EP_Shutdown_cas_def EP_Shutdown_clear_def AssociateSocket_def RecvAsync_def
      ctl_mod_def sys_close_def peer_sends_def peer_closes_def Let_def split: option.splits)

lemma send_ok_SendAsync:
  assumes "send_ok p" shows "send_ok (snd (SendAsync s b x p))"
proof (cases "\<exists>d. b = Some d \<and> epInitialized p \<and> \<not> (s < 0 \<or> d = []) \<and> \<not> 2 ^ 32 - 1 < int (length d) \<and> epSend p s = None")
  case True
  then obtain d where d: "b = Some d" "length d \<le> 2 ^ 32 - 1" "\<not> 2 ^ 32 - 1 < int (length d)" "epSend p s = None" by auto
  then show ?thesis using assms True unat_of_length [OF d(2)]
    by (auto simp: SendAsync_def send_ok_def ctl_mod_def Let_def split: option.splits)
next
  case False
  then have "snd (SendAsync s b x p) = p" by (auto simp: SendAsync_def split: option.split)
  then show ?thesis using assms by simp
qed

lemma send_ok_ctl [simp]: "send_ok (snd (ctl_mod s k p)) = send_ok p"
  by (simp add: send_ok_def ctl_mod_def split: option.split)

lemma send_ok_error:
  "send_ok p \<Longrightarrow> send_ok (snd (error_block s f w p))"
  by (auto simp: send_ok_def error_block_def Let_def)

lemma send_ok_event:
  "send_ok p \<Longrightarrow> send_ok (snd (event_block s f w p))"
  by (auto simp: event_block_def send_ok_error split: option.split) (simp add: send_ok_def)

lemma send_ok_recv:
  "send_ok p \<Longrightarrow> send_ok (snd (recv_block a s op f w p))"
  by (auto simp: recv_block_def send_ok_def split: recv_result.split)

lemma send_ok_send:
  assumes ok: "send_ok p" shows "send_ok (snd (send_block a s w p))"
proof (cases "full w \<or> epSend p s = None")
  case False
  then obtain op where op: "epSend p s = Some op" "\<not> full w" by auto
  have len: "unat (po_size op) = length (po_buffer op)" using ok op by (simp add: send_ok_def)
  show ?thesis
  proof (cases a)
    case (Got n)
    have "unat (po_size op - of_nat n) = length (po_buffer op) - n" if "n < length (po_buffer op)"
    proof -
      have n: "unat (of_nat n :: u32) = n" using that len unsigned_less [of "po_size op", where ?'a = nat] by (simp add: unat_of_nat)
      then show ?thesis using that len by (subst unat_sub) (simp_all add: word_le_nat_alt)
    qed
    then show ?thesis using ok op len Got
      by (auto simp: send_block_def send_ok_def Let_def min_def)
  next
    case (Failed e)
    then show ?thesis using ok op by (auto simp: send_block_def send_ok_def)
  qed
qed (use ok in \<open>auto simp: send_block_def\<close>)

lemma send_ok_other [simp]:
  "send_ok (p\<lparr>epTotalCompletions := c\<rparr>) = send_ok p" "send_ok (p\<lparr>epRecv := r, epPendingRequests := c\<rparr>) = send_ok p"
  "send_ok (p\<lparr>epReg := g\<rparr>) = send_ok p"
  by (simp_all add: send_ok_def)

lemma send_ok_step: "send_ok p \<Longrightarrow> send_ok (snd (worker_step a w p))"
  by (auto simp: worker_step_def send_ok_event send_ok_recv send_ok_send split: worker_pc.split list.split)

lemma send_ok_call: "send_ok p \<Longrightarrow> send_ok (call e p)"
  by (cases e) (simp_all add: send_ok_calls send_ok_SendAsync)

interpretation sending: ep_invariant send_ok "\<lambda>_. True"
  by unfold_locales (simp_all add: send_ok_call send_ok_step enter_def disarm_def, simp add: send_ok_def EP_new_def)


subsection \<open>The caller's array\<close>

definition entries_ok :: "ep_worker \<Rightarrow> bool" where
  "entries_ok w \<longleftrightarrow> length (wEntries w) \<le> wMax w \<and>
     (case wPc w of WRecv _ _ _ \<Rightarrow> \<not> full w | WSendDone _ _ \<Rightarrow> \<not> full w | _ \<Rightarrow> True)"

lemma entries_ok_step: "entries_ok w \<Longrightarrow> entries_ok (fst (worker_step a w p))"
  by (auto simp: worker_step_def entries_ok_def event_block_def error_block_def recv_block_def send_block_def add_entry_def
      after_in_def full_def Let_def split: worker_pc.splits list.splits option.splits answer.splits recv_result.splits)

interpretation entries: ep_invariant "\<lambda>_. True" entries_ok
  by unfold_locales (simp_all add: entries_ok_step enter_def, simp_all add: entries_ok_def idle_worker_def)

text \<open>
  no worker writes more completion entries than its caller's array has room for, although one
  event may yield two entries.
\<close>

theorem epoll_entries_bounded:
  "list_all (\<lambda>w. length (wEntries w) \<le> wMax w) (esW (ep_run es (ep_start n)))"
  using entries.run_inv [of es n] by (auto simp: list_all_iff entries_ok_def)


subsection \<open>No receive is forgotten\<close>

text \<open>
  A pending receive of a registered descriptor has a registration that is armed, or some worker will
  still look for it or arm the registration.
\<close>

definition unarmed :: "provider \<Rightarrow> int \<Rightarrow> bool" where
  "unarmed p s \<longleftrightarrow> epRecv p s \<noteq> None \<and> epReg p s = Some Disarmed"

definition serves :: "ep_worker \<Rightarrow> int \<Rightarrow> bool" where
  "serves w s \<longleftrightarrow> s \<in> fst ` set (wEvents w) \<or>
     (case wPc w of WReinsert r _ \<Rightarrow> r = s | WRearm r _ \<Rightarrow> r = s | WOut r \<Rightarrow> r = s | WSendDone r _ \<Rightarrow> r = s | _ \<Rightarrow> False)"

definition worker_ok :: "ep_worker \<Rightarrow> bool" where
  "worker_ok w \<longleftrightarrow> list_all (\<lambda>(s, f). evIn f \<or> evOut f \<or> evErr f \<or> evHup f) (wEvents w) \<and>
     (case wPc w of WIdle \<Rightarrow> wEvents w = [] | WRearm _ k \<Rightarrow> k \<noteq> Disarmed | _ \<Rightarrow> True)"

text \<open>A step of a worker leaves a receive without help only if it was so before, the worker's own help not counted.\<close>

lemma ctl_mod_unarmed: "k \<noteq> Disarmed \<Longrightarrow> unarmed (snd (ctl_mod r k p)) s \<longleftrightarrow> s \<noteq> r \<and> unarmed p s"
  by (auto simp: unarmed_def ctl_mod_def split: option.split)

lemma unarmed_other [simp]:
  "unarmed (p\<lparr>epTotalCompletions := c\<rparr>) = unarmed p" "unarmed (p\<lparr>epSend := q\<rparr>) = unarmed p"
  "unarmed (p\<lparr>epPendingRequests := c\<rparr>) = unarmed p" "unarmed (p\<lparr>epWire := x\<rparr>) = unarmed p"
  "unarmed (p\<lparr>epLost := l\<rparr>) = unarmed p" "unarmed (p\<lparr>epInput := i\<rparr>) = unarmed p" "unarmed (p\<lparr>epRead := d\<rparr>) = unarmed p"
  by (auto simp: unarmed_def fun_eq_iff)

lemma error_block_facts:
  "unarmed (snd (error_block r f w p)) s \<longleftrightarrow> s \<noteq> r \<and> unarmed p s"
  "wPc (fst (error_block r f w p)) = wPc w" "wEvents (fst (error_block r f w p)) = wEvents w"
  by (auto simp: error_block_def add_entry_def unarmed_def Let_def)

lemma event_unarmed:
  assumes u: "unarmed (snd (event_block r f (w\<lparr>wEvents := evs\<rparr>) p)) s" and f: "evIn f \<or> evOut f \<or> evErr f \<or> evHup f"
    and pc: "wPc w = WNext" "wEvents w = (r, f) # evs"
  shows "serves (fst (event_block r f (w\<lparr>wEvents := evs\<rparr>) p)) s \<or> unarmed p s \<and> \<not> serves w s"
proof -
  let ?w = "w\<lparr>wEvents := evs\<rparr>"
  have old: "serves w s \<longleftrightarrow> s = r \<or> s \<in> fst ` set evs" using pc by (auto simp: serves_def)
  have new: "serves v s" if "s \<in> fst ` set evs" "wEvents v = evs" for v
    using that by (simp add: serves_def)
  have out: "serves (?w\<lparr>wPc := after_in r f\<rparr>) r" if "evOut f" using that by (simp add: serves_def after_in_def)
  consider "full ?w" | "\<not> full ?w" "evErr f \<or> evHup f" | "\<not> full ?w" "\<not> (evErr f \<or> evHup f)" by blast
  then show ?thesis
  proof cases
    case 1
    then have "s \<noteq> r \<and> unarmed p s" using u by (simp add: event_block_def ctl_mod_unarmed)
    with 1 old new [of ?w] show ?thesis by (auto simp: event_block_def)
  next
    case 2
    then have "s \<noteq> r \<and> unarmed p s" using u by (simp add: event_block_def error_block_facts)
    with 2 old new [of "fst (error_block r f ?w p)"] show ?thesis by (auto simp: event_block_def error_block_facts)
  next
    case 3
    have e: "wEvents (fst (event_block r f ?w p)) = evs" using 3 by (simp add: event_block_def split: option.split)
    have "unarmed p s" using u 3 by (auto simp: event_block_def unarmed_def split: if_splits option.splits)
    moreover have "serves (fst (event_block r f ?w p)) s" if "s = r"
      using u 3 f out that by (auto simp: event_block_def unarmed_def split: if_splits option.splits)
    ultimately show ?thesis using old new [OF _ e] by blast
  qed
qed

lemma send_unarmed:
  assumes "unarmed (snd (send_block a r w p)) s" and "wPc w = WOut r"
  shows "serves (fst (send_block a r w p)) s \<or> unarmed p s \<and> \<not> serves w s"
  using assms by (auto simp: send_block_def serves_def Let_def unarmed_def split: option.splits answer.splits if_splits)

lemma recv_unarmed:
  assumes "unarmed (snd (recv_block a r op f w p)) s" and "wPc w = WRecv r op f"
  shows "serves (fst (recv_block a r op f w p)) s \<or> unarmed p s \<and> \<not> serves w s"
  using assms by (auto simp: recv_block_def add_entry_def serves_def unarmed_def split: recv_result.splits)

lemma step_unarmed:
  assumes "unarmed (snd (worker_step a w p)) s" and "worker_ok w"
  shows "serves (fst (worker_step a w p)) s \<or> unarmed p s \<and> \<not> serves w s"
proof (cases "wPc w")
  case WNext
  show ?thesis
  proof (cases "wEvents w")
    case Nil
    then show ?thesis using assms WNext by (simp add: worker_step_def serves_def)
  next
    case (Cons e evs)
    obtain r f where "e = (r, f)" by force
    then show ?thesis using event_unarmed [where r = r and f = f and w = w and evs = evs and p = p and s = s] assms WNext Cons by (simp add: worker_step_def worker_ok_def)
  qed
next
  case (WRearm r k)
  then show ?thesis using assms by (auto simp: worker_step_def worker_ok_def ctl_mod_unarmed serves_def)
next
  case (WSendDone r c)
  then show ?thesis using assms by (auto simp: worker_step_def add_entry_def ctl_mod_unarmed serves_def)
next
  case (WReinsert r op)
  then show ?thesis using assms by (auto simp: worker_step_def serves_def unarmed_def split: if_splits)
qed (use assms send_unarmed recv_unarmed in \<open>auto simp: worker_step_def serves_def worker_ok_def\<close>)

lemma worker_ok_step: "worker_ok w \<Longrightarrow> worker_ok (fst (worker_step a w p))"
  by (auto simp: worker_step_def worker_ok_def event_block_def error_block_def recv_block_def send_block_def add_entry_def
      after_in_def Let_def split: worker_pc.splits list.splits option.splits answer.splits recv_result.splits)

lemma worker_ok_enter: "worker_ok w \<Longrightarrow> worker_ok (fst (enter m evs w p))"
  by (cases "fst (enter m evs w p) = w") (auto simp: enter_def worker_ok_def reportable_def list_all_iff split: if_splits)

interpretation working: ep_invariant "\<lambda>_. True" worker_ok
  by unfold_locales (simp_all add: worker_ok_step worker_ok_enter, simp add: worker_ok_def idle_worker_def)

definition served :: "ep_sys \<Rightarrow> bool" where
  "served y \<longleftrightarrow> (\<forall>s. unarmed (esP y) s \<longrightarrow> (\<exists>c < length (esW y). serves (esW y ! c) s))"

lemma call_unarmed: "unarmed (call e p) s \<Longrightarrow> unarmed p s"
  by (cases e) (auto simp: unarmed_def EP_Initialize_def EP_Shutdown_cas_def EP_Shutdown_clear_def AssociateSocket_def SendAsync_def
      RecvAsync_def ctl_mod_def sys_close_def peer_sends_def peer_closes_def Let_def split: option.splits if_splits)

lemma enter_unarmed:
  "worker_ok w \<Longrightarrow> unarmed (snd (enter m evs w p)) s \<Longrightarrow> serves (fst (enter m evs w p)) s \<or> unarmed p s \<and> \<not> serves w s"
  by (auto simp: enter_def disarm_def unarmed_def serves_def worker_ok_def split: if_splits)

lemma served_worker:
  assumes y: "served y" and ok: "list_all worker_ok (esW y)"
    and f: "\<And>w p s. worker_ok w \<Longrightarrow> unarmed (snd (f w p)) s \<Longrightarrow> serves (fst (f w p)) s \<or> unarmed p s \<and> \<not> serves w s"
  shows "served (on_worker c f y)"
proof (cases "c < length (esW y)")
  case True
  obtain w' p' where fw: "f (esW y ! c) (esP y) = (w', p')" by force
  show ?thesis unfolding served_def
  proof (intro allI impI)
    fix s assume "unarmed (esP (on_worker c f y)) s"
    then have "unarmed p' s" using True fw by (simp add: on_worker_def)
    then consider "serves w' s" | "unarmed (esP y) s" "\<not> serves (esW y ! c) s"
      using f [of "esW y ! c" "esP y" s] ok True fw by (auto simp: list_all_length)
    then show "\<exists>d < length (esW (on_worker c f y)). serves (esW (on_worker c f y) ! d) s"
    proof cases
      case 1
      then show ?thesis using True fw by (auto simp: on_worker_def intro!: exI [of _ c])
    next
      case 2
      then obtain d where "d < length (esW y)" "serves (esW y ! d) s" "d \<noteq> c" using y by (auto simp: served_def)
      then show ?thesis using True fw by (auto simp: on_worker_def intro!: exI [of _ d])
    qed
  qed
qed (use y in \<open>simp add: on_worker_def\<close>)

lemma served_call: "served y \<Longrightarrow> served (on_provider (call e) y)"
  using call_unarmed by (fastforce simp: served_def on_provider_def)

lemma served_next:
  assumes "served y" and "list_all worker_ok (esW y)" shows "served (ep_next e y)"
proof (cases e)
  case (EpWait c m evs)
  then show ?thesis using served_worker [OF assms enter_unarmed] by (simp add: ep_next_def)
next
  case (EpStep c a)
  have "served (on_worker c (worker_step a) y)" by (rule served_worker [OF assms]) (rule step_unarmed)
  then show ?thesis using EpStep by (simp add: ep_next_def)
qed (simp_all only: ep_next_def ep_event.case served_call [OF assms(1)])

text \<open>
  C18: no receive is forgotten. In every interleaving of workers and callers, a pending receive whose
  descriptor is registered has an armed registration, or some worker inside \<open>ProcessCompletions\<close> has
  an event of that descriptor before it or is about to arm the registration again.
\<close>

theorem epoll_recv_not_forgotten:
  assumes "epRecv (esP (ep_run es (ep_start n))) s \<noteq> None" and "epReg (esP (ep_run es (ep_start n))) s = Some k"
  shows "k \<noteq> Disarmed \<or> (\<exists>w \<in> set (esW (ep_run es (ep_start n))). serves w s)"
proof -
  have "served y \<Longrightarrow> list_all worker_ok (esW y) \<Longrightarrow> served (ep_run es y)" for y
  proof (induction es arbitrary: y)
    case (Cons e es)
    then show ?case using served_next [OF Cons.prems] working.next_kept [where e = e and y = y] by simp
  qed simp
  moreover have "served (ep_start n)" by (simp add: served_def ep_start_def unarmed_def EP_new_def)
  moreover have "list_all worker_ok (esW (ep_start n))" using working.idle by (simp add: ep_start_def list_all_length)
  ultimately have "served (ep_run es (ep_start n))" by blast
  then show ?thesis using assms unfolding served_def unarmed_def by (metis nth_mem)
qed


subsection \<open>Sends that are never finished\<close>

text \<open>
  Every re-registration names the whole interest, and \<open>RecvAsync\<close> names input only. So the interest in
  output that a partial send has asked for is gone as soon as the next receive is queued. From then on
  nothing but an error event, a shutdown or the end of the process ends that send.
\<close>

definition no_out :: "int \<Rightarrow> ep_worker \<Rightarrow> bool" where
  "no_out s w \<longleftrightarrow> list_all (\<lambda>(r, f). r = s \<longrightarrow> \<not> evOut f \<and> \<not> evErr f \<and> \<not> evHup f) (wEvents w) \<and>
     (case wPc w of WRecv r _ f \<Rightarrow> r = s \<longrightarrow> \<not> evOut f | WOut r \<Rightarrow> r \<noteq> s | WRearm r k \<Rightarrow> r = s \<longrightarrow> k \<noteq> ArmInOut | _ \<Rightarrow> True)"

fun undisturbed :: "int \<Rightarrow> ep_event \<Rightarrow> bool" where
  "undisturbed s EpShutdownClear = False"
| "undisturbed s (EpWait c n evs) = list_all (\<lambda>(r, f). r = s \<longrightarrow> \<not> evErr f \<and> \<not> evHup f) evs"
| "undisturbed s _ = True"

definition stalled :: "int \<Rightarrow> PendingOperation \<Rightarrow> byte list \<Rightarrow> provider \<Rightarrow> bool" where
  "stalled s op wire p \<longleftrightarrow> epSend p s = Some op \<and> epReg p s \<noteq> Some ArmInOut \<and> epWire p s = wire"

lemma stalled_call: "undisturbed s e \<Longrightarrow> stalled s op wire p \<Longrightarrow> stalled s op wire (call e p)"
  by (cases e) (auto simp: stalled_def EP_Initialize_def EP_Shutdown_cas_def AssociateSocket_def SendAsync_def
      RecvAsync_def ctl_mod_def sys_close_def peer_sends_def peer_closes_def Let_def split: option.splits if_splits)

lemma stalled_enter:
  assumes "undisturbed s (EpWait c m evs)" and "stalled s op wire p" and "no_out s w"
  shows "stalled s op wire (snd (enter m evs w p)) \<and> no_out s (fst (enter m evs w p))"
  using assms by (auto simp: enter_def stalled_def disarm_def no_out_def list_all_iff reportable_def)

lemma stalled_other:
  assumes "stalled s op wire p" and "r \<noteq> s"
  shows "stalled s op wire (snd (ctl_mod r k p))" "stalled s op wire (snd (error_block r f w p))" "stalled s op wire (snd (send_block a r w p))"
  using assms by (auto simp: stalled_def ctl_mod_def error_block_def send_block_def Let_def split: option.splits answer.splits)

lemma stalled_step:
  assumes "stalled s op wire p" and "no_out s w"
  shows "stalled s op wire (snd (worker_step a w p)) \<and> no_out s (fst (worker_step a w p))"
proof (cases "wPc w")
  case WNext
  show ?thesis
  proof (cases "wEvents w")
    case (Cons e evs)
    obtain r f where e: "e = (r, f)" by force
    show ?thesis
    proof (cases "r = s")
      case True
      then show ?thesis using assms WNext Cons e
        by (auto simp: worker_step_def event_block_def stalled_def no_out_def ctl_mod_def after_in_def split: option.split)
    next
      case False
      then show ?thesis using assms WNext Cons e stalled_other [OF assms(1) False]
        by (auto simp: worker_step_def event_block_def no_out_def after_in_def error_block_def add_entry_def Let_def split: option.split)
          (auto simp: stalled_def)
    qed
  qed (use assms WNext in \<open>auto simp: worker_step_def no_out_def\<close>)
next
  case (WOut r)
  then have "r \<noteq> s" using assms by (simp add: no_out_def)
  then show ?thesis using assms WOut stalled_other(3) [OF assms(1)]
    by (auto simp: worker_step_def send_block_def no_out_def Let_def split: option.split answer.split)
next
  case (WRecv r op' f)
  then show ?thesis using assms
    by (auto simp: worker_step_def recv_block_def no_out_def after_in_def add_entry_def stalled_def split: recv_result.split)
qed (use assms in \<open>auto simp: worker_step_def no_out_def add_entry_def stalled_def ctl_mod_def split: option.split\<close>)


interpretation stalling: ep_kept "undisturbed s" "stalled s op wire" "no_out s" for s op wire
  by unfold_locales (simp_all add: stalled_call stalled_enter stalled_step)

text \<open>
  A partial send, then a message from the peer that is received, and the next receive that the engine
  queues. The worker's array has one entry.
\<close>

definition only_in :: ev_flags where "only_in = \<lparr>evIn = True, evOut = False, evErr = False, evHup = False\<rparr>"
definition only_out :: ev_flags where "only_out = \<lparr>evIn = False, evOut = True, evErr = False, evHup = False\<rparr>"

definition stall_run :: "ep_event list" where
  "stall_run =
     [EpInitialize True, EpAssociate True 5, EpRecv 5 True 16 7, EpSend 5 (Some [1, 2, 3]) 7,
      EpWait 0 2 [(5, only_out)], EpStep 0 (Got 0), EpStep 0 (Got 1), EpStep 0 (Got 0), EpStep 0 (Got 0),
      EpPeer 5 [9], EpWait 0 2 [(5, only_in)], EpStep 0 (Got 0), EpStep 0 (Got 1), EpStep 0 (Got 0),
      EpRecv 5 True 16 7]"

lemma stall_run_stalled:
  "stalled 5 \<lparr>po_context = 7, po_type = AT_Send, po_buffer = [2, 3], po_size = 2\<rparr> [1] (esP (ep_run stall_run (ep_start 1))) \<and>
   list_all (no_out 5) (esW (ep_run stall_run (ep_start 1))) \<and> epRead (esP (ep_run stall_run (ep_start 1))) 5 = [9]"
  by code_simp




text \<open>In the middle of the run, with the receive pending and the worker at the output block.\<close>

theorem epoll_recv_not_forgotten_witness:
  "\<exists>w \<in> set (esW (ep_run (take 6 stall_run) (ep_start 1))). serves w 5"
proof -
  have "map_option po_context (epRecv (esP (ep_run (take 6 stall_run) (ep_start 1))) 5) = Some 7"
    "epReg (esP (ep_run (take 6 stall_run) (ep_start 1))) 5 = Some Disarmed"
    by (code_simp, code_simp)
  then show ?thesis using epoll_recv_not_forgotten [of "take 6 stall_run" 1 5 Disarmed] by auto
qed

subsection \<open>What is lost at the end of a connection\<close>

text \<open>
  The error block is tried before the input: when the peer has closed its side, all that it sent and
  that is not read yet is never read.
\<close>

definition hup_only :: "int \<Rightarrow> ep_worker \<Rightarrow> bool" where
  "hup_only s w \<longleftrightarrow> list_all (\<lambda>(r, f). r = s \<longrightarrow> evHup f) (wEvents w) \<and> (case wPc w of WRecv r _ _ \<Rightarrow> r \<noteq> s | _ \<Rightarrow> True)"

definition at_eof :: "int \<Rightarrow> byte list \<Rightarrow> byte list \<Rightarrow> provider \<Rightarrow> bool" where
  "at_eof s d input p \<longleftrightarrow> epEof p s \<and> epRead p s = d \<and> epInput p s = input"

lemma at_eof_call: "e \<noteq> EpClose s \<Longrightarrow> at_eof s d input p \<Longrightarrow> at_eof s d input (call e p)"
  by (cases e) (auto simp: at_eof_def EP_Initialize_def EP_Shutdown_cas_def EP_Shutdown_clear_def AssociateSocket_def SendAsync_def
      RecvAsync_def ctl_mod_def sys_close_def peer_sends_def peer_closes_def Let_def split: option.splits)

lemma at_eof_enter:
  "at_eof s d input p \<Longrightarrow> hup_only s w \<Longrightarrow> at_eof s d input (snd (enter m evs w p)) \<and> hup_only s (fst (enter m evs w p))"
  by (auto simp: enter_def at_eof_def disarm_def hup_only_def list_all_iff reportable_def)

lemma at_eof_blocks:
  "at_eof s d input (snd (ctl_mod r k p)) = at_eof s d input p" "at_eof s d input (snd (error_block r f w p)) = at_eof s d input p"
  "at_eof s d input (snd (send_block a r w p)) = at_eof s d input p" "at_eof s d input (snd (event_block r f w p)) = at_eof s d input p"
  by (simp_all add: at_eof_def ctl_mod_def error_block_def send_block_def event_block_def Let_def split: option.split answer.split)

lemma at_eof_other [simp]:
  "at_eof s d input (p\<lparr>epTotalCompletions := c\<rparr>) = at_eof s d input p"
  "at_eof s d input (p\<lparr>epRecv := x, epPendingRequests := c\<rparr>) = at_eof s d input p"
  by (simp_all add: at_eof_def)

lemma hup_only_blocks:
  "wPc w = WNext \<Longrightarrow> (r = s \<longrightarrow> evHup f) \<Longrightarrow> hup_only s w \<Longrightarrow> hup_only s (fst (event_block r f w p))"
  "hup_only s w \<Longrightarrow> hup_only s (fst (send_block a r w p))"
  "hup_only s w \<Longrightarrow> hup_only s (fst (recv_block a r op f w p))"
proof -
  show "hup_only s w \<Longrightarrow> hup_only s (fst (send_block a r w p))"
    by (auto simp: hup_only_def send_block_def Let_def split: option.split answer.split)
  show "hup_only s w \<Longrightarrow> hup_only s (fst (recv_block a r op f w p))"
    by (auto simp: hup_only_def recv_block_def after_in_def add_entry_def split: recv_result.split)
  assume h: "wPc w = WNext" "r = s \<longrightarrow> evHup f" "hup_only s w"
  have "hup_only s (fst (error_block r f w p))"
    using h error_block_facts [of r f w p] by (simp add: hup_only_def)
  then show "hup_only s (fst (event_block r f w p))"
    using h by (auto simp: event_block_def hup_only_def after_in_def split: option.split)
qed

lemma at_eof_step:
  assumes "at_eof s d input p" and "hup_only s w"
  shows "at_eof s d input (snd (worker_step a w p)) \<and> hup_only s (fst (worker_step a w p))"
proof (cases "wPc w")
  case WNext
  show ?thesis
  proof (cases "wEvents w")
    case (Cons e evs)
    obtain r f where e: "e = (r, f)" by force
    then have "hup_only s (w\<lparr>wEvents := evs\<rparr>)" "r = s \<longrightarrow> evHup f" using assms Cons by (auto simp: hup_only_def)
    then show ?thesis using assms WNext Cons e by (simp add: worker_step_def at_eof_blocks hup_only_blocks(1))
  qed (use assms WNext in \<open>simp add: worker_step_def hup_only_def\<close>)
next
  case (WRecv r op f)
  then have "r \<noteq> s" using assms by (simp add: hup_only_def)
  then have "at_eof s d input (snd (recv_block a r op f w p))"
    using assms by (simp add: recv_block_def at_eof_def split: recv_result.split)
  then show ?thesis using assms WRecv hup_only_blocks(3) by (simp add: worker_step_def)
next
  case (WOut r)
  then show ?thesis using assms by (simp add: worker_step_def at_eof_blocks hup_only_blocks(2))
qed (use assms in \<open>simp_all add: worker_step_def at_eof_blocks hup_only_def add_entry_def\<close>)

interpretation ended: ep_kept "\<lambda>e. e \<noteq> EpClose s" "at_eof s d input" "hup_only s" for s d input
  by unfold_locales (simp_all add: at_eof_call at_eof_enter at_eof_step)

text \<open>
  data that the peer sends right before it closes its side is lost. When the bytes and the close
  have both arrived before a worker asks for events, no run of the provider reads them, whatever is
  requested, until the descriptor is closed.
\<close>

theorem epoll_eof_drops_input:
  assumes "EpClose 5 \<notin> set es"
  shows "epRead (esP (ep_run es (ep_run [EpInitialize True, EpAssociate True 5, EpRecv 5 True 16 7, EpPeer 5 [1, 2], EpPeerClose 5]
      (ep_start n)))) 5 = []"
proof -
  let ?y = "ep_run [EpInitialize True, EpAssociate True 5, EpRecv 5 True 16 7, EpPeer 5 [1, 2], EpPeerClose 5] (ep_start n)"
  have w: "list_all (hup_only 5) (esW ?y)" by (simp add: ep_next_def on_provider_def ep_start_def list_all_length idle_worker_def hup_only_def)
  have p: "at_eof 5 [] [1, 2] (esP ?y)"
    by (simp add: ep_next_def on_provider_def ep_start_def EP_new_def EP_Initialize_def AssociateSocket_def RecvAsync_def ctl_mod_def
        peer_sends_def peer_closes_def at_eof_def Let_def)
  have "list_all (\<lambda>e. e \<noteq> EpClose 5) es" using assms by (auto simp: list_all_iff)
  from ended.run_kept [OF this p w] show ?thesis by (simp add: at_eof_def)
qed

theorem epoll_eof_drops_input_witness:
  "epRead (esP (ep_run [EpWait 0 2 [(5, \<lparr>evIn = True, evOut = False, evErr = False, evHup = True\<rparr>)], EpStep 0 (Got 2), EpStep 0 (Got 2)]
     (ep_run [EpInitialize True, EpAssociate True 5, EpRecv 5 True 16 7, EpPeer 5 [1, 2], EpPeerClose 5] (ep_start 1)))) 5 = []"
  by (rule epoll_eof_drops_input) simp

text \<open>
  A send of a connection that was closed goes to the next connection with the same descriptor: a
  worker that has an output event before it sends what is pending for the number, whoever has it now.
\<close>

definition reuse_run :: "ep_event list" where
  "reuse_run =
     [EpInitialize True, EpAssociate True 5, EpSend 5 (Some [1, 2, 3]) 7, EpWait 0 2 [(5, only_out)], EpStep 0 (Got 0),
      EpClose 5, EpAssociate True 5]"

theorem epoll_stale_send:
  "epWire (esP (ep_run reuse_run (ep_start 1))) 5 = [] \<and>
   epWire (esP (ep_next (EpStep 0 (Got 3)) (ep_run reuse_run (ep_start 1)))) 5 = [1, 2, 3]"
  by code_simp

end
