(* ===== verification/Latency.thy ===== *)
theory Latency
  imports Keyed_Dispatcher Session String_Util
begin

section \<open>Latency records of the database server\<close>

text \<open>
  \<open>DBServer/src/ServerLatencyManager.cpp\<close> and \<open>DBServer/src/OrderedTaskQueue.cpp\<close>: the statistics the database
  server keeps about the game servers, and the queue that orders the tasks which update them. The tasks are those that
  \<open>ServerPacketHandler\<close> enqueues; their bodies are in this theory because the workers of the queue run them
  one critical section at a time, interleaved with the other workers.

  Arithmetic on \<open>double\<close> is a parameter (\<open>'d\<close> with its operations), as is the text of a time stamp. The database
  answers are arguments.
\<close>

subsection \<open>Statistics of one server\<close>

record 'd double_ops =
  dOf :: "u64 \<Rightarrow> 'd"
  dAdd :: "'d \<Rightarrow> 'd \<Rightarrow> 'd"
  dSub :: "'d \<Rightarrow> 'd \<Rightarrow> 'd"
  dDiv :: "'d \<Rightarrow> 'd \<Rightarrow> 'd"

record 'd ServerLatencyInfo =
  li_serverId :: u32
  li_serverName :: string
  li_lastRttMs :: u64
  li_avgRttMs :: 'd
  li_minRttMs :: u64
  li_maxRttMs :: u64
  li_pingCount :: u64
  li_lastMeasuredTime :: u64

definition ServerLatencyInfo_new :: "'d double_ops \<Rightarrow> 'd ServerLatencyInfo" where
  "ServerLatencyInfo_new dbl = \<lparr>li_serverId = 0, li_serverName = [], li_lastRttMs = 0, li_avgRttMs = dOf dbl 0,
     li_minRttMs = - 1, li_maxRttMs = 0, li_pingCount = 0, li_lastMeasuredTime = 0\<rparr>"

text \<open>The update of an entry by \<open>RecordLatency\<close>, under \<open>mLatencyMutex\<close>.\<close>

definition update_info :: "'d double_ops \<Rightarrow> u32 \<Rightarrow> string \<Rightarrow> u64 \<Rightarrow> u64 \<Rightarrow> 'd ServerLatencyInfo \<Rightarrow> 'd ServerLatencyInfo" where
  "update_info dbl serverId serverName rttMs timestamp info =
     (let i = (if li_pingCount info = 0
               then info\<lparr>li_serverId := serverId, li_serverName := serverName, li_minRttMs := rttMs, li_maxRttMs := rttMs,
                 li_avgRttMs := dOf dbl rttMs\<rparr>
               else info\<lparr>li_minRttMs := min (li_minRttMs info) rttMs, li_maxRttMs := max (li_maxRttMs info) rttMs,
                 li_avgRttMs := dAdd dbl (li_avgRttMs info)
                   (dDiv dbl (dSub dbl (dOf dbl rttMs) (li_avgRttMs info)) (dOf dbl (li_pingCount info + 1)))\<rparr>)
      in i\<lparr>li_lastRttMs := rttMs, li_pingCount := li_pingCount i + 1, li_lastMeasuredTime := timestamp\<rparr>)"

subsection \<open>The manager\<close>

text \<open>
  A row is what the two scripts insert: the bound parameters, the numbers converted to \<open>long long\<close>. \<open>slDatabase\<close> says whether a database is set; \<open>slRows\<close> is
  what the scripts have inserted, in order.
\<close>

datatype 'd db_row =
    LatencyRow int string int 'd int int int string
  | PingRow int string string

record 'd ServerLatencyManager =
  slInitialized :: bool
  slDatabase :: bool
  slLatencyMap :: "u32 \<Rightarrow> 'd ServerLatencyInfo option"
  slLastPingTimeMap :: "u32 \<Rightarrow> u64 option"
  slRows :: "'d db_row list"

definition SL_new :: "'d ServerLatencyManager" where
  "SL_new = \<lparr>slInitialized = False, slDatabase = False, slLatencyMap = Map.empty, slLastPingTimeMap = Map.empty, slRows = []\<rparr>"

text \<open>
  \<open>EnsureTables\<close> runs the bootstrap of the module (theory \<open>Sql_Bootstrap\<close>) if the database is set and connected; it
  throws when the bootstrap does. \<open>connected\<close> and \<open>boots\<close> are the answers.
\<close>

definition EnsureTables_throws :: "bool \<Rightarrow> bool \<Rightarrow> 'd ServerLatencyManager \<Rightarrow> bool" where
  "EnsureTables_throws connected boots m \<longleftrightarrow> slDatabase m \<and> connected \<and> \<not> boots"

definition SL_Initialize :: "bool \<Rightarrow> bool \<Rightarrow> 'd ServerLatencyManager \<Rightarrow> bool \<times> 'd ServerLatencyManager" where
  "SL_Initialize connected boots m =
     (if slInitialized m then (False, m)
      else if EnsureTables_throws connected boots m then (False, m)
      else (True, m\<lparr>slInitialized := True\<rparr>))"

definition SL_SetDatabase :: "bool \<Rightarrow> 'd ServerLatencyManager \<Rightarrow> 'd ServerLatencyManager" where
  "SL_SetDatabase db m = m\<lparr>slDatabase := db\<rparr>"

definition SL_Shutdown :: "'d ServerLatencyManager \<Rightarrow> 'd ServerLatencyManager" where
  "SL_Shutdown m = (if slInitialized m then m\<lparr>slInitialized := False\<rparr> else m)"

definition GetLatencyInfo :: "u32 \<Rightarrow> 'd ServerLatencyManager \<Rightarrow> 'd ServerLatencyInfo option" where
  "GetLatencyInfo serverId m = slLatencyMap m serverId"

definition SL_GetLastPingTime :: "u32 \<Rightarrow> 'd ServerLatencyManager \<Rightarrow> u64" where
  "SL_GetLastPingTime serverId m = (case slLastPingTimeMap m serverId of Some t \<Rightarrow> t | None \<Rightarrow> 0)"

text \<open>
  What a script run does: no database, or none connected; done; an exception derived from \<open>std::exception\<close>, which is
  caught; another one, which is not.
\<close>

datatype persist = PNoDatabase | PDone | PException | PForeign

definition insert_row :: "persist \<Rightarrow> 'd db_row \<Rightarrow> 'd ServerLatencyManager \<Rightarrow> 'd ServerLatencyManager" where
  "insert_row p r m = (if slDatabase m \<and> p = PDone then m\<lparr>slRows := slRows m @ [r]\<rparr> else m)"

definition store_ping_time :: "u32 \<Rightarrow> u64 \<Rightarrow> 'd ServerLatencyManager \<Rightarrow> 'd ServerLatencyManager" where
  "store_ping_time serverId timestamp m = m\<lparr>slLastPingTimeMap := (slLastPingTimeMap m)(serverId \<mapsto> timestamp)\<rparr>"

definition latency_row :: "(u64 \<Rightarrow> string) \<Rightarrow> u32 \<Rightarrow> string \<Rightarrow> u64 \<Rightarrow> u64 \<Rightarrow> 'd ServerLatencyInfo \<Rightarrow> 'd db_row" where
  "latency_row FormatTimestamp serverId serverName rttMs timestamp i =
     LatencyRow (uint serverId) serverName (sint rttMs) (li_avgRttMs i) (sint (li_minRttMs i)) (sint (li_maxRttMs i))
       (sint (li_pingCount i)) (FormatTimestamp timestamp)"

definition ping_row :: "(u64 \<Rightarrow> string) \<Rightarrow> u32 \<Rightarrow> string \<Rightarrow> u64 \<Rightarrow> 'd db_row" where
  "ping_row FormatTimestamp serverId serverName timestamp = PingRow (uint serverId) serverName (FormatTimestamp timestamp)"

subsection \<open>The tasks and their critical sections\<close>

text \<open>
  The two closures that \<open>ServerPacketHandler\<close> enqueues, with what they capture; \<open>SaveTask\<close> keeps the session, named by its
  id, for its reply. A worker runs a closure one critical section at a time: \<open>task_pc\<close> is where it stands, with the
  closure's local variables.
\<close>

datatype ltask =
    RecordTask u32 u64 u64
  | SaveTask ConnectionId u32 string u64

datatype 'd task_pc =
    NoTask
  | RCheck u32 u64 u64                              \<comment> \<open>\<open>latencyMgr->IsInitialized()\<close> in the closure\<close>
  | RGuard u32 u64 u64                              \<comment> \<open>the test at the head of \<open>RecordLatency\<close>\<close>
  | RUpdate u32 u64 u64                             \<comment> \<open>under \<open>mLatencyMutex\<close>\<close>
  | RPersist u32 u64 u64 "'d ServerLatencyInfo"     \<comment> \<open>under \<open>mDatabaseMutex\<close>, with \<open>updatedInfo\<close>\<close>
  | SConnected ConnectionId u32 string u64          \<comment> \<open>\<open>sessionRef->IsConnected()\<close>\<close>
  | SCheck ConnectionId u32 string u64              \<comment> \<open>\<open>latencyMgr->IsInitialized()\<close>\<close>
  | SGuard ConnectionId u32 string u64              \<comment> \<open>the test at the head of \<open>SavePingTime\<close>\<close>
  | SStore ConnectionId u32 string u64              \<comment> \<open>under \<open>mPingTimeMutex\<close>\<close>
  | SPersist ConnectionId u32 string u64            \<comment> \<open>under \<open>mDatabaseMutex\<close>\<close>
  | SReply ConnectionId u32 u8                      \<comment> \<open>the reply, if the session is still connected\<close>
  | TDone
  | TThrown

fun task_begin :: "ltask \<Rightarrow> 'd task_pc" where
  "task_begin (RecordTask serverId rttMs receiveTime) = RCheck serverId rttMs receiveTime"
| "task_begin (SaveTask session serverId serverName timestamp) = SConnected session serverId serverName timestamp"

definition server_label :: "u32 \<Rightarrow> string" where
  "server_label serverId = ''Server_'' @ dec (unat serverId)"

text \<open>\<open>SavePingTime\<close> returns true without a database.\<close>

definition saved :: "bool \<Rightarrow> persist \<Rightarrow> bool" where
  "saved database p \<longleftrightarrow> \<not> database \<or> p \<noteq> PException"

text \<open>One critical section; \<open>connected\<close> is the answer of \<open>IsConnected\<close> on the session, \<open>p\<close> that of the database.\<close>

fun task_next :: "'d double_ops \<Rightarrow> (u64 \<Rightarrow> string) \<Rightarrow> bool \<Rightarrow> persist \<Rightarrow> 'd task_pc \<Rightarrow> 'd ServerLatencyManager \<Rightarrow>
    'd task_pc \<times> 'd ServerLatencyManager \<times> (ConnectionId \<times> u32 \<times> u8) list" where
  "task_next dbl fmt connected p (RCheck i rtt t) m = (if slInitialized m then RGuard i rtt t else TDone, m, [])"
| "task_next dbl fmt connected p (RGuard i rtt t) m = (if slInitialized m then RUpdate i rtt t else TDone, m, [])"
| "task_next dbl fmt connected p (RUpdate i rtt t) m =
     (let info = update_info dbl i (server_label i) rtt t
            (case slLatencyMap m i of Some x \<Rightarrow> x | None \<Rightarrow> ServerLatencyInfo_new dbl)
      in (RPersist i rtt t info, m\<lparr>slLatencyMap := (slLatencyMap m)(i \<mapsto> info)\<rparr>, []))"
| "task_next dbl fmt connected p (RPersist i rtt t info) m =
     (if slDatabase m \<and> p = PForeign then TThrown else TDone,
      insert_row p (latency_row fmt i (server_label i) rtt t info) m, [])"
| "task_next dbl fmt connected p (SConnected s i n t) m = (if connected then SCheck s i n t else TDone, m, [])"
| "task_next dbl fmt connected p (SCheck s i n t) m = (if slInitialized m then SGuard s i n t else SReply s i 2, m, [])"
| "task_next dbl fmt connected p (SGuard s i n t) m = (if slInitialized m then SStore s i n t else SReply s i 1, m, [])"
| "task_next dbl fmt connected p (SStore s i n t) m =
     (SPersist s i n t, store_ping_time i t m, [])"
| "task_next dbl fmt connected p (SPersist s i n t) m =
     (if slDatabase m \<and> p = PForeign then TThrown else SReply s i (if saved (slDatabase m) p then 0 else 1),
      insert_row p (ping_row fmt i n t) m, [])"
| "task_next dbl fmt connected p (SReply s i result) m = (TDone, m, if connected then [(s, i, result)] else [])"
| "task_next dbl fmt connected p NoTask m = (NoTask, m, [])"
| "task_next dbl fmt connected p TDone m = (TDone, m, [])"
| "task_next dbl fmt connected p TThrown m = (TThrown, m, [])"

subsection \<open>The ordered task queue\<close>

text \<open>
  \<open>mIsRunning\<close> is tested before \<open>Dispatch\<close> is entered: \<open>otEntering\<close> holds the calls in between. \<open>otBodies\<close> is where the
  workers stand in their closures. The wrapper's increment of a counter directly follows the dispatcher's own and is one
  action with it. History: \<open>otReplies\<close> are the replies handed to \<open>Session::Send\<close>.
\<close>

record 'd otq =
  otRunning :: bool
  otWorkerCount :: nat
  otDispatcher :: "ltask kd"
  otEnqueued :: size_t
  otProcessed :: size_t
  otFailed :: size_t
  otEntering :: "(u64 \<times> ltask) option list"
  otBodies :: "nat \<Rightarrow> 'd task_pc"
  otManager :: "'d ServerLatencyManager"
  otReplies :: "(ConnectionId \<times> u32 \<times> u8) list"

definition otq_options :: "nat \<Rightarrow> kd_options" where
  "otq_options workerCount = \<lparr>mWorkerCount = workerCount,
     mQueueOptions = default_options\<lparr>mCapacity := 8192, mBackpressure := Block\<rparr>, mName = ''OrderedTaskQueue''\<rparr>"

definition OT_new :: "nat \<Rightarrow> 'd ServerLatencyManager \<Rightarrow> 'd otq" where
  "OT_new callers m = \<lparr>otRunning = False, otWorkerCount = 0, otDispatcher = KD_new callers, otEnqueued = 0, otProcessed = 0,
     otFailed = 0, otEntering = replicate callers None, otBodies = (\<lambda>_. NoTask), otManager = m, otReplies = []\<rparr>"

definition OT_Initialize :: "nat \<Rightarrow> nat \<Rightarrow> 'd otq \<Rightarrow> bool \<times> 'd otq" where
  "OT_Initialize hw workerCount q =
     (if otRunning q then (True, q)
      else if workerCount = 0 then (False, q)
      else case KD_Initialize hw (otq_options workerCount) (otDispatcher q) of
             (False, d) \<Rightarrow> (False, q\<lparr>otDispatcher := d\<rparr>)
           | (True, d) \<Rightarrow> (True, q\<lparr>otDispatcher := d, otWorkerCount := workerCount, otEnqueued := 0, otProcessed := 0,
               otFailed := 0, otRunning := True\<rparr>))"

definition GetWorkerQueueSize :: "nat \<Rightarrow> 'd otq \<Rightarrow> size_t" where
  "GetWorkerQueueSize i q = KD_GetWorkerQueueSize i (otDispatcher q)"

subsection \<open>Interleaving\<close>

text \<open>
  \<open>EnqueueTask\<close> up to \<open>Dispatch\<close>; both callers pass the server id of the task as its key. The other events are an
  action of the dispatcher, one critical section of a worker, the shutdown of the queue, and calls on the manager.
\<close>

fun server_key :: "ltask \<Rightarrow> u32" where
  "server_key (RecordTask i rtt t) = i"
| "server_key (SaveTask s i n t) = i"

definition EnqueueTask :: "nat \<Rightarrow> u32 \<Rightarrow> ltask \<Rightarrow> 'd otq \<Rightarrow> 'd otq option" where
  "EnqueueTask c key t q =
     (if c < length (otEntering q) \<and> otEntering q ! c = None \<and> kdClients (otDispatcher q) ! c = DIdle
      then Some (if otRunning q then q\<lparr>otEntering := (otEntering q)[c := Some (ucast key, t)]\<rparr> else q)
      else None)"

definition enter_dispatch :: "nat \<Rightarrow> 'd otq \<Rightarrow> 'd otq option" where
  "enter_dispatch c q =
     (if c < length (otEntering q)
      then (case otEntering q ! c of
              None \<Rightarrow> None
            | Some (key, t) \<Rightarrow>
                map_option (\<lambda>d. q\<lparr>otDispatcher := d, otEntering := (otEntering q)[c := None]\<rparr>)
                  (kd_next (KCall c key (Some t)) (otDispatcher q)))
      else None)"

text \<open>One action of \<open>Dispatch\<close>; when it returns, the caller counts the task as enqueued or as failed.\<close>

definition caller_next :: "nat \<Rightarrow> bool \<Rightarrow> 'd otq \<Rightarrow> 'd otq option" where
  "caller_next c expired q =
     map_option
       (\<lambda>d. let q' = q\<lparr>otDispatcher := d\<rparr>
             in case kdClients (otDispatcher q) ! c of
                  DPushed ok \<Rightarrow> if ok then q'\<lparr>otEnqueued := otEnqueued q + 1\<rparr> else q'\<lparr>otFailed := otFailed q + 1\<rparr>
                | _ \<Rightarrow> q')
       (kd_next (KDispatch c (- 1) expired) (otDispatcher q))"

text \<open>
  One action of a worker outside of a closure. The wrapper around a closure catches every exception and counts, so the
  dispatcher never sees one.
\<close>

fun body_of :: "ltask ktask worker_pc \<Rightarrow> 'd task_pc" where
  "body_of (WRunning t) = task_begin (snd t)"
| "body_of _ = NoTask"

definition worker_action :: "nat \<Rightarrow> bool \<Rightarrow> 'd otq \<Rightarrow> 'd otq option" where
  "worker_action w expired q =
     (if otBodies q w \<in> {NoTask, TDone, TThrown}
      then map_option
        (\<lambda>d. q\<lparr>otDispatcher := d, otBodies := (otBodies q)(w := body_of (wThread (kdWorkers d ! w))),
               otProcessed := otProcessed q + (if otBodies q w = TDone then 1 else 0),
               otFailed := otFailed q + (if otBodies q w = TThrown then 1 else 0)\<rparr>)
        (kd_next (KWorker w expired False) (otDispatcher q))
      else None)"

definition section_next :: "'d double_ops \<Rightarrow> (u64 \<Rightarrow> string) \<Rightarrow> nat \<Rightarrow> bool \<Rightarrow> persist \<Rightarrow> 'd otq \<Rightarrow> 'd otq" where
  "section_next dbl fmt w connected p q =
     (case task_next dbl fmt connected p (otBodies q w) (otManager q) of
        (pc, m, sent) \<Rightarrow> q\<lparr>otBodies := (otBodies q)(w := pc), otManager := m, otReplies := otReplies q @ sent\<rparr>)"

definition OT_Shutdown :: "'d otq \<Rightarrow> 'd otq" where
  "OT_Shutdown q = q\<lparr>otRunning := False\<rparr>"

definition dispatcher_shutdown :: "ltask kd_event \<Rightarrow> 'd otq \<Rightarrow> 'd otq option" where
  "dispatcher_shutdown e q =
     (if otRunning q then None else map_option (\<lambda>d. q\<lparr>otDispatcher := d\<rparr>) (kd_next e (otDispatcher q)))"

datatype ot_event =
    OEnqueue nat ltask
  | ODispatch nat
  | OCaller nat bool
  | OWorker nat bool
  | OSection nat bool persist
  | OShutdown
  | OShutdownCas
  | OShutdownNext
  | OManagerShutdown
  | OSetDatabase bool

fun ot_next :: "'d double_ops \<Rightarrow> (u64 \<Rightarrow> string) \<Rightarrow> ot_event \<Rightarrow> 'd otq \<Rightarrow> 'd otq option" where
  "ot_next dbl fmt (OEnqueue c t) q = EnqueueTask c (server_key t) t q"
| "ot_next dbl fmt (ODispatch c) q = enter_dispatch c q"
| "ot_next dbl fmt (OCaller c expired) q = caller_next c expired q"
| "ot_next dbl fmt (OWorker w expired) q = worker_action w expired q"
| "ot_next dbl fmt (OSection w connected p) q = Some (section_next dbl fmt w connected p q)"
| "ot_next dbl fmt OShutdown q = Some (OT_Shutdown q)"
| "ot_next dbl fmt OShutdownCas q = dispatcher_shutdown KShutdownCas q"
| "ot_next dbl fmt OShutdownNext q = dispatcher_shutdown KShutdown q"
| "ot_next dbl fmt OManagerShutdown q = Some (q\<lparr>otManager := SL_Shutdown (otManager q)\<rparr>)"
| "ot_next dbl fmt (OSetDatabase db) q = Some (q\<lparr>otManager := SL_SetDatabase db (otManager q)\<rparr>)"

inductive ot_reach :: "'d double_ops \<Rightarrow> (u64 \<Rightarrow> string) \<Rightarrow> nat \<Rightarrow> nat \<Rightarrow> nat \<Rightarrow> 'd otq \<Rightarrow> bool"
  for dbl :: "'d double_ops" and fmt :: "u64 \<Rightarrow> string" and hw :: nat and workers :: nat and callers :: nat where
  init: "OT_Initialize hw workers (OT_new callers (snd (SL_Initialize connected True SL_new))) = (True, q) \<Longrightarrow>
    ot_reach dbl fmt hw workers callers q"
| step: "ot_reach dbl fmt hw workers callers q \<Longrightarrow> ot_next dbl fmt e q = Some q' \<Longrightarrow> ot_reach dbl fmt hw workers callers q'"

fun ot_run :: "'d double_ops \<Rightarrow> (u64 \<Rightarrow> string) \<Rightarrow> ot_event list \<Rightarrow> 'd otq \<Rightarrow> 'd otq option" where
  "ot_run dbl fmt [] q = Some q"
| "ot_run dbl fmt (e # es) q = (case ot_next dbl fmt e q of None \<Rightarrow> None | Some q' \<Rightarrow> ot_run dbl fmt es q')"

lemma ot_reach_run: "ot_reach dbl fmt hw n c q \<Longrightarrow> ot_run dbl fmt es q = Some q' \<Longrightarrow> ot_reach dbl fmt hw n c q'"
  by (induction es arbitrary: q) (auto split: option.splits intro: ot_reach.step)

text \<open>The dispatcher inside the queue behaves as one alone.\<close>

lemma ot_next_kd:
  "ot_next dbl fmt e q = Some q' \<Longrightarrow> otDispatcher q' = otDispatcher q \<or> (\<exists>k. kd_next k (otDispatcher q) = Some (otDispatcher q'))"
proof (cases e)
  case (ODispatch c)
  moreover assume "ot_next dbl fmt e q = Some q'"
  ultimately show ?thesis
    by (fastforce simp: enter_dispatch_def simp del: kd_next.simps split: if_splits option.splits)
next
  case (OCaller c x)
  moreover assume "ot_next dbl fmt e q = Some q'"
  ultimately show ?thesis
    by (cases "kdClients (otDispatcher q) ! c")
      (auto simp: caller_next_def Let_def simp del: kd_next.simps split: if_splits)
qed (auto simp: EnqueueTask_def worker_action_def section_next_def dispatcher_shutdown_def OT_Shutdown_def
  simp del: kd_next.simps split: if_splits prod.splits)

lemma ot_reach_kd: "ot_reach dbl fmt hw n c q \<Longrightarrow> kd_reach hw (otq_options n) c (otDispatcher q)"
proof (induction rule: ot_reach.induct)
  case (init x q)
  then have "otDispatcher q = snd (KD_Initialize hw (otq_options n) (KD_new c))"
    by (auto simp: OT_Initialize_def OT_new_def split: if_splits prod.splits bool.splits)
  then show ?case by (simp add: kd_reach.init)
next
  case (step q e q')
  then show ?case using ot_next_kd [OF step.hyps(2)] by (auto intro: kd_reach.step)
qed

subsection \<open>Tasks carry the key of their server\<close>

fun caller_tasks :: "'t disp_pc \<Rightarrow> 't set" where
  "caller_tasks (DEntered key (Some t)) = {t}"
| "caller_tasks (DPush w t) = {t}"
| "caller_tasks (DPushImpl w t) = {t}"
| "caller_tasks _ = {}"

definition kd_tasks :: "'f kd \<Rightarrow> 'f ktask set" where
  "kd_tasks d = set (kdAccepted d) \<union> \<Union> (caller_tasks ` set (kdClients d))"

definition well_keyed :: "u64 \<times> ltask \<Rightarrow> bool" where
  "well_keyed t \<longleftrightarrow> fst t = ucast (server_key (snd t))"

lemma caller_tasks_update:
  "\<Union> (caller_tasks ` set (xs[c := p])) \<subseteq> \<Union> (caller_tasks ` set xs) \<union> caller_tasks p"
  using set_update_subset_insert [of xs c p] by blast

lemma dispatch_next_tasks:
  assumes "dispatch_next tm x c d = Some d'"
  shows "kd_tasks d' \<subseteq> kd_tasks d"
proof -
  have c: "caller_tasks (kdClients d ! c) \<subseteq> kd_tasks d" if "c < length (kdClients d)"
    using that by (auto simp: kd_tasks_def intro!: bexI [of _ "kdClients d ! c"])
  have "c < length (kdClients d) \<and> kdClients d' = (kdClients d)[c := kdClients d' ! c] \<and>
      caller_tasks (kdClients d' ! c) \<subseteq> caller_tasks (kdClients d ! c) \<and>
      set (kdAccepted d') \<subseteq> set (kdAccepted d) \<union> caller_tasks (kdClients d ! c)"
    using assms unfolding dispatch_next_def Let_def
    by (cases "kdClients d ! c") (auto split: if_splits option.splits prod.splits wait.splits)
  then obtain p where p: "c < length (kdClients d)" "kdClients d' = (kdClients d)[c := p]"
    "caller_tasks p \<subseteq> caller_tasks (kdClients d ! c)" "set (kdAccepted d') \<subseteq> set (kdAccepted d) \<union> caller_tasks (kdClients d ! c)"
    by blast
  have "\<Union> (caller_tasks ` set (kdClients d')) \<subseteq> \<Union> (caller_tasks ` set (kdClients d)) \<union> caller_tasks p"
    unfolding p(2) by (rule caller_tasks_update)
  then show ?thesis using c [OF p(1)] p(3,4) unfolding kd_tasks_def by blast
qed

lemma kd_next_tasks:
  assumes "kd_next e d = Some d'"
  shows "kd_tasks d' \<subseteq> kd_tasks d \<union> (case e of KCall c key (Some f) \<Rightarrow> {(key, f)} | _ \<Rightarrow> {})"
proof (cases e)
  case (KCall c key f)
  let ?p = "DEntered key (map_option (Pair key) f)"
  from KCall assms have "kdAccepted d' = kdAccepted d" "kdClients d' = (kdClients d)[c := ?p]"
    by (auto split: if_splits)
  moreover have "caller_tasks ?p = (case e of KCall c key (Some f) \<Rightarrow> {(key, f)} | _ \<Rightarrow> {})"
    using KCall by (cases f) simp_all
  ultimately show ?thesis using caller_tasks_update [of "kdClients d" c ?p] unfolding kd_tasks_def by auto
next
  case (KDispatch c tm x)
  with assms dispatch_next_tasks show ?thesis by fastforce
next
  case (KWorker w x y)
  with assms show ?thesis by (auto simp: KD_worker_def kd_tasks_def split: if_splits option.splits)
next
  case KShutdownCas
  with assms show ?thesis by (auto simp: KD_Shutdown_cas_def kd_tasks_def split: if_splits)
next
  case KShutdown
  with assms show ?thesis by (auto simp: KD_Shutdown_next_def kd_tasks_def split: shut_pc.splits if_splits)
qed

text \<open>The server a closure works for, and the invariant: tasks are keyed, closures run on the worker of their server.\<close>

fun body_key :: "'d task_pc \<Rightarrow> u32 option" where
  "body_key (RCheck i rtt t) = Some i"
| "body_key (RGuard i rtt t) = Some i"
| "body_key (RUpdate i rtt t) = Some i"
| "body_key (RPersist i rtt t info) = Some i"
| "body_key (SConnected s i n t) = Some i"
| "body_key (SCheck s i n t) = Some i"
| "body_key (SGuard s i n t) = Some i"
| "body_key (SStore s i n t) = Some i"
| "body_key (SPersist s i n t) = Some i"
| "body_key (SReply s i r) = Some i"
| "body_key _ = None"

definition ot_inv :: "nat \<Rightarrow> 'd otq \<Rightarrow> bool" where
  "ot_inv n q \<longleftrightarrow> 0 < n \<and> (\<forall>t \<in> kd_tasks (otDispatcher q). well_keyed t) \<and> (\<forall>t. Some t \<in> set (otEntering q) \<longrightarrow> well_keyed t) \<and>
     (\<forall>w i. body_key (otBodies q w) = Some i \<longrightarrow> unat i mod n = w)"

lemma task_next_key: "task_next dbl fmt c p pc m = (pc', m', s) \<Longrightarrow> body_key pc' = None \<or> body_key pc' = body_key pc"
  by (cases pc) (auto simp: Let_def split: if_splits)

lemma task_begin_key: "body_key (task_begin t) = Some (server_key t)"
  by (cases t) simp_all

lemma workers_otq: "0 < n \<Longrightarrow> resolved_worker_count hw (otq_options n) = n"
  by (simp add: resolved_worker_count_def otq_options_def)

text \<open>A task that is being executed has been accepted, and runs where its key leads.\<close>

lemma executed_accepted: "kd_inv N d \<Longrightarrow> set (kdExecuted d) \<subseteq> set (kdAccepted d)"
proof
  fix t assume "kd_inv N d" "t \<in> set (kdExecuted d)"
  then have "t \<in> set (kd_hist N (kd_route N t) (kdExecuted d))" "prefix (kd_hist N (kd_route N t) (kdExecuted d)) (kd_hist N (kd_route N t) (kdAccepted d))"
    by (simp_all add: kd_hist_def kd_inv_def)
  then have "t \<in> set (kd_hist N (kd_route N t) (kdAccepted d))" using set_mono_prefix by blast
  then show "t \<in> set (kdAccepted d)" by (simp add: kd_hist_def)
qed

lemma worker_action_cases:
  assumes "worker_action w x q = Some q'"
  obtains d pc where "otBodies q w \<in> {NoTask, TDone, TThrown}" "KD_worker x False w (otDispatcher q) = Some d"
    "w < length (kdWorkers (otDispatcher q))" "kdExecuted d = kdExecuted (otDispatcher q) @ running_task pc"
    "kdAccepted d = kdAccepted (otDispatcher q)" "kdClients d = kdClients (otDispatcher q)"
    "length (kdWorkers d) = length (kdWorkers (otDispatcher q))" "wThread (kdWorkers d ! w) = pc"
    "q' = q\<lparr>otDispatcher := d, otBodies := (otBodies q)(w := body_of pc),
       otProcessed := otProcessed q + (if otBodies q w = TDone then 1 else 0),
       otFailed := otFailed q + (if otBodies q w = TThrown then 1 else 0)\<rparr>"
proof -
  from assms obtain d where d: "otBodies q w \<in> {NoTask, TDone, TThrown}" "KD_worker x False w (otDispatcher q) = Some d"
    "q' = q\<lparr>otDispatcher := d, otBodies := (otBodies q)(w := body_of (wThread (kdWorkers d ! w))),
       otProcessed := otProcessed q + (if otBodies q w = TDone then 1 else 0),
       otFailed := otFailed q + (if otBodies q w = TThrown then 1 else 0)\<rparr>"
    by (auto simp: worker_action_def simp del: insert_iff split: if_splits)
  from d(2) show ?thesis by (rule KD_worker_cases) (use d that in force)
qed

lemma ot_inv_worker:
  assumes "ot_inv n q" "worker_action w x q = Some q'" "kd_inv n (otDispatcher q')"
  shows "ot_inv n q'"
proof -
  from assms(2) obtain d pc where c: "w < length (kdWorkers (otDispatcher q))" "kdExecuted d = kdExecuted (otDispatcher q) @ running_task pc"
    "kdAccepted d = kdAccepted (otDispatcher q)" "kdClients d = kdClients (otDispatcher q)"
    "length (kdWorkers d) = length (kdWorkers (otDispatcher q))" "wThread (kdWorkers d ! w) = pc"
    "q' = q\<lparr>otDispatcher := d, otBodies := (otBodies q)(w := body_of pc),
       otProcessed := otProcessed q + (if otBodies q w = TDone then 1 else 0),
       otFailed := otFailed q + (if otBodies q w = TThrown then 1 else 0)\<rparr>"
    by (rule worker_action_cases)
  have keep: "kd_tasks d = kd_tasks (otDispatcher q)" using c by (simp add: kd_tasks_def)
  have "unat i mod n = w" if "body_key (body_of pc :: 'a task_pc) = Some i" for i
  proof (cases pc)
    case (WRunning t)
    have "kd_inv n d" using assms(3) c(7) by simp
    moreover have "t \<in> set (kdExecuted d)" using c(2) WRunning by simp
    ultimately have "t \<in> kd_tasks (otDispatcher q)" using executed_accepted c(3) by (force simp: kd_tasks_def)
    then have "well_keyed t" using assms(1) by (auto simp: ot_inv_def)
    moreover have "kd_route n t = w" using \<open>kd_inv n d\<close> c(1,5,6) WRunning by (auto simp: kd_inv_def worker_ok_def)
    ultimately show ?thesis using that WRunning by (simp add: well_keyed_def kd_route_def unat_widen task_begin_key)
  qed (use that in simp_all)
  then show ?thesis using assms(1) keep c(7) by (auto simp: ot_inv_def)
qed

lemma ot_inv_next:
  assumes "ot_inv n q" "ot_next dbl fmt e q = Some q'" "kd_inv n (otDispatcher q')"
  shows "ot_inv n q'"
proof (cases e)
  case (OEnqueue c t)
  have "Some x \<in> set ((otEntering q)[c := Some (ucast (server_key t), t)]) \<Longrightarrow> well_keyed x" for x
    using assms(1) set_update_subset_insert [of "otEntering q" c "Some (ucast (server_key t), t)"]
    by (auto simp: ot_inv_def well_keyed_def)
  with assms(1,2) OEnqueue show ?thesis by (auto simp: ot_inv_def EnqueueTask_def split: if_splits)
next
  case (ODispatch c)
  with assms(2) obtain key t d where c: "c < length (otEntering q)" "otEntering q ! c = Some (key, t)"
    "kd_next (KCall c key (Some t)) (otDispatcher q) = Some d" "q' = q\<lparr>otDispatcher := d, otEntering := (otEntering q)[c := None]\<rparr>"
    by (auto simp: enter_dispatch_def simp del: kd_next.simps split: if_splits option.splits)
  have "well_keyed (key, t)" using assms(1) c(1,2) unfolding ot_inv_def by (metis nth_mem)
  moreover have "kd_tasks d \<subseteq> kd_tasks (otDispatcher q) \<union> {(key, t)}" using kd_next_tasks [OF c(3)] by simp
  moreover have "Some x \<in> set ((otEntering q)[c := None]) \<Longrightarrow> Some x \<in> set (otEntering q)" for x
    using set_update_subset_insert [of "otEntering q" c None] by blast
  ultimately show ?thesis using assms(1) c(4) unfolding ot_inv_def by auto
next
  case (OCaller c x)
  with assms(2) obtain d where d: "kd_next (KDispatch c (- 1) x) (otDispatcher q) = Some d" "otDispatcher q' = d"
    "otEntering q' = otEntering q" "otBodies q' = otBodies q"
    by (cases "kdClients (otDispatcher q) ! c") (auto simp: caller_next_def Let_def simp del: kd_next.simps split: if_splits)
  from kd_next_tasks [OF d(1)] show ?thesis using assms(1) d(2-) unfolding ot_inv_def by auto
next
  case (OWorker w x)
  with assms ot_inv_worker show ?thesis by fastforce
next
  case (OSection w c p)
  obtain pc m s where "task_next dbl fmt c p (otBodies q w) (otManager q) = (pc, m, s)" by (metis prod_cases3)
  with assms(1,2) OSection task_next_key [OF this] show ?thesis by (auto simp: ot_inv_def section_next_def split: if_splits)
next
  case OShutdownCas
  with assms(2) obtain d where d: "kd_next KShutdownCas (otDispatcher q) = Some d" "q' = q\<lparr>otDispatcher := d\<rparr>"
    by (auto simp: dispatcher_shutdown_def simp del: kd_next.simps split: if_splits)
  from kd_next_tasks [OF d(1)] show ?thesis using assms(1) d(2) unfolding ot_inv_def by auto
next
  case OShutdownNext
  with assms(2) obtain d where d: "kd_next KShutdown (otDispatcher q) = Some d" "q' = q\<lparr>otDispatcher := d\<rparr>"
    by (auto simp: dispatcher_shutdown_def simp del: kd_next.simps split: if_splits)
  from kd_next_tasks [OF d(1)] show ?thesis using assms(1) d(2) unfolding ot_inv_def by auto
qed (use assms in \<open>auto simp: ot_inv_def OT_Shutdown_def\<close>)

lemma OT_Initialize_cases:
  assumes "OT_Initialize hw n (OT_new c m) = (True, q)"
  shows "0 < n" "q = (OT_new c m)\<lparr>otDispatcher := snd (KD_Initialize hw (otq_options n) (KD_new c)), otWorkerCount := n, otRunning := True\<rparr>"
  using assms by (auto simp: OT_Initialize_def OT_new_def KD_Initialize_def KD_new_def split: if_splits)

lemma ot_reach_kd_inv: "ot_reach dbl fmt hw n c q \<Longrightarrow> 0 < n \<and> kd_inv n (otDispatcher q)"
proof -
  assume r: "ot_reach dbl fmt hw n c q"
  have "0 < n" using r by (induction rule: ot_reach.induct) (auto dest: OT_Initialize_cases)
  with kd_reach_inv [OF ot_reach_kd [OF r]] workers_otq [of n hw] show ?thesis by simp
qed

lemma ot_reach_inv: "ot_reach dbl fmt hw n c q \<Longrightarrow> ot_inv n q"
proof (induction rule: ot_reach.induct)
  case (init x q)
  from OT_Initialize_cases [OF init] show ?case
    by (auto simp: ot_inv_def OT_new_def KD_Initialize_def KD_new_def kd_tasks_def)
next
  case (step q e q')
  then show ?case using ot_inv_next ot_reach_kd_inv [OF ot_reach.step [OF step.hyps]] by blast
qed

subsection \<open>Specification: the pings of a server, one after the other\<close>

text \<open>
  \<open>pings i\<close> are the measurements for server \<open>i\<close> in a list of tasks, \<open>info_of\<close> the entry after recording a list of them
  in order, and \<open>info_rows\<close> the rows to be inserted on the way.
\<close>

fun ping_of :: "u32 \<Rightarrow> ltask \<Rightarrow> (u64 \<times> u64) list" where
  "ping_of i (RecordTask j rtt t) = (if i = j then [(rtt, t)] else [])"
| "ping_of i (SaveTask s j n t) = []"

definition pings :: "u32 \<Rightarrow> ltask ktask list \<Rightarrow> (u64 \<times> u64) list" where
  "pings i xs = concat (map (\<lambda>x. ping_of i (snd x)) xs)"

definition record_ping :: "'d double_ops \<Rightarrow> u32 \<Rightarrow> u64 \<times> u64 \<Rightarrow> 'd ServerLatencyInfo option \<Rightarrow> 'd ServerLatencyInfo option" where
  "record_ping dbl i r entry = Some (update_info dbl i (server_label i) (fst r) (snd r)
     (case entry of Some x \<Rightarrow> x | None \<Rightarrow> ServerLatencyInfo_new dbl))"

definition info_of :: "'d double_ops \<Rightarrow> u32 \<Rightarrow> (u64 \<times> u64) list \<Rightarrow> 'd ServerLatencyInfo option" where
  "info_of dbl i rs = fold (record_ping dbl i) rs None"

definition info_row :: "'d double_ops \<Rightarrow> (u64 \<Rightarrow> string) \<Rightarrow> u32 \<Rightarrow> (u64 \<times> u64) list \<Rightarrow> 'd db_row" where
  "info_row dbl fmt i rs = latency_row fmt i (server_label i) (fst (last rs)) (snd (last rs)) (the (info_of dbl i rs))"

definition info_rows :: "'d double_ops \<Rightarrow> (u64 \<Rightarrow> string) \<Rightarrow> u32 \<Rightarrow> (u64 \<times> u64) list \<Rightarrow> 'd db_row list" where
  "info_rows dbl fmt i rs = map (\<lambda>k. info_row dbl fmt i (take (Suc k) rs)) [0..<length rs]"

fun is_row :: "u32 \<Rightarrow> 'd db_row \<Rightarrow> bool" where
  "is_row i (LatencyRow j name rtt avg lo hi count time) \<longleftrightarrow> j = uint i"
| "is_row i (PingRow j name time) \<longleftrightarrow> False"

lemma pings_append [simp]: "pings i (xs @ ys) = pings i xs @ pings i ys"
  by (simp add: pings_def)

lemma info_rows_snoc: "info_rows dbl fmt i (rs @ [r]) = info_rows dbl fmt i rs @ [info_row dbl fmt i (rs @ [r])]"
  by (simp add: info_rows_def)

lemma info_of_snoc: "info_of dbl i (rs @ [r]) = record_ping dbl i r (info_of dbl i rs)"
  by (simp add: info_of_def)

subsection \<open>The statistics follow the accepted pings\<close>

text \<open>What a closure still has to record, and what it still has to insert.\<close>

fun late :: "u32 \<Rightarrow> 'd task_pc \<Rightarrow> (u64 \<times> u64) list" where
  "late i (RCheck j rtt t) = (if i = j then [(rtt, t)] else [])"
| "late i (RGuard j rtt t) = (if i = j then [(rtt, t)] else [])"
| "late i (RUpdate j rtt t) = (if i = j then [(rtt, t)] else [])"
| "late i _ = []"

fun unsaved :: "(u64 \<Rightarrow> string) \<Rightarrow> u32 \<Rightarrow> 'd task_pc \<Rightarrow> 'd db_row list" where
  "unsaved fmt i (RPersist j rtt t info) = (if i = j then [latency_row fmt i (server_label i) rtt t info] else [])"
| "unsaved fmt i _ = []"

definition server_ok :: "'d double_ops \<Rightarrow> (u64 \<Rightarrow> string) \<Rightarrow> u32 \<Rightarrow> ltask ktask list \<Rightarrow> 'd task_pc \<Rightarrow> 'd ServerLatencyManager \<Rightarrow> bool" where
  "server_ok dbl fmt i ex body m \<longleftrightarrow> (\<exists>r. pings i ex = r @ late i body \<and> slLatencyMap m i = info_of dbl i r \<and>
     subseq (filter (is_row i) (slRows m) @ unsaved fmt i body) (info_rows dbl fmt i r))"

definition lat_inv :: "'d double_ops \<Rightarrow> (u64 \<Rightarrow> string) \<Rightarrow> nat \<Rightarrow> 'd otq \<Rightarrow> bool" where
  "lat_inv dbl fmt n q \<longleftrightarrow> (slInitialized (otManager q) \<longrightarrow>
     (\<forall>i. server_ok dbl fmt i (kdExecuted (otDispatcher q)) (otBodies q (unat i mod n)) (otManager q)))"

lemma is_row_latency: "is_row i (latency_row fmt j name rtt t info) \<longleftrightarrow> j = i"
  by (simp add: latency_row_def word_uint_eq_iff)

lemma subseq_appendD1: "subseq (xs @ ys) zs \<Longrightarrow> subseq xs zs"
  by (metis list_emb_append2 append_Nil2 list_emb_append_mono list_emb_Nil subseq_order.trans subseq_order.refl)

lemma store_ping_time_eval [simp]:
  "slInitialized (store_ping_time i t m) = slInitialized m" "slLatencyMap (store_ping_time i t m) = slLatencyMap m"
  "slRows (store_ping_time i t m) = slRows m" "slDatabase (store_ping_time i t m) = slDatabase m"
  by (simp_all add: store_ping_time_def)

lemma insert_row_eval [simp]:
  "slInitialized (insert_row p r m) = slInitialized m" "slLatencyMap (insert_row p r m) = slLatencyMap m"
  "slRows (insert_row p r m) = slRows m @ (if slDatabase m \<and> p = PDone then [r] else [])"
  by (simp_all add: insert_row_def)

text \<open>A section of another server's closure changes nothing of this server.\<close>

lemma task_next_other:
  assumes "task_next dbl fmt c p pc m = (pc', m', s)" "body_key pc \<noteq> Some i"
  shows "slInitialized m' = slInitialized m \<and> slLatencyMap m' i = slLatencyMap m i \<and> filter (is_row i) (slRows m') = filter (is_row i) (slRows m)"
  using assms by (cases pc) (auto simp: Let_def is_row_latency ping_row_def split: if_splits)

lemma server_ok_frame:
  "server_ok dbl fmt i ex body m \<Longrightarrow> slLatencyMap m' i = slLatencyMap m i \<Longrightarrow> filter (is_row i) (slRows m') = filter (is_row i) (slRows m) \<Longrightarrow>
   server_ok dbl fmt i ex body m'"
  by (simp add: server_ok_def)

lemma server_ok_update:
  assumes "server_ok dbl fmt i ex (RUpdate i rtt t) m" "task_next dbl fmt c p (RUpdate i rtt t) m = (pc', m', s)"
  shows "server_ok dbl fmt i ex pc' m'"
proof -
  obtain r where r: "pings i ex = r @ [(rtt, t)]" "slLatencyMap m i = info_of dbl i r" "subseq (filter (is_row i) (slRows m)) (info_rows dbl fmt i r)"
    using assms(1) by (auto simp: server_ok_def)
  obtain info where info: "info_of dbl i (r @ [(rtt, t)]) = Some info" "pc' = RPersist i rtt t info"
    "m' = m\<lparr>slLatencyMap := (slLatencyMap m)(i \<mapsto> info)\<rparr>"
    using assms(2) r(2) by (auto simp: Let_def info_of_snoc record_ping_def)
  have "info_row dbl fmt i (r @ [(rtt, t)]) = latency_row fmt i (server_label i) rtt t info"
    using info(1) by (simp add: info_row_def)
  with r info show ?thesis unfolding server_ok_def
    by (intro exI [of _ "r @ [(rtt, t)]"]) (simp add: info_rows_snoc list_emb_append_mono)
qed

lemma server_ok_section:
  assumes "server_ok dbl fmt i ex pc m" "task_next dbl fmt c p pc m = (pc', m', s)" "slInitialized m"
  shows "server_ok dbl fmt i ex pc' m'"
proof (cases "\<exists>rtt t. pc = RUpdate i rtt t")
  case True
  then obtain rtt t where "pc = RUpdate i rtt t" by blast
  with server_ok_update [of dbl fmt i ex rtt t m c p pc' m' s] assms(1,2) show ?thesis by simp
next
  case other: False
  show ?thesis
  proof (cases "\<exists>rtt t info. pc = RPersist i rtt t info")
    case True
    then obtain rtt t info where "pc = RPersist i rtt t info" by blast
    with assms show ?thesis by (auto simp: server_ok_def is_row_latency dest: subseq_appendD1)
  next
    case False
    have "slLatencyMap m' i = slLatencyMap m i" "filter (is_row i) (slRows m') = filter (is_row i) (slRows m)"
      "late i pc' = late i pc" "unsaved fmt i pc' = unsaved fmt i pc"
      using other False assms(2,3) by (cases pc; auto simp: Let_def is_row_latency ping_row_def split: if_splits)+
    with assms(1) show ?thesis by (simp add: server_ok_def)
  qed
qed

lemma late_idle: "pc \<in> {NoTask, TDone, TThrown} \<Longrightarrow> late i pc = [] \<and> unsaved fmt i pc = []"
  by auto

lemma late_start: "late i (task_begin t) = ping_of i t \<and> unsaved fmt i (task_begin t) = []"
  by (cases t) simp_all

lemma lat_inv_worker:
  assumes "lat_inv dbl fmt n q" "ot_inv n q'" "worker_action w x q = Some q'"
  shows "lat_inv dbl fmt n q'"
proof -
  from assms(3) obtain d pc where c: "otBodies q w \<in> {NoTask, TDone, TThrown}" "kdExecuted d = kdExecuted (otDispatcher q) @ running_task pc"
    "q' = q\<lparr>otDispatcher := d, otBodies := (otBodies q)(w := body_of pc),
       otProcessed := otProcessed q + (if otBodies q w = TDone then 1 else 0),
       otFailed := otFailed q + (if otBodies q w = TThrown then 1 else 0)\<rparr>"
    by (rule worker_action_cases)
  have new: "pings i (running_task pc) = late i (body_of pc :: 'a task_pc) \<and> unsaved fmt i (body_of pc :: 'a task_pc) = []" for i
    by (cases pc) (simp_all add: late_start pings_def)
  have "server_ok dbl fmt i (kdExecuted d) (otBodies q' (unat i mod n)) (otManager q)"
    if ok: "server_ok dbl fmt i (kdExecuted (otDispatcher q)) (otBodies q (unat i mod n)) (otManager q)" for i
  proof (cases "unat i mod n = w")
    case True
    then show ?thesis using ok c new [of i] late_idle [OF c(1)] by (auto simp: server_ok_def)
  next
    case False
    have "late i (body_of pc :: 'a task_pc) = []"
    proof (cases pc)
      case (WRunning t)
      then have "body_key (otBodies q' w) = Some (server_key (snd t))" using c(3) by (simp add: task_begin_key)
      then have "server_key (snd t) \<noteq> i" using assms(2) False by (auto simp: ot_inv_def)
      then show ?thesis using WRunning by (cases "snd t") auto
    qed simp_all
    then show ?thesis using ok c new [of i] False by (simp add: server_ok_def)
  qed
  with assms(1) c(3) show ?thesis by (simp add: lat_inv_def)
qed

lemma lat_inv_section:
  assumes "lat_inv dbl fmt n q" "ot_inv n q"
  shows "lat_inv dbl fmt n (section_next dbl fmt w c p q)"
proof -
  obtain pc m s where x: "task_next dbl fmt c p (otBodies q w) (otManager q) = (pc, m, s)" by (metis prod_cases3)
  have "server_ok dbl fmt i ex (((otBodies q)(w := pc)) (unat i mod n)) m" if init: "slInitialized (otManager q)"
    and ok: "server_ok dbl fmt i ex (otBodies q (unat i mod n)) (otManager q)" for i ex
  proof (cases "unat i mod n = w")
    case True
    then show ?thesis using server_ok_section [OF _ x init] ok by simp
  next
    case False
    then have "body_key (otBodies q w) \<noteq> Some i" using assms(2) by (auto simp: ot_inv_def)
    from task_next_other [OF x this] server_ok_frame [OF ok] False show ?thesis by simp
  qed
  moreover have "slInitialized m = slInitialized (otManager q)" using x by (cases "otBodies q w") (auto simp: Let_def split: if_splits)
  ultimately show ?thesis using assms(1) x by (simp add: lat_inv_def section_next_def)
qed

text \<open>No other event touches what the invariant speaks of.\<close>

lemma kd_next_executed: "kd_next e d = Some d' \<Longrightarrow> (\<forall>w x y. e \<noteq> KWorker w x y) \<Longrightarrow> kdExecuted d' = kdExecuted d"
  by (cases e) (auto simp: dispatch_next_frame KD_Shutdown_cas_def KD_Shutdown_next_def split: if_splits shut_pc.splits)

lemma lat_inv_next:
  assumes "lat_inv dbl fmt n q" "ot_inv n q" "ot_inv n q'" "ot_next dbl fmt e q = Some q'"
  shows "lat_inv dbl fmt n q'"
proof (cases "\<exists>w x. e = OWorker w x")
  case True
  with assms lat_inv_worker show ?thesis by fastforce
next
  case nw: False
  show ?thesis
  proof (cases "\<exists>w c p. e = OSection w c p")
    case True
    with assms lat_inv_section show ?thesis by fastforce
  next
    case False
    have "kdExecuted (otDispatcher q') = kdExecuted (otDispatcher q) \<and> otBodies q' = otBodies q"
    proof (cases e)
      case (ODispatch c)
      with assms(4) show ?thesis by (auto simp: enter_dispatch_def simp del: kd_next.simps dest: kd_next_executed split: if_splits option.splits)
    next
      case (OCaller c x)
      with assms(4) show ?thesis
        by (cases "kdClients (otDispatcher q) ! c") (auto simp: caller_next_def Let_def simp del: kd_next.simps dest: kd_next_executed split: if_splits)
    qed (use nw False assms(4) in \<open>auto simp: EnqueueTask_def dispatcher_shutdown_def OT_Shutdown_def simp del: kd_next.simps
      dest: kd_next_executed split: if_splits\<close>)
    moreover have "slLatencyMap (otManager q') = slLatencyMap (otManager q) \<and> slRows (otManager q') = slRows (otManager q) \<and>
        (slInitialized (otManager q') \<longrightarrow> slInitialized (otManager q))"
    proof (cases e)
      case (OCaller c x)
      with assms(4) show ?thesis
        by (cases "kdClients (otDispatcher q) ! c") (auto simp: caller_next_def Let_def simp del: kd_next.simps split: if_splits)
    qed (use nw False assms(4) in \<open>auto simp: EnqueueTask_def enter_dispatch_def dispatcher_shutdown_def OT_Shutdown_def SL_Shutdown_def
      SL_SetDatabase_def simp del: kd_next.simps split: if_splits option.splits\<close>)
    ultimately show ?thesis using assms(1) by (auto simp: lat_inv_def intro: server_ok_frame)
  qed
qed

lemma ot_reach_lat: "ot_reach dbl fmt hw n c q \<Longrightarrow> lat_inv dbl fmt n q"
proof (induction rule: ot_reach.induct)
  case (init x q)
  from OT_Initialize_cases [OF init] show ?case
    by (auto simp: lat_inv_def server_ok_def OT_new_def SL_Initialize_def EnsureTables_throws_def SL_new_def KD_Initialize_def KD_new_def
        pings_def info_of_def info_rows_def)
next
  case (step q e q')
  then show ?case using lat_inv_next ot_reach_inv ot_reach_inv [OF ot_reach.step [OF step.hyps]] by blast
qed

text \<open>The entry after some pings, in their own terms.\<close>

lemma info_exact:
  assumes "rs \<noteq> []" "length rs < 2 ^ 64"
  shows "\<exists>info. info_of dbl i rs = Some info \<and> li_serverId info = i \<and> li_serverName info = server_label i \<and>
    li_minRttMs info = Min (fst ` set rs) \<and> li_maxRttMs info = Lattices_Big.Max (fst ` set rs) \<and>
    li_lastRttMs info = fst (last rs) \<and> li_pingCount info = of_nat (length rs) \<and> li_lastMeasuredTime info = snd (last rs)"
  using assms
proof (induction rs rule: rev_induct)
  case (snoc r rs)
  show ?case
  proof (cases "rs = []")
    case True
    then show ?thesis
      by (simp add: info_of_def record_ping_def update_info_def ServerLatencyInfo_new_def Let_def)
  next
    case False
    with snoc obtain info where info: "info_of dbl i rs = Some info" "li_serverId info = i" "li_serverName info = server_label i"
      "li_minRttMs info = Min (fst ` set rs)" "li_maxRttMs info = Lattices_Big.Max (fst ` set rs)" "li_pingCount info = of_nat (length rs)"
      by auto
    have "(of_nat (length rs) :: u64) \<noteq> 0"
      using False snoc.prems(2) by (auto simp: word_of_nat_eq_0_iff dest: dvd_imp_le)
    with info False show ?thesis
      by (simp add: info_of_snoc record_ping_def update_info_def Let_def min.commute max.commute)
  qed
qed simp

lemma pings_hist:
  assumes "0 < n" "\<forall>t \<in> set xs. well_keyed t"
  shows "pings i xs = pings i (kd_hist n (unat i mod n) xs)"
  using assms(2)
proof (induction xs)
  case (Cons t xs)
  have "ping_of i (snd t) = []" if "kd_route n t \<noteq> unat i mod n"
    using that Cons.prems by (cases "snd t") (auto simp: well_keyed_def kd_route_def unat_widen)
  with Cons show ?case by (simp add: kd_hist_def pings_def)
qed (simp add: kd_hist_def)

lemma pings_prefix: "prefix xs ys \<Longrightarrow> prefix (pings i xs) (pings i ys)"
  by (auto simp: prefix_def)

definition settled :: "'d otq \<Rightarrow> bool" where
  "settled q \<longleftrightarrow> kdWorkers (otDispatcher q) \<noteq> [] \<and> list_all (\<lambda>W. eqQueue (wQueue W) = []) (kdWorkers (otDispatcher q)) \<and>
     (\<forall>w. otBodies q w \<in> {NoTask, TDone, TThrown})"

lemma pings_executed:
  assumes "ot_reach dbl fmt hw n c q"
  shows "prefix (pings i (kdExecuted (otDispatcher q))) (pings i (kdAccepted (otDispatcher q)))"
    and "settled q \<Longrightarrow> pings i (kdExecuted (otDispatcher q)) = pings i (kdAccepted (otDispatcher q))"
proof -
  let ?d = "otDispatcher q" and ?w = "unat i mod n"
  from ot_reach_kd_inv [OF assms] have n: "0 < n" and inv: "kd_inv n ?d" by auto
  from ot_reach_inv [OF assms] have acc: "\<forall>t \<in> set (kdAccepted ?d). well_keyed t" by (auto simp: ot_inv_def kd_tasks_def)
  with executed_accepted [OF inv] have exe: "\<forall>t \<in> set (kdExecuted ?d). well_keyed t" by blast
  note P = pings_hist [OF n acc, of i] pings_hist [OF n exe, of i]
  have "prefix (kd_hist n ?w (kdExecuted ?d)) (kd_hist n ?w (kdAccepted ?d))" using inv by (simp add: kd_inv_def)
  from pings_prefix [OF this] P show "prefix (pings i (kdExecuted ?d)) (pings i (kdAccepted ?d))" by simp
  assume s: "settled q"
  then have "?w < length (kdWorkers ?d)" using inv n by (auto simp: settled_def kd_inv_def)
  with inv s have "kd_hist n ?w (kdAccepted ?d) = kd_hist n ?w (kdExecuted ?d)"
    by (auto simp: kd_inv_def worker_ok_def settled_def list_all_length)
  with P show "pings i (kdExecuted ?d) = pings i (kdAccepted ?d)" by simp
qed

text \<open>
  C10: the latency statistics of the database server. With callers, workers, shutdowns and database answers in any
  interleaving, the entry of a server is that of a sequential recording of a prefix of its accepted pings, in the order of
  acceptance: minimum, maximum, last value, number and time. At most the ping in execution is missing from those that have
  started, and nothing is missing when the queues are empty and the workers idle. The rows in the database are among those
  of that recording, in its order.
\<close>

theorem latency_in_order:
  assumes "ot_reach dbl fmt hw n c q" and "slInitialized (otManager q)" and "length (pings i (kdAccepted (otDispatcher q))) < 2 ^ 64"
  shows "\<exists>rs. prefix rs (pings i (kdAccepted (otDispatcher q))) \<and>
    length (pings i (kdExecuted (otDispatcher q))) \<le> Suc (length rs) \<and>
    (settled q \<longrightarrow> rs = pings i (kdAccepted (otDispatcher q))) \<and>
    (case GetLatencyInfo i (otManager q) of
       None \<Rightarrow> rs = []
     | Some info \<Rightarrow> rs \<noteq> [] \<and> li_minRttMs info = Min (fst ` set rs) \<and> li_maxRttMs info = Lattices_Big.Max (fst ` set rs) \<and>
         li_lastRttMs info = fst (last rs) \<and> li_pingCount info = of_nat (length rs) \<and> li_lastMeasuredTime info = snd (last rs)) \<and>
    subseq (filter (is_row i) (slRows (otManager q))) (info_rows dbl fmt i rs)"
proof -
  let ?d = "otDispatcher q" and ?b = "otBodies q (unat i mod n)"
  obtain rs where rs: "pings i (kdExecuted ?d) = rs @ late i ?b" "slLatencyMap (otManager q) i = info_of dbl i rs"
    "subseq (filter (is_row i) (slRows (otManager q)) @ unsaved fmt i ?b) (info_rows dbl fmt i rs)"
    using ot_reach_lat [OF assms(1)] assms(2) by (auto simp: lat_inv_def server_ok_def)
  note E = pings_executed [OF assms(1), of i]
  have p: "prefix rs (pings i (kdAccepted ?d))" using E(1) rs(1) by (auto simp: prefix_def)
  have l: "length (late i ?b) \<le> 1" by (cases ?b) simp_all
  have s: "rs = pings i (kdAccepted ?d)" if "settled q"
    using E(2) [OF that] rs(1) late_idle [of ?b i] that by (simp add: settled_def)
  have "length rs < 2 ^ 64" using p assms(3) by (auto dest: prefix_length_le)
  then have "case GetLatencyInfo i (otManager q) of
       None \<Rightarrow> rs = []
     | Some info \<Rightarrow> rs \<noteq> [] \<and> li_minRttMs info = Min (fst ` set rs) \<and> li_maxRttMs info = Lattices_Big.Max (fst ` set rs) \<and>
         li_lastRttMs info = fst (last rs) \<and> li_pingCount info = of_nat (length rs) \<and> li_lastMeasuredTime info = snd (last rs)"
    using rs(2) info_exact [of rs dbl i] by (cases "rs = []") (auto simp: GetLatencyInfo_def info_of_def)
  with p l s rs(1) subseq_appendD1 [OF rs(3)] show ?thesis by (intro exI [of _ rs]) auto
qed

subsection \<open>The counters of the queue\<close>

definition ot_count :: "'d otq \<Rightarrow> bool" where
  "ot_count q \<longleftrightarrow> (let d = otDispatcher q; s = kdStats d in
     otEnqueued q = mSubmitted s \<and> otProcessed q + otFailed q = mCompleted s + mRejected s \<and> mFailed s = 0 \<and>
     (\<forall>w < length (kdWorkers d). running_task (wThread (kdWorkers d ! w)) = [] \<longleftrightarrow> otBodies q w = NoTask))"

lemma task_next_NoTask: "task_next dbl fmt c p pc m = (pc', m', s) \<Longrightarrow> pc' = NoTask \<longleftrightarrow> pc = NoTask"
  by (cases pc) (auto simp: Let_def split: if_splits)

lemma body_of_NoTask: "body_of pc = NoTask \<longleftrightarrow> running_task pc = []"
proof (cases pc)
  case (WRunning t)
  then show ?thesis by (cases "snd t") simp_all
qed simp_all

lemma dispatch_next_stats:
  assumes "dispatch_next tm x c d = Some d'"
  shows "kdStats d' = (case kdClients d ! c of DPushed ok \<Rightarrow>
       (if ok then (kdStats d)\<lparr>mSubmitted := mSubmitted (kdStats d) + 1\<rparr> else (kdStats d)\<lparr>mRejected := mRejected (kdStats d) + 1\<rparr>)
     | _ \<Rightarrow> kdStats d)"
  using assms unfolding dispatch_next_def Let_def
  by (cases "kdClients d ! c") (auto split: if_splits option.splits prod.splits wait.splits)

lemma ot_count_pcs:
  "ot_count q \<longleftrightarrow> otEnqueued q = mSubmitted (kdStats (otDispatcher q)) \<and>
     otProcessed q + otFailed q = mCompleted (kdStats (otDispatcher q)) + mRejected (kdStats (otDispatcher q)) \<and>
     mFailed (kdStats (otDispatcher q)) = 0 \<and>
     (\<forall>w < length (kd_pcs (otDispatcher q)). running_task (kd_pcs (otDispatcher q) ! w) = [] \<longleftrightarrow> otBodies q w = NoTask)"
  by (simp add: ot_count_def Let_def)

lemma ot_count_caller:
  assumes "ot_count q" "caller_next c x q = Some q'"
  shows "ot_count q'"
proof -
  from assms(2) obtain d where d: "dispatch_next (- 1) x c (otDispatcher q) = Some d" "otDispatcher q' = d" "otBodies q' = otBodies q"
    "otProcessed q' = otProcessed q"
    "otEnqueued q' = otEnqueued q + (if kdClients (otDispatcher q) ! c = DPushed True then 1 else 0)"
    "otFailed q' = otFailed q + (if kdClients (otDispatcher q) ! c = DPushed False then 1 else 0)"
    by (cases "kdClients (otDispatcher q) ! c"; cases "kdClients (otDispatcher q) ! c = DPushed True")
      (auto simp: caller_next_def Let_def)
  have "kd_pcs d = kd_pcs (otDispatcher q)" using dispatch_next_frame [OF d(1)] by simp
  then show ?thesis using assms(1) d(2-) dispatch_next_stats [OF d(1)]
    by (cases "kdClients (otDispatcher q) ! c") (auto simp: ot_count_pcs algebra_simps split: if_splits)
qed

lemma ot_count_worker:
  assumes "ot_count q" "worker_action w x q = Some q'"
  shows "ot_count q'"
proof -
  from assms(2) obtain d where b: "otBodies q w \<in> {NoTask, TDone, TThrown}" and k: "KD_worker x False w (otDispatcher q) = Some d"
    and q': "q' = q\<lparr>otDispatcher := d, otBodies := (otBodies q)(w := body_of (wThread (kdWorkers d ! w))),
       otProcessed := otProcessed q + (if otBodies q w = TDone then 1 else 0),
       otFailed := otFailed q + (if otBodies q w = TThrown then 1 else 0)\<rparr>"
    by (rule worker_action_cases) simp
  let ?r = "running_task (kd_pcs (otDispatcher q) ! w)"
  from k obtain pc where pc: "w < length (kd_pcs (otDispatcher q))" "kd_pcs d = (kd_pcs (otDispatcher q))[w := pc]"
    "kdStats d = (if ?r = [] then kdStats (otDispatcher q)
       else (kdStats (otDispatcher q))\<lparr>mCompleted := mCompleted (kdStats (otDispatcher q)) + 1\<rparr>)"
    by (auto simp: KD_worker_def map_update split: if_splits option.splits)
  have "wThread (kdWorkers d ! w) = kd_pcs d ! w" using pc(1,2) by (metis length_list_update length_map nth_map)
  then have "wThread (kdWorkers d ! w) = pc" using pc(1,2) by simp
  moreover have "?r = [] \<longleftrightarrow> otBodies q w = NoTask" using assms(1) pc(1) by (simp add: ot_count_pcs)
  ultimately show ?thesis using assms(1) b pc(1) unfolding ot_count_pcs q'
    by (auto simp: pc(2,3) nth_list_update body_of_NoTask algebra_simps)
qed

lemma ot_count_next:
  assumes "ot_count q" "ot_next dbl fmt e q = Some q'"
  shows "ot_count q'"
proof (cases e)
  case (ODispatch c)
  with assms show ?thesis by (auto simp: ot_count_pcs enter_dispatch_def split: if_splits option.splits)
next
  case (OSection w c p)
  obtain pc m s where "task_next dbl fmt c p (otBodies q w) (otManager q) = (pc, m, s)" by (metis prod_cases3)
  with assms OSection task_next_NoTask [OF this] show ?thesis by (auto simp: ot_count_pcs section_next_def split: if_split_asm)
next
  case OShutdownNext
  with assms show ?thesis
    by (auto simp: ot_count_pcs dispatcher_shutdown_def KD_Shutdown_next_def nth_list_update split: if_splits shut_pc.splits)
next
  case (OCaller c x)
  with assms ot_count_caller show ?thesis by fastforce
next
  case (OWorker w x)
  with assms ot_count_worker show ?thesis by fastforce
qed (use assms in \<open>auto simp: ot_count_pcs EnqueueTask_def dispatcher_shutdown_def OT_Shutdown_def KD_Shutdown_cas_def
  split: if_splits\<close>)

lemma ot_reach_count: "ot_reach dbl fmt hw n c q \<Longrightarrow> ot_count q"
proof (induction rule: ot_reach.induct)
  case (init x q)
  from OT_Initialize_cases [OF init] show ?case
    by (auto simp: ot_count_pcs OT_new_def KD_Initialize_def KD_new_def zero_stats_def)
qed (rule ot_count_next)

text \<open>
  when no call of \<open>EnqueueTask\<close> is inside \<open>Dispatch\<close> and no worker is inside a closure, the counter of enqueued tasks
  is the number of accepted ones, and the counters of processed and failed tasks add up to the number of executed closures
  and of rejected calls: a task is counted once, whatever its closure throws.
\<close>

theorem otq_accounting:
  assumes "ot_reach dbl fmt hw n c q"
    and "list_all (\<lambda>p. p = DIdle) (kdClients (otDispatcher q))" and "list_all (\<lambda>W. running_task (wThread W) = []) (kdWorkers (otDispatcher q))"
  shows "otEnqueued q = of_nat (length (kdAccepted (otDispatcher q))) \<and>
    otProcessed q + otFailed q = of_nat (length (kdExecuted (otDispatcher q))) + mRejected (KD_GetStats (otDispatcher q))"
proof -
  have "sum_list (map pend (kdClients (otDispatcher q))) = 0"
    using assms(2) by (intro sum_list_map_0) (auto simp: list_all_iff pend_def)
  moreover have "sum_list (map busy (kd_pcs (otDispatcher q))) = 0"
    using assms(3) by (intro sum_list_map_0) (auto simp: list_all_iff busy_def)
  ultimately show ?thesis using kd_reach_count [OF ot_reach_kd [OF assms(1)]] ot_reach_count [OF assms(1)]
    by (simp add: kd_count_def ot_count_pcs KD_GetStats_def)
qed

subsection \<open>A run\<close>

text \<open>Two workers; a ping of server 5, one of server 6 and another of server 5, the last still in its closure.\<close>

definition no_double :: "unit double_ops" where
  "no_double = \<lparr>dOf = (\<lambda>_. ()), dAdd = (\<lambda>_ _. ()), dSub = (\<lambda>_ _. ()), dDiv = (\<lambda>_ _. ())\<rparr>"

definition submit_ping :: "u32 \<Rightarrow> u64 \<Rightarrow> ot_event list" where
  "submit_ping i rtt = [OEnqueue 0 (RecordTask i rtt 100), ODispatch 0, OCaller 0 False, OCaller 0 False, OCaller 0 False]"

definition whole_task :: "nat \<Rightarrow> ot_event list" where
  "whole_task w = [OWorker w False, OSection w True PDone, OSection w True PDone, OSection w True PDone, OSection w True PDone, OWorker w False]"

definition ping_run :: "unit otq option" where
  "ping_run = ot_run no_double (\<lambda>_. ''t'') ([OSetDatabase True] @ submit_ping 5 30 @ submit_ping 6 9 @ submit_ping 5 20 @ whole_task 1 @ whole_task 0 @
     [OWorker 1 False, OSection 1 True PDone])
     (snd (OT_Initialize 0 2 (OT_new 1 (snd (SL_Initialize True True SL_new)))))"

definition run_view :: "unit otq \<Rightarrow> (u64 \<times> u64) list \<times> bool \<times> nat \<times> nat \<times> size_t \<times> size_t" where
  "run_view q = (pings 5 (kdAccepted (otDispatcher q)), slInitialized (otManager q), length (pings 5 (kdExecuted (otDispatcher q))),
     length (slRows (otManager q)), otEnqueued q, otProcessed q)"

lemma ping_run_view: "map_option run_view ping_run = Some ([(30, 100), (20, 100)], True, 2, 2, 3, 2)"
  by code_simp

lemma two_workers_reach:
  "ot_reach no_double (\<lambda>_. ''t'') 0 2 1 (snd (OT_Initialize 0 2 (OT_new 1 (snd (SL_Initialize True True SL_new)))))"
  by (rule ot_reach.init [of _ _ _ True]) (simp add: OT_Initialize_def OT_new_def KD_Initialize_def KD_new_def)

lemma ping_run_reach: "ping_run = Some q \<Longrightarrow> ot_reach no_double (\<lambda>_. ''t'') 0 2 1 q"
  unfolding ping_run_def by (rule ot_reach_run [OF two_workers_reach])

theorem latency_in_order_witness:
  "\<exists>q rs. ping_run = Some q \<and> pings 5 (kdAccepted (otDispatcher q)) = [(30, 100), (20, 100)] \<and>
    prefix rs (pings 5 (kdAccepted (otDispatcher q))) \<and> length rs \<ge> 1 \<and>
    subseq (filter (is_row 5) (slRows (otManager q))) (info_rows no_double (\<lambda>_. ''t'') 5 rs)"
proof -
  from ping_run_view obtain q where q: "ping_run = Some q" "pings 5 (kdAccepted (otDispatcher q)) = [(30, 100), (20, 100)]"
    "slInitialized (otManager q)" "length (pings 5 (kdExecuted (otDispatcher q))) = 2"
    by (auto simp: run_view_def)
  from latency_in_order [OF ping_run_reach [OF q(1)] q(3), of 5] q(2,4) obtain rs where
    "prefix rs (pings 5 (kdAccepted (otDispatcher q)))" "2 \<le> Suc (length rs)"
    "subseq (filter (is_row 5) (slRows (otManager q))) (info_rows no_double (\<lambda>_. ''t'') 5 rs)"
    by auto
  with q show ?thesis by (intro exI [of _ q] exI [of _ rs]) auto
qed

definition count_run :: "unit otq option" where
  "count_run = ot_run no_double (\<lambda>_. ''t'') (submit_ping 5 30 @ whole_task 1)
     (snd (OT_Initialize 0 2 (OT_new 1 (snd (SL_Initialize True True SL_new)))))"

lemma count_run_view:
  "map_option (\<lambda>q. (list_all (\<lambda>p. p = DIdle) (kdClients (otDispatcher q)), list_all (\<lambda>W. running_task (wThread W) = []) (kdWorkers (otDispatcher q)),
     length (kdAccepted (otDispatcher q)))) count_run = Some (True, True, 1)"
  by code_simp

theorem otq_accounting_witness: "\<exists>q. count_run = Some q \<and> otEnqueued q = 1"
proof -
  from count_run_view obtain q where q: "count_run = Some q" "list_all (\<lambda>p. p = DIdle) (kdClients (otDispatcher q))"
    "list_all (\<lambda>W. running_task (wThread W) = []) (kdWorkers (otDispatcher q))" "length (kdAccepted (otDispatcher q)) = 1"
    by auto
  have "ot_reach no_double (\<lambda>_. ''t'') 0 2 1 q" using q(1) unfolding count_run_def
    by (rule ot_reach_run [OF two_workers_reach])
  from otq_accounting [OF this q(2,3)] q(1,4) show ?thesis by (intro exI [of _ q]) simp
qed

end
