(* ===== verification/Client.thy ===== *)
theory Client
  imports Session
begin

section \<open>The test client\<close>

text \<open>
  \<open>Client/TestClient\<close>: the packet stream on a blocking socket (\<open>PacketStream\<close>), the latency statistics
  and the client's life cycle (\<open>TestClient\<close>). The socket is what its peer has sent and what the system
  calls answer, in order; \<open>skOut\<close> are the bytes sent. The running average, a \<open>double\<close>, and logging are
  left out.
\<close>

subsection \<open>Sockets\<close>

text \<open>
  Answers: some bytes (at most as many as there are and as asked for, at least one), the end of the
  stream, an error with the time at which it is seen; for \<open>send\<close> the number of bytes taken or an error.
\<close>

datatype recv_answer = RData nat | RClosed | RErr int Timestamp

datatype send_answer = SSent nat | SError

record sock =
  skIn :: "byte list"
  skRecv :: "recv_answer list"
  skOut :: "byte list"
  skSend :: "send_answer list"

datatype got = GData "byte list" | GClosed | GErr int Timestamp

text \<open>\<open>recv\<close>; \<open>None\<close> means that the peer does nothing more.\<close>

fun sys_recv_from :: "nat \<Rightarrow> byte list \<Rightarrow> recv_answer list \<Rightarrow> got option \<times> byte list \<times> recv_answer list" where
  "sys_recv_from n inp [] = (None, inp, [])"
| "sys_recv_from n inp (RData k # as) =
     (if inp = [] then sys_recv_from n inp as
      else (Some (GData (take (min (max 1 k) n) inp)), drop (min (max 1 k) n) inp, as))"
| "sys_recv_from n inp (RClosed # as) = (Some GClosed, inp, as)"
| "sys_recv_from n inp (RErr e t # as) = (Some (GErr e t), inp, as)"

definition sock_recv :: "nat \<Rightarrow> sock \<Rightarrow> got option \<times> sock" where
  "sock_recv n k = (case sys_recv_from n (skIn k) (skRecv k) of (g, inp, as) \<Rightarrow> (g, k\<lparr>skIn := inp, skRecv := as\<rparr>))"

text \<open>\<open>EAGAIN\<close> (\<open>EWOULDBLOCK\<close>) and \<open>ETIMEDOUT\<close>, and \<open>EINTR\<close>, of Linux.\<close>

definition IsTimeoutOrWouldBlock :: "int \<Rightarrow> bool" where
  "IsTimeoutOrWouldBlock e \<longleftrightarrow> e = 11 \<or> e = 110"

definition EINTR :: int where "EINTR = 4"

lemma sys_recv_from_data:
  "sys_recv_from n inp as = (Some (GData d), inp', as') \<Longrightarrow> inp = d @ inp' \<and> length d \<le> n \<and> (0 < n \<longrightarrow> d \<noteq> []) \<and> length as' < length as"
  by (induction n inp as rule: sys_recv_from.induct) (auto split: if_splits)

lemma sys_recv_from_other:
  "sys_recv_from n inp as = (g, inp', as') \<Longrightarrow> (\<And>d. g \<noteq> Some (GData d)) \<Longrightarrow> inp' = inp"
  by (induction n inp as rule: sys_recv_from.induct) (auto split: if_splits)

subsection \<open>The packet stream\<close>

datatype RecvResult = RR_Success | RR_Timeout | RR_ConnectionClosed | RR_Error | RR_InvalidPacket

text \<open>\<open>psBuf\<close> is the part of \<open>mRecvBuffer\<close> before \<open>mRecvBufferOffset\<close>.\<close>

record PacketStream =
  psSocket :: bool
  psBuf :: "byte list"

definition PacketStream_new :: PacketStream where
  "PacketStream_new = \<lparr>psSocket = False, psBuf = []\<rparr>"

definition Attach :: "PacketStream \<Rightarrow> PacketStream" where
  "Attach st = st\<lparr>psSocket := True\<rparr>"

definition PS_Reset :: "PacketStream \<Rightarrow> PacketStream" where
  "PS_Reset st = \<lparr>psSocket = False, psBuf = []\<rparr>"

definition recv_failure :: "got option \<Rightarrow> RecvResult" where
  "recv_failure g =
     (case g of
        None \<Rightarrow> RR_Timeout
      | Some GClosed \<Rightarrow> RR_ConnectionClosed
      | Some (GErr e _) \<Rightarrow> if IsTimeoutOrWouldBlock e then RR_Timeout else RR_Error
      | Some (GData _) \<Rightarrow> RR_Success)"

text \<open>The loop that receives the rest of a packet.\<close>

function recv_rest :: "nat \<Rightarrow> byte list \<Rightarrow> sock \<Rightarrow> RecvResult \<times> byte list \<times> sock" where
  "recv_rest sz buf k =
     (if sz \<le> length buf then (RR_Success, buf, k)
      else case sock_recv (sz - length buf) k of
        (Some (GData d), k') \<Rightarrow> recv_rest sz (buf @ d) k'
      | (g, k') \<Rightarrow> (recv_failure g, buf, k'))"
  by pat_completeness auto
termination
  by (relation "measure (\<lambda>(sz, buf, k). length (skRecv k))")
    (auto simp: sock_recv_def split: prod.splits dest: sys_recv_from_data)

declare recv_rest.simps [simp del]

definition client_bad_size :: "nat \<Rightarrow> bool" where
  "client_bad_size n \<longleftrightarrow> n < 4 \<or> unat MAX_PACKET_SIZE < n"

text \<open>The first read, when not even a header is buffered.\<close>

definition recv_first :: "byte list \<Rightarrow> sock \<Rightarrow> RecvResult \<times> byte list \<times> sock" where
  "recv_first buf k =
     (if length buf < 4
      then (case sock_recv (unat RECV_BUFFER_SIZE - length buf) k of
              (Some (GData d), k') \<Rightarrow> (RR_Success, buf @ d, k')
            | (g, k') \<Rightarrow> (recv_failure g, buf, k'))
      else (RR_Success, buf, k))"

definition RecvPacket :: "nat \<Rightarrow> PacketStream \<Rightarrow> sock \<Rightarrow> RecvResult \<times> (PacketHeader \<times> byte list) option \<times> PacketStream \<times> sock" where
  "RecvPacket bodyBufferSize st k =
     (case recv_first (psBuf st) k of
        (r, buf, k) \<Rightarrow>
          if r \<noteq> RR_Success then (r, None, st\<lparr>psBuf := buf\<rparr>, k)
          else if length buf < 4 then (RR_Timeout, None, st\<lparr>psBuf := buf\<rparr>, k)
          else
            let header = PacketHeader_read buf; packetSize = unat (ph_size header)
            in if client_bad_size packetSize then (RR_InvalidPacket, None, st\<lparr>psBuf := buf\<rparr>, k)
               else (case recv_rest packetSize buf k of
                 (r, buf, k) \<Rightarrow>
                   if r \<noteq> RR_Success then (r, None, st\<lparr>psBuf := buf\<rparr>, k)
                   else
                     let bodySize = packetSize - 4
                     in if bodyBufferSize < bodySize then (RR_InvalidPacket, None, st\<lparr>psBuf := buf\<rparr>, k)
                        else (RR_Success, Some (header, take bodySize (drop 4 buf)), st\<lparr>psBuf := drop packetSize buf\<rparr>, k)))"

text \<open>\<open>SendRaw\<close>: the loop over \<open>send\<close>; \<open>None\<close> when the call waits for ever.\<close>

fun send_loop :: "byte list \<Rightarrow> byte list \<Rightarrow> send_answer list \<Rightarrow> bool option \<times> byte list \<times> send_answer list" where
  "send_loop [] out as = (Some True, out, as)"
| "send_loop (b # bs) out [] = (None, out, [])"
| "send_loop (b # bs) out (SError # as) = (Some False, out, as)"
| "send_loop (b # bs) out (SSent n # as) = send_loop (drop n (b # bs)) (out @ take n (b # bs)) as"

definition SendRaw :: "byte list \<Rightarrow> sock \<Rightarrow> bool option \<times> sock" where
  "SendRaw d k = (case send_loop d (skOut k) (skSend k) of (r, out, as) \<Rightarrow> (r, k\<lparr>skOut := out, skSend := as\<rparr>))"

subsection \<open>Reassembly at the client\<close>

text \<open>What is still to be parsed: the buffer and then what the socket has.\<close>

definition view :: "PacketStream \<Rightarrow> sock \<Rightarrow> byte list" where
  "view st k = psBuf st @ skIn k"

lemma client_bad_size_eq [simp]: "client_bad_size = bad_size"
  by (rule ext) (simp add: client_bad_size_def bad_size_iff packet_constants)

lemma sock_recv_keeps:
  "sock_recv n k = (g, k') \<Longrightarrow> (case g of Some (GData d) \<Rightarrow> skIn k = d @ skIn k' \<and> length d \<le> n \<and> (0 < n \<longrightarrow> d \<noteq> []) | _ \<Rightarrow> skIn k' = skIn k) \<and>
     skOut k' = skOut k \<and> skSend k' = skSend k"
  by (auto simp: sock_recv_def split: prod.splits option.split got.split dest: sys_recv_from_data sys_recv_from_other)

lemma recv_failure_not_success: "(\<And>d. g \<noteq> Some (GData d)) \<Longrightarrow> recv_failure g \<notin> {RR_Success, RR_InvalidPacket}"
  by (auto simp: recv_failure_def split: option.split got.split)

lemma recv_rest_keeps:
  assumes "recv_rest sz buf k = (r, buf', k')"
  shows "buf' @ skIn k' = buf @ skIn k \<and> (\<exists>d. buf' = buf @ d) \<and> (r = RR_Success \<longrightarrow> sz \<le> length buf') \<and> r \<noteq> RR_InvalidPacket"
  using assms
proof (induction sz buf k rule: recv_rest.induct)
  case (1 sz buf k)
  show ?case
  proof (cases "sz \<le> length buf")
    case True
    with "1.prems" show ?thesis by (simp add: recv_rest.simps [of sz buf])
  next
    case False
    obtain g k1 where g: "sock_recv (sz - length buf) k = (g, k1)" by force
    note keep = sock_recv_keeps [OF g]
    show ?thesis
    proof (cases "\<exists>d. g = Some (GData d)")
      case True
      then obtain d where d: "g = Some (GData d)" by blast
      with "1.prems" False g have "recv_rest sz (buf @ d) k1 = (r, buf', k')" by (simp add: recv_rest.simps [of sz buf])
      from "1.IH" [OF False g [symmetric] d refl this] keep d show ?thesis by auto
    next
      case nd: False
      then have "(r, buf', k') = (recv_failure g, buf, k1)"
        using "1.prems" False g by (simp add: recv_rest.simps [of sz buf] split: option.splits got.splits)
      with nd keep recv_failure_not_success [of g] show ?thesis by (auto split: option.splits got.splits)
    qed
  qed
qed


lemma recv_first_keeps:
  assumes "recv_first buf k = (r, buf', k')"
  shows "buf' @ skIn k' = buf @ skIn k \<and> (\<exists>d. buf' = buf @ d) \<and> r \<noteq> RR_InvalidPacket"
proof (cases "length buf < 4")
  case True
  obtain g k1 where g: "sock_recv (unat RECV_BUFFER_SIZE - length buf) k = (g, k1)" by force
  show ?thesis using assms True g sock_recv_keeps [OF g] recv_failure_not_success [of g]
    by (auto simp: recv_first_def split: option.splits got.splits)
qed (use assms in \<open>simp add: recv_first_def\<close>)

lemma header_take: "4 \<le> m \<Longrightarrow> PacketHeader_read (take m bs) = PacketHeader_read bs"
  by (simp add: PacketHeader_read_def field_def take_drop min_def)

text \<open>
  One call: a packet is the first one of what is to be parsed and is taken off it; an invalid size is
  one that the stream has; and otherwise nothing is lost.
\<close>

lemma RecvPacket_spec:
  assumes "RecvPacket n st k = (r, res, st', k')" and n: "4092 \<le> n"
  shows "case res of
      Some (h, body) \<Rightarrow> r = RR_Success \<and> (\<exists>pkt. valid_packet pkt \<and> view st k = pkt @ view st' k' \<and> h = PacketHeader_read pkt \<and> body = drop 4 pkt)
    | None \<Rightarrow> r \<noteq> RR_Success \<and> view st' k' = view st k \<and> (r = RR_InvalidPacket \<longrightarrow> frames (view st k) = ([], view st k, True))"
proof -
  obtain r1 b1 k1 where f: "recv_first (psBuf st) k = (r1, b1, k1)" by (metis prod_cases3)
  note F = recv_first_keeps [OF f]
  let ?sz = "hdr_size b1"
  consider (fail) "r1 \<noteq> RR_Success \<or> length b1 < 4" | (bad) "r1 = RR_Success" "4 \<le> length b1" "bad_size ?sz"
    | (ok) "r1 = RR_Success" "4 \<le> length b1" "\<not> bad_size ?sz" by fastforce
  then show ?thesis
  proof cases
    case fail
    then have "res = None \<and> st' = st\<lparr>psBuf := b1\<rparr> \<and> k' = k1 \<and> r \<in> {r1, RR_Timeout} \<and> r \<noteq> RR_Success"
      using assms f by (auto simp: RecvPacket_def split: if_splits)
    with F show ?thesis by (auto simp: view_def)
  next
    case bad
    then have "res = None \<and> st' = st\<lparr>psBuf := b1\<rparr> \<and> k' = k1 \<and> r = RR_InvalidPacket"
      using assms f by (auto simp: RecvPacket_def hdr_size_def Let_def)
    moreover have "frames (b1 @ skIn k1) = ([], b1 @ skIn k1, True)"
      using bad frames_unfold(2) [of "b1 @ skIn k1"] by (simp add: hdr_size_append)
    ultimately show ?thesis using F by (simp add: view_def)
  next
    case ok
    obtain r2 b2 k2 where s: "recv_rest ?sz b1 k1 = (r2, b2, k2)" by (metis prod_cases3)
    note S = recv_rest_keeps [OF s]
    then obtain d where d: "b2 = b1 @ d" by blast
    have h: "PacketHeader_read (take ?sz b2) = PacketHeader_read b1"
      using ok d header_take [of 4 "take ?sz b2"] header_take [of 4 b1] by (simp add: bad_size_iff min_def)
    then have sz: "hdr_size (take ?sz b2) = ?sz" by (simp add: hdr_size_def)
    show ?thesis
    proof (cases "r2 = RR_Success")
      case True
      then have le: "?sz \<le> length b2" using S by simp
      have "?sz - 4 \<le> n" using ok n by (auto simp: bad_size_iff)
      then have "r = RR_Success \<and> res = Some (PacketHeader_read b1, take (?sz - 4) (drop 4 b2)) \<and> st' = st\<lparr>psBuf := drop ?sz b2\<rparr> \<and> k' = k2"
        using assms f s ok True by (auto simp: RecvPacket_def hdr_size_def [symmetric] Let_def)
      moreover have "valid_packet (take ?sz b2)" using sz le ok by (simp add: valid_packet_def)
      moreover have "view st k = take ?sz b2 @ drop ?sz b2 @ skIn k2"
        using S F by (simp only: view_def append_assoc [symmetric] append_take_drop_id)
      ultimately show ?thesis using h by (auto simp: view_def drop_take intro!: exI [of _ "take ?sz b2"])
    next
      case False
      then have "res = None \<and> st' = st\<lparr>psBuf := b2\<rparr> \<and> k' = k2 \<and> r = r2"
        using assms f s ok by (auto simp: RecvPacket_def hdr_size_def [symmetric] Let_def)
      with False S F show ?thesis by (auto simp: view_def)
    qed
  qed
qed


text \<open>
  What a number of calls gives, as the worker makes them: it stops at the first result that is neither
  a packet nor a timeout.
\<close>

fun recv_many :: "nat \<Rightarrow> PacketStream \<Rightarrow> sock \<Rightarrow> (PacketHeader \<times> byte list) list \<times> PacketStream \<times> sock" where
  "recv_many 0 st k = ([], st, k)"
| "recv_many (Suc m) st k =
     (case RecvPacket (unat MAX_PACKET_SIZE) st k of
        (r, Some p, st', k') \<Rightarrow> (case recv_many m st' k' of (ps, st'', k'') \<Rightarrow> (p # ps, st'', k''))
      | (r, None, st', k') \<Rightarrow> if r = RR_Timeout then recv_many m st' k' else ([], st', k'))"

definition unpack :: "byte list \<Rightarrow> PacketHeader \<times> byte list" where
  "unpack pkt = (PacketHeader_read pkt, drop 4 pkt)"

lemma valid_packet_length: "valid_packet p \<Longrightarrow> 4 \<le> length p \<and> length p \<le> 4096"
  by (auto simp: valid_packet_def bad_size_iff)

lemma valid_packet_unique:
  assumes "valid_packet a" "valid_packet b" "a @ x = b @ y" shows "a = b \<and> x = y"
proof -
  have "hdr_size (a @ x) = length a" "hdr_size (b @ y) = length b"
    using assms(1,2) valid_packet_length [of a] valid_packet_length [of b] by (simp_all add: hdr_size_append valid_packet_def)
  then show ?thesis using assms(3) by simp
qed

lemma RecvPacket_max:
  assumes "RecvPacket (unat MAX_PACKET_SIZE) st k = (r, res, st', k')"
  shows "case res of Some p \<Rightarrow> \<exists>pkt. valid_packet pkt \<and> view st k = pkt @ view st' k' \<and> p = unpack pkt | None \<Rightarrow> view st' k' = view st k"
  using RecvPacket_spec [OF assms] by (auto simp: packet_constants unpack_def split: option.splits)

lemma recv_many_keeps:
  assumes "recv_many m st k = (ps, st', k')"
  shows "\<exists>pkts. ps = map unpack pkts \<and> list_all valid_packet pkts \<and> view st k = concat pkts @ view st' k'"
  using assms
proof (induction m arbitrary: st k ps)
  case (Suc m)
  obtain r res st1 k1 where r: "RecvPacket (unat MAX_PACKET_SIZE) st k = (r, res, st1, k1)" by (metis prod_cases4)
  note R = RecvPacket_max [OF r]
  show ?case
  proof (cases res)
    case None
    with R r Suc.prems Suc.IH [of st1 k1 ps] show ?thesis by (auto split: if_splits)
  next
    case (Some p)
    with R obtain pkt where pkt: "valid_packet pkt" "view st k = pkt @ view st1 k1" "p = unpack pkt" by auto
    obtain qs where qs: "recv_many m st1 k1 = (qs, st', k')" "ps = p # qs" using Suc.prems r Some by (auto split: prod.splits)
    from Suc.IH [OF qs(1)] obtain pkts where "qs = map unpack pkts" "list_all valid_packet pkts" "view st1 k1 = concat pkts @ view st' k'"
      by blast
    with pkt qs(2) show ?thesis by (intro exI [of _ "pkt # pkts"]) simp
  qed
qed simp

lemma frames_many: "list_all valid_packet ps \<Longrightarrow> frames (concat ps @ r) = (ps @ fst (frames r), snd (frames r))"
  using frames_packets [of ps] frames_append [of "concat ps" r] by (simp add: list_all_iff)

subsection \<open>Progress of the reassembly\<close>

definition is_data :: "recv_answer \<Rightarrow> bool" where
  "is_data a \<longleftrightarrow> (case a of RData _ \<Rightarrow> True | _ \<Rightarrow> False)"

text \<open>The peer's bytes come: no answer is an error or the end, and there are answers for every byte.\<close>

definition flowing :: "sock \<Rightarrow> bool" where
  "flowing k \<longleftrightarrow> list_all is_data (skRecv k) \<and> length (skIn k) \<le> length (skRecv k)"

lemma sys_recv_flowing:
  assumes "list_all is_data as" "length inp \<le> length as" "inp \<noteq> []" "0 < n"
  shows "\<exists>d inp' as'. sys_recv_from n inp as = (Some (GData d), inp', as') \<and> d \<noteq> [] \<and> list_all is_data as' \<and> length inp' \<le> length as'"
  using assms by (cases as; cases "hd as") (auto simp: is_data_def split: recv_answer.splits)

lemma sock_recv_flowing:
  assumes "flowing k" "skIn k \<noteq> []" "0 < n"
  obtains d k' where "sock_recv n k = (Some (GData d), k')" "d \<noteq> []" "flowing k'" "skIn k = d @ skIn k'"
proof -
  from sys_recv_flowing [of "skRecv k" "skIn k" n] assms obtain d inp' as' where
    "sys_recv_from n (skIn k) (skRecv k) = (Some (GData d), inp', as')" "d \<noteq> []" "list_all is_data as'" "length inp' \<le> length as'"
    by (auto simp: flowing_def)
  with that show ?thesis using sys_recv_from_data by (fastforce simp: sock_recv_def flowing_def)
qed

lemma recv_rest_flowing:
  assumes "flowing k" and "sz \<le> length (buf @ skIn k)"
  shows "\<exists>buf' k'. recv_rest sz buf k = (RR_Success, buf', k') \<and> flowing k' \<and> length (skIn k') \<le> length (skIn k)"
  using assms
proof (induction sz buf k rule: recv_rest.induct)
  case (1 sz buf k)
  show ?case
  proof (cases "sz \<le> length buf")
    case True
    with "1.prems" show ?thesis by (simp add: recv_rest.simps [of sz buf])
  next
    case False
    then have "skIn k \<noteq> []" "0 < sz - length buf" using "1.prems" by auto
    from sock_recv_flowing [OF "1.prems"(1) this] obtain d k' where
      d: "sock_recv (sz - length buf) k = (Some (GData d), k')" "flowing k'" "skIn k = d @ skIn k'" by blast
    have "sz \<le> length ((buf @ d) @ skIn k')" using "1.prems"(2) d(3) by simp
    from "1.IH" [OF False d(1) [symmetric] refl refl d(2) this] d False show ?thesis
      by (auto simp: recv_rest.simps [of sz buf])
  qed
qed


lemma RecvPacket_progress:
  assumes k: "flowing k" and v: "view st k = pkt @ rest" and pkt: "valid_packet pkt"
    and r: "RecvPacket (unat MAX_PACKET_SIZE) st k = (r, res, st', k')"
  shows "flowing k' \<and> length (skIn k') \<le> length (skIn k) \<and> (res = None \<longrightarrow> r = RR_Timeout \<and> length (skIn k') < length (skIn k))"
proof -
  have len: "4 \<le> length pkt" "length pkt \<le> 4096" using valid_packet_length [OF pkt] by simp_all
  obtain r1 b1 k1 where f: "recv_first (psBuf st) k = (r1, b1, k1)" by (metis prod_cases3)
  have first: "r1 = RR_Success \<and> flowing k1 \<and> length (skIn k1) \<le> length (skIn k) \<and> (length b1 < 4 \<longrightarrow> length (skIn k1) < length (skIn k))"
  proof (cases "length (psBuf st) < 4")
    case True
    have "length (view st k) \<ge> 4" using v len by simp
    then have "skIn k \<noteq> []" using True by (auto simp: view_def)
    moreover have "0 < unat RECV_BUFFER_SIZE - length (psBuf st)" using True by (simp add: packet_constants)
    ultimately obtain d k2 where "sock_recv (unat RECV_BUFFER_SIZE - length (psBuf st)) k = (Some (GData d), k2)" "d \<noteq> []" "flowing k2"
      "skIn k = d @ skIn k2" using sock_recv_flowing [OF k] by blast
    then show ?thesis using f True by (auto simp: recv_first_def)
  qed (use f k in \<open>auto simp: recv_first_def\<close>)
  show ?thesis
  proof (cases "length b1 < 4")
    case True
    then show ?thesis using first r f by (auto simp: RecvPacket_def)
  next
    case False
    have eq: "b1 @ skIn k1 = pkt @ rest" using recv_first_keeps [OF f] v by (simp add: view_def)
    have "take 4 (b1 @ skIn k1) = take 4 (pkt @ rest)" by (simp only: eq)
    then have "take 4 b1 = take 4 pkt" using False len by simp
    then have "PacketHeader_read b1 = PacketHeader_read pkt" using header_take [of 4 b1] header_take [of 4 pkt] by simp
    then have sz: "hdr_size b1 = length pkt" using pkt by (simp add: hdr_size_def valid_packet_def)
    have bad: "\<not> bad_size (length pkt)" using pkt by (simp add: valid_packet_def)
    have "length pkt \<le> length (b1 @ skIn k1)" unfolding eq by simp
    then obtain b2 k2 where s: "recv_rest (length pkt) b1 k1 = (RR_Success, b2, k2)" "flowing k2" "length (skIn k2) \<le> length (skIn k1)"
      using recv_rest_flowing first by blast
    have "length pkt - 4 \<le> unat MAX_PACKET_SIZE" using len by (simp add: packet_constants)
    then have "k' = k2 \<and> res \<noteq> None"
      using r f first False sz bad s(1) by (auto simp: RecvPacket_def hdr_size_def [symmetric] Let_def)
    then show ?thesis using s first by auto
  qed
qed

lemma recv_many_all:
  assumes "flowing k" and "view st k = concat pkts" and "list_all valid_packet pkts"
    and "length (skIn k) + length (view st k) \<le> m"
  shows "\<exists>st' k'. recv_many m st k = (map unpack pkts, st', k') \<and> view st' k' = []"
  using assms
proof (induction m arbitrary: st k pkts)
  case 0
  then have "pkts = []" using valid_packet_length by (cases pkts) (force simp: list_all_iff)+
  with 0 show ?case by simp
next
  case (Suc m)
  obtain r res st1 k1 where r: "RecvPacket (unat MAX_PACKET_SIZE) st k = (r, res, st1, k1)" by (metis prod_cases4)
  note R = RecvPacket_max [OF r]
  show ?case
  proof (cases pkts)
    case Nil
    then have e: "psBuf st = []" "skIn k = []" using Suc.prems(2) by (simp_all add: view_def)
    have "sys_recv_from n [] as = (None, [], [])" if "list_all is_data as" for n as
      using that by (induction as) (auto simp: is_data_def split: recv_answer.splits)
    then have "sock_recv n k = (None, k\<lparr>skIn := [], skRecv := []\<rparr>)" for n
      using Suc.prems(1) e by (simp add: sock_recv_def flowing_def)
    then have "RecvPacket (unat MAX_PACKET_SIZE) st k = (RR_Timeout, None, st\<lparr>psBuf := []\<rparr>, k\<lparr>skIn := [], skRecv := []\<rparr>)"
      using e by (simp add: RecvPacket_def recv_first_def recv_failure_def)
    moreover obtain st' k' where "recv_many m (st\<lparr>psBuf := []\<rparr>) (k\<lparr>skIn := [], skRecv := []\<rparr>) = ([], st', k')" "view st' k' = []"
      using Suc.IH [of "k\<lparr>skIn := [], skRecv := []\<rparr>" "st\<lparr>psBuf := []\<rparr>" "[]"] by (auto simp: flowing_def view_def)
    ultimately show ?thesis using Nil by simp
  next
    case (Cons pkt qs)
    then have pq: "valid_packet pkt" "list_all valid_packet qs" "view st k = pkt @ concat qs" using Suc.prems by simp_all
    note P = RecvPacket_progress [OF Suc.prems(1) pq(3,1) r]
    show ?thesis
    proof (cases res)
      case None
      then have "view st1 k1 = view st k" "r = RR_Timeout" "length (skIn k1) < length (skIn k)" using R P by simp_all
      with Suc.IH [of k1 st1 pkts] Suc.prems P r None show ?thesis by auto
    next
      case (Some p)
      with R obtain pkt' where "valid_packet pkt'" "view st k = pkt' @ view st1 k1" "p = unpack pkt'" by auto
      moreover from this pq(1,3) have "pkt' = pkt \<and> view st1 k1 = concat qs"
        using valid_packet_unique [of pkt' pkt "view st1 k1" "concat qs"] by simp
      ultimately have v: "view st1 k1 = concat qs" "p = unpack pkt" by simp_all
      have "4 \<le> length pkt" using valid_packet_length [OF pq(1)] by simp
      then have "length (skIn k1) + length (view st1 k1) \<le> m" using P Suc.prems(4) pq(3) v(1) by simp
      from Suc.IH [OF _ v(1) pq(2) this] P obtain st' k' where "recv_many m st1 k1 = (map unpack qs, st', k')" "view st' k' = []" by blast
      then show ?thesis using r Some Cons v by simp
    qed
  qed
qed


text \<open>
  C14: the client reassembles the stream as the protocol says. However the system cuts the bytes and
  whatever timeouts and errors occur, the packets that the calls of \<open>RecvPacket\<close> return are the first
  packets of the stream, in order and complete, and what is not returned stays in the buffer or the
  socket. When the bytes of a sequence of packets arrive and no call fails, enough calls return
  exactly these packets.
\<close>

theorem client_recv_refines_stream:
  "(\<exists>pkts. fst (recv_many m st k) = map unpack pkts \<and>
      (case recv_many m st k of (_, st', k') \<Rightarrow>
         frames (view st k) = (pkts @ fst (frames (view st' k')), snd (frames (view st' k'))))) \<and>
   (\<forall>pkts. flowing k \<and> view st k = concat pkts \<and> list_all valid_packet pkts \<and> length (skIn k) + length (view st k) \<le> m \<longrightarrow>
      fst (recv_many m st k) = map unpack pkts)"
proof (intro conjI allI impI)
  obtain ps st' k' where r: "recv_many m st k = (ps, st', k')" by (metis prod_cases3)
  from recv_many_keeps [OF r] obtain pkts where "ps = map unpack pkts" "list_all valid_packet pkts" "view st k = concat pkts @ view st' k'"
    by blast
  with frames_many [of pkts "view st' k'"] r show "\<exists>pkts. fst (recv_many m st k) = map unpack pkts \<and>
      (case recv_many m st k of (_, st', k') \<Rightarrow>
         frames (view st k) = (pkts @ fst (frames (view st' k')), snd (frames (view st' k'))))" by auto
next
  fix pkts assume "flowing k \<and> view st k = concat pkts \<and> list_all valid_packet pkts \<and> length (skIn k) + length (view st k) \<le> m"
  with recv_many_all [of k st pkts m] show "fst (recv_many m st k) = map unpack pkts" by auto
qed

text \<open>A pong in two pieces, the first shorter than a header.\<close>

definition pong_bytes :: "byte list" where
  "pong_bytes = [24, 0, 4, 0, 1, 0, 0, 0, 0, 0, 0, 0, 2, 0, 0, 0, 0, 0, 0, 0, 3, 0, 0, 0]"

definition pong_sock :: sock where
  "pong_sock = \<lparr>skIn = pong_bytes, skRecv = RData 2 # replicate 24 (RData 100), skOut = [], skSend = []\<rparr>"

theorem client_recv_refines_stream_witness:
  "fst (recv_many 50 PacketStream_new pong_sock) = [unpack pong_bytes]"
proof -
  have "flowing pong_sock" "view PacketStream_new pong_sock = concat [pong_bytes]"
    "length (skIn pong_sock) + length (view PacketStream_new pong_sock) \<le> 50"
    by (simp_all add: flowing_def pong_sock_def is_data_def view_def PacketStream_new_def pong_bytes_def list_all_length nth_Cons split: nat.split)
  moreover have "list_all valid_packet [pong_bytes]"
    by (simp add: valid_packet_def pong_bytes_def hdr_size_def PacketHeader_read_def field_def bad_size_iff)
  ultimately have "fst (recv_many 50 PacketStream_new pong_sock) = map unpack [pong_bytes]"
    by (intro conjunct2 [OF client_recv_refines_stream, rule_format]) blast
  then show ?thesis by simp
qed

text \<open>
  \<open>SendRaw\<close>: it returns true exactly when all bytes are sent; else a part of them is.
\<close>

lemma send_loop_exact:
  "send_loop d out as = (r, out', as') \<Longrightarrow> \<exists>sent rest. d = sent @ rest \<and> out' = out @ sent \<and> (r = Some True \<longleftrightarrow> rest = [])"
proof (induction d out as rule: send_loop.induct)
  case (4 b bs out n as)
  obtain sent rest where s: "drop n (b # bs) = sent @ rest" "out' = (out @ take n (b # bs)) @ sent" "r = Some True \<longleftrightarrow> rest = []"
    using "4.IH" "4.prems" by (simp only: send_loop.simps) blast
  have "b # bs = (take n (b # bs) @ sent) @ rest" by (simp only: append_assoc s(1) [symmetric] append_take_drop_id)
  with s(2,3) show ?case by (intro exI [of _ "take n (b # bs) @ sent"] exI [of _ rest]) (simp only: append_assoc)
qed auto

subsection \<open>Latency statistics\<close>

record LatencyStats =
  ls_lastRtt :: u64
  ls_minRtt :: u64
  ls_maxRtt :: u64
  ls_pingCount :: u64
  ls_pongCount :: u64

definition LS_Reset :: LatencyStats where
  "LS_Reset = \<lparr>ls_lastRtt = 0, ls_minRtt = - 1, ls_maxRtt = 0, ls_pingCount = 0, ls_pongCount = 0\<rparr>"

definition LS_Update :: "u64 \<Rightarrow> LatencyStats \<Rightarrow> LatencyStats" where
  "LS_Update rtt s = s\<lparr>ls_lastRtt := rtt, ls_minRtt := (if rtt < ls_minRtt s then rtt else ls_minRtt s),
     ls_maxRtt := (if ls_maxRtt s < rtt then rtt else ls_maxRtt s), ls_pongCount := ls_pongCount s + 1\<rparr>"

lemma LS_Update_fields:
  "ls_minRtt (LS_Update r s) = min r (ls_minRtt s)" "ls_maxRtt (LS_Update r s) = max r (ls_maxRtt s)"
  "ls_lastRtt (LS_Update r s) = r" "ls_pongCount (LS_Update r s) = ls_pongCount s + 1"
  by (auto simp: LS_Update_def min_def max_def)

text \<open>After some round trips the statistics are their minimum, maximum, last value and number.\<close>

lemma LS_exact:
  fixes rs
  defines "s \<equiv> fold LS_Update rs LS_Reset"
  assumes "rs \<noteq> []"
  shows "ls_minRtt s \<in> set rs \<and> (\<forall>r \<in> set rs. ls_minRtt s \<le> r) \<and> ls_maxRtt s \<in> set rs \<and> (\<forall>r \<in> set rs. r \<le> ls_maxRtt s) \<and>
    ls_lastRtt s = last rs \<and> ls_pongCount s = of_nat (length rs)"
  using assms(2) unfolding s_def
proof (induction rs rule: rev_induct)
  case (snoc r rs)
  show ?case
  proof (cases "rs = []")
    case True
    then show ?thesis by (simp add: LS_Update_fields LS_Reset_def)
  next
    case False
    with snoc.IH show ?thesis by (auto simp: LS_Update_fields min_def max_def)
  qed
qed simp

subsection \<open>The client\<close>

datatype ClientState = CS_Disconnected | CS_Connecting | CS_Connected | CS_SessionActive | CS_Disconnecting

text \<open>A \<open>std::thread\<close>: empty, or joinable, still running or past its function.\<close>

datatype thread = NoThread | Running | Ended

text \<open>
  \<open>tcSocket\<close> is the open connection behind \<open>mSocket\<close>, \<open>tcLeaked\<close> the number of sockets that are open and no longer
  referred to, \<open>tcLastPing\<close> the worker's local variable.
\<close>

record client =
  tcSocket :: "sock option"
  tcLeaked :: nat
  tcState :: ClientState
  tcStop :: bool
  tcPlatform :: bool
  tcSessionId :: u64
  tcPingSequence :: u32
  tcMaxPings :: u32
  tcThread :: thread
  tcLastPing :: Timestamp
  tcStats :: LatencyStats
  tcStream :: PacketStream

definition TC_new :: client where
  "TC_new = \<lparr>tcSocket = None, tcLeaked = 0, tcState = CS_Disconnected, tcStop = False, tcPlatform = False, tcSessionId = 0,
     tcPingSequence = 0, tcMaxPings = 0, tcThread = NoThread, tcLastPing = 0, tcStats = LS_Reset, tcStream = PacketStream_new\<rparr>"

definition SetMaxPings :: "u32 \<Rightarrow> client \<Rightarrow> client" where
  "SetMaxPings n c = c\<lparr>tcMaxPings := n\<rparr>"

definition TC_Initialize :: "bool \<Rightarrow> client \<Rightarrow> bool \<times> client" where
  "TC_Initialize ok c = (if \<not> ok then (False, c) else (True, c\<lparr>tcPlatform := True\<rparr>))"

definition kHandshakeTimeoutMs :: u64 where
  "kHandshakeTimeoutMs = 10000"

text \<open>
  Waiting for the answer to the connect request: the bytes received so far. \<open>None\<close>: the client still waits.
\<close>

function handshake :: "Timestamp \<Rightarrow> byte list \<Rightarrow> sock \<Rightarrow> (byte list option \<times> sock) option" where
  "handshake started buf k =
     (if 17 \<le> length buf then Some (Some buf, k)
      else case sock_recv (17 - length buf) k of
        (None, k') \<Rightarrow> None
      | (Some (GData d), k') \<Rightarrow> handshake started (buf @ d) k'
      | (Some GClosed, k') \<Rightarrow> Some (None, k')
      | (Some (GErr e now), k') \<Rightarrow>
          if e = EINTR then handshake started buf k'
          else if IsTimeoutOrWouldBlock e \<and> now - started < kHandshakeTimeoutMs then handshake started buf k'
          else Some (None, k'))"
  by pat_completeness auto

lemma sys_recv_from_shorter: "sys_recv_from n inp as = (Some g, inp', as') \<Longrightarrow> length as' < length as"
  by (induction n inp as rule: sys_recv_from.induct) (auto split: if_splits)

termination handshake
  by (relation "measure (\<lambda>(s, buf, k). length (skRecv k))")
    (auto simp: sock_recv_def split: prod.splits dest: sys_recv_from_shorter)

declare handshake.simps [simp del]

text \<open>What the network answers to \<open>Connect\<close>: \<open>getaddrinfo\<close>, \<open>socket\<close>, \<open>connect\<close>, and the new connection.\<close>

record connect_env =
  ceResolved :: bool
  ceSocket :: bool
  ceConnected :: bool
  ceSock :: sock
  ceStarted :: Timestamp

text \<open>\<open>mSocket\<close> is overwritten by \<open>socket()\<close>: a socket that it still held is leaked.\<close>

definition overwrite_socket :: "client \<Rightarrow> client" where
  "overwrite_socket c = c\<lparr>tcLeaked := tcLeaked c + (if tcSocket c = None then 0 else 1), tcSocket := None\<rparr>"

definition connect_fails :: "client \<Rightarrow> client" where
  "connect_fails c = c\<lparr>tcSocket := None, tcStream := PS_Reset (tcStream c), tcState := CS_Disconnected\<rparr>"

definition connect_request :: "byte list" where
  "connect_request = PKT_SessionConnectReq_bytes (PKT_SessionConnectReq_new\<lparr>scq_clientVersion := 1\<rparr>)"

definition Connect :: "connect_env \<Rightarrow> client \<Rightarrow> (bool \<times> client) option" where
  "Connect n c =
     (if tcState c \<noteq> CS_Disconnected then Some (False, c)
      else
        let c = c\<lparr>tcStop := False, tcState := CS_Connecting\<rparr>
        in if \<not> ceResolved n then Some (False, c\<lparr>tcState := CS_Disconnected\<rparr>)
           else
             let c = overwrite_socket c
             in if \<not> ceSocket n \<or> \<not> ceConnected n then Some (False, connect_fails c)
                else
                  let c = c\<lparr>tcState := CS_Connected, tcStream := Attach (tcStream c)\<rparr>
                  in (case SendRaw connect_request (ceSock n) of
                        (None, k) \<Rightarrow> None
                      | (Some False, k) \<Rightarrow> Some (False, connect_fails c)
                      | (Some True, k) \<Rightarrow>
                          (case handshake (ceStarted n) [] k of
                             None \<Rightarrow> None
                           | Some (None, k) \<Rightarrow> Some (False, connect_fails c)
                           | Some (Some buf, k) \<Rightarrow>
                               let response = PKT_SessionConnectRes_read buf
                               in if scs_result response \<noteq> ConnectResult_value Success then Some (False, connect_fails c)
                                  else Some (True, c\<lparr>tcSocket := Some k, tcSessionId := scs_sessionId response, tcState := CS_SessionActive\<rparr>))))"

text \<open>\<open>Start\<close>; \<open>None\<close> is \<open>std::terminate\<close>, from the assignment to a joinable thread.\<close>

definition TC_Start :: "Timestamp \<Rightarrow> client \<Rightarrow> (bool \<times> client) option" where
  "TC_Start now c =
     (if tcState c \<noteq> CS_SessionActive then Some (False, c)
      else if tcThread c \<noteq> NoThread then None
      else Some (True, c\<lparr>tcStop := False, tcThread := Running, tcLastPing := now\<rparr>))"

definition HandlePongResponse :: "Timestamp \<Rightarrow> PKT_PongRes \<Rightarrow> client \<Rightarrow> client" where
  "HandlePongResponse now p c =
     (if now < pog_clientTime p then c else c\<lparr>tcStats := LS_Update (now - pog_clientTime p) (tcStats c)\<rparr>)"

text \<open>\<open>ProcessPacket\<close>; an additional connect response and unknown packets are only logged.\<close>

definition ProcessPacket :: "Timestamp \<Rightarrow> PacketHeader \<Rightarrow> byte list \<Rightarrow> client \<Rightarrow> client" where
  "ProcessPacket now h body c =
     (if ph_id h = PacketType_value PongRes
      then (if unat (ph_size h) < 24 then c else HandlePongResponse now (PKT_PongRes_read (PacketHeader_bytes h @ take 20 body)) c)
      else c)"

definition SendPing :: "Timestamp \<Rightarrow> client \<Rightarrow> client option" where
  "SendPing now c =
     (let ping = PKT_PingReq_new\<lparr>png_clientTime := now, png_sequence := tcPingSequence c\<rparr>;
          c = c\<lparr>tcPingSequence := tcPingSequence c + 1\<rparr>
      in case tcSocket c of
           None \<Rightarrow> Some c
         | Some k \<Rightarrow>
             (case SendRaw (PKT_PingReq_bytes ping) k of
                (None, _) \<Rightarrow> None
              | (Some ok, k') \<Rightarrow>
                  let c = c\<lparr>tcSocket := Some k'\<rparr>
                  in Some (if ok then c\<lparr>tcStats := (tcStats c)\<lparr>ls_pingCount := ls_pingCount (tcStats c) + 1\<rparr>\<rparr> else c)))"

definition receive_one :: "Timestamp \<Rightarrow> client \<Rightarrow> client" where
  "receive_one now c =
     (case tcSocket c of
        None \<Rightarrow> c\<lparr>tcState := CS_Disconnected\<rparr>
      | Some k \<Rightarrow>
          (case RecvPacket (unat MAX_PACKET_SIZE) (tcStream c) k of
             (r, res, st, k') \<Rightarrow>
               let c = c\<lparr>tcStream := st, tcSocket := Some k'\<rparr>
               in (case res of
                     Some (h, body) \<Rightarrow> ProcessPacket now h body c
                   | None \<Rightarrow> if r = RR_Timeout then c else c\<lparr>tcState := CS_Disconnected\<rparr>)))"

text \<open>One turn of the worker's loop; \<open>None\<close>: it waits in \<open>send\<close>.\<close>

definition worker_turn :: "Timestamp \<Rightarrow> client \<Rightarrow> client option" where
  "worker_turn now c =
     (if tcThread c \<noteq> Running then Some c
      else if tcStop c \<or> tcState c \<noteq> CS_SessionActive then Some (c\<lparr>tcThread := Ended\<rparr>)
      else if ucast PING_INTERVAL_MS \<le> now - tcLastPing c
      then (if 0 < tcMaxPings c \<and> tcMaxPings c \<le> tcPingSequence c then Some (c\<lparr>tcStop := True, tcThread := Ended\<rparr>)
            else map_option (\<lambda>c. receive_one now (c\<lparr>tcLastPing := now\<rparr>)) (SendPing now c))
      else Some (receive_one now c))"

text \<open>\<open>Disconnect\<close>; the join waits for the worker to see the stop flag.\<close>

definition TC_Disconnect :: "client \<Rightarrow> client" where
  "TC_Disconnect c =
     (if tcState c = CS_Disconnected then c
      else c\<lparr>tcStop := True, tcThread := NoThread, tcSocket := None, tcStream := PS_Reset (tcStream c), tcState := CS_Disconnected\<rparr>)"

definition TC_Shutdown :: "client \<Rightarrow> client" where
  "TC_Shutdown c = (TC_Disconnect c)\<lparr>tcPlatform := False\<rparr>"

text \<open>The destructor: \<open>Shutdown\<close>, then those of the members; a joinable thread ends the program.\<close>

definition TC_destroy :: "client \<Rightarrow> client option" where
  "TC_destroy c = (let c = TC_Shutdown c in if tcThread c \<noteq> NoThread then None else Some c)"

definition TC_IsConnected :: "client \<Rightarrow> bool" where
  "TC_IsConnected c \<longleftrightarrow> tcState c \<in> {CS_Connected, CS_SessionActive}"

definition TC_RequestStop :: "client \<Rightarrow> client" where
  "TC_RequestStop c = c\<lparr>tcStop := True\<rparr>"


subsection \<open>Connecting\<close>

lemma handshake_data:
  assumes "flowing k" and "buf @ skIn k = res @ rest" and "length res = 17" and "length buf \<le> 17"
  shows "\<exists>k'. handshake started buf k = Some (Some res, k') \<and> skIn k' = rest \<and> skOut k' = skOut k \<and> flowing k'"
  using assms
proof (induction started buf k rule: handshake.induct)
  case (1 started buf k)
  show ?case
  proof (cases "17 \<le> length buf")
    case True
    then have "length buf = length res" using "1.prems" by simp
    then have "buf = res" "skIn k = rest" using "1.prems"(2) by simp_all
    then show ?thesis using True "1.prems"(1) by (simp add: handshake.simps [of started res])
  next
    case False
    have "length (buf @ skIn k) = length (res @ rest)" by (simp only: "1.prems"(2))
    then have "skIn k \<noteq> []" "0 < 17 - length buf" using False "1.prems"(3) by auto
    from sock_recv_flowing [OF "1.prems"(1) this] obtain d k' where
      d: "sock_recv (17 - length buf) k = (Some (GData d), k')" "flowing k'" "skIn k = d @ skIn k'" by blast
    note K = sock_recv_keeps [OF d(1)]
    have "(buf @ d) @ skIn k' = res @ rest" "length (buf @ d) \<le> 17" using "1.prems"(2,4) d(3) K by auto
    from "1.IH" (1) [OF False d(1) [symmetric] refl refl d(2) this(1) "1.prems"(3) this(2)] show ?thesis
      using d False K by (auto simp: handshake.simps [of started buf])
  qed
qed


lemma SendRaw_keeps: "SendRaw d k = (r, k') \<Longrightarrow> skIn k' = skIn k \<and> skRecv k' = skRecv k \<and> (r = Some True \<longrightarrow> skOut k' = skOut k @ d)"
  using send_loop_exact [of d "skOut k" "skSend k"] by (fastforce simp: SendRaw_def split: prod.splits)

lemma connect_handshake:
  assumes "tcState c = CS_Disconnected" and "ceResolved n" "ceSocket n" "ceConnected n"
    and "fst (SendRaw connect_request (ceSock n)) = Some True" and "flowing (ceSock n)"
    and "skIn (ceSock n) = PKT_SessionConnectRes_bytes r @ rest" and "scs_result r = ConnectResult_value Success"
  shows "\<exists>c' k. Connect n c = Some (True, c') \<and> tcState c' = CS_SessionActive \<and> tcSessionId c' = scs_sessionId r \<and> tcSocket c' = Some k \<and>
    skOut k = skOut (ceSock n) @ connect_request \<and> view (tcStream c') k = psBuf (tcStream c) @ rest"
proof -
  obtain k where s: "SendRaw connect_request (ceSock n) = (Some True, k)" using assms(5) by (metis prod.collapse)
  note K = SendRaw_keeps [OF s]
  have "flowing k" using assms(6) K by (simp add: flowing_def)
  moreover have "[] @ skIn k = PKT_SessionConnectRes_bytes r @ rest" using K assms(7) by simp
  ultimately obtain k' where h: "handshake (ceStarted n) [] k = Some (Some (PKT_SessionConnectRes_bytes r), k')" "skIn k' = rest" "skOut k' = skOut k"
    using handshake_data [of k "[]" "PKT_SessionConnectRes_bytes r" rest "ceStarted n"] SessionConnectRes.encode_length [of r] by auto
  have "PKT_SessionConnectRes_read (PKT_SessionConnectRes_bytes r) = r" by (rule SessionConnectRes.decode_exact) simp
  then show ?thesis using assms(1,2,3,4,8) s h K
    by (simp add: Connect_def Let_def overwrite_socket_def Attach_def view_def)
qed

text \<open>
  the handshake. When the server answers the connect request with a success response, in pieces
  of any size, \<open>Connect\<close> returns true with the session id of the response; exactly the request has been
  sent and exactly the response has been read, so that everything the server sends after it is left
  to the packet stream, behind what the stream still holds from before.
\<close>

theorem client_connects:
  assumes "tcState c = CS_Disconnected" and "ceResolved n" "ceSocket n" "ceConnected n"
    and "fst (SendRaw connect_request (ceSock n)) = Some True" and "flowing (ceSock n)"
    and "skIn (ceSock n) = PKT_SessionConnectRes_bytes r @ rest" and "scs_result r = ConnectResult_value Success"
  shows "\<exists>c' k. Connect n c = Some (True, c') \<and> tcState c' = CS_SessionActive \<and> tcSessionId c' = scs_sessionId r \<and> tcSocket c' = Some k \<and>
    skOut k = skOut (ceSock n) @ connect_request \<and> view (tcStream c') k = psBuf (tcStream c) @ rest"
  by (rule connect_handshake [OF assms])

definition good_server :: connect_env where
  "good_server = \<lparr>ceResolved = True, ceSocket = True, ceConnected = True,
     ceSock = \<lparr>skIn = PKT_SessionConnectRes_bytes (PKT_SessionConnectRes_new\<lparr>scs_sessionId := 42\<rparr>) @ [9], skRecv = replicate 18 (RData 5),
       skOut = [], skSend = [SSent 3, SSent 5]\<rparr>, ceStarted = 0\<rparr>"

lemma connect_request_bytes: "connect_request = [8, 0, 1, 0, 1, 0, 0, 0]"
  by (simp add: connect_request_def PKT_SessionConnectReq_bytes_def PKT_SessionConnectReq_new_def PacketHeader_bytes_def PacketHeader_make_def
      le_bytes_numeral)

theorem client_connects_witness:
  "\<exists>c' k. Connect good_server TC_new = Some (True, c') \<and> tcState c' = CS_SessionActive \<and> tcSessionId c' = 42 \<and> tcSocket c' = Some k \<and>
    skOut k = skOut (ceSock good_server) @ connect_request \<and> view (tcStream c') k = psBuf (tcStream TC_new) @ [9]"
proof -
  let ?r = "PKT_SessionConnectRes_new\<lparr>scs_sessionId := 42\<rparr>"
  have "fst (SendRaw connect_request (ceSock good_server)) = Some True"
    by (simp add: connect_request_bytes SendRaw_def good_server_def)
  moreover have "flowing (ceSock good_server)"
    using SessionConnectRes.encode_length [of ?r] by (simp add: flowing_def good_server_def is_data_def list_all_length)
  ultimately show ?thesis
    using client_connects [of TC_new good_server ?r "[9]"]
    by (simp add: TC_new_def good_server_def PKT_SessionConnectRes_new_def)
qed

text \<open>
  when the server ends the connection, or a packet is malformed, the client cannot go on. The worker
  marks the client disconnected, and \<open>Disconnect\<close> then returns at once: it neither joins the thread nor
  closes the socket nor clears the stream. The destructor ends the program; a new \<open>Connect\<close> leaks the
  socket, keeps the bytes of the old stream in front of the new one, and the \<open>Start\<close> after it ends the
  program.
\<close>

theorem client_lost_connection_fatal:
  assumes c: "tcThread c = Running" "tcState c = CS_SessionActive" "\<not> tcStop c" "tcSocket c = Some k"
    and now: "now - tcLastPing c < ucast PING_INTERVAL_MS"
    and r: "RecvPacket (unat MAX_PACKET_SIZE) (tcStream c) k = (r, None, st, k')" "r \<noteq> RR_Timeout"
    and turns: "worker_turn now c = Some c1" "worker_turn now' c1 = Some c2"
  shows "tcState c2 = CS_Disconnected \<and> TC_Disconnect c2 = c2 \<and> TC_destroy c2 = None \<and>
    (\<forall>n c3. Connect n c2 = Some (True, c3) \<longrightarrow>
       tcLeaked c3 = tcLeaked c2 + 1 \<and> psBuf (tcStream c3) = psBuf st \<and> TC_Start t c3 = None)"
proof -
  have c1: "c1 = c\<lparr>tcStream := st, tcSocket := Some k', tcState := CS_Disconnected\<rparr>"
    using turns(1) c r now by (simp add: worker_turn_def receive_one_def not_le [symmetric])
  have c2: "c2 = c1\<lparr>tcThread := Ended\<rparr>" using turns(2) c1 c by (simp add: worker_turn_def)
  have "tcLeaked c3 = tcLeaked c2 + 1 \<and> psBuf (tcStream c3) = psBuf st \<and> TC_Start t c3 = None" if "Connect n c2 = Some (True, c3)" for n c3
    using that c1 c2
    by (auto simp: Connect_def Let_def overwrite_socket_def Attach_def TC_Start_def split: if_splits option.splits prod.splits bool.splits)
  moreover have "tcState c2 = CS_Disconnected" "tcThread c2 = Ended" using c1 c2 by simp_all
  ultimately show ?thesis by (simp add: TC_Disconnect_def TC_destroy_def TC_Shutdown_def Let_def)
qed


definition lost_client :: client where
  "lost_client = TC_new\<lparr>tcState := CS_SessionActive, tcThread := Running, tcStream := \<lparr>psSocket = True, psBuf = [8, 0]\<rparr>,
     tcSocket := Some \<lparr>skIn = [], skRecv = [RClosed], skOut = [], skSend = []\<rparr>\<rparr>"

theorem client_lost_connection_fatal_witness:
  "\<exists>c2. map_option (worker_turn 7) (worker_turn 7 lost_client) = Some (Some c2) \<and> TC_Disconnect c2 = c2 \<and> TC_destroy c2 = None"
proof -
  let ?k = "\<lparr>skIn = [], skRecv = [RClosed], skOut = [], skSend = []\<rparr>"
  let ?st = "\<lparr>psSocket = True, psBuf = [8, 0]\<rparr>"
  have r: "RecvPacket (unat MAX_PACKET_SIZE) (tcStream lost_client) ?k = (RR_ConnectionClosed, None, ?st, ?k\<lparr>skRecv := []\<rparr>)"
    by (simp add: lost_client_def RecvPacket_def recv_first_def sock_recv_def recv_failure_def)
  let ?c1 = "lost_client\<lparr>tcStream := ?st, tcSocket := Some (?k\<lparr>skRecv := []\<rparr>), tcState := CS_Disconnected\<rparr>"
  have t1: "worker_turn 7 lost_client = Some ?c1"
    using r by (simp add: worker_turn_def receive_one_def lost_client_def TC_new_def PING_INTERVAL_MS_def)
  have t2: "worker_turn 7 ?c1 = Some (?c1\<lparr>tcThread := Ended\<rparr>)" by (simp add: worker_turn_def lost_client_def)
  show ?thesis
    using client_lost_connection_fatal [OF _ _ _ _ _ r _ t1 t2] t1 t2
    by (simp add: lost_client_def TC_new_def PING_INTERVAL_MS_def)
qed

end
