(* ===== verification/Packet_Handlers.thy ===== *)
theory Packet_Handlers
  imports Latency Db_Server_Tasks Client
begin

section \<open>Packet handlers\<close>

text \<open>
  The functions that an engine calls with every reassembled packet: \<open>ClientPacketHandler\<close> (game server, packets of
  clients), \<open>DBServerPacketHandler\<close> (game server, packets of the database server) and \<open>ServerPacketHandler\<close> (database
  server, packets of game servers).

  A handler is given a pointer and a size. The pointer is the memory from that address on, as far as it may be read
  (\<open>None\<close> for a null pointer): the bytes after the packet are those that follow it in the receive batch. What is passed to
  \<open>Session::Send\<close> is returned as a list; theory \<open>Session_Send\<close> says what becomes of it. The session pointer is never
  null: the engine passes the session itself. Times are arguments. Logging is
  left out, except that a C string that is printed is read.
\<close>

subsection \<open>Characters\<close>

definition chars_of :: "byte list \<Rightarrow> string" where
  "chars_of bs = map (\<lambda>b. char_of (unat b)) bs"

definition bytes_of :: "string \<Rightarrow> byte list" where
  "bytes_of s = map (\<lambda>c. of_nat (of_char c)) s"

text \<open>\<open>std::string(p)\<close> for a character array at an offset: it reads up to the terminator, wherever that is.\<close>

definition c_string_at :: "nat \<Rightarrow> byte list \<Rightarrow> string option" where
  "c_string_at off mem = (let s = chars_of (drop off mem) in if NUL \<in> set s then Some (cstr s) else None)"

subsection \<open>ClientPacketHandler\<close>

definition HandleConnectRequest :: "u32 \<Rightarrow> Session \<Rightarrow> PKT_SessionConnectReq \<Rightarrow> Session \<times> byte list list" where
  "HandleConnectRequest wall s p =
     (s, [PKT_SessionConnectRes_bytes (PKT_SessionConnectRes_new\<lparr>scs_sessionId := GetId s, scs_serverTime := wall,
            scs_result := ConnectResult_value Success\<rparr>)])"

definition HandlePingRequest :: "Timestamp \<Rightarrow> Timestamp \<Rightarrow> Session \<Rightarrow> PKT_PingReq \<Rightarrow> Session \<times> byte list list" where
  "HandlePingRequest now1 now2 s p =
     (SetLastPingTime now1 s,
      [PKT_PongRes_bytes (PKT_PongRes_new\<lparr>pog_clientTime := png_clientTime p, pog_serverTime := now2, pog_sequence := png_sequence p\<rparr>)])"

definition CPH_requiredSize :: "u16 \<Rightarrow> nat" where
  "CPH_requiredSize i = (if i = PacketType_value SessionConnectReq then 8 else if i = PacketType_value PingReq then 16 else 4)"

definition CPH_ProcessPacket :: "u32 \<Rightarrow> Timestamp \<Rightarrow> Timestamp \<Rightarrow> byte list option \<Rightarrow> nat \<Rightarrow> Session \<Rightarrow> Session \<times> byte list list" where
  "CPH_ProcessPacket wall now1 now2 data len s =
     (case data of
        None \<Rightarrow> (s, [])
      | Some mem \<Rightarrow>
          if len < 4 then (s, [])
          else let h = PacketHeader_read mem
               in if unat (ph_size h) < 4 \<or> unat MAX_PACKET_SIZE < unat (ph_size h) then (s, [])
                  else if len < unat (ph_size h) then (s, [])
                  else if unat (ph_size h) < CPH_requiredSize (ph_id h) then (s, [])
                  else if ph_id h = PacketType_value SessionConnectReq then HandleConnectRequest wall s (PKT_SessionConnectReq_read mem)
                  else if ph_id h = PacketType_value PingReq then HandlePingRequest now1 now2 s (PKT_PingReq_read mem)
                  else (s, []))"

subsection \<open>DBServerPacketHandler\<close>

text \<open>
  What the handler asks of its surroundings: \<open>Reply q code detail\<close> is the call of \<open>DBServerTaskQueue::OnDBResponse\<close>, with the
  result code as the number it is on the wire. The result of a handler is \<open>None\<close> when it reads outside of the memory.
\<close>

datatype db_reply = Reply u64 u32 string

record DBServerPacketHandler =
  dhPingSequence :: u32
  dhTaskQueue :: bool

definition DPH_new :: DBServerPacketHandler where
  "DPH_new = \<lparr>dhPingSequence = 0, dhTaskQueue = False\<rparr>"

definition SetTaskQueue :: "bool \<Rightarrow> DBServerPacketHandler \<Rightarrow> DBServerPacketHandler" where
  "SetTaskQueue queue h = h\<lparr>dhTaskQueue := queue\<rparr>"

definition HandleServerPongResponse :: "Session \<Rightarrow> PKT_ServerPongRes \<Rightarrow> Session" where
  "HandleServerPongResponse s p = (if IsConnected s then SetLastPingTime (sps_responseTimestamp p) s else s)"

text \<open>\<open>HandleDBSavePingTimeResponse\<close> only prints; on an error it prints the message in the packet.\<close>

definition HandleDBSavePingTimeResponse :: "byte list \<Rightarrow> PKT_DBSavePingTimeRes \<Rightarrow> unit option" where
  "HandleDBSavePingTimeResponse mem p =
     (if dps_result p = 0 then Some () else map_option (\<lambda>_. ()) (c_string_at 13 mem))"

definition HandleDBQueryResponse :: "DBServerPacketHandler \<Rightarrow> PKT_DBQueryRes \<Rightarrow> db_reply list" where
  "HandleDBQueryResponse h p =
     (if dhTaskQueue h
      then [Reply (dqs_queryId p) (dqs_result p)
              (chars_of (take (min (unat (dqs_detailLength p)) (length (dqs_detail p))) (dqs_detail p)))]
      else [])"

definition DPH_requiredSize :: "u16 \<Rightarrow> nat" where
  "DPH_requiredSize i =
     (if i = ServerPacketType_value ServerPongRes then 28
      else if i = ServerPacketType_value DBSavePingTimeRes then 77
      else if i = ServerPacketType_value DBQueryRes then 278 else 8)"

definition DPH_ProcessPacket :: "DBServerPacketHandler \<Rightarrow> byte list option \<Rightarrow> nat \<Rightarrow> Session \<Rightarrow> (Session \<times> db_reply list) option" where
  "DPH_ProcessPacket h data len s =
     (case data of
        None \<Rightarrow> Some (s, [])
      | Some mem \<Rightarrow>
          if len < 8 then Some (s, [])
          else let hd = ServerPacketHeader_read mem
               in if unat (sh_size hd) < 8 \<or> 4096 < unat (sh_size hd) then Some (s, [])
                  else if len < unat (sh_size hd) then Some (s, [])
                  else if unat (sh_size hd) < DPH_requiredSize (sh_id hd) then Some (s, [])
                  else if sh_id hd = ServerPacketType_value ServerPongRes
                  then Some (HandleServerPongResponse s (PKT_ServerPongRes_read mem), [])
                  else if sh_id hd = ServerPacketType_value DBSavePingTimeRes
                  then map_option (\<lambda>_. (s, [])) (HandleDBSavePingTimeResponse mem (PKT_DBSavePingTimeRes_read mem))
                  else if sh_id hd = ServerPacketType_value DBQueryRes
                  then Some (s, HandleDBQueryResponse h (PKT_DBQueryRes_read mem))
                  else Some (s, []))"

definition SendPingToDBServer :: "Timestamp \<Rightarrow> DBServerPacketHandler \<Rightarrow> DBServerPacketHandler \<times> byte list list" where
  "SendPingToDBServer now h =
     (h\<lparr>dhPingSequence := dhPingSequence h + 1\<rparr>,
      [PKT_ServerPingReq_bytes (PKT_ServerPingReq_new\<lparr>spq_sequence := dhPingSequence h + 1, spq_timestamp := now\<rparr>)])"

text \<open>\<open>RequestSavePingTime\<close>; the copy into the array is that of \<open>String_Util\<close>.\<close>

definition RequestSavePingTime :: "byte list \<Rightarrow> Timestamp \<Rightarrow> u32 \<Rightarrow> string option \<Rightarrow> (byte list list) option" where
  "RequestSavePingTime junk now serverId serverName =
     (let p = (PKT_DBSavePingTimeReq_new junk)\<lparr>dpq_serverId := serverId, dpq_timestamp := now\<rparr>
      in case serverName of
           None \<Rightarrow> Some [PKT_DBSavePingTimeReq_bytes p]
         | Some n \<Rightarrow>
             (case SU_CopyArray (chars_of (dpq_serverName p)) (Some n) of
                Some (_, Some d) \<Rightarrow> Some [PKT_DBSavePingTimeReq_bytes (p\<lparr>dpq_serverName := bytes_of d\<rparr>)]
              | _ \<Rightarrow> None))"

subsection \<open>ServerPacketHandler\<close>

text \<open>
  The result: what is sent, and the calls of \<open>OrderedTaskQueue::EnqueueTask\<close>, whose closures are the tasks of theory
  \<open>Latency\<close>. \<open>ProcessPacket\<close> has tested the queue and the manager, so the branches of the handlers for a missing one are
  not reached.
\<close>

record ServerPacketHandler =
  shLatencyManager :: bool
  shOrderedTaskQueue :: bool

definition SPH_new :: ServerPacketHandler where
  "SPH_new = \<lparr>shLatencyManager = False, shOrderedTaskQueue = False\<rparr>"

definition SPH_Initialize :: "bool \<Rightarrow> bool \<Rightarrow> ServerPacketHandler \<Rightarrow> ServerPacketHandler" where
  "SPH_Initialize m q h = h\<lparr>shLatencyManager := m, shOrderedTaskQueue := q\<rparr>"

definition HandleServerPingRequest :: "Timestamp \<Rightarrow> Session \<Rightarrow> PKT_ServerPingReq \<Rightarrow> byte list list \<times> (u32 \<times> ltask) list" where
  "HandleServerPingRequest receiveTime s p =
     (let rttMs = receiveTime - spq_timestamp p; serverId = ucast (GetId s)
      in ([PKT_ServerPongRes_bytes (PKT_ServerPongRes_new\<lparr>sps_sequence := spq_sequence p, sps_requestTimestamp := spq_timestamp p,
             sps_responseTimestamp := receiveTime\<rparr>)],
          [(serverId, RecordTask serverId rttMs receiveTime)]))"

definition HandleDBSavePingTimeRequest :: "byte list \<Rightarrow> Session \<Rightarrow> PKT_DBSavePingTimeReq \<Rightarrow> (byte list list \<times> (u32 \<times> ltask) list) option" where
  "HandleDBSavePingTimeRequest mem s p =
     map_option (\<lambda>name. ([], [(dpq_serverId p, SaveTask (GetId s) (dpq_serverId p) name (dpq_timestamp p))])) (c_string_at 20 mem)"

definition SPH_requiredSize :: "u16 \<Rightarrow> nat" where
  "SPH_requiredSize i =
     (if i = ServerPacketType_value ServerPingReq then 20
      else if i = ServerPacketType_value DBSavePingTimeReq then 52 else 8)"

definition SPH_ProcessPacket :: "ServerPacketHandler \<Rightarrow> Timestamp \<Rightarrow> byte list option \<Rightarrow> nat \<Rightarrow> Session \<Rightarrow>
    (byte list list \<times> (u32 \<times> ltask) list) option" where
  "SPH_ProcessPacket h now data len s =
     (case data of
        None \<Rightarrow> Some ([], [])
      | Some mem \<Rightarrow>
          if len < 8 then Some ([], [])
          else if \<not> shOrderedTaskQueue h \<or> \<not> shLatencyManager h then Some ([], [])
          else let hd = ServerPacketHeader_read mem
               in if unat (sh_size hd) < 8 \<or> 4096 < unat (sh_size hd) then Some ([], [])
                  else if len < unat (sh_size hd) then Some ([], [])
                  else if unat (sh_size hd) < SPH_requiredSize (sh_id hd) then Some ([], [])
                  else if sh_id hd = ServerPacketType_value ServerPingReq
                  then Some (HandleServerPingRequest now s (PKT_ServerPingReq_read mem))
                  else if sh_id hd = ServerPacketType_value DBSavePingTimeReq
                  then HandleDBSavePingTimeRequest mem s (PKT_DBSavePingTimeReq_read mem)
                  else Some ([], []))"

text \<open>The reply that the closure of \<open>HandleDBSavePingTimeRequest\<close> sends for a result (\<open>otReplies\<close> of theory \<open>Latency\<close>).\<close>

definition save_message :: "u8 \<Rightarrow> string" where
  "save_message result =
     (if result = 0 then ''Ping time saved successfully''
      else if result = 1 then ''Failed to save ping time'' else ''Latency manager not initialized'')"

definition save_reply :: "byte list \<Rightarrow> u32 \<Rightarrow> u8 \<Rightarrow> byte list option" where
  "save_reply junk serverId result =
     (let p = PKT_DBSavePingTimeRes_new junk
      in case snprintf 0 (length (dps_message p)) (Some (save_message result)) (chars_of (dps_message p)) of
           Some (_, m) \<Rightarrow> Some (PKT_DBSavePingTimeRes_bytes (p\<lparr>dps_serverId := serverId, dps_result := result, dps_message := bytes_of m\<rparr>))
         | None \<Rightarrow> None)"

subsection \<open>Reading within the packet\<close>

text \<open>Two memories that agree on the packet read the same fields.\<close>

lemma window_cong:
  assumes "take len m = take len m'" "off + n \<le> len"
  shows "take n (drop off m) = take n (drop off m')"
proof -
  have "take n (drop off m) = take n (drop off (take len m))" "take n (drop off m') = take n (drop off (take len m'))"
    using assms(2) by (simp_all add: drop_take min_def)
  with assms(1) show ?thesis by simp
qed

lemma field_cong: "take len m = take len m' \<Longrightarrow> off + n \<le> len \<Longrightarrow> field off n m = field off n m'"
  by (simp only: field_def window_cong [of len m m' off n])

lemma chars_cong: "take len m = take len m' \<Longrightarrow> off + n \<le> len \<Longrightarrow> chars off n m = chars off n m'"
  by (simp only: chars_def window_cong [of len m m' off n])

lemma PacketHeader_cong: "take len m = take len m' \<Longrightarrow> 4 \<le> len \<Longrightarrow> PacketHeader_read m = PacketHeader_read m'"
  by (simp add: PacketHeader_read_def field_cong [of len m m' 0 2] field_cong [of len m m' 2 2])

lemma ServerPacketHeader_cong: "take len m = take len m' \<Longrightarrow> 8 \<le> len \<Longrightarrow> ServerPacketHeader_read m = ServerPacketHeader_read m'"
  by (simp add: ServerPacketHeader_read_def field_cong [of len m m' 0 2] field_cong [of len m m' 2 2] field_cong [of len m m' 4 4])

lemma read_congs:
  assumes "take len m = take len m'"
  shows "8 \<le> len \<Longrightarrow> PKT_SessionConnectReq_read m = PKT_SessionConnectReq_read m'"
    and "16 \<le> len \<Longrightarrow> PKT_PingReq_read m = PKT_PingReq_read m'"
    and "28 \<le> len \<Longrightarrow> PKT_ServerPongRes_read m = PKT_ServerPongRes_read m'"
    and "77 \<le> len \<Longrightarrow> PKT_DBSavePingTimeRes_read m = PKT_DBSavePingTimeRes_read m'"
    and "278 \<le> len \<Longrightarrow> PKT_DBQueryRes_read m = PKT_DBQueryRes_read m'"
    and "20 \<le> len \<Longrightarrow> PKT_ServerPingReq_read m = PKT_ServerPingReq_read m'"
    and "52 \<le> len \<Longrightarrow> PKT_DBSavePingTimeReq_read m = PKT_DBSavePingTimeReq_read m'"
  using PacketHeader_cong [OF assms] ServerPacketHeader_cong [OF assms]
  by (simp_all add: field_cong [OF assms] chars_cong [OF assms] PKT_SessionConnectReq_read_def PKT_PingReq_read_def PKT_ServerPongRes_read_def PKT_DBSavePingTimeRes_read_def
      PKT_DBQueryRes_read_def PKT_ServerPingReq_read_def PKT_DBSavePingTimeReq_read_def)

text \<open>A C string whose terminator lies in the array is read within it.\<close>

lemma NUL_chars_of: "NUL \<in> set (chars_of bs) \<longleftrightarrow> 0 \<in> set bs"
proof -
  have "char_of (unat b) = NUL \<longleftrightarrow> b = 0" for b :: byte
  proof
    assume "char_of (unat b) = NUL"
    then have "of_char (char_of (unat b) :: char) = (of_char NUL :: nat)" by simp
    moreover have "unat b < 256" using unsigned_less [of b, where ?'a = nat] by simp
    ultimately show "b = 0" by (simp add: of_char_char_of NUL_def unat_eq_zero)
  qed (simp add: NUL_def char_of_def)
  then show ?thesis unfolding chars_of_def by (induction bs) (simp_all, metis)
qed

lemma c_string_at_inside:
  assumes "0 \<in> set (chars off n m)"
  shows "c_string_at off m = Some (cstr (chars_of (chars off n m)))"
proof -
  have d: "drop off m = chars off n m @ drop n (drop off m)" unfolding chars_def by (rule append_take_drop_id [symmetric])
  have "NUL \<in> set (chars_of (chars off n m))" using assms NUL_chars_of by blast
  moreover have "chars_of (drop off m) = chars_of (chars off n m) @ chars_of (drop n (drop off m))"
    by (subst d) (simp add: chars_of_def)
  ultimately show ?thesis by (simp add: c_string_at_def Let_def cstr_def)
qed

subsection \<open>The contract of a packet callback\<close>

text \<open>
  A handler that looks at nothing outside the packet it is given. The engine hands over packets that lie one after the
  other in a batch; for such a handler that is the same as handing over each packet by itself.
\<close>

locale bounded_handler =
  fixes process :: "byte list \<Rightarrow> nat \<Rightarrow> 'r"
  assumes in_bounds: "len \<le> length m \<Longrightarrow> len \<le> length m' \<Longrightarrow> take len m = take len m' \<Longrightarrow> process m len = process m' len"
begin

lemma alone: "len \<le> length m \<Longrightarrow> process m len = process (take len m) len"
  by (rule in_bounds) simp_all

lemma batch:
  "list_all (\<lambda>(off, sz). off + sz \<le> length bs) spans \<Longrightarrow>
   map (\<lambda>(off, sz). process (drop off bs) sz) spans = map (\<lambda>(off, sz). process (take sz (drop off bs)) sz) spans"
  by (rule map_cong [OF refl]) (auto simp: list_all_iff intro!: alone)

end

lemma CPH_in_bounds:
  assumes "take len m = take len m'"
  shows "CPH_ProcessPacket wall now1 now2 (Some m) len s = CPH_ProcessPacket wall now1 now2 (Some m') len s"
proof (cases "4 \<le> len")
  case True
  let ?h = "PacketHeader_read m'"
  note H = PacketHeader_cong [OF assms True]
  show ?thesis
  proof (cases "unat (ph_size ?h) \<le> len \<and> CPH_requiredSize (ph_id ?h) \<le> unat (ph_size ?h)")
    case ok: True
    have "PKT_SessionConnectReq_read m = PKT_SessionConnectReq_read m'" if "ph_id ?h = PacketType_value SessionConnectReq"
      using ok that by (intro read_congs(1) [OF assms]) (simp add: CPH_requiredSize_def)
    moreover have "PKT_PingReq_read m = PKT_PingReq_read m'" if "ph_id ?h = PacketType_value PingReq"
      using ok that by (intro read_congs(2) [OF assms]) (simp add: CPH_requiredSize_def)
    ultimately show ?thesis unfolding CPH_ProcessPacket_def option.case Let_def H by (simp del: PacketType_value.simps)
  next
    case False
    then show ?thesis unfolding CPH_ProcessPacket_def option.case Let_def H by (simp only: not_le de_Morgan_conj) (elim disjE; simp)
  qed
qed (simp add: CPH_ProcessPacket_def)

interpretation cph: bounded_handler "\<lambda>m. CPH_ProcessPacket wall now1 now2 (Some m)" for wall now1 now2
  by unfold_locales (rule ext, rule CPH_in_bounds)

text \<open>The character arrays that are read as C strings are terminated within the packet.\<close>

definition terminated_res :: "byte list \<Rightarrow> bool" where
  "terminated_res m \<longleftrightarrow> sh_id (ServerPacketHeader_read m) = ServerPacketType_value DBSavePingTimeRes \<longrightarrow> 0 \<in> set (chars 13 64 m)"

definition terminated_req :: "byte list \<Rightarrow> bool" where
  "terminated_req m \<longleftrightarrow> sh_id (ServerPacketHeader_read m) = ServerPacketType_value DBSavePingTimeReq \<longrightarrow> 0 \<in> set (chars 20 32 m)"

lemma DPH_in_bounds:
  assumes "take len m = take len m'" "terminated_res m"
  shows "DPH_ProcessPacket h (Some m) len s = DPH_ProcessPacket h (Some m') len s \<and> DPH_ProcessPacket h (Some m) len s \<noteq> None"
proof (cases "8 \<le> len")
  case True
  let ?h = "ServerPacketHeader_read m'"
  note H = ServerPacketHeader_cong [OF assms(1) True]
  show ?thesis
  proof (cases "unat (sh_size ?h) \<le> len \<and> DPH_requiredSize (sh_id ?h) \<le> unat (sh_size ?h)")
    case ok: True
    have "PKT_ServerPongRes_read m = PKT_ServerPongRes_read m'" if "sh_id ?h = ServerPacketType_value ServerPongRes"
      using ok that by (intro read_congs(3) [OF assms(1)]) (simp add: DPH_requiredSize_def)
    moreover have "HandleDBSavePingTimeResponse m (PKT_DBSavePingTimeRes_read m) = Some () \<and>
        HandleDBSavePingTimeResponse m' (PKT_DBSavePingTimeRes_read m') = Some ()" if i: "sh_id ?h = ServerPacketType_value DBSavePingTimeRes"
    proof -
      have "77 \<le> len" using ok i by (simp add: DPH_requiredSize_def)
      then have "0 \<in> set (chars 13 64 m)" "0 \<in> set (chars 13 64 m')"
        using assms(2) i H chars_cong [OF assms(1), of 13 64] by (auto simp: terminated_res_def)
      then show ?thesis using c_string_at_inside [of 13 64] by (simp add: HandleDBSavePingTimeResponse_def)
    qed
    moreover have "PKT_DBQueryRes_read m = PKT_DBQueryRes_read m'" if "sh_id ?h = ServerPacketType_value DBQueryRes"
      using ok that by (intro read_congs(5) [OF assms(1)]) (simp add: DPH_requiredSize_def)
    ultimately show ?thesis unfolding DPH_ProcessPacket_def option.case Let_def H by (auto simp del: ServerPacketType_value.simps)
  next
    case False
    then show ?thesis unfolding DPH_ProcessPacket_def option.case Let_def H by auto
  qed
qed (simp add: DPH_ProcessPacket_def)

lemma SPH_in_bounds:
  assumes "take len m = take len m'" "terminated_req m"
  shows "SPH_ProcessPacket h now (Some m) len s = SPH_ProcessPacket h now (Some m') len s \<and> SPH_ProcessPacket h now (Some m) len s \<noteq> None"
proof (cases "8 \<le> len")
  case True
  let ?h = "ServerPacketHeader_read m'"
  note H = ServerPacketHeader_cong [OF assms(1) True]
  show ?thesis
  proof (cases "unat (sh_size ?h) \<le> len \<and> SPH_requiredSize (sh_id ?h) \<le> unat (sh_size ?h)")
    case ok: True
    have "PKT_ServerPingReq_read m = PKT_ServerPingReq_read m'" if "sh_id ?h = ServerPacketType_value ServerPingReq"
      using ok that by (intro read_congs(6) [OF assms(1)]) (simp add: SPH_requiredSize_def)
    moreover have "\<exists>x. HandleDBSavePingTimeRequest m s (PKT_DBSavePingTimeReq_read m) = Some x \<and>
        HandleDBSavePingTimeRequest m' s (PKT_DBSavePingTimeReq_read m') = Some x" if i: "sh_id ?h = ServerPacketType_value DBSavePingTimeReq"
    proof -
      have l: "52 \<le> len" using ok i by (simp add: SPH_requiredSize_def)
      note C = chars_cong [OF assms(1), of 20 32]
      have "0 \<in> set (chars 20 32 m)" "0 \<in> set (chars 20 32 m')"
        using assms(2) i H C l by (auto simp: terminated_req_def)
      then show ?thesis using c_string_at_inside [of 20 32] read_congs(7) [OF assms(1) l] C l
        by (simp add: HandleDBSavePingTimeRequest_def)
    qed
    ultimately show ?thesis unfolding SPH_ProcessPacket_def option.case Let_def H by (auto simp del: ServerPacketType_value.simps)
  next
    case False
    then show ?thesis unfolding SPH_ProcessPacket_def option.case Let_def H by auto
  qed
qed (simp add: SPH_ProcessPacket_def)

text \<open>
  C12: the handlers look at nothing outside of the packet. Whatever lies in memory behind the bytes they are given, the
  reactions are the same and no read faults, provided that the character arrays that are read as C strings are terminated
  within the packet. The handler of the clients' packets needs no such condition.
\<close>

theorem handlers_in_bounds:
  assumes "take len m = take len m'"
  shows "CPH_ProcessPacket wall now1 now2 (Some m) len s = CPH_ProcessPacket wall now1 now2 (Some m') len s \<and>
    (terminated_res m \<longrightarrow> DPH_ProcessPacket h (Some m) len s = DPH_ProcessPacket h (Some m') len s \<and> DPH_ProcessPacket h (Some m) len s \<noteq> None) \<and>
    (terminated_req m \<longrightarrow> SPH_ProcessPacket g now (Some m) len s = SPH_ProcessPacket g now (Some m') len s \<and> SPH_ProcessPacket g now (Some m) len s \<noteq> None)"
  using CPH_in_bounds [OF assms] DPH_in_bounds [OF assms] SPH_in_bounds [OF assms] by blast

subsection \<open>What the handlers send\<close>

lemma hdr_size_server [simp]: "hdr_size (ServerPacketHeader_bytes h @ rest) = unat (sh_size h)"
  by (simp add: hdr_size_def PacketHeader_read_def ServerPacketHeader_bytes_def wire)

lemma hdr_size_client [simp]: "hdr_size (PacketHeader_bytes h @ rest) = unat (ph_size h)"
  by (simp add: hdr_size_def)

lemma bytes_of_chars [simp]: "length (bytes_of s) = length s" "length (chars_of b) = length b"
  by (simp_all add: bytes_of_def chars_of_def)

lemmas packet_wf = valid_packet_def packet_ctor_defs packet_bytes_defs PacketHeader_make_def InitPacket_def bad_size_def packet_constants

lemma CPH_replies: "list_all valid_packet (snd (CPH_ProcessPacket wall now1 now2 data len s)) \<and> length (snd (CPH_ProcessPacket wall now1 now2 data len s)) \<le> 1"
proof -
  have "list_all valid_packet (snd (HandleConnectRequest wall s p)) \<and> length (snd (HandleConnectRequest wall s p)) \<le> 1" for p
    by (simp add: HandleConnectRequest_def packet_wf)
  moreover have "list_all valid_packet (snd (HandlePingRequest now1 now2 s p)) \<and> length (snd (HandlePingRequest now1 now2 s p)) \<le> 1" for p
    by (simp add: HandlePingRequest_def packet_wf)
  ultimately show ?thesis
    by (cases data) (simp_all add: CPH_ProcessPacket_def Let_def)
qed

lemma SPH_replies:
  assumes "SPH_ProcessPacket h now data len s = Some (out, tasks)"
  shows "list_all valid_packet out \<and> list_all (\<lambda>(key, t). server_key t = key) tasks"
proof -
  have "list_all valid_packet (fst (HandleServerPingRequest now s p)) \<and> list_all (\<lambda>(key, t). server_key t = key) (snd (HandleServerPingRequest now s p))" for p
    by (simp add: HandleServerPingRequest_def packet_wf Let_def)
  moreover have "list_all valid_packet out \<and> list_all (\<lambda>(key, t). server_key t = key) tasks"
    if "HandleDBSavePingTimeRequest mem s p = Some (out, tasks)" for mem p
    using that by (auto simp: HandleDBSavePingTimeRequest_def)
  ultimately show ?thesis using assms
    unfolding SPH_ProcessPacket_def Let_def by (auto split: option.splits if_splits prod.splits) (metis fst_conv snd_conv)+
qed

lemma snprintf_length: "snprintf off n out d = Some (w, d') \<Longrightarrow> length d' = length d"
  by (auto simp: snprintf_def Let_def split: option.splits if_splits)

lemma SU_CopyArray_length: "SU_CopyArray d src = Some (ok, Some d') \<Longrightarrow> length d' = length d"
  by (auto simp: SU_CopyArray_def SU_Copy_def SU_Print_def split: option.splits if_splits) (metis snprintf_length)+

text \<open>
  C22: everything a handler hands to \<open>Session::Send\<close> is a complete packet that announces its own length, so that the other
  side's reassembly returns it as it is; a client packet has at most one reply. Every task the database server enqueues is
  keyed by the server it is about, which is what the ordering of theory \<open>Latency\<close> relies on.
\<close>

theorem handlers_send_packets:
  assumes "length junk31 = 31" and "length junk63 = 63"
  shows "list_all valid_packet (snd (CPH_ProcessPacket wall now1 now2 data len s)) \<and> length (snd (CPH_ProcessPacket wall now1 now2 data len s)) \<le> 1 \<and>
    (case SPH_ProcessPacket g now data len s of None \<Rightarrow> True
     | Some (out, tasks) \<Rightarrow> list_all valid_packet out \<and> list_all (\<lambda>(key, t). server_key t = key) tasks) \<and>
    list_all valid_packet (snd (SendPingToDBServer now h)) \<and>
    (case RequestSavePingTime junk31 now serverId name of None \<Rightarrow> True | Some out \<Rightarrow> list_all valid_packet out) \<and>
    (case save_reply junk63 serverId result of None \<Rightarrow> False | Some b \<Rightarrow> valid_packet b)"
proof (intro conjI)
  show "case SPH_ProcessPacket g now data len s of None \<Rightarrow> True
     | Some (out, tasks) \<Rightarrow> list_all valid_packet out \<and> list_all (\<lambda>(key, t). server_key t = key) tasks"
    using SPH_replies by (auto split: option.split)
  show "list_all valid_packet (snd (SendPingToDBServer now h))" by (simp add: SendPingToDBServer_def packet_wf)
  show "case RequestSavePingTime junk31 now serverId name of None \<Rightarrow> True | Some out \<Rightarrow> list_all valid_packet out"
  proof (cases name)
    case None
    with assms show ?thesis by (simp add: RequestSavePingTime_def packet_wf)
  next
    case (Some n)
    have "valid_packet (PKT_DBSavePingTimeReq_bytes ((PKT_DBSavePingTimeReq_new junk31)\<lparr>dpq_serverId := serverId, dpq_timestamp := now, dpq_serverName := bytes_of d\<rparr>))"
      if "SU_CopyArray (chars_of (0 # junk31)) (Some n) = Some (ok, Some d)" for ok d
      using SU_CopyArray_length [OF that] assms by (simp add: packet_wf)
    with Some show ?thesis
      by (auto simp: RequestSavePingTime_def Let_def PKT_DBSavePingTimeReq_new_def split: option.splits)
  qed
  show "case save_reply junk63 serverId result of None \<Rightarrow> False | Some b \<Rightarrow> valid_packet b"
    using assms by (auto simp: save_reply_def Let_def snprintf_def INT_MAX_def save_message_def packet_wf)
qed (use CPH_replies in blast)+

subsection \<open>Client and game server\<close>

definition ping_packet_of :: "u64 \<times> u32 \<Rightarrow> byte list" where
  "ping_packet_of p = PKT_PingReq_bytes (PKT_PingReq_new\<lparr>png_clientTime := fst p, png_sequence := snd p\<rparr>)"

definition pong_packet_of :: "u64 \<Rightarrow> u64 \<times> u32 \<Rightarrow> byte list" where
  "pong_packet_of serverTime p = PKT_PongRes_bytes (PKT_PongRes_new\<lparr>pog_clientTime := fst p, pog_serverTime := serverTime, pog_sequence := snd p\<rparr>)"

text \<open>
  The callback of the server on the packets of its reassembly: each with the two clock readings of its handler and the bytes
  that lie behind it. The client on the packets it receives, each with its clock reading.
\<close>

fun serve :: "(u64 \<times> u64 \<times> byte list) list \<Rightarrow> byte list list \<Rightarrow> Session \<Rightarrow> Session \<times> byte list list" where
  "serve ((now1, now2, behind) # es) (p # ps) s =
     (case CPH_ProcessPacket 0 now1 now2 (Some (p @ behind)) (length p) s of
        (s', out) \<Rightarrow> (case serve es ps s' of (s'', out') \<Rightarrow> (s'', out @ out')))"
| "serve _ _ s = (s, [])"

fun process_all :: "u64 list \<Rightarrow> (PacketHeader \<times> byte list) list \<Rightarrow> client \<Rightarrow> client" where
  "process_all (u # us) ((h, body) # ps) c = process_all us ps (ProcessPacket u h body c)"
| "process_all _ _ c = c"

lemma length_ping [simp]: "length (ping_packet_of p) = 16"
  by (simp add: ping_packet_of_def PingReq.encode_length)

lemma valid_ping: "valid_packet (ping_packet_of p)"
  by (simp add: ping_packet_of_def packet_wf)

lemma valid_pong: "valid_packet (pong_packet_of st p)"
  by (simp add: pong_packet_of_def packet_wf)

lemma PingReq_header: "PacketHeader_read (PKT_PingReq_bytes p @ rest) = png_header p"
  by (simp add: PKT_PingReq_bytes_def)

lemma serve_ping:
  "CPH_ProcessPacket wall now1 now2 (Some (ping_packet_of p @ behind)) 16 s = (SetLastPingTime now1 s, [pong_packet_of now2 p])"
  by (simp add: CPH_ProcessPacket_def Let_def ping_packet_of_def PingReq_header PKT_PingReq_new_def PacketHeader_make_def CPH_requiredSize_def
      MAX_PACKET_SIZE_def PingReq.decode_encode HandlePingRequest_def pong_packet_of_def)

lemma serve_pings:
  assumes "length es = length ps"
  shows "snd (serve es (map ping_packet_of ps) s) = map2 (\<lambda>(now1, now2, behind) p. pong_packet_of now2 p) es ps \<and>
    mLastPingTime (fst (serve es (map ping_packet_of ps) s)) = (if es = [] then mLastPingTime s else fst (last es))"
  using assms
proof (induction es ps arbitrary: s rule: list_induct2)
  case (Cons e es p qs)
  obtain now1 now2 behind where "e = (now1, now2, behind)" by (metis prod_cases3)
  then show ?case using Cons.IH [of "SetLastPingTime now1 s"] Cons.hyps
    by (auto simp: serve_ping SetLastPingTime_def split: prod.split)
qed simp

lemma process_pong:
  assumes "fst p \<le> u"
  shows "tcStats (ProcessPacket u (fst (unpack (pong_packet_of st p))) (snd (unpack (pong_packet_of st p))) c) = LS_Update (u - fst p) (tcStats c)"
proof -
  let ?r = "PKT_PongRes_new\<lparr>pog_clientTime := fst p, pog_serverTime := st, pog_sequence := snd p\<rparr>"
  let ?b = "pong_packet_of st p"
  have h: "PacketHeader_read ?b = pog_header ?r" by (simp add: pong_packet_of_def PKT_PongRes_bytes_def)
  have b: "?b = PacketHeader_bytes (pog_header ?r) @ drop 4 ?b"
    by (simp add: pong_packet_of_def PKT_PongRes_bytes_def)
  have "length ?b = 24" by (simp add: pong_packet_of_def PongRes.encode_length)
  then have "take 20 (drop 4 ?b) = drop 4 ?b" by simp
  then have "PacketHeader_bytes (pog_header ?r) @ take 20 (drop 4 ?b) = ?b" using b by (simp only:)
  then have "PKT_PongRes_read (PacketHeader_bytes (pog_header ?r) @ take 20 (drop 4 ?b)) = ?r"
    by (simp only: pong_packet_of_def PongRes.decode_exact [OF TrueI])
  with assms h show ?thesis
    by (simp add: unpack_def ProcessPacket_def PKT_PongRes_new_def PacketHeader_make_def HandlePongResponse_def)
qed

lemma process_pongs:
  assumes "length es = length ps" "list_all2 (\<lambda>u p. fst p \<le> u) us ps"
  shows "tcStats (process_all us (map unpack (map2 (\<lambda>(now1, now2, behind) p. pong_packet_of now2 p) es ps)) c) =
    fold LS_Update (map2 (\<lambda>u p. u - fst p) us ps) (tcStats c)"
  using assms(2,1)
proof (induction us ps arbitrary: es c rule: list_all2_induct)
  case (Cons u us p ps)
  then obtain now1 now2 behind es' where es: "es = (now1, now2, behind) # es'" "length es' = length ps"
    by (cases es) (auto)
  obtain h b where "unpack (pong_packet_of now2 p) = (h, b)" by (metis prod.collapse)
  with Cons.IH [OF es(2), of "ProcessPacket u h b c"] process_pong [OF Cons.hyps(1), of now2 c] es show ?case by simp
qed simp

text \<open>
  C5: a conversation of client and game server. The client's pings reach the server cut in any way; the server's reassembly
  and handler answer each with one pong, whatever lies behind the packets in memory; the pongs reach the client cut in any
  way, and the client's stream and handler record for every ping the time from its sending to the arrival of its pong, in
  the client's clock: the server's clock does not matter. The server's record of the last ping is that of the last one.
\<close>

theorem ping_conversation:
  assumes "recv_inv s" "mOnRecvCb s" "unread s = []" "\<forall>c \<in> set chunks. length c \<le> unat RECV_BUFFER_SIZE"
    and "concat chunks = concat (map ping_packet_of ps)" "length es = length ps" "ps \<noteq> []"
    and "flowing k" "view st k = concat (snd (serve es (fst (recv_all chunks s)) (snd (recv_all chunks s))))"
    and "length (skIn k) + length (view st k) \<le> m" "list_all2 (\<lambda>u p. fst p \<le> u) us ps"
  shows "fst (recv_all chunks s) = map ping_packet_of ps \<and>
    tcStats (process_all us (fst (recv_many m st k)) c) = fold LS_Update (map2 (\<lambda>u p. u - fst p) us ps) (tcStats c) \<and>
    mLastPingTime (fst (serve es (fst (recv_all chunks s)) (snd (recv_all chunks s)))) = fst (last es)"
proof -
  have "valid_packet q" if "q \<in> set (map ping_packet_of ps)" for q using that valid_ping by auto
  then have "frames (unread s @ concat chunks) = (map ping_packet_of ps, [], False)"
    using frames_packets [of "map ping_packet_of ps"] assms(3,5) by simp
  from recv_all_frames [OF assms(1,2,4) this] obtain s' where r: "recv_all chunks s = (map ping_packet_of ps, s')" by blast
  let ?out = "map2 (\<lambda>(now1, now2, behind) p. pong_packet_of now2 p) es ps"
  note S = serve_pings [OF assms(6), of s']
  have "list_all valid_packet ?out" using valid_pong by (auto simp: list_all_iff)
  with recv_many_all [of k st ?out m] assms(8,9,10) r S obtain st' k' where "recv_many m st k = (map unpack ?out, st', k')"
    by (metis fst_conv snd_conv)
  then have "fst (recv_many m st k) = map unpack ?out" by (simp only: fst_conv)
  with process_pongs [OF assms(6,11), of c] r S assms(6,7) show ?thesis by auto
qed

lemma serve_connect:
  "CPH_ProcessPacket wall now1 now2 (Some (connect_request @ behind)) (length connect_request) s =
    (s, [PKT_SessionConnectRes_bytes (PKT_SessionConnectRes_new\<lparr>scs_sessionId := GetId s, scs_serverTime := wall\<rparr>)])"
proof -
  let ?p = "PKT_SessionConnectReq_new\<lparr>scq_clientVersion := 1\<rparr>"
  have r: "connect_request = PKT_SessionConnectReq_bytes ?p" by (simp add: connect_request_def)
  have "PacketHeader_read (PKT_SessionConnectReq_bytes ?p @ behind) = scq_header ?p" by (simp add: PKT_SessionConnectReq_bytes_def)
  moreover have "length (PKT_SessionConnectReq_bytes ?p) = 8" by (rule SessionConnectReq.encode_length) simp
  ultimately show ?thesis unfolding r
    by (simp add: CPH_ProcessPacket_def Let_def PKT_SessionConnectReq_new_def PacketHeader_make_def CPH_requiredSize_def
        MAX_PACKET_SIZE_def HandleConnectRequest_def PKT_SessionConnectRes_new_def)
qed

text \<open>
  C20: the handshake of client and game server. The request the client sends, once it has arrived, makes the server answer
  with the id of the session; when the answer arrives, in any pieces, the client's \<open>Connect\<close> succeeds with that id, has sent
  exactly the request, and leaves what the server sends next to the packet stream.
\<close>

theorem handshake_end_to_end:
  assumes "tcState c = CS_Disconnected" and "ceResolved n" "ceSocket n" "ceConnected n"
    and "fst (SendRaw connect_request (ceSock n)) = Some True" and "flowing (ceSock n)"
    and "skIn (ceSock n) = concat (snd (CPH_ProcessPacket wall now1 now2 (Some (connect_request @ behind)) (length connect_request) s)) @ rest"
  shows "\<exists>c' k. Connect n c = Some (True, c') \<and> tcState c' = CS_SessionActive \<and> tcSessionId c' = GetId s \<and> tcSocket c' = Some k \<and>
    skOut k = skOut (ceSock n) @ connect_request \<and> view (tcStream c') k = psBuf (tcStream c) @ rest"
  using connect_handshake [OF assms(1-6), of "PKT_SessionConnectRes_new\<lparr>scs_sessionId := GetId s, scs_serverTime := wall\<rparr>" rest] assms(7)
  by (simp add: serve_connect PKT_SessionConnectRes_new_def)

subsection \<open>Game server and database server\<close>

text \<open>
  The request of \<open>RequestSavePingTime\<close> and what the database server makes of it: the name, cut to the 31 characters that fit,
  with the id and the time.
\<close>

lemma chars_bytes_of: "chars_of (bytes_of s) = s"
proof -
  have "char_of (unat (word_of_nat (of_char c) :: byte)) = c" for c :: char
    by (simp add: unat_of_nat)
  then show ?thesis by (simp add: chars_of_def bytes_of_def comp_def)
qed

lemma zero_bytes_of: "NUL \<in> set s \<Longrightarrow> 0 \<in> set (bytes_of s)"
  using NUL_chars_of [of "bytes_of s"] by (simp add: chars_bytes_of)

lemma SU_CopyArray_name:
  assumes "length d = 32" "length (cstr n) \<le> INT_MAX"
  shows "\<exists>ok d'. SU_CopyArray d (Some n) = Some (ok, Some d') \<and> length d' = 32 \<and> NUL \<in> set d' \<and> cstr d' = take 31 (cstr n)"
proof -
  let ?w = "take 31 (cstr n) @ [NUL]"
  have "NUL \<notin> set (take 31 (cstr n))" using cstr_no_nul [of n] by (meson in_set_takeD)
  then have "cstr (?w @ drop (length ?w) d) = take 31 (cstr n)" using cstr_append_nul by simp
  then show ?thesis using assms
    by (auto simp: SU_CopyArray_def SU_Copy_def SU_Print_def snprintf_def NullToEmpty_def Let_def)
qed

lemma save_reply_accepted:
  assumes "length junk = 63"
  shows "\<exists>r. save_reply junk serverId result = Some r \<and> DPH_ProcessPacket h (Some (r @ behind)) (length r) u = Some (u, [])"
proof -
  let ?p0 = "PKT_DBSavePingTimeRes_new junk"
  have "length (save_message result) \<le> 63" by (simp add: save_message_def)
  then obtain w m where m: "snprintf 0 64 (Some (save_message result)) (chars_of (dps_message ?p0)) = Some (w, m)" "length m = 64" "NUL \<in> set m"
    using assms by (auto simp: snprintf_def INT_MAX_def Let_def PKT_DBSavePingTimeRes_new_def)
  let ?p = "?p0\<lparr>dps_serverId := serverId, dps_result := result, dps_message := bytes_of m\<rparr>"
  let ?b = "PKT_DBSavePingTimeRes_bytes ?p"
  have l: "length ?b = 77" by (rule DBSavePingTimeRes.encode_length) (simp add: m(2))
  have rd: "PKT_DBSavePingTimeRes_read (?b @ behind) = ?p" by (rule DBSavePingTimeRes.decode_encode) (simp add: m(2))
  then have hd: "ServerPacketHeader_read (?b @ behind) = dps_header ?p" "chars 13 64 (?b @ behind) = bytes_of m"
    by (auto simp: PKT_DBSavePingTimeRes_read_def dest: arg_cong [where f = dps_header] arg_cong [where f = dps_message])
  have "c_string_at 13 (?b @ behind) \<noteq> None" using c_string_at_inside [of 13 64 "?b @ behind"] hd(2) zero_bytes_of [OF m(3)] by simp
  then have "DPH_ProcessPacket h (Some (?b @ behind)) (length ?b) u = Some (u, [])"
    using hd(1) rd l
    by (auto simp: DPH_ProcessPacket_def Let_def DPH_requiredSize_def InitPacket_def PKT_DBSavePingTimeRes_new_def HandleDBSavePingTimeResponse_def)
  moreover have "save_reply junk serverId result = Some ?b" using m(1) assms by (simp add: save_reply_def Let_def PKT_DBSavePingTimeRes_new_def)
  ultimately show ?thesis by blast
qed

lemma save_request_arrives:
  assumes "length junk = 31" "length (cstr name) \<le> INT_MAX" "shOrderedTaskQueue g" "shLatencyManager g"
  shows "\<exists>b. RequestSavePingTime junk now serverId (Some name) = Some [b] \<and> valid_packet b \<and>
    (\<forall>t behind. SPH_ProcessPacket g t (Some (b @ behind)) (length b) s =
      Some ([], [(serverId, SaveTask (GetId s) serverId (take 31 (cstr name)) now)]))"
proof -
  let ?p0 = "PKT_DBSavePingTimeReq_new junk"
  obtain ok d where d: "SU_CopyArray (chars_of (dpq_serverName ?p0)) (Some name) = Some (ok, Some d)" "length d = 32" "NUL \<in> set d"
    "cstr d = take 31 (cstr name)"
    using SU_CopyArray_name [of "chars_of (dpq_serverName ?p0)" name] assms(1,2) by (auto simp: PKT_DBSavePingTimeReq_new_def)
  let ?p = "?p0\<lparr>dpq_serverId := serverId, dpq_timestamp := now, dpq_serverName := bytes_of d\<rparr>"
  let ?b = "PKT_DBSavePingTimeReq_bytes ?p"
  have l: "length ?b = 52" by (rule DBSavePingTimeReq.encode_length) (simp add: d(2))
  have "SPH_ProcessPacket g t (Some (?b @ behind)) (length ?b) s =
      Some ([], [(serverId, SaveTask (GetId s) serverId (take 31 (cstr name)) now)])" for t behind
  proof -
    have rd: "PKT_DBSavePingTimeReq_read (?b @ behind) = ?p" by (rule DBSavePingTimeReq.decode_encode) (simp add: d(2))
    then have hd: "ServerPacketHeader_read (?b @ behind) = dpq_header ?p" "chars 20 32 (?b @ behind) = bytes_of d"
      by (auto simp: PKT_DBSavePingTimeReq_read_def dest: arg_cong [where f = dpq_header] arg_cong [where f = dpq_serverName])
    have "0 \<in> set (chars 20 32 (?b @ behind))" using hd(2) zero_bytes_of [OF d(3)] by simp
    from c_string_at_inside [OF this] have "c_string_at 20 (?b @ behind) = Some (take 31 (cstr name))"
      using hd(2) d(4) by (simp add: chars_bytes_of)
    then show ?thesis using assms(3,4) hd(1) rd l
      by (simp add: SPH_ProcessPacket_def Let_def SPH_requiredSize_def InitPacket_def PKT_DBSavePingTimeReq_new_def HandleDBSavePingTimeRequest_def)
  qed
  moreover have "valid_packet ?b" using l by (simp add: packet_wf)
  moreover have "RequestSavePingTime junk now serverId (Some name) = Some [?b]"
    using d(1) by (simp add: RequestSavePingTime_def Let_def PKT_DBSavePingTimeReq_new_def)
  ultimately show ?thesis by blast
qed


text \<open>The reply to a query goes to the task queue with its id, its result and the part of the detail it announces.\<close>

lemma query_reply_routed:
  assumes "dhTaskQueue h" "length (dqs_detail p) = 256" "dqs_header p = dqs_header (PKT_DBQueryRes_new junk)"
  shows "DPH_ProcessPacket h (Some (PKT_DBQueryRes_bytes p @ behind)) 278 u =
    Some (u, [Reply (dqs_queryId p) (dqs_result p) (chars_of (take (unat (dqs_detailLength p)) (dqs_detail p)))])"
proof -
  have rd: "PKT_DBQueryRes_read (PKT_DBQueryRes_bytes p @ behind) = p" by (rule DBQueryRes.decode_encode) (rule assms(2))
  then have "ServerPacketHeader_read (PKT_DBQueryRes_bytes p @ behind) = dqs_header p"
    by (auto simp: PKT_DBQueryRes_read_def dest: arg_cong [where f = dqs_header])
  with rd assms show ?thesis
    by (auto simp: DPH_ProcessPacket_def Let_def DPH_requiredSize_def InitPacket_def PKT_DBQueryRes_new_def HandleDBQueryResponse_def min_def)
qed

text \<open>What a worker of the game server has sent and finished when no reply has come.\<close>

fun no_response :: "ds_event \<Rightarrow> bool" where
  "no_response (DSResponse r) = False"
| "no_response _ = True"

definition local_code :: "ResultCode \<Rightarrow> bool" where
  "local_code c \<longleftrightarrow> c = RC_InvalidRequest \<or> c = RC_DBServerNotConnected \<or> c = RC_DBServerTimeout"

definition unheard :: "byte list \<Rightarrow> ds_worker \<Rightarrow> bool" where
  "unheard junk w \<longleftrightarrow> dsResponses w = [] \<and> list_all (\<lambda>(t, c, d). local_code c) (dsFinished w) \<and>
     list_all (\<lambda>(t, q). \<exists>i. q = build_query junk i t) (dsSent w)"

lemma unheard_session [simp]: "unheard junk (set_session i ss w) = unheard junk w" "unheard junk (erase_session i w) = unheard junk w"
  by (simp_all add: unheard_def set_session_def erase_session_def)

lemma unheard_finish: "unheard junk w \<Longrightarrow> local_code c \<Longrightarrow> unheard junk (finish t c d w)"
  by (simp add: unheard_def finish_def)

lemma unheard_task:
  assumes "unheard junk w"
  shows "unheard junk (DS_ProcessTask send junk now t w)"
proof -
  have key: "unheard junk (w\<lparr>dsKeyGen := g\<rparr>)" for g using assms by (simp add: unheard_def)
  have sent: "unheard junk (w\<lparr>dsKeyGen := g, dsSent := dsSent w @ [(t, build_query junk i t)]\<rparr>)" for g i
    using assms by (auto simp: unheard_def)
  have "local_code RC_InvalidRequest" "local_code RC_DBServerNotConnected" by (simp_all add: local_code_def)
  with assms key sent show ?thesis
    by (auto simp: DS_ProcessTask_def Let_def intro!: unheard_finish split: prod.split)
qed

lemma unheard_complete:
  assumes "unheard junk w" "local_code c"
  shows "unheard junk (complete send junk now i c d w)"
  using assms by (auto simp: complete_def Let_def intro!: unheard_task unheard_finish split: option.split list.split)

lemma unheard_timeouts: "unheard junk w \<Longrightarrow> unheard junk (CheckTimeouts send junk now w)"
proof -
  have "unheard junk (CheckTimeout send junk now i w)" if "unheard junk w" for i w
    using that by (auto simp: CheckTimeout_def local_code_def intro!: unheard_complete split: option.split)
  then have "unheard junk w \<Longrightarrow> unheard junk (fold (CheckTimeout send junk now) is w)" for "is" w
    by (induction "is" arbitrary: w) auto
  then show "unheard junk w \<Longrightarrow> ?thesis" by (simp add: CheckTimeouts_def)
qed

lemma unheard_run: "list_all no_response es \<Longrightarrow> unheard junk w \<Longrightarrow> unheard junk (ds_run send junk es w)"
proof (induction es arbitrary: w)
  case (Cons e es)
  have "unheard junk (ds_next send junk e w)"
  proof (cases e)
    case (DSTask now)
    have "unheard junk (w\<lparr>dsTasks := ts\<rparr>)" for ts using Cons.prems(2) by (simp add: unheard_def)
    then show ?thesis using DSTask Cons.prems(2) by (auto intro: unheard_task split: list.split)
  qed (use Cons.prems unheard_timeouts in \<open>auto simp: unheard_def\<close>)
  with Cons show ?case by simp
qed simp

lemma query_ignored:
  "SPH_ProcessPacket g now (Some (PKT_DBQueryReq_bytes (build_query junk i t) @ behind)) n s = Some ([], [])"
proof -
  have "ServerPacketHeader_read (PKT_DBQueryReq_bytes (build_query junk i t) @ behind) = dqq_header (build_query junk i t)"
    by (simp add: PKT_DBQueryReq_bytes_def)
  then show ?thesis
    by (auto simp: SPH_ProcessPacket_def Let_def build_query_def PKT_DBQueryReq_new_def InitPacket_def)
qed


text \<open>
  a game server whose packet carries a name without terminator makes the database server read on: what is stored as the name
  goes on with the bytes that follow the packet, up to the next zero byte, and if there is none the read leaves the memory.
\<close>

theorem unterminated_name_leaks:
  assumes "length (dpq_serverName p) = 32" "dpq_header p = dpq_header (PKT_DBSavePingTimeReq_new junk)" "0 \<notin> set (dpq_serverName p)" "0 \<notin> set behind"
    and "shOrderedTaskQueue g" "shLatencyManager g"
  shows "SPH_ProcessPacket g now (Some (PKT_DBSavePingTimeReq_bytes p @ behind @ 0 # rest)) 52 s =
      Some ([], [(dpq_serverId p, SaveTask (GetId s) (dpq_serverId p) (chars_of (dpq_serverName p @ behind)) (dpq_timestamp p))]) \<and>
    SPH_ProcessPacket g now (Some (PKT_DBSavePingTimeReq_bytes p @ behind)) 52 s = None"
proof -
  let ?b = "PKT_DBSavePingTimeReq_bytes p"
  have rd: "PKT_DBSavePingTimeReq_read (?b @ more) = p" for more by (rule DBSavePingTimeReq.decode_encode) (rule assms(1))
  have hd: "ServerPacketHeader_read (?b @ more) = dpq_header p" for more
    using rd [of more] by (auto simp: PKT_DBSavePingTimeReq_read_def dest: arg_cong [where f = dpq_header])
  have tail: "drop 20 (?b @ more) = dpq_serverName p @ more" for more by (simp add: PKT_DBSavePingTimeReq_bytes_def)
  have run: "SPH_ProcessPacket g now (Some (?b @ more)) 52 s = HandleDBSavePingTimeRequest (?b @ more) s p" for more
    using assms(2,5,6) hd rd
    by (simp add: SPH_ProcessPacket_def Let_def SPH_requiredSize_def InitPacket_def PKT_DBSavePingTimeReq_new_def)
  have no: "NUL \<notin> set (chars_of (dpq_serverName p @ behind))" using NUL_chars_of assms(3,4) by auto
  then have none: "c_string_at 20 (?b @ behind) = None" by (simp only: c_string_at_def tail Let_def) simp
  have "chars_of (dpq_serverName p @ behind @ 0 # rest) = chars_of (dpq_serverName p @ behind) @ NUL # chars_of rest"
    by (simp add: chars_of_def NUL_def char_of_def)
  then have "c_string_at 20 (?b @ behind @ 0 # rest) = Some (chars_of (dpq_serverName p @ behind))"
    using cstr_append_nul [OF no, of "chars_of rest"] by (simp only: c_string_at_def tail Let_def) simp
  with none run show ?thesis by (simp add: HandleDBSavePingTimeRequest_def)
qed

lemma sint_high:
  assumes "2 ^ 63 < unat (w :: u64)"
  shows "sint w = int (unat w) - 2 ^ 64"
proof -
  let ?M = "18446744073709551616 :: int" and ?H = "9223372036854775808 :: int"
  have "uint w = sint w mod 2 ^ LENGTH(64)" by (simp only: uint_sint take_bit_eq_mod)
  then have m: "uint w = sint w mod ?M" by simp
  have b: "- ?H \<le> sint w" "sint w < ?H" using sint_greater_eq [of w] sint_less [of w] by simp_all
  have "int (2 ^ 63) < int (unat w)" using assms by (simp only: of_nat_less_iff)
  then have u: "?H < uint w" by simp
  have n: "sint w < 0"
  proof (rule ccontr)
    assume "\<not> sint w < 0"
    then have "sint w mod ?M = sint w" using b(2) by (intro mod_pos_pos_trivial) linarith+
    with m u b(2) show False by linarith
  qed
  have "(sint w + ?M) mod ?M = sint w + ?M" using b(1) n by (intro mod_pos_pos_trivial) linarith+
  then have "sint w mod ?M = sint w + ?M" by (simp only: mod_add_self2)
  with m show ?thesis by simp
qed

text \<open>
  The database server's measurement is the difference of two machines' clocks: when the clock of the game server is ahead, it
  wraps around. The game server is then on record, as long as the process lives, with a maximum of more than \<open>2^63\<close>
  milliseconds, and with a negative number in the database.
\<close>

theorem db_rtt_wraps:
  assumes "now < spq_timestamp p" "unat (spq_timestamp p) - unat now < 2 ^ 63" "spq_header p = spq_header PKT_ServerPingReq_new"
    and "shOrderedTaskQueue g" "shLatencyManager g"
  shows "\<exists>rtt. snd (the (SPH_ProcessPacket g now (Some (PKT_ServerPingReq_bytes p @ behind)) 20 s)) =
      [(ucast (GetId s), RecordTask (ucast (GetId s)) rtt now)] \<and> 2 ^ 63 < unat rtt \<and> sint rtt = int (unat now) - int (unat (spq_timestamp p))"
proof -
  have rd: "PKT_ServerPingReq_read (PKT_ServerPingReq_bytes p @ behind) = p" by (rule ServerPingReq.decode_encode) simp
  then have "ServerPacketHeader_read (PKT_ServerPingReq_bytes p @ behind) = spq_header p"
    by (auto simp: PKT_ServerPingReq_read_def dest: arg_cong [where f = spq_header])
  then have r: "snd (the (SPH_ProcessPacket g now (Some (PKT_ServerPingReq_bytes p @ behind)) 20 s)) =
      [(ucast (GetId s), RecordTask (ucast (GetId s)) (now - spq_timestamp p) now)]"
    using assms(3-) rd
    by (simp add: SPH_ProcessPacket_def Let_def SPH_requiredSize_def InitPacket_def PKT_ServerPingReq_new_def HandleServerPingRequest_def)
  have lt: "unat now < unat (spq_timestamp p)" using assms(1) by (simp add: word_less_nat_alt)
  then have u: "unat (now - spq_timestamp p) = 2 ^ 64 + unat now - unat (spq_timestamp p)"
    by (simp add: unat_sub_if_size word_size)
  moreover have "unat (spq_timestamp p) < 2 ^ 64" using unsigned_less [of "spq_timestamp p", where ?'a = nat] by simp
  ultimately have big: "2 ^ 63 < unat (now - spq_timestamp p)" using assms(2) lt by simp
  have "sint (now - spq_timestamp p) = int (unat now) - int (unat (spq_timestamp p))"
    using sint_high [OF big] u lt \<open>unat (spq_timestamp p) < 2 ^ 64\<close> by simp
  with r big show ?thesis by blast
qed

subsection \<open>Concrete instances\<close>

theorem handlers_in_bounds_witness:
  "CPH_ProcessPacket 0 7 8 (Some (ping_packet_of (5, 1) @ [1])) 16 Session_new = CPH_ProcessPacket 0 7 8 (Some (ping_packet_of (5, 1) @ [2, 3])) 16 Session_new"
  using handlers_in_bounds [of 16 "ping_packet_of (5, 1) @ [1]" "ping_packet_of (5, 1) @ [2, 3]" 0 7 8 Session_new DPH_new SPH_new 0] by simp

theorem handlers_send_packets_witness:
  "list_all valid_packet (snd (SendPingToDBServer 5 DPH_new)) \<and>
   (case save_reply (replicate 63 1) 3 0 of None \<Rightarrow> False | Some b \<Rightarrow> valid_packet b)"
  using handlers_send_packets [of "replicate 31 1" "replicate 63 1" 0 0 0 None 0 Session_new SPH_new 5 DPH_new 3 None 0] by simp

definition new_session :: Session where
  "new_session = SetOnRecv True (Session_Initialize 1 5 0 Session_new)"

definition one_ping :: "byte list" where
  "one_ping = ping_packet_of (100, 1)"

definition pong_in :: sock where
  "pong_in = \<lparr>skIn = pong_packet_of 501 (100, 1), skRecv = replicate 24 (RData 9), skOut = [], skSend = []\<rparr>"

theorem ping_conversation_witness:
  "tcStats (process_all [130] (fst (recv_many 100 PacketStream_new pong_in)) TC_new) = LS_Update 30 (tcStats TC_new) \<and>
   mLastPingTime (fst (serve [(500, 501, [7])] (fst (recv_all [take 3 one_ping, drop 3 one_ping] new_session))
     (snd (recv_all [take 3 one_ping, drop 3 one_ping] new_session)))) = 500"
proof -
  let ?cs = "[take 3 one_ping, drop 3 one_ping]"
  have s: "recv_inv new_session" "mOnRecvCb new_session" "unread new_session = []"
    by (simp_all add: new_session_def recv_inv_def unread_def SetOnRecv_def Session_Initialize_def)
  have small: "\<forall>c \<in> set ?cs. length c \<le> unat RECV_BUFFER_SIZE" by (simp add: RECV_BUFFER_SIZE_def one_ping_def)
  have cat: "concat ?cs = concat (map ping_packet_of [(100, 1)])" by (simp add: one_ping_def)
  have "frames (unread new_session @ concat ?cs) = (map ping_packet_of [(100, 1)], [], False)"
    using frames_packet [OF valid_ping, of "(100, 1)"] s(3) cat by simp
  from recv_all_frames [OF s(1,2) small this] obtain s' where r: "recv_all ?cs new_session = (map ping_packet_of [(100, 1)], s')" by blast
  have l: "length (pong_packet_of 501 (100, 1)) = 24" by (simp add: pong_packet_of_def PongRes.encode_length)
  have v: "view PacketStream_new pong_in = pong_packet_of 501 (100, 1)"
    by (simp add: view_def PacketStream_new_def pong_in_def)
  then have v': "view PacketStream_new pong_in =
      concat (snd (serve [(500, 501, [7])] (fst (recv_all ?cs new_session)) (snd (recv_all ?cs new_session))))"
    unfolding r by (simp add: serve_ping)
  have "flowing pong_in" using l by (simp add: flowing_def pong_in_def is_data_def list_all_length)
  moreover have "length (skIn pong_in) + length (view PacketStream_new pong_in) \<le> 100" using v l by (simp add: pong_in_def)
  moreover have "list_all2 (\<lambda>u p. fst p \<le> u) [130 :: u64] [(100 :: u64, 1 :: u32)]" by simp
  moreover have "length [(500 :: u64, 501 :: u64, [7 :: byte])] = length [(100 :: u64, 1 :: u32)]" "[(100 :: u64, 1 :: u32)] \<noteq> []" by simp_all
  moreover have "fold LS_Update (map2 (\<lambda>u p. u - fst p) [130] [(100, 1 :: u32)]) (tcStats TC_new) = LS_Update 30 (tcStats TC_new)"
    "fst (last [(500 :: u64, 501 :: u64, [7 :: byte])]) = 500" by simp_all
  ultimately show ?thesis using ping_conversation [OF s small cat _ _ _ v', of 100 "[130]" TC_new] by metis
qed

definition answering_server :: connect_env where
  "answering_server = \<lparr>ceResolved = True, ceSocket = True, ceConnected = True,
     ceSock = \<lparr>skIn = concat (snd (CPH_ProcessPacket 9 0 0 (Some (connect_request @ [])) (length connect_request) new_session)) @ [7],
       skRecv = replicate 18 (RData 5), skOut = [], skSend = [SSent 3, SSent 5]\<rparr>, ceStarted = 0\<rparr>"

theorem handshake_end_to_end_witness:
  "\<exists>c' k. Connect answering_server TC_new = Some (True, c') \<and> tcSessionId c' = 1 \<and> tcSocket c' = Some k \<and>
     view (tcStream c') k = psBuf (tcStream TC_new) @ [7]"
proof -
  have "fst (SendRaw connect_request (ceSock answering_server)) = Some True"
    by (simp add: connect_request_bytes SendRaw_def answering_server_def)
  moreover have "flowing (ceSock answering_server)"
    using SessionConnectRes.encode_length serve_connect [of 9 0 0 "[]" new_session]
    by (simp add: flowing_def answering_server_def is_data_def list_all_length)
  ultimately show ?thesis
    using handshake_end_to_end [of TC_new answering_server 9 0 0 "[]" new_session "[7]"]
    by (auto simp: TC_new_def answering_server_def new_session_def GetId_def SetOnRecv_def Session_Initialize_def)
qed

definition ready_handler :: ServerPacketHandler where
  "ready_handler = SPH_Initialize True True SPH_new"



definition rude_request :: PKT_DBSavePingTimeReq where
  "rude_request = (PKT_DBSavePingTimeReq_new [])\<lparr>dpq_serverId := 3, dpq_timestamp := 50, dpq_serverName := replicate 32 65\<rparr>"

theorem unterminated_name_leaks_witness:
  "SPH_ProcessPacket ready_handler 80 (Some (PKT_DBSavePingTimeReq_bytes rude_request @ [66, 67] @ 0 # [])) 52 new_session =
     Some ([], [(3, SaveTask 1 3 (replicate 32 (CHR ''A'') @ ''BC'') 50)])"
proof -
  have "chars_of (replicate 32 65 @ [66, 67]) = replicate 32 (CHR ''A'') @ ''BC''" by code_simp
  with unterminated_name_leaks [of rude_request "[]" "[66, 67]" ready_handler 80 "[]" new_session] show ?thesis
    by (simp add: rude_request_def PKT_DBSavePingTimeReq_new_def ready_handler_def SPH_Initialize_def new_session_def GetId_def
        SetOnRecv_def Session_Initialize_def)
qed

theorem db_rtt_wraps_witness:
  "\<exists>rtt. snd (the (SPH_ProcessPacket ready_handler 80 (Some (PKT_ServerPingReq_bytes (PKT_ServerPingReq_new\<lparr>spq_timestamp := 100\<rparr>) @ [])) 20 new_session)) =
     [(1, RecordTask 1 rtt 80)] \<and> sint rtt = - 20"
  using db_rtt_wraps [of 80 "PKT_ServerPingReq_new\<lparr>spq_timestamp := 100\<rparr>" ready_handler "[]" new_session]
  by (auto simp: ready_handler_def SPH_Initialize_def new_session_def GetId_def SetOnRecv_def Session_Initialize_def)

end
