(* ===== verification/Message_Handler.thy ===== *)
theory Message_Handler
  imports Packet_Handlers
begin

section \<open>BaseMessageHandler\<close>

text \<open>
  \<open>Implementations/Protocols/BaseMessageHandler.cpp\<close>: messages with a header of their own, their serialization and their
  dispatch to registered callbacks. \<open>MessageType\<close> is an enumeration over \<open>uint32_t\<close> that takes any value; it is a 32-bit
  word. A callback is a name; the calls are returned. A handler holds \<open>mMutex\<close> while its callback runs: a callback that
  calls the handler again blocks for ever.
\<close>

subsection \<open>Messages\<close>

type_synonym MessageType = u32

definition Unknown_type :: MessageType where "Unknown_type = 0"
definition Ping_type :: MessageType where "Ping_type = 1"
definition Pong_type :: MessageType where "Pong_type = 2"
definition CustomStart :: MessageType where "CustomStart = 1000"

record Message =
  msg_type :: MessageType
  msg_connectionId :: ConnectionId
  msg_data :: "byte list"
  msg_timestamp :: u64

definition Message_new :: Message where
  "Message_new = \<lparr>msg_type = Unknown_type, msg_connectionId = 0, msg_data = [], msg_timestamp = 0\<rparr>"

record MessageHeader =
  mh_type :: u32
  mh_connectionId :: u64
  mh_timestamp :: u64
  mh_dataSize :: u32

definition MessageHeader_bytes :: "MessageHeader \<Rightarrow> byte list" where
  "MessageHeader_bytes h = le_bytes 4 (mh_type h) @ le_bytes 8 (mh_connectionId h) @ le_bytes 8 (mh_timestamp h) @ le_bytes 4 (mh_dataSize h)"

definition MessageHeader_read :: "byte list \<Rightarrow> MessageHeader" where
  "MessageHeader_read bs = \<lparr>mh_type = field 0 4 bs, mh_connectionId = field 4 8 bs, mh_timestamp = field 12 8 bs, mh_dataSize = field 20 4 bs\<rparr>"

interpretation MessageHeader: wire_struct "\<lambda>_. True" MessageHeader_bytes MessageHeader_read 24
  by unfold_locales (simp_all add: MessageHeader_bytes_def MessageHeader_read_def wire)

subsection \<open>Operations\<close>

record handler =
  hdHandlers :: "MessageType \<Rightarrow> nat option"
  hdNextMessageId :: u32

definition BMH_new :: handler where
  "BMH_new = \<lparr>hdHandlers = Map.empty, hdNextMessageId = 1\<rparr>"

text \<open>\<open>sizeof(MessageHeader) + header->dataSize\<close> is computed in \<open>size_t\<close>.\<close>

definition ValidateMessage :: "byte list option \<Rightarrow> size_t \<Rightarrow> bool" where
  "ValidateMessage data sz =
     (case data of
        None \<Rightarrow> False
      | Some m \<Rightarrow> \<not> sz < 24 \<and> 24 + ucast (mh_dataSize (MessageHeader_read m)) \<le> sz)"

definition ParseMessage :: "ConnectionId \<Rightarrow> byte list \<Rightarrow> size_t \<Rightarrow> Message option" where
  "ParseMessage connectionId m sz =
     (if sz < 24 then None
      else let h = MessageHeader_read m
           in Some (Message_new\<lparr>msg_type := mh_type h, msg_connectionId := connectionId, msg_timestamp := mh_timestamp h,
                msg_data := (if 0 < mh_dataSize h then take (unat (mh_dataSize h)) (drop 24 m) else [])\<rparr>))"

definition SerializeMessage :: "Message \<Rightarrow> byte list" where
  "SerializeMessage message =
     MessageHeader_bytes \<lparr>mh_type = msg_type message, mh_connectionId = msg_connectionId message, mh_timestamp = msg_timestamp message,
       mh_dataSize = of_nat (length (msg_data message))\<rparr> @ msg_data message"

definition CreateMessage :: "u64 \<Rightarrow> MessageType \<Rightarrow> ConnectionId \<Rightarrow> byte list option \<Rightarrow> byte list" where
  "CreateMessage now t connectionId data =
     SerializeMessage (Message_new\<lparr>msg_type := t, msg_connectionId := connectionId, msg_timestamp := now,
       msg_data := (case data of Some d \<Rightarrow> d | None \<Rightarrow> [])\<rparr>)"

text \<open>\<open>ProcessMessage\<close>: the result, and the callback that is called with the message.\<close>

definition ProcessMessage :: "ConnectionId \<Rightarrow> byte list option \<Rightarrow> size_t \<Rightarrow> handler \<Rightarrow> bool \<times> (nat \<times> Message) list" where
  "ProcessMessage connectionId data sz h =
     (if \<not> ValidateMessage data sz then (False, [])
      else case data of
        None \<Rightarrow> (False, [])
      | Some m \<Rightarrow>
          (case ParseMessage connectionId m sz of
             None \<Rightarrow> (False, [])
           | Some message \<Rightarrow>
               (case hdHandlers h (msg_type message) of
                  Some cb \<Rightarrow> (True, [(cb, message)])
                | None \<Rightarrow> (False, []))))"

definition RegisterHandler :: "MessageType \<Rightarrow> nat option \<Rightarrow> handler \<Rightarrow> bool \<times> handler" where
  "RegisterHandler t callback h =
     (case callback of None \<Rightarrow> (False, h) | Some cb \<Rightarrow> (True, h\<lparr>hdHandlers := (hdHandlers h)(t \<mapsto> cb)\<rparr>))"

definition UnregisterHandler :: "MessageType \<Rightarrow> handler \<Rightarrow> handler" where
  "UnregisterHandler t h = h\<lparr>hdHandlers := (hdHandlers h)(t := None)\<rparr>"

definition GetMessageType :: "byte list option \<Rightarrow> size_t \<Rightarrow> MessageType" where
  "GetMessageType data sz = (case data of None \<Rightarrow> Unknown_type | Some m \<Rightarrow> if sz < 4 then Unknown_type else field 0 4 m)"

subsection \<open>Round trip\<close>

lemma length_CreateMessage: "length (CreateMessage now t c (Some d)) = 24 + length d"
  by (simp add: CreateMessage_def SerializeMessage_def MessageHeader.encode_length)

lemma read_CreateMessage:
  "MessageHeader_read (CreateMessage now t c (Some d) @ rest) =
     \<lparr>mh_type = t, mh_connectionId = c, mh_timestamp = now, mh_dataSize = of_nat (length d)\<rparr>"
  by (simp add: CreateMessage_def SerializeMessage_def MessageHeader.decode_encode)

lemma data_CreateMessage: "take (length d) (drop 24 (CreateMessage now t c (Some d) @ rest)) = d"
  by (simp add: CreateMessage_def SerializeMessage_def MessageHeader.encode_length)

lemma size_CreateMessage:
  assumes "length d < 2 ^ 32"
  shows "(of_nat (24 + length d) :: size_t) = 24 + ucast (of_nat (length d) :: u32)" "unat (of_nat (length d) :: u32) = length d"
    "\<not> (of_nat (24 + length d) :: size_t) < 24"
proof -
  show u: "unat (of_nat (length d) :: u32) = length d" using assms by (simp add: unat_of_nat)
  have "(ucast (of_nat (length d) :: u32) :: size_t) = of_nat (length d)"
    by (rule word_unat_eq_iff [THEN iffD2]) (use assms u in \<open>simp add: unat_widen unat_of_nat\<close>)
  then show "(of_nat (24 + length d) :: size_t) = 24 + ucast (of_nat (length d) :: u32)" by simp
  have "unat (of_nat (24 + length d) :: size_t) = 24 + length d" using assms by (subst unat_of_nat) simp
  then show "\<not> (of_nat (24 + length d) :: size_t) < 24" by (simp only: word_less_nat_alt) simp
qed

text \<open>
  a message that is created, sent and processed reaches the callback registered for its type, with its data and time and
  with the receiver's name for the connection; whatever follows it in memory is not touched. It fails exactly when no
  callback is registered. (The data must be shorter than 4 GiB: the header's size field has 32 bits.)
\<close>

theorem message_roundtrip:
  assumes "length d < 2 ^ 32"
  shows "ProcessMessage r (Some (CreateMessage now t c (Some d) @ rest)) (of_nat (24 + length d)) h =
    (case hdHandlers h t of
       None \<Rightarrow> (False, [])
     | Some cb \<Rightarrow> (True, [(cb, \<lparr>msg_type = t, msg_connectionId = r, msg_data = d, msg_timestamp = now\<rparr>)]))"
proof -
  let ?sz = "of_nat (24 + length d) :: size_t" and ?m = "CreateMessage now t c (Some d) @ rest"
  note S = size_CreateMessage [OF assms]
  have "ValidateMessage (Some ?m) ?sz" using S by (simp add: ValidateMessage_def read_CreateMessage)
  moreover have "(0 < (of_nat (length d) :: u32)) = (d \<noteq> [])"
    using S(2) by (metis length_greater_0_conv unat_0 word_less_nat_alt)
  then have "ParseMessage r ?m ?sz = Some \<lparr>msg_type = t, msg_connectionId = r, msg_data = d, msg_timestamp = now\<rparr>"
    using S(2,3) by (simp add: ParseMessage_def Let_def read_CreateMessage data_CreateMessage Message_new_def
      del: take_append drop_append)
  ultimately show ?thesis by (simp add: ProcessMessage_def split: option.split)
qed

theorem message_roundtrip_witness:
  "length ([65, 66] :: byte list) < 2 ^ 32 \<and>
   ProcessMessage 9 (Some (CreateMessage 5 1001 3 (Some [65, 66]) @ [7])) (of_nat (24 + length ([65, 66] :: byte list)))
     (snd (RegisterHandler 1001 (Some 4) BMH_new)) =
     (True, [(4, \<lparr>msg_type = 1001, msg_connectionId = 9, msg_data = [65, 66], msg_timestamp = 5\<rparr>)])"
  by (subst message_roundtrip) (simp_all add: RegisterHandler_def)

subsection \<open>Bounds\<close>

lemma MessageHeader_read_cong:
  "take len m = take len m' \<Longrightarrow> 24 \<le> len \<Longrightarrow> MessageHeader_read m = MessageHeader_read m'"
  by (simp add: MessageHeader_read_def field_cong [of len m m' 0 4] field_cong [of len m m' 4 8] field_cong [of len m m' 12 8]
      field_cong [of len m m' 20 4])

lemma unat_header_size: "unat (24 + ucast (w :: u32) :: size_t) = 24 + unat w"
proof -
  have "unat w < 2 ^ 32" using unsigned_less [of w, where ?'a = nat] by simp
  then show ?thesis by (simp add: unat_word_ariths unat_widen)
qed

lemma valid_extent:
  assumes "ValidateMessage (Some m) sz"
  shows "24 + unat (mh_dataSize (MessageHeader_read m)) \<le> unat sz"
  using assms unat_header_size [of "mh_dataSize (MessageHeader_read m)"]
  by (simp add: ValidateMessage_def word_le_nat_alt)

lemma ProcessMessage_cong:
  assumes eq: "take len m = take len m'" and sz: "unat sz \<le> len"
  shows "ProcessMessage r (Some m) sz h = ProcessMessage r (Some m') sz h"
proof (cases "sz < 24")
  case False
  then have l: "24 \<le> unat sz" by (simp add: word_less_nat_alt)
  have H: "MessageHeader_read m = MessageHeader_read m'" using MessageHeader_read_cong [OF eq] l sz by simp
  then have V: "ValidateMessage (Some m) sz = ValidateMessage (Some m') sz" by (simp add: ValidateMessage_def)
  show ?thesis
  proof (cases "ValidateMessage (Some m') sz")
    case True
    then have "24 + unat (mh_dataSize (MessageHeader_read m')) \<le> len" using valid_extent sz by (meson le_trans)
    then have "take (unat (mh_dataSize (MessageHeader_read m'))) (drop 24 m) = take (unat (mh_dataSize (MessageHeader_read m'))) (drop 24 m')"
      by (rule window_cong [OF eq])
    then have "ParseMessage r m sz = ParseMessage r m' sz" by (simp add: ParseMessage_def H Let_def)
    then show ?thesis using V by (simp add: ProcessMessage_def)
  qed (simp add: ProcessMessage_def V)
qed (simp add: ProcessMessage_def ValidateMessage_def)

interpretation bmh: bounded_handler "\<lambda>m len. ProcessMessage r (Some m) (of_nat len) h" for r h
  by unfold_locales (rule ProcessMessage_cong, assumption, simp add: unat_of_nat)

text \<open>
  whatever the bytes and whatever size the header announces, processing a buffer of \<open>len\<close> bytes reads only these:
  bytes behind them change neither the result nor the message the callback gets.
\<close>

theorem message_in_bounds:
  assumes "len \<le> length m"
  shows "ProcessMessage r (Some m) (of_nat len) h = ProcessMessage r (Some (take len m)) (of_nat len) h"
  using assms by (rule bmh.alone)

theorem message_in_bounds_witness:
  "26 \<le> length (CreateMessage 5 1001 3 (Some [65, 66]) @ [7]) \<and>
   ProcessMessage 9 (Some (CreateMessage 5 1001 3 (Some [65, 66]) @ [7])) (of_nat 26) BMH_new =
   ProcessMessage 9 (Some (take 26 (CreateMessage 5 1001 3 (Some [65, 66]) @ [7]))) (of_nat 26) BMH_new"
proof -
  have "26 \<le> length (CreateMessage 5 1001 3 (Some [65, 66]) @ [7])" by (simp add: length_CreateMessage)
  then show ?thesis using message_in_bounds [of 26 "CreateMessage 5 1001 3 (Some [65, 66]) @ [7]" 9 BMH_new] by blast
qed

end
