(* ===== verification/Db_Link.thy ===== *)
theory Db_Link
  imports Packet_Handlers
begin

section \<open>The game server's link to the database server\<close>

text \<open>
  \<open>TestServer/src/TestServer.cpp\<close>, the Windows build: the connection to the database server with its receive thread, its
  pings, its reconnect thread with back-off, and the shutdown; \<open>DBServerSession.cpp\<close> and the order of the calls in
  \<open>main.cpp\<close>. What the sockets answer is an argument of the steps. The packet handler is in \<open>Packet_Handlers\<close>, the task
  queues and the timer queue in theories of their own.
\<close>

subsection \<open>Receiving\<close>

definition ssize :: "byte list \<Rightarrow> nat" where
  "ssize bs = unat (sh_size (ServerPacketHeader_read bs))"

definition sbad :: "nat \<Rightarrow> bool" where
  "sbad n \<longleftrightarrow> n < 8 \<or> 4096 < n"

text \<open>
  The inner loop of \<open>DBRecvLoop\<close> on buffer and offset. A call of \<open>OnRecv\<close> gets a pointer into the buffer and a size: the
  memory from there to the end of the buffer, and the size.
\<close>

function link_parse :: "byte list \<Rightarrow> nat \<Rightarrow> (byte list \<times> nat) list \<times> byte list \<times> nat" where
  "link_parse buf off =
     (if length buf - off < 8 then ([], buf, off)
      else let n = ssize (drop off buf)
           in if sbad n then ([], [], 0)
              else if length buf - off < n then ([], buf, off)
              else (case link_parse buf (off + n) of (ds, b) \<Rightarrow> ((drop off buf, n) # ds, b)))"
  by pat_completeness auto
termination
  by (relation "measure (\<lambda>(buf, off). length buf - off)") (auto simp: sbad_def)

declare link_parse.simps [simp del]

definition link_compact :: "byte list \<times> nat \<Rightarrow> byte list \<times> nat" where
  "link_compact b = (case b of (buf, off) \<Rightarrow> if 0 < off \<and> length buf div 2 < off then (drop off buf, 0) else (buf, off))"

text \<open>One \<open>recv\<close> with data.\<close>

definition link_recv :: "byte list \<Rightarrow> byte list \<times> nat \<Rightarrow> (byte list \<times> nat) list \<times> byte list \<times> nat" where
  "link_recv data b = (case b of (buf, off) \<Rightarrow>
     (case link_parse (buf @ data) off of (ds, b') \<Rightarrow> (ds, link_compact b')))"

text \<open>\<open>DBServerSession::OnRecv\<close> on the deliveries in order; \<open>None\<close> is a read outside of the buffer.\<close>

fun link_handle :: "DBServerPacketHandler \<Rightarrow> (byte list \<times> nat) list \<Rightarrow> Session \<Rightarrow> (Session \<times> db_reply list) option" where
  "link_handle h [] s = Some (s, [])"
| "link_handle h ((m, n) # ds) s =
     (case DPH_ProcessPacket h (Some m) n s of
        None \<Rightarrow> None
      | Some (s', rs) \<Rightarrow> map_option (\<lambda>(s'', rs'). (s'', rs @ rs')) (link_handle h ds s'))"

subsection \<open>The stream of server packets\<close>

function sframes :: "byte list \<Rightarrow> byte list list \<times> byte list \<times> bool" where
  "sframes bs =
     (if length bs < 8 then ([], bs, False)
      else if sbad (ssize bs) then ([], bs, True)
      else if length bs < ssize bs then ([], bs, False)
      else (case sframes (drop (ssize bs) bs) of (ps, r, bad) \<Rightarrow> (take (ssize bs) bs # ps, r, bad)))"
  by pat_completeness auto
termination
  by (relation "measure length") (auto simp: sbad_def)

declare sframes.simps [simp del]

definition valid_spacket :: "byte list \<Rightarrow> bool" where
  "valid_spacket p \<longleftrightarrow> ssize p = length p \<and> \<not> sbad (length p)"

lemma ssize_append: "8 \<le> length a \<Longrightarrow> ssize (a @ b) = ssize a"
  by (simp add: ssize_def ServerPacketHeader_read_def field_def)

lemma sframes_rest: "sframes a = (ps, r, False) \<Longrightarrow> length r < 4096 \<and> sframes r = ([], r, False)"
proof (induction a arbitrary: ps rule: sframes.induct)
  case (1 a)
  show ?case
  proof (cases "length a < 8 \<or> sbad (ssize a) \<or> length a < ssize a")
    case True
    with "1.prems" show ?thesis by (subst (asm) sframes.simps) (auto simp: sframes.simps [of r] sbad_def split: if_splits)
  next
    case False
    with "1.prems" have "sframes (drop (ssize a) a) = (tl ps, r, False)"
      by (subst (asm) sframes.simps) (auto split: if_splits prod.splits)
    with False "1.IH" show ?thesis by blast
  qed
qed

lemma sframes_append:
  "\<not> snd (snd (sframes a)) \<Longrightarrow>
   sframes (a @ b) = (fst (sframes a) @ fst (sframes (fst (snd (sframes a)) @ b)), snd (sframes (fst (snd (sframes a)) @ b)))"
proof (induction a rule: sframes.induct)
  case (1 a)
  show ?case
  proof (cases "length a < 8 \<or> sbad (ssize a) \<or> length a < ssize a")
    case True
    with "1.prems" sframes.simps [of a] show ?thesis by (auto split: if_splits)
  next
    case False
    let ?d = "drop (ssize a) a"
    have *: "sframes a = (take (ssize a) a # fst (sframes ?d), snd (sframes ?d))"
      using False by (subst sframes.simps) (simp split: prod.splits)
    have **: "sframes (a @ b) = (take (ssize a) a # fst (sframes (?d @ b)), snd (sframes (?d @ b)))"
      using False by (subst sframes.simps) (simp add: ssize_append split: prod.splits)
    have "\<not> snd (snd (sframes ?d))" using "1.prems" * by simp
    from "1.IH" [OF _ _ _ this] False show ?thesis unfolding * ** by simp
  qed
qed

lemma sframes_bad_append: "snd (snd (sframes a)) \<Longrightarrow> snd (snd (sframes (a @ b)))"
proof (induction a rule: sframes.induct)
  case (1 a)
  show ?case
  proof (cases "length a < 8 \<or> sbad (ssize a) \<or> length a < ssize a")
    case True
    with "1.prems" sframes.simps [of a] have "8 \<le> length a \<and> sbad (ssize a)" by (auto split: if_splits)
    then show ?thesis by (subst sframes.simps) (simp add: ssize_append)
  next
    case False
    with "1.prems" have "snd (snd (sframes (drop (ssize a) a)))" by (subst (asm) sframes.simps) (simp split: prod.splits)
    from "1.IH" [OF _ _ _ this] False show ?thesis by (subst sframes.simps) (simp add: ssize_append case_prod_beta)
  qed
qed

lemma sframes_packets: "list_all valid_spacket ps \<Longrightarrow> sframes (concat ps) = (ps, [], False)"
proof (induction ps)
  case (Cons p ps)
  then have p: "ssize p = length p" "\<not> sbad (length p)" "8 \<le> length p" by (auto simp: valid_spacket_def sbad_def)
  then have "sframes (p @ concat ps) = (p # fst (sframes (concat ps)), snd (sframes (concat ps)))"
    by (subst sframes.simps) (simp add: ssize_append split: prod.splits)
  then show ?case using Cons by simp
qed (simp add: sframes.simps)

subsection \<open>Correctness of the receive loop\<close>

definition payload :: "byte list \<times> nat \<Rightarrow> byte list" where
  "payload d = take (snd d) (fst d)"

definition link_unread :: "byte list \<times> nat \<Rightarrow> byte list" where
  "link_unread b = drop (snd b) (fst b)"

lemma link_parse_frames:
  assumes "off \<le> length buf" "sframes (drop off buf) = (ps, r, bad)"
  shows "map payload (fst (link_parse buf off)) = ps \<and>
    snd (snd (link_parse buf off)) \<le> length (fst (snd (link_parse buf off))) \<and>
    link_unread (snd (link_parse buf off)) = (if bad then [] else r)"
  using assms
proof (induction buf off arbitrary: ps rule: link_parse.induct)
  case (1 buf off)
  let ?bs = "drop off buf"
  let ?n = "ssize ?bs"
  show ?case
  proof (cases "length ?bs < 8 \<or> sbad ?n \<or> length ?bs < ?n")
    case True
    with "1.prems" show ?thesis
      by (subst (asm) sframes.simps) (auto simp: link_parse.simps [of buf off] link_unread_def Let_def split: if_splits)
  next
    case False
    then have p: "link_parse buf off = ((?bs, ?n) # fst (link_parse buf (off + ?n)), snd (link_parse buf (off + ?n)))"
      by (subst link_parse.simps) (simp add: Let_def split: prod.splits)
    have "sframes ?bs = (take ?n ?bs # fst (sframes (drop ?n ?bs)), snd (sframes (drop ?n ?bs)))"
      using False by (subst sframes.simps) (simp split: prod.splits)
    with "1.prems"(2) have f: "sframes (drop (off + ?n) buf) = (tl ps, r, bad)" "ps = take ?n ?bs # tl ps"
      by (auto simp: prod_eq_iff add.commute)
    have "off + ?n \<le> length buf" using False "1.prems"(1) by auto
    from "1.IH" [OF _ refl _ _ this f(1)] False have
      "map payload (fst (link_parse buf (off + ?n))) = tl ps \<and>
       snd (snd (link_parse buf (off + ?n))) \<le> length (fst (snd (link_parse buf (off + ?n)))) \<and>
       link_unread (snd (link_parse buf (off + ?n))) = (if bad then [] else r)" by simp
    moreover have "payload (?bs, ?n) = take ?n ?bs" by (simp add: payload_def)
    ultimately show ?thesis using f(2) by (simp add: p)
  qed
qed

definition link_buf_ok :: "byte list \<times> nat \<Rightarrow> bool" where
  "link_buf_ok b \<longleftrightarrow> snd b \<le> length (fst b) \<and> length (fst b) < 8192 \<and> sframes (link_unread b) = ([], link_unread b, False)"

lemma link_compact_facts:
  assumes "snd b \<le> length (fst b)"
  shows "link_unread (link_compact b) = link_unread b" "snd (link_compact b) \<le> length (fst (link_compact b))"
    "length (fst (link_compact b)) \<le> 2 * length (link_unread b) + 1"
  using assms by (auto simp: link_compact_def link_unread_def split: prod.splits)

lemma link_recv_spec:
  assumes b: "link_buf_ok b" and f: "sframes (link_unread b @ data) = (ps, r, bad)"
  shows "map payload (fst (link_recv data b)) = ps" "link_unread (snd (link_recv data b)) = (if bad then [] else r)"
    "link_buf_ok (snd (link_recv data b))"
proof -
  obtain buf off where [simp]: "b = (buf, off)" by (cases b)
  let ?p = "link_parse (buf @ data) off"
  have "off \<le> length (buf @ data)" "sframes (drop off (buf @ data)) = (ps, r, bad)"
    using b f by (simp_all add: link_buf_ok_def link_unread_def)
  note p = link_parse_frames [OF this]
  have e: "link_recv data b = (fst ?p, link_compact (snd ?p))" by (simp add: link_recv_def split: prod.splits)
  have c: "snd (snd ?p) \<le> length (fst (snd ?p))" using p by blast
  show "map payload (fst (link_recv data b)) = ps" using p e by simp
  show u: "link_unread (snd (link_recv data b)) = (if bad then [] else r)" using p e link_compact_facts(1) [OF c] by simp
  have "length (if bad then [] else r) < 4096 \<and> sframes (if bad then [] else r) = ([], if bad then [] else r, False)"
    using f sframes_rest by (auto simp: sframes.simps [of "[]"])
  then show "link_buf_ok (snd (link_recv data b))"
    using u e link_compact_facts [OF c] p by (simp add: link_buf_ok_def)
qed


fun link_recv_all :: "byte list list \<Rightarrow> byte list \<times> nat \<Rightarrow> (byte list \<times> nat) list \<times> byte list \<times> nat" where
  "link_recv_all [] b = ([], b)"
| "link_recv_all (c # cs) b =
     (case link_recv c b of (ds, b') \<Rightarrow> (case link_recv_all cs b' of (es, b'') \<Rightarrow> (ds @ es, b'')))"

lemma link_buf_ok_new: "link_buf_ok ([], 0)"
  by (simp add: link_buf_ok_def link_unread_def sframes.simps)

lemma link_recv_all_spec:
  assumes "link_buf_ok b" "sframes (link_unread b @ concat cs) = (ps, r, False)"
  shows "map payload (fst (link_recv_all cs b)) = ps" "link_unread (snd (link_recv_all cs b)) = r"
    "link_buf_ok (snd (link_recv_all cs b))"
proof -
  have "map payload (fst (link_recv_all cs b)) = ps \<and> link_unread (snd (link_recv_all cs b)) = r \<and> link_buf_ok (snd (link_recv_all cs b))"
    using assms
  proof (induction cs arbitrary: b ps)
    case Nil
    then show ?case by (simp add: link_buf_ok_def)
  next
    case (Cons c cs)
    let ?u = "link_unread b @ c" and ?b = "snd (link_recv c b)"
    obtain qs q bad where f: "sframes ?u = (qs, q, bad)" by (metis prod_cases3)
    note L = link_recv_spec [OF Cons.prems(1) f]
    have "\<not> bad"
    proof
      assume bad
      then have "snd (snd (sframes (?u @ concat cs)))" using sframes_bad_append [of ?u] f by simp
      then show False using Cons.prems(2) by simp
    qed
    then have "sframes (?u @ concat cs) = (qs @ fst (sframes (q @ concat cs)), snd (sframes (q @ concat cs)))"
      using sframes_append [of ?u "concat cs"] f by simp
    then have g: "sframes (link_unread ?b @ concat cs) = (fst (sframes (q @ concat cs)), r, False)"
      and ps: "ps = qs @ fst (sframes (q @ concat cs))"
      using Cons.prems(2) L(2) \<open>\<not> bad\<close> by (auto simp: prod_eq_iff)
    show ?case using Cons.IH [OF L(3) g] L(1) ps by (simp add: case_prod_beta)
  qed
  then show "map payload (fst (link_recv_all cs b)) = ps" "link_unread (snd (link_recv_all cs b)) = r"
    "link_buf_ok (snd (link_recv_all cs b))" by blast+
qed


text \<open>The packets one after another, each alone in memory.\<close>

definition solo :: "byte list \<Rightarrow> byte list \<times> nat" where
  "solo p = (p, length p)"

lemma link_handle_alone:
  "list_all terminated_res (map payload ds) \<Longrightarrow> list_all (\<lambda>d. snd d \<le> length (fst d)) ds \<Longrightarrow>
   link_handle h ds s = link_handle h (map solo (map payload ds)) s \<and> link_handle h ds s \<noteq> None"
proof (induction ds arbitrary: s)
  case (Cons d ds)
  obtain m n where d: "d = (m, n)" by (cases d)
  have "take n (take n m) = take n m" "terminated_res (take n m)" "n \<le> length m"
    using Cons.prems by (simp_all add: d payload_def)
  with DPH_in_bounds [of n "take n m" m h s] obtain s' rs where
    "DPH_ProcessPacket h (Some m) n s = Some (s', rs)" "DPH_ProcessPacket h (Some (take n m)) n s = Some (s', rs)"
    by (metis not_Some_eq surj_pair)
  moreover have "link_handle h ds s' = link_handle h (map solo (map payload ds)) s' \<and> link_handle h ds s' \<noteq> None"
    using Cons.prems by (intro Cons.IH) simp_all
  moreover have "solo (payload (m, n)) = (take n m, n)" using \<open>n \<le> length m\<close> by (simp add: solo_def payload_def)
  ultimately show ?case unfolding d list.map link_handle.simps by (elim conjE) (simp del: map_map not_None_eq)
qed simp

lemma link_parse_sizes: "list_all (\<lambda>d. snd d \<le> length (fst d)) (fst (link_parse buf off))"
proof (induction buf off rule: link_parse.induct)
  case (1 buf off)
  then show ?case by (subst link_parse.simps) (auto simp: Let_def split: prod.splits)
qed

lemma link_recv_all_sizes: "list_all (\<lambda>d. snd d \<le> length (fst d)) (fst (link_recv_all cs b))"
proof (induction cs arbitrary: b)
  case (Cons c cs)
  have "list_all (\<lambda>d. snd d \<le> length (fst d)) (fst (link_recv c b))"
    using link_parse_sizes [of "fst b @ c" "snd b"] by (simp add: link_recv_def case_prod_beta)
  with Cons show ?case by (simp add: case_prod_beta)
qed simp

lemma link_stream_handled:
  assumes "list_all valid_spacket ps" "list_all terminated_res ps" "concat cs = concat ps"
  shows "link_handle h (fst (link_recv_all cs ([], 0))) s = link_handle h (map solo ps) s \<and> link_handle h (map solo ps) s \<noteq> None \<and>
    link_unread (snd (link_recv_all cs ([], 0))) = [] \<and> length (fst (snd (link_recv_all cs ([], 0)))) < 8192"
proof -
  have "sframes (link_unread ([], 0) @ concat cs) = (ps, [], False)"
    using assms sframes_packets by (simp add: link_unread_def)
  note L = link_recv_all_spec [OF link_buf_ok_new this]
  have "link_handle h (fst (link_recv_all cs ([], 0))) s = link_handle h (map solo ps) s \<and> link_handle h (fst (link_recv_all cs ([], 0))) s \<noteq> None"
    using link_handle_alone [OF _ link_recv_all_sizes, of cs "([], 0)" h s] L(1) assms(2) by metis
  then show ?thesis using L(2,3) by (metis link_buf_ok_def)
qed

text \<open>
  C15: what the database server sends reaches the packet handler exactly, however TCP cuts it: the handler does what it
  would do with the packets of the stream one after another, each alone in memory, and no read leaves the buffer, when the
  messages in the replies are terminated. The buffer never grows beyond two packets between calls.
\<close>

theorem link_delivers_stream:
  assumes "list_all valid_spacket ps" "list_all terminated_res ps" "concat cs = concat ps"
  shows "link_handle h (fst (link_recv_all cs ([], 0))) s = link_handle h (map solo ps) s \<and> link_handle h (map solo ps) s \<noteq> None \<and>
    link_unread (snd (link_recv_all cs ([], 0))) = [] \<and> length (fst (snd (link_recv_all cs ([], 0)))) < 8192"
  by (rule link_stream_handled [OF assms])

text \<open>Two replies to pings, cut inside of both headers.\<close>

definition db_pong :: "u32 \<Rightarrow> byte list" where
  "db_pong n = PKT_ServerPongRes_bytes (PKT_ServerPongRes_new\<lparr>sps_sequence := n, sps_requestTimestamp := 10, sps_responseTimestamp := 20 + ucast n\<rparr>)"

lemma db_pong_valid: "valid_spacket (db_pong n)" "terminated_res (db_pong n)" "length (db_pong n) = 28"
  by (simp_all add: db_pong_def valid_spacket_def ssize_def sbad_def terminated_res_def PKT_ServerPongRes_new_def PKT_ServerPongRes_bytes_def InitPacket_def)

theorem link_delivers_stream_witness:
  "let cs = [take 3 (db_pong 1), drop 3 (db_pong 1) @ take 5 (db_pong 2), drop 5 (db_pong 2)] in
   link_handle DPH_new (fst (link_recv_all cs ([], 0))) Session_new = link_handle DPH_new (map solo [db_pong 1, db_pong 2]) Session_new"
  unfolding Let_def
  by (rule link_delivers_stream [of "[db_pong 1, db_pong 2]", THEN conjunct1]) (simp_all add: db_pong_valid)

text \<open>
  a size in a header that no packet can have does not end the connection: the bytes received so far are thrown away and
  reading goes on with the next \<open>recv\<close> as if a packet began there. Packets are taken from the middle of the stream.
\<close>

theorem link_bad_size_resyncs:
  assumes "link_buf_ok b" "sframes (link_unread b @ data) = (ps, r, True)"
  shows "map payload (fst (link_recv data b)) = ps \<and> link_unread (snd (link_recv data b)) = [] \<and>
    (\<forall>cs qs q. sframes (concat cs) = (qs, q, False) \<longrightarrow> map payload (fst (link_recv_all cs (snd (link_recv data b)))) = qs)"
proof -
  note L = link_recv_spec [OF assms]
  have "map payload (fst (link_recv_all cs (snd (link_recv data b)))) = qs" if "sframes (concat cs) = (qs, q, False)" for cs qs q
    using link_recv_all_spec(1) [OF L(3)] L(2) that by simp
  then show ?thesis using L(1,2) by simp
qed

theorem link_bad_size_resyncs_witness:
  "link_buf_ok ([], 0) \<and> sframes (link_unread ([], 0) @ replicate 8 0) = ([], replicate 8 0, True) \<and>
   map payload (fst (link_recv_all [db_pong 7] (snd (link_recv (replicate 8 0) ([], 0))))) = [db_pong 7]"
proof -
  have f: "sframes (link_unread ([], 0) @ replicate 8 0) = ([], replicate 8 0, True)"
    by (subst sframes.simps) (simp add: link_unread_def ssize_def sbad_def ServerPacketHeader_read_def field_def numeral_eq_Suc)
  have "sframes (concat [db_pong 7]) = ([db_pong 7], [], False)" by (rule sframes_packets) (simp add: db_pong_valid)
  then show ?thesis using link_bad_size_resyncs [OF link_buf_ok_new f] f link_buf_ok_new by blast
qed


text \<open>
  \<open>ConnectToDBServer\<close> does not clear the buffer. When the connection ends in the middle of a packet, the first packet
  that is handled after the reconnection is made of the beginning of the old one and of the first bytes of the new stream.
\<close>

theorem link_reconnect_mixes:
  assumes "list_all valid_spacket ps" "valid_spacket p" "8 \<le> k" "k < length p" "length p - k \<le> length data"
    "concat cs = concat ps @ take k p"
  shows "\<exists>ds. map payload (fst (link_recv data (snd (link_recv_all cs ([], 0))))) = (take k p @ take (length p - k) data) # ds"
proof -
  have p: "ssize (take k p @ zs) = length p" "\<not> sbad (length p)" for zs
    using assms(2-4) ssize_append [of "take k p" "drop k p"] ssize_append [of "take k p" zs] by (simp_all add: valid_spacket_def)
  have "sframes (take k p) = ([], take k p, False)"
    using p(1) [of "[]"] p(2) assms(3,4) by (subst sframes.simps) simp
  then have "sframes (link_unread ([], 0) @ concat cs) = (ps, take k p, False)"
    using sframes_packets [OF assms(1)] sframes_append [of "concat ps" "take k p"] assms(6) by (simp add: link_unread_def)
  note L = link_recv_all_spec [OF link_buf_ok_new this]
  obtain qs q bad where f: "sframes (take k p @ data) = (qs, q, bad)" by (metis prod_cases3)
  then have "qs = take (length p) (take k p @ data) # fst (sframes (drop (length p) (take k p @ data)))"
    using p(1) [of data] p(2) assms(3-5) by (subst (asm) sframes.simps) (auto split: prod.splits if_splits)
  then show ?thesis using link_recv_spec(1) [OF L(3), of data qs q bad] L(2) f assms(4) by simp
qed

theorem link_reconnect_mixes_witness:
  "\<exists>ds. map payload (fst (link_recv (db_pong 2) (snd (link_recv_all [db_pong 1, take 20 (db_pong 5)] ([], 0))))) =
     (take 20 (db_pong 5) @ take 8 (db_pong 2)) # ds"
  using link_reconnect_mixes [of "[db_pong 1]" "db_pong 5" 20 "db_pong 2" "[db_pong 1, take 20 (db_pong 5)]"] by (simp add: db_pong_valid)

subsection \<open>Sending\<close>

text \<open>
  \<open>SendDBPacket\<close>: the results of the calls of \<open>send\<close> are given; the result is that of the function and the bytes that went
  out. \<open>None\<close>: it still waits. The mutex is held from the first to the last \<open>send\<close>.
\<close>

fun send_rest :: "byte list \<Rightarrow> int list \<Rightarrow> (bool \<times> byte list) option" where
  "send_rest [] rs = Some (True, [])"
| "send_rest (b # bs) [] = None"
| "send_rest (b # bs) (r # rs) =
     (if r = - 1 then Some (False, [])
      else map_option (\<lambda>(ok, w). (ok, take (nat r) (b # bs) @ w)) (send_rest (drop (nat r) (b # bs)) rs))"

definition SendDBPacket :: "bool \<Rightarrow> bool \<Rightarrow> byte list option \<Rightarrow> int list \<Rightarrow> (bool \<times> byte list) option" where
  "SendDBPacket running sock data rs =
     (case data of
        None \<Rightarrow> Some (False, [])
      | Some d \<Rightarrow> if \<not> running \<or> \<not> sock \<or> d = [] then Some (False, []) else send_rest d rs)"

lemma send_rest_exact: "send_rest d rs = Some (ok, w) \<Longrightarrow> prefix w d \<and> (ok \<longleftrightarrow> w = d)"
proof (induction d rs arbitrary: w rule: send_rest.induct)
  case (3 b bs r rs)
  show ?case
  proof (cases "r = - 1")
    case False
    with "3.prems" obtain w' where w: "send_rest (drop (nat r) (b # bs)) rs = Some (ok, w')" "w = take (nat r) (b # bs) @ w'"
      by auto
    from "3.IH" [OF False w(1)] have "prefix w' (drop (nat r) (b # bs))" "ok \<longleftrightarrow> w' = drop (nat r) (b # bs)" by simp_all
    then show ?thesis using w(2) by (metis append_take_drop_id same_append_eq same_prefix_prefix)
  qed (use "3.prems" in auto)
qed auto

lemma send_rest_returns:
  "list_all (\<lambda>r. r = - 1 \<or> 0 < r) rs \<Longrightarrow> length d \<le> length rs \<Longrightarrow> \<exists>x. send_rest d rs = Some x"
proof (induction d rs rule: send_rest.induct)
  case (3 b bs r rs)
  show ?case
  proof (cases "r = - 1")
    case False
    then have "0 < nat r" "length (drop (nat r) (b # bs)) \<le> length rs" using "3.prems" by auto
    with "3.IH" [OF False] "3.prems"(1) show ?thesis using False by auto
  qed auto
qed auto

text \<open>
  \<open>SendDBPacket\<close> reports success exactly when the whole packet went out; otherwise a beginning of it, possibly empty.
  It returns after at most as many calls of \<open>send\<close> as the packet has bytes, when every successful call sends at least one.
\<close>

theorem link_send_exact:
  assumes "d \<noteq> []"
  shows "(SendDBPacket running sock (Some d) rs = Some (ok, w) \<longrightarrow> prefix w d \<and> (ok \<longleftrightarrow> w = d)) \<and>
    (list_all (\<lambda>r. r = - 1 \<or> 0 < r) rs \<longrightarrow> length d \<le> length rs \<longrightarrow> SendDBPacket running sock (Some d) rs \<noteq> None)"
  using assms send_rest_exact [of d rs ok w] send_rest_returns [of rs d] by (auto simp: SendDBPacket_def)

theorem link_send_exact_witness:
  "SendDBPacket True True (Some [1, 2, 3]) [2, - 1] = Some (False, [1, 2]) \<and> prefix [1, 2] [1, 2, 3 :: byte]"
proof -
  have "SendDBPacket True True (Some [1, 2, 3]) [2, - 1] = Some (False, [1, 2])" by (simp add: SendDBPacket_def)
  then show ?thesis using link_send_exact [of "[1, 2, 3]" True True "[2, - 1]" False "[1, 2]"] by blast
qed

subsection \<open>Pings\<close>

text \<open>\<open>SendDBPing\<close>: the new sequence number and the packets it tries to send; the save request is built by the statements of \<open>RequestSavePingTime\<close>.\<close>

definition SendDBPing :: "byte list \<Rightarrow> Timestamp \<Rightarrow> Timestamp \<Rightarrow> u32 \<Rightarrow> (u32 \<times> byte list list) option" where
  "SendDBPing junk now1 now2 sq =
     (let sq' = sq + 1;
          ping = PKT_ServerPingReq_bytes (PKT_ServerPingReq_new\<lparr>spq_sequence := sq', spq_timestamp := now1\<rparr>)
      in if sq' mod 5 = 0
         then map_option (\<lambda>ps. (sq', ping # ps)) (RequestSavePingTime junk now2 1 (Some ''TestServer''))
         else Some (sq', [ping]))"

subsection \<open>Back-off\<close>

definition WSAECONNREFUSED :: int where "WSAECONNREFUSED = 10061"

definition next_delay :: "int \<Rightarrow> u32 \<Rightarrow> u32" where
  "next_delay lastError d = (if lastError = WSAECONNREFUSED then 1000 else min (d * 2) 30000)"

lemma next_delay_step:
  assumes "unat d \<le> 30000"
  shows "unat (next_delay e d) = (if e = WSAECONNREFUSED then 1000 else min (2 * unat d) 30000)"
proof -
  have "unat (d * 2) = 2 * unat d" using assms by (simp add: unat_word_ariths)
  then show ?thesis by (simp add: next_delay_def min_def word_le_nat_alt)
qed

text \<open>
  the delays between the attempts to reconnect. After any failures the delay is between one and thirty seconds; after a
  refused connection, or at the start, and then \<open>k\<close> other failures it is 2^k seconds, at most thirty.
\<close>

theorem link_backoff:
  "unat (fold next_delay es 1000) \<in> {1000..30000} \<and>
   unat (fold next_delay (es @ WSAECONNREFUSED # replicate k e) 1000) = (if e = WSAECONNREFUSED then 1000 else min (1000 * 2 ^ k) 30000) \<and>
   unat (fold next_delay (replicate k e) 1000) = (if e = WSAECONNREFUSED then 1000 else min (1000 * 2 ^ k) 30000)"
proof -
  have bound: "unat (fold next_delay es d) \<in> {1000..30000}" if "unat d \<in> {1000..30000}" for es d
    using that by (induction es arbitrary: d) (auto simp: next_delay_step)
  have run: "unat (fold next_delay (replicate k e) 1000) = (if e = WSAECONNREFUSED then 1000 else min (1000 * 2 ^ k) 30000)" for k
  proof (induction k)
    case (Suc k)
    let ?d = "fold next_delay (replicate k e) 1000"
    have "unat ?d \<le> 30000" using bound [of 1000 "replicate k e"] by simp
    moreover have "fold next_delay (replicate (Suc k) e) 1000 = next_delay e ?d"
      by (simp only: replicate_Suc replicate_append_same [symmetric] fold_append) simp
    ultimately show ?case using Suc by (simp add: next_delay_step min_def)
  qed simp
  have "next_delay WSAECONNREFUSED d = 1000" for d by (simp add: next_delay_def)
  then show ?thesis using bound [of 1000 es] run by simp
qed


subsection \<open>Threads and connection\<close>

text \<open>
  The thread of \<open>main\<close>, which starts the server, connects, serves, stops and destroys it; the receive threads and the
  reconnect threads that were ever started, with the places they are at; and the two \<open>std::thread\<close> members, which name a
  thread that has to be joined. Overwriting or destroying a joinable \<open>std::thread\<close> ends the process.
\<close>

datatype conn_pc = CTest | CJoin | CCancel | CSocket | CPublish | CSpawn | CSchedule

datatype recv_pc = RLoop | RStop | RTestRunning | RTestFlag | RSetFlag | RJoin | RSpawn | REnd

datatype recon_pc = TTest u32 | TWait u32 | TTest2 u32 | TConnect u32 conn_pc | TBackoff u32 | TClear | TEnd

text \<open>The last component of \<open>MDone\<close> says whether \<open>DisconnectFromDBServer\<close> found the connection up.\<close>

datatype main_pc = MConnect conn_pc | MServe | MStopJoin | DTest | DStore | DJoin | DClose | MDone bool | MDestroyed

datatype conn_result = WsaFail | SocketFail int | BadAddress | ConnectFail int | ConnectOk

datatype recv_outcome = Data "byte list" | Closed | Interrupted | RecvError

record link =
  lkIsRunning :: bool
  lkDBRunning :: bool
  lkReconnectRunning :: bool
  lkLastError :: int
  lkSocket :: bool
  lkSession :: bool
  lkPingTimer :: bool
  lkBuffer :: "byte list \<times> nat"
  lkRecvThread :: "nat option"
  lkReconnectThread :: "nat option"
  lkRecvs :: "recv_pc list"
  lkRecons :: "recon_pc list"
  lkMain :: main_pc
  lkTerminated :: bool

text \<open>After \<open>Initialize\<close> and \<open>Start\<close>, before \<open>main\<close> connects.\<close>

definition link_start :: link where
  "link_start = \<lparr>lkIsRunning = True, lkDBRunning = False, lkReconnectRunning = False, lkLastError = 0, lkSocket = False,
     lkSession = False, lkPingTimer = False, lkBuffer = ([], 0), lkRecvThread = None, lkReconnectThread = None,
     lkRecvs = [], lkRecons = [], lkMain = MConnect CTest, lkTerminated = False\<rparr>"

text \<open>
  A step of \<open>ConnectToDBServer\<close>: the next place or the result, and the state. \<open>None\<close> is a \<open>join\<close> that waits.
\<close>

definition connect_step :: "conn_pc \<Rightarrow> conn_result \<Rightarrow> link \<Rightarrow> ((conn_pc + bool) \<times> link) option" where
  "connect_step pc res s =
     (case pc of
        CTest \<Rightarrow> Some (if lkDBRunning s then Inr True else Inl CJoin, s)
      | CJoin \<Rightarrow>
          (case lkRecvThread s of
             None \<Rightarrow> Some (Inl CCancel, s)
           | Some i \<Rightarrow> if lkRecvs s ! i = REnd then Some (Inl CCancel, s\<lparr>lkRecvThread := None\<rparr>) else None)
      | CCancel \<Rightarrow> Some (Inl CSocket, s\<lparr>lkPingTimer := False\<rparr>)
      | CSocket \<Rightarrow>
          Some (case res of
             WsaFail \<Rightarrow> (Inr False, s)
           | SocketFail e \<Rightarrow> (Inr False, s\<lparr>lkLastError := e\<rparr>)
           | BadAddress \<Rightarrow> (Inr False, s)
           | ConnectFail e \<Rightarrow> (Inr False, s\<lparr>lkLastError := e\<rparr>)
           | ConnectOk \<Rightarrow> (Inl CPublish, s\<lparr>lkLastError := 0\<rparr>))
      | CPublish \<Rightarrow> Some (Inl CSpawn, s\<lparr>lkSession := True, lkSocket := True, lkDBRunning := True\<rparr>)
      | CSpawn \<Rightarrow> Some (Inl CSchedule, s\<lparr>lkTerminated := (lkRecvThread s \<noteq> None), lkRecvThread := Some (length (lkRecvs s)), lkRecvs := lkRecvs s @ [RLoop]\<rparr>)
      | CSchedule \<Rightarrow> Some (Inr True, s\<lparr>lkPingTimer := True\<rparr>))"

text \<open>A step of \<open>DBRecvLoop\<close>; the deliveries of data are those of \<open>link_recv\<close>.\<close>

definition recv_step :: "recv_pc \<Rightarrow> recv_outcome \<Rightarrow> link \<Rightarrow> (recv_pc \<times> link) option" where
  "recv_step pc res s =
     (case pc of
        RLoop \<Rightarrow>
          Some (if \<not> lkDBRunning s then (RStop, s)
                else case res of
                  Data d \<Rightarrow> (RLoop, s\<lparr>lkBuffer := snd (link_recv d (lkBuffer s))\<rparr>)
                | Closed \<Rightarrow> (RStop, s)
                | Interrupted \<Rightarrow> (RLoop, s)
                | RecvError \<Rightarrow> (RStop, s))
      | RStop \<Rightarrow> Some (RTestRunning, s\<lparr>lkDBRunning := False\<rparr>)
      | RTestRunning \<Rightarrow> Some (if lkIsRunning s then RTestFlag else REnd, s)
      | RTestFlag \<Rightarrow> Some (if lkReconnectRunning s then REnd else RSetFlag, s)
      | RSetFlag \<Rightarrow> Some (RJoin, s\<lparr>lkReconnectRunning := True\<rparr>)
      | RJoin \<Rightarrow>
          (case lkReconnectThread s of
             None \<Rightarrow> Some (RSpawn, s)
           | Some j \<Rightarrow> if lkRecons s ! j = TEnd then Some (RSpawn, s\<lparr>lkReconnectThread := None\<rparr>) else None)
      | RSpawn \<Rightarrow> Some (REnd, s\<lparr>lkTerminated := (lkReconnectThread s \<noteq> None), lkReconnectThread := Some (length (lkRecons s)), lkRecons := lkRecons s @ [TTest 1000]\<rparr>)
      | REnd \<Rightarrow> None)"

text \<open>A step of \<open>DBReconnectLoop\<close>. The wait ends after the delay, or when the server stops.\<close>

definition recon_step :: "recon_pc \<Rightarrow> conn_result \<Rightarrow> link \<Rightarrow> (recon_pc \<times> link) option" where
  "recon_step pc res s =
     (case pc of
        TTest d \<Rightarrow> Some (if lkIsRunning s \<and> \<not> lkDBRunning s then TWait d else TClear, s)
      | TWait d \<Rightarrow> Some (TTest2 d, s)
      | TTest2 d \<Rightarrow> Some (if lkIsRunning s then TConnect d CTest else TClear, s)
      | TConnect d c \<Rightarrow>
          (case connect_step c res s of
             None \<Rightarrow> None
           | Some (Inl c', s') \<Rightarrow> Some (TConnect d c', s')
           | Some (Inr ok, s') \<Rightarrow> Some (if ok then TClear else TBackoff d, s'))
      | TBackoff d \<Rightarrow> Some (TTest (next_delay (lkLastError s) d), s)
      | TClear \<Rightarrow> Some (TEnd, s\<lparr>lkReconnectRunning := False\<rparr>)
      | TEnd \<Rightarrow> None)"

text \<open>
  A step of \<open>main\<close>: \<open>ConnectToDBServer\<close>, then \<open>Stop\<close> with \<open>DisconnectFromDBServer\<close>, then the destructor. The parts of
  \<open>Stop\<close> that do not touch the link are in the theories of the components they stop.
\<close>

definition main_step :: "conn_result \<Rightarrow> link \<Rightarrow> link option" where
  "main_step res s =
     (case lkMain s of
        MConnect c \<Rightarrow>
          (case connect_step c res s of
             None \<Rightarrow> None
           | Some (Inl c', s') \<Rightarrow> Some (s'\<lparr>lkMain := MConnect c'\<rparr>)
           | Some (Inr _, s') \<Rightarrow> Some (s'\<lparr>lkMain := MServe\<rparr>))
      | MServe \<Rightarrow> Some (s\<lparr>lkIsRunning := False, lkMain := MStopJoin\<rparr>)
      | MStopJoin \<Rightarrow>
          (case lkReconnectThread s of
             None \<Rightarrow> Some (s\<lparr>lkPingTimer := False, lkMain := DTest\<rparr>)
           | Some j \<Rightarrow> if lkRecons s ! j = TEnd then Some (s\<lparr>lkReconnectThread := None, lkPingTimer := False, lkMain := DTest\<rparr>) else None)
      | DTest \<Rightarrow> Some (s\<lparr>lkMain := if lkDBRunning s then DStore else MDone False\<rparr>)
      | DStore \<Rightarrow> Some (s\<lparr>lkDBRunning := False, lkPingTimer := False, lkMain := DJoin\<rparr>)
      | DJoin \<Rightarrow>
          (case lkRecvThread s of
             None \<Rightarrow> Some (s\<lparr>lkMain := DClose\<rparr>)
           | Some i \<Rightarrow> if lkRecvs s ! i = REnd then Some (s\<lparr>lkRecvThread := None, lkMain := DClose\<rparr>) else None)
      | DClose \<Rightarrow> Some (s\<lparr>lkSession := False, lkSocket := False, lkBuffer := ([], 0), lkMain := MDone True\<rparr>)
      | MDone up \<Rightarrow> Some (s\<lparr>lkTerminated := (lkRecvThread s \<noteq> None \<or> lkReconnectThread s \<noteq> None), lkMain := MDestroyed\<rparr>)
      | MDestroyed \<Rightarrow> None)"

datatype link_event = EvMain conn_result | EvRecv nat recv_outcome | EvRecon nat conn_result

definition link_step :: "link_event \<Rightarrow> link \<Rightarrow> link option" where
  "link_step e s =
     (if lkTerminated s then None
      else case e of
        EvMain res \<Rightarrow> main_step res s
      | EvRecv i res \<Rightarrow>
          if i < length (lkRecvs s)
          then map_option (\<lambda>(pc, s'). s'\<lparr>lkRecvs := (lkRecvs s')[i := pc]\<rparr>) (recv_step (lkRecvs s ! i) res s)
          else None
      | EvRecon j res \<Rightarrow>
          if j < length (lkRecons s)
          then map_option (\<lambda>(pc, s'). s'\<lparr>lkRecons := (lkRecons s')[j := pc]\<rparr>) (recon_step (lkRecons s ! j) res s)
          else None)"

fun link_run :: "link_event list \<Rightarrow> link \<Rightarrow> link option" where
  "link_run [] s = Some s"
| "link_run (e # es) s = (case link_step e s of None \<Rightarrow> None | Some s' \<Rightarrow> link_run es s')"

inductive link_reachable :: "link \<Rightarrow> bool" where
  start: "link_reachable link_start"
| step: "link_reachable s \<Longrightarrow> link_step e s = Some s' \<Longrightarrow> link_reachable s'"

lemma link_run_reachable: "link_run es s = Some t \<Longrightarrow> link_reachable s \<Longrightarrow> link_reachable t"
  by (induction es arbitrary: s) (auto split: option.splits intro: link_reachable.step)

subsection \<open>Invariant\<close>

definition last_recv :: "link \<Rightarrow> recv_pc" where
  "last_recv s = (if lkRecvs s = [] then REnd else last (lkRecvs s))"

definition last_recon :: "link \<Rightarrow> recon_pc" where
  "last_recon s = (if lkRecons s = [] then TEnd else last (lkRecons s))"

fun recon_connecting :: "recon_pc \<Rightarrow> bool" where
  "recon_connecting (TConnect d c) = (c \<in> {CCancel, CSocket, CPublish, CSpawn})"
| "recon_connecting _ = False"

fun recon_spawning :: "recon_pc \<Rightarrow> bool" where
  "recon_spawning (TConnect d c) = (c = CSpawn)"
| "recon_spawning _ = False"

fun main_connecting :: "main_pc \<Rightarrow> bool" where
  "main_connecting (MConnect c) = (c \<noteq> CSchedule)"
| "main_connecting _ = False"

fun recon_idle :: "recon_pc \<Rightarrow> bool" where
  "recon_idle (TConnect d c) = (c = CSchedule)"
| "recon_idle TClear = True"
| "recon_idle TEnd = True"
| "recon_idle _ = False"

fun recon_over :: "recon_pc \<Rightarrow> bool" where
  "recon_over (TTest d) = True"
| "recon_over TClear = True"
| "recon_over TEnd = True"
| "recon_over _ = False"

definition stopped_pcs :: "main_pc set" where
  "stopped_pcs = {DTest, DStore, DJoin, DClose, MDone True, MDone False, MDestroyed}"

text \<open>
  The invariant on flags and places: whether the server runs, whether the link is up, the reconnect flag, the places of the
  last threads, whether the two \<open>std::thread\<close> members are empty, the place of \<open>main\<close>, whether no thread was ever started,
  and whether the process was ended.
\<close>

definition link_core :: "bool \<Rightarrow> bool \<Rightarrow> bool \<Rightarrow> recv_pc \<Rightarrow> recon_pc \<Rightarrow> bool \<Rightarrow> bool \<Rightarrow> main_pc \<Rightarrow> bool \<Rightarrow> bool \<Rightarrow> bool" where
  "link_core run up flag r t ro tn m fresh dead \<longleftrightarrow>
     (ro \<longrightarrow> r = REnd) \<and> (tn \<longrightarrow> t = TEnd) \<and> (r = RSpawn \<longrightarrow> tn) \<and> (fresh \<longrightarrow> ro \<and> tn) \<and>
     (flag \<longleftrightarrow> r \<in> {RJoin, RSpawn} \<or> t \<noteq> TEnd) \<and> (r \<in> {RSetFlag, RJoin, RSpawn} \<longrightarrow> t = TEnd) \<and>
     (r \<noteq> REnd \<longrightarrow> recon_idle t) \<and> (recon_connecting t \<longrightarrow> ro) \<and>
     (up \<longrightarrow> r \<in> {RLoop, RStop} \<or> m = MConnect CSpawn \<or> recon_spawning t) \<and> (main_connecting m \<longrightarrow> fresh) \<and>
     (m \<in> insert MStopJoin stopped_pcs \<longrightarrow> \<not> run) \<and>
     (m \<in> stopped_pcs \<longrightarrow> recon_over t \<and> (tn \<or> r = REnd)) \<and>
     (m \<in> {DStore, DJoin, DClose, MDone True} \<longrightarrow> tn \<and> r \<in> {RLoop, RStop, RTestRunning, REnd}) \<and>
     (m \<in> {DClose, MDone True} \<longrightarrow> ro) \<and> (dead \<longrightarrow> m = MDestroyed)"

text \<open>All threads but the last of each kind have ended, and the \<open>std::thread\<close> members name these.\<close>

definition threads_ok :: "link \<Rightarrow> bool" where
  "threads_ok s \<longleftrightarrow> list_all ((=) REnd) (butlast (lkRecvs s)) \<and> list_all ((=) TEnd) (butlast (lkRecons s)) \<and>
     (\<forall>i. lkRecvThread s = Some i \<longrightarrow> length (lkRecvs s) = Suc i) \<and>
     (\<forall>j. lkReconnectThread s = Some j \<longrightarrow> length (lkRecons s) = Suc j)"

definition link_inv :: "link \<Rightarrow> bool" where
  "link_inv s \<longleftrightarrow> threads_ok s \<and>
     link_core (lkIsRunning s) (lkDBRunning s) (lkReconnectRunning s) (last_recv s) (last_recon s) (lkRecvThread s = None)
       (lkReconnectThread s = None) (lkMain s) (lkRecvs s = [] \<and> lkRecons s = []) (lkTerminated s)"

lemma link_inv_start: "link_inv link_start"
  by (simp add: link_inv_def threads_ok_def link_core_def link_start_def last_recv_def last_recon_def stopped_pcs_def)

text \<open>Only the last thread of a kind takes steps.\<close>

lemma nth_ended:
  assumes "list_all ((=) a) (butlast xs)" "i < length xs" "xs ! i \<noteq> a"
  shows "length xs = Suc i"
proof (rule ccontr)
  assume "length xs \<noteq> Suc i"
  then have "i < length (butlast xs)" using assms(2) by simp
  then show False using assms by (simp add: list_all_length nth_butlast)
qed

lemma upd_last:
  assumes "length xs = Suc i"
  shows "butlast (xs[i := a]) = butlast xs" "last (xs[i := a]) = a" "xs[i := a] \<noteq> []" "xs \<noteq> []" "last xs = xs ! i"
  using assms by (cases xs rule: rev_cases; auto simp: list_update_append nth_append)+

lemma list_all_butlast: "list_all P (butlast xs) \<Longrightarrow> xs = [] \<or> P (last xs) \<Longrightarrow> list_all P xs"
  by (cases xs rule: rev_cases) simp_all



lemma recv_at:
  assumes "link_inv s" "i < length (lkRecvs s)" "lkRecvs s ! i \<noteq> REnd"
  shows "length (lkRecvs s) = Suc i" "last_recv s = lkRecvs s ! i"
proof -
  show l: "length (lkRecvs s) = Suc i" using assms nth_ended [of REnd "lkRecvs s" i] by (simp add: link_inv_def threads_ok_def)
  show "last_recv s = lkRecvs s ! i" using upd_last [OF l] by (simp add: last_recv_def)
qed

lemma recon_at:
  assumes "link_inv s" "j < length (lkRecons s)" "lkRecons s ! j \<noteq> TEnd"
  shows "length (lkRecons s) = Suc j" "last_recon s = lkRecons s ! j"
proof -
  show l: "length (lkRecons s) = Suc j" using assms nth_ended [of TEnd "lkRecons s" j] by (simp add: link_inv_def threads_ok_def)
  show "last_recon s = lkRecons s ! j" using upd_last [OF l] by (simp add: last_recon_def)
qed

text \<open>The steps of a receive thread on flags and places.\<close>

lemma core_recv:
  "link_core run up flag RLoop t ro tn m fresh dead \<Longrightarrow> link_core run up flag RStop t ro tn m fresh dead"
  "link_core run up flag RStop t ro tn m fresh dead \<Longrightarrow> link_core run False flag RTestRunning t ro tn m fresh dead"
  "link_core True up flag RTestRunning t ro tn m fresh dead \<Longrightarrow> link_core True up flag RTestFlag t ro tn m fresh dead"
  "link_core False up flag RTestRunning t ro tn m fresh dead \<Longrightarrow> link_core False up flag REnd t ro tn m fresh dead"
  "link_core run up True RTestFlag t ro tn m fresh dead \<Longrightarrow> link_core run up True REnd t ro tn m fresh dead"
  "link_core run up False RTestFlag t ro tn m fresh dead \<Longrightarrow> link_core run up False RSetFlag t ro tn m fresh dead"
  "link_core run up flag RSetFlag t ro tn m fresh dead \<Longrightarrow> link_core run up True RJoin t ro tn m fresh dead"
  "link_core run up flag RJoin t ro tn m fresh dead \<Longrightarrow> link_core run up flag RSpawn t ro True m fresh dead"
  "link_core run up flag RSpawn t ro tn m fresh dead \<Longrightarrow> link_core run up flag REnd (TTest d) ro False m False False"
  by (cases m; cases t; auto simp: link_core_def stopped_pcs_def)+

text \<open>The steps of a reconnect thread.\<close>

lemma core_recon:
  "link_core True up flag r (TTest d) ro tn m fresh dead \<Longrightarrow> link_core True up flag r (TWait d) ro tn m fresh dead"
  "link_core run up flag r (TTest d) ro tn m fresh dead \<Longrightarrow> link_core run up flag r TClear ro tn m fresh dead"
  "link_core run up flag r (TWait d) ro tn m fresh dead \<Longrightarrow> link_core run up flag r (TTest2 d) ro tn m fresh dead"
  "link_core True up flag r (TTest2 d) ro tn m fresh dead \<Longrightarrow> link_core True up flag r (TConnect d CTest) ro tn m fresh dead"
  "link_core run up flag r (TTest2 d) ro tn m fresh dead \<Longrightarrow> link_core run up flag r TClear ro tn m fresh dead"
  "link_core run up flag r (TConnect d CTest) ro tn m fresh dead \<Longrightarrow> link_core run up flag r TClear ro tn m fresh dead"
  "link_core run up flag r (TConnect d CTest) ro tn m fresh dead \<Longrightarrow> link_core run up flag r (TConnect d CJoin) ro tn m fresh dead"
  "link_core run up flag r (TConnect d CJoin) ro tn m fresh dead \<Longrightarrow> link_core run up flag r (TConnect d CCancel) True tn m fresh dead"
  "link_core run up flag r (TConnect d CCancel) ro tn m fresh dead \<Longrightarrow> link_core run up flag r (TConnect d CSocket) ro tn m fresh dead"
  "link_core run up flag r (TConnect d CSocket) ro tn m fresh dead \<Longrightarrow> link_core run up flag r (TConnect d CPublish) ro tn m fresh dead"
  "link_core run up flag r (TConnect d CSocket) ro tn m fresh dead \<Longrightarrow> link_core run up flag r (TBackoff d) ro tn m fresh dead"
  "link_core run up flag r (TConnect d CPublish) ro tn m fresh dead \<Longrightarrow> link_core run True flag r (TConnect d CSpawn) ro tn m fresh dead"
  "link_core run up flag r (TConnect d CSpawn) ro tn m fresh dead \<Longrightarrow> link_core run up flag RLoop (TConnect d CSchedule) False tn m False False"
  "link_core run up flag r (TConnect d CSchedule) ro tn m fresh dead \<Longrightarrow> link_core run up flag r TClear ro tn m fresh dead"
  "link_core run up flag r (TBackoff d) ro tn m fresh dead \<Longrightarrow> link_core run up flag r (TTest e) ro tn m fresh dead"
  "link_core run up flag r TClear ro tn m fresh dead \<Longrightarrow> link_core run up False r TEnd ro tn m fresh dead"
  by (cases m; cases r; auto simp: link_core_def stopped_pcs_def)+

text \<open>The steps of \<open>main\<close>.\<close>

lemma core_main:
  "link_core run up flag r t ro tn (MConnect CTest) fresh dead \<Longrightarrow> link_core run up flag r t ro tn MServe fresh dead"
  "link_core run up flag r t ro tn (MConnect CTest) fresh dead \<Longrightarrow> link_core run up flag r t ro tn (MConnect CJoin) fresh dead"
  "link_core run up flag r t ro tn (MConnect CJoin) fresh dead \<Longrightarrow> link_core run up flag r t True tn (MConnect CCancel) fresh dead"
  "link_core run up flag r t ro tn (MConnect CCancel) fresh dead \<Longrightarrow> link_core run up flag r t ro tn (MConnect CSocket) fresh dead"
  "link_core run up flag r t ro tn (MConnect CSocket) fresh dead \<Longrightarrow> link_core run up flag r t ro tn (MConnect CPublish) fresh dead"
  "link_core run up flag r t ro tn (MConnect CSocket) fresh dead \<Longrightarrow> link_core run up flag r t ro tn MServe fresh dead"
  "link_core run up flag r t ro tn (MConnect CPublish) fresh dead \<Longrightarrow> link_core run True flag r t ro tn (MConnect CSpawn) fresh dead"
  "link_core run up flag r t ro tn (MConnect CSpawn) fresh dead \<Longrightarrow> link_core run up flag RLoop t False tn (MConnect CSchedule) False False"
  "link_core run up flag r t ro tn (MConnect CSchedule) fresh dead \<Longrightarrow> link_core run up flag r t ro tn MServe fresh dead"
  "link_core run up flag r t ro tn MServe fresh dead \<Longrightarrow> link_core False up flag r t ro tn MStopJoin fresh dead"
  "link_core run up flag r TEnd ro tn MStopJoin fresh dead \<Longrightarrow> link_core run up flag r TEnd ro True DTest fresh dead"
  "link_core run True flag r t ro tn DTest fresh dead \<Longrightarrow> link_core run True flag r t ro tn DStore fresh dead"
  "link_core run up flag r t ro tn DTest fresh dead \<Longrightarrow> link_core run up flag r t ro tn (MDone False) fresh dead"
  "link_core run up flag r t ro tn DStore fresh dead \<Longrightarrow> link_core run False flag r t ro tn DJoin fresh dead"
  "link_core run up flag REnd t ro tn DJoin fresh dead \<Longrightarrow> link_core run up flag REnd t True tn DClose fresh dead"
  "link_core run up flag r t ro tn DClose fresh dead \<Longrightarrow> link_core run up flag r t ro tn (MDone True) fresh dead"
  "link_core run up flag r t ro tn (MDone b) fresh dead \<Longrightarrow> link_core run up flag r t ro tn MDestroyed fresh dead2"
  by (cases r; cases t; auto simp: link_core_def stopped_pcs_def)+


lemma link_inv_core:
  "link_inv s \<Longrightarrow> link_core (lkIsRunning s) (lkDBRunning s) (lkReconnectRunning s) (last_recv s) (last_recon s) (lkRecvThread s = None)
     (lkReconnectThread s = None) (lkMain s) (lkRecvs s = [] \<and> lkRecons s = []) (lkTerminated s)"
  by (simp add: link_inv_def)

lemma ended_all:
  "link_inv s \<Longrightarrow> last_recv s = REnd \<Longrightarrow> list_all ((=) REnd) (lkRecvs s)"
  "link_inv s \<Longrightarrow> last_recon s = TEnd \<Longrightarrow> list_all ((=) TEnd) (lkRecons s)"
  by (rule list_all_butlast; auto simp: link_inv_def threads_ok_def last_recv_def last_recon_def split: if_splits)+

lemma recv_lift:
  assumes "length (lkRecvs s) = Suc i" "threads_ok s"
    "link_core (lkIsRunning s) (lkDBRunning s) (lkReconnectRunning s) pc (last_recon s) (lkRecvThread s = None)
       (lkReconnectThread s = None) (lkMain s) False (lkTerminated s)"
  shows "link_inv (s\<lparr>lkRecvs := (lkRecvs s)[i := pc]\<rparr>)"
  using assms upd_last [OF assms(1)] by (auto simp: link_inv_def threads_ok_def last_recv_def last_recon_def)

lemma recon_lift:
  assumes "length (lkRecons s) = Suc j" "threads_ok s"
    "link_core (lkIsRunning s) (lkDBRunning s) (lkReconnectRunning s) (last_recv s) pc (lkRecvThread s = None)
       (lkReconnectThread s = None) (lkMain s) False (lkTerminated s)"
  shows "link_inv (s\<lparr>lkRecons := (lkRecons s)[j := pc]\<rparr>)"
  using assms upd_last [OF assms(1)] by (auto simp: link_inv_def threads_ok_def last_recv_def last_recon_def)

lemma recv_step_inv:
  assumes s: "link_inv s" "\<not> lkTerminated s" and i: "i < length (lkRecvs s)"
    and step: "recv_step (lkRecvs s ! i) res s = Some (pc, s')"
  shows "link_inv (s'\<lparr>lkRecvs := (lkRecvs s')[i := pc]\<rparr>)"
proof (rule recv_lift)
  have n: "lkRecvs s ! i \<noteq> REnd" using step by (auto simp: recv_step_def)
  note A = recv_at [OF s(1) i n]
  have ne: "lkRecvs s \<noteq> []" using A(1) by auto
  note core = link_inv_core [OF s(1), unfolded A(2), simplified ne, simplified]
  have T: "threads_ok s" using s(1) by (simp add: link_inv_def)
  have spawn: "lkReconnectThread s = None \<and> list_all ((=) TEnd) (lkRecons s)" if "lkRecvs s ! i = RSpawn"
    using core that ended_all(2) [OF s(1)] by (simp add: link_core_def)
  show "length (lkRecvs s') = Suc i" using step A(1)
    by (cases "lkRecvs s ! i") (auto simp: recv_step_def split: if_splits option.splits recv_outcome.splits)
  show "threads_ok s'" using step T spawn
    by (cases "lkRecvs s ! i") (auto simp: recv_step_def threads_ok_def split: if_splits option.splits recv_outcome.splits)
  show "link_core (lkIsRunning s') (lkDBRunning s') (lkReconnectRunning s') pc (last_recon s') (lkRecvThread s' = None)
      (lkReconnectThread s' = None) (lkMain s') False (lkTerminated s')"
  proof (cases "lkRecvs s ! i")
    case RSpawn
    then show ?thesis using step core spawn core_recv(9) by (auto simp: recv_step_def last_recon_def)
  qed (use step core n core_recv(1-8) in \<open>auto simp: recv_step_def last_recon_def split: if_splits option.splits recv_outcome.splits\<close>)
qed


lemmas conn_splits = if_splits option.splits conn_result.splits sum.splits prod.splits

lemma recon_step_inv:
  assumes s: "link_inv s" "\<not> lkTerminated s" and j: "j < length (lkRecons s)"
    and step: "recon_step (lkRecons s ! j) res s = Some (pc, s')"
  shows "link_inv (s'\<lparr>lkRecons := (lkRecons s')[j := pc]\<rparr>)"
proof (rule recon_lift)
  have n: "lkRecons s ! j \<noteq> TEnd" using step by (auto simp: recon_step_def)
  note A = recon_at [OF s(1) j n]
  have ne: "lkRecons s \<noteq> []" using A(1) by auto
  note core = link_inv_core [OF s(1), unfolded A(2), simplified ne, simplified]
  have T: "threads_ok s" using s(1) by (simp add: link_inv_def)
  have spawn: "lkRecvThread s = None \<and> list_all ((=) REnd) (lkRecvs s)" if "lkRecons s ! j = TConnect d CSpawn" for d
    using core that ended_all(1) [OF s(1)] by (simp add: link_core_def)
  show "length (lkRecons s') = Suc j" using step A(1)
    by (cases "lkRecons s ! j") (auto simp: recon_step_def connect_step_def split: conn_splits conn_pc.splits)
  show "threads_ok s'"
  proof (cases "lkRecons s ! j")
    case (TConnect d c)
    then show ?thesis using step T spawn
      by (cases c) (auto simp: recon_step_def connect_step_def threads_ok_def split: conn_splits)
  qed (use step T in \<open>auto simp: recon_step_def threads_ok_def\<close>)
  show "link_core (lkIsRunning s') (lkDBRunning s') (lkReconnectRunning s') (last_recv s') pc (lkRecvThread s' = None)
      (lkReconnectThread s' = None) (lkMain s') False (lkTerminated s')"
  proof (cases "lkRecons s ! j")
    case (TConnect d c)
    then show ?thesis using step core spawn core_recon(6-14)
      by (cases c) (auto simp: recon_step_def connect_step_def last_recv_def split: conn_splits)
  qed (use step core n core_recon(1-5,15,16) in \<open>auto simp: recon_step_def last_recv_def split: if_splits\<close>)
qed


lemmas main_defs = main_step_def connect_step_def link_inv_def threads_ok_def last_recv_def last_recon_def

lemma main_step_inv:
  assumes s: "link_inv s" "\<not> lkTerminated s" and step: "main_step res s = Some s'"
  shows "link_inv s'"
proof -
  note core = link_inv_core [OF s(1)]
  have T: "threads_ok s" using s(1) by (simp add: link_inv_def)
  have joined: "lkRecons s ! j = TEnd \<Longrightarrow> last_recon s = TEnd" if "lkReconnectThread s = Some j" for j
    using T that upd_last(5) [of "lkRecons s" j] by (auto simp: threads_ok_def last_recon_def)
  have recv_joined: "lkRecvs s ! i = REnd \<Longrightarrow> last_recv s = REnd" if "lkRecvThread s = Some i" for i
    using T that upd_last(5) [of "lkRecvs s" i] by (auto simp: threads_ok_def last_recv_def)
  have none: "lkReconnectThread s = None \<Longrightarrow> last_recon s = TEnd" "lkRecvThread s = None \<Longrightarrow> last_recv s = REnd"
    using core by (simp_all add: link_core_def)
  have fresh: "lkRecvs s = [] \<and> lkRecons s = [] \<and> lkRecvThread s = None \<and> lkReconnectThread s = None"
    if "lkMain s = MConnect c" "c \<noteq> CSchedule" for c using core that by (simp add: link_core_def)
  show ?thesis
  proof (cases "lkMain s")
    case (MConnect c)
    then show ?thesis
    proof (cases c)
      case CTest
      then show ?thesis using step T MConnect core core_main(1,2) fresh [OF MConnect]
        by (auto simp: main_defs split: conn_splits)
    next
      case CJoin
      then show ?thesis using step T MConnect core core_main(3) fresh [OF MConnect]
        by (auto simp: main_defs split: conn_splits)
    next
      case CCancel
      then show ?thesis using step T MConnect core core_main(4) fresh [OF MConnect]
        by (auto simp: main_defs split: conn_splits)
    next
      case CSocket
      then show ?thesis using step T MConnect core core_main(5,6) fresh [OF MConnect]
        by (auto simp: main_defs split: conn_splits)
    next
      case CPublish
      then show ?thesis using step T MConnect core core_main(7) fresh [OF MConnect]
        by (auto simp: main_defs split: conn_splits)
    next
      case CSpawn
      then show ?thesis using step T MConnect core core_main(8) fresh [OF MConnect]
        by (auto simp: main_defs split: conn_splits)
    next
      case CSchedule
      then show ?thesis using step T MConnect core core_main(9)
        by (auto simp: main_defs split: conn_splits)
    qed
  next
    case MServe
    then show ?thesis using step T core core_main(10) by (auto simp: main_defs)
  next
    case MStopJoin
    then have "last_recon s = TEnd" using step joined none(1) by (auto simp: main_step_def split: option.splits if_splits)
    then have "threads_ok (s\<lparr>lkReconnectThread := None\<rparr>)" "link_core (lkIsRunning s) (lkDBRunning s) (lkReconnectRunning s) (last_recv s) (last_recon s)
        (lkRecvThread s = None) True DTest (lkRecvs s = [] \<and> lkRecons s = []) (lkTerminated s)"
      using T core core_main(11) MStopJoin by (auto simp: threads_ok_def)
    then show ?thesis using step MStopJoin by (auto simp: main_defs split: option.splits if_splits)
  next
    case DTest
    then show ?thesis using step T core core_main(12,13) by (auto simp: main_defs)
  next
    case DStore
    then show ?thesis using step T core core_main(14) by (auto simp: main_defs)
  next
    case DJoin
    then have "last_recv s = REnd" using step recv_joined none(2) by (auto simp: main_step_def split: option.splits if_splits)
    then have "threads_ok (s\<lparr>lkRecvThread := None\<rparr>)" "link_core (lkIsRunning s) (lkDBRunning s) (lkReconnectRunning s) (last_recv s) (last_recon s)
        True (lkReconnectThread s = None) DClose (lkRecvs s = [] \<and> lkRecons s = []) (lkTerminated s)"
      using T core core_main(15) DJoin by (auto simp: threads_ok_def)
    then show ?thesis using step DJoin by (auto simp: main_defs split: option.splits if_splits)
  next
    case DClose
    then show ?thesis using step T core core_main(16) by (auto simp: main_defs)
  next
    case (MDone b)
    then show ?thesis using step T core core_main(17) by (auto simp: main_defs)
  qed (use step in \<open>simp add: main_step_def\<close>)
qed


lemma link_reachable_inv: "link_reachable s \<Longrightarrow> link_inv s"
proof (induction rule: link_reachable.induct)
  case (step s e s')
  then show ?case
    by (cases e) (auto simp: link_step_def split: if_splits intro: main_step_inv recv_step_inv recon_step_inv)
qed (rule link_inv_start)

subsection \<open>What the invariant gives\<close>

lemma one_alive: "list_all ((=) a) (butlast xs) \<Longrightarrow> length (filter (\<lambda>x. x \<noteq> a) xs) \<le> 1"
proof (cases xs rule: rev_cases)
  case (snoc ys y)
  assume "list_all ((=) a) (butlast xs)"
  then have "filter (\<lambda>x. x \<noteq> a) ys = []" using snoc by (auto simp: list_all_iff filter_empty_conv)
  then show ?thesis using snoc by simp
qed simp


text \<open>The events of a thread that takes \<open>n\<close> steps.\<close>

abbreviation main_does :: "nat \<Rightarrow> link_event list" where "main_does n \<equiv> replicate n (EvMain ConnectOk)"
abbreviation recv_does :: "nat \<Rightarrow> nat \<Rightarrow> link_event list" where "recv_does i n \<equiv> replicate n (EvRecv i Closed)"
abbreviation recon_does :: "nat \<Rightarrow> nat \<Rightarrow> link_event list" where "recon_does j n \<equiv> replicate n (EvRecon j ConnectOk)"

lemmas link_run_defs = link_step_def main_step_def connect_step_def recv_step_def recon_step_def link_start_def numeral_eq_Suc

lemma link_connected:
  "link_run (main_does 7) link_start =
     Some (link_start\<lparr>lkDBRunning := True, lkSocket := True, lkSession := True, lkPingTimer := True, lkRecvThread := Some 0, lkRecvs := [RLoop], lkMain := MServe\<rparr>)"
  by (simp add: link_run_defs)



lemma link_stopped:
  "map_option (\<lambda>s. (lkMain s, lkRecvs s)) (link_run (main_does 7 @ main_does 4 @ recv_does 0 3 @ main_does 2) link_start) = Some (MDone True, [REnd])"
  by (simp add: link_run_defs)


text \<open>
  \<open>Stop\<close> while the link is down, before the first attempt to reconnect: \<open>DisconnectFromDBServer\<close> returns early, the
  receive thread that ended is never joined, and the destructor of the server ends the process.
\<close>

theorem link_stop_aborts:
  "\<exists>s. link_run (main_does 7 @ recv_does 0 7 @ recon_does 0 1 @ main_does 1 @ recon_does 0 3 @ main_does 3) link_start = Some s \<and>
     lkRecvs s = [REnd] \<and> lkRecons s = [TEnd] \<and> lkRecvThread s = Some 0 \<and> lkTerminated s"
  by (simp add: link_run_defs)


end
