(* ===== verification/Thread_Pool.thy ===== *)
theory Thread_Pool
  imports Exec_Queue "HOL-Library.Multiset"
begin

section \<open>ThreadPool\<close>

text \<open>
  \<open>Utils/ThreadPool.h\<close>: workers that take tasks from a \<open>SafeQueue\<close>, \<open>WaitForAll\<close> and the destructor, as an interleaving of
  the workers, a thread that submits, one that waits and the one that destroys the pool. A task that throws is caught and
  counts as run. The lists of accepted, taken and executed tasks are the history the theorems speak about.
\<close>

subsection \<open>State\<close>

datatype 't tp_worker = WTest | WPop | WInc 't | WRun 't | WDec | WNotify | WEnd

text \<open>The waiting thread: its condition reads the counter first and the queue second, then it sleeps or returns.\<close>

datatype tp_waiter = Away | WaitActive | WaitEmpty | FallAsleep | Asleep | WaitReturned

datatype tp_owner = Alive | ShutQueue | JoinWorkers | Destroyed

record 't ThreadPool =
  tpStop :: bool
  tpActiveTasks :: size_t
  tpTasks :: "'t SafeQueue"
  tpWorkers :: "'t tp_worker list"
  tpWaiter :: tp_waiter
  tpOwner :: tp_owner
  tpAccepted :: "'t list"
  tpTaken :: "'t list"
  tpExecuted :: "'t list"

definition ThreadPool_new :: "nat \<Rightarrow> size_t \<Rightarrow> 't ThreadPool" where
  "ThreadPool_new numThreads maxQueueDepth = \<lparr>tpStop = False, tpActiveTasks = 0, tpTasks = SQ_new maxQueueDepth,
     tpWorkers = replicate (if numThreads = 0 then 4 else numThreads) WTest, tpWaiter = Away, tpOwner = Alive,
     tpAccepted = [], tpTaken = [], tpExecuted = []\<rparr>"

definition GetThreadCount :: "'t ThreadPool \<Rightarrow> nat" where "GetThreadCount p = length (tpWorkers p)"
definition GetActiveTaskCount :: "'t ThreadPool \<Rightarrow> size_t" where "GetActiveTaskCount p = tpActiveTasks p"

subsection \<open>Steps\<close>

definition Submit :: "'t \<Rightarrow> 't ThreadPool \<Rightarrow> bool \<times> 't ThreadPool" where
  "Submit t p = (case SQ_Push t (tpTasks p) of (ok, q) \<Rightarrow>
     (ok, p\<lparr>tpTasks := q, tpAccepted := tpAccepted p @ (if ok then [t] else [])\<rparr>))"

text \<open>A step of \<open>WorkerThread\<close>; \<open>expired\<close> says that the 100 ms of \<open>Pop\<close> are over. \<open>notify_one\<close> wakes the waiting thread if it sleeps.\<close>

definition WorkerThread :: "'t tp_worker \<Rightarrow> bool \<Rightarrow> 't ThreadPool \<Rightarrow> ('t tp_worker \<times> 't ThreadPool) option" where
  "WorkerThread w expired p =
     (case w of
        WTest \<Rightarrow> Some (if tpStop p then WEnd else WPop, p)
      | WPop \<Rightarrow>
          (case SQ_Pop 100 expired (tpTasks p) of
             (Blocked, q) \<Rightarrow> None
           | (Returned None, q) \<Rightarrow> Some (WTest, p\<lparr>tpTasks := q\<rparr>)
           | (Returned (Some t), q) \<Rightarrow> Some (WInc t, p\<lparr>tpTasks := q, tpTaken := tpTaken p @ [t]\<rparr>))
      | WInc t \<Rightarrow> Some (WRun t, p\<lparr>tpActiveTasks := tpActiveTasks p + 1\<rparr>)
      | WRun t \<Rightarrow> Some (WDec, p\<lparr>tpExecuted := tpExecuted p @ [t]\<rparr>)
      | WDec \<Rightarrow> Some (WNotify, p\<lparr>tpActiveTasks := tpActiveTasks p - 1\<rparr>)
      | WNotify \<Rightarrow> Some (WTest, if tpWaiter p = Asleep then p\<lparr>tpWaiter := WaitActive\<rparr> else p)
      | WEnd \<Rightarrow> None)"

text \<open>\<open>WaitForAll\<close>.\<close>

definition WaitForAll :: "'t ThreadPool \<Rightarrow> 't ThreadPool option" where
  "WaitForAll p =
     (case tpWaiter p of
        Away \<Rightarrow> Some (p\<lparr>tpWaiter := WaitActive\<rparr>)
      | WaitActive \<Rightarrow> Some (p\<lparr>tpWaiter := if tpActiveTasks p = 0 then WaitEmpty else FallAsleep\<rparr>)
      | WaitEmpty \<Rightarrow> Some (p\<lparr>tpWaiter := if SQ_Empty (tpTasks p) then WaitReturned else FallAsleep\<rparr>)
      | FallAsleep \<Rightarrow> Some (p\<lparr>tpWaiter := Asleep\<rparr>)
      | Asleep \<Rightarrow> None
      | WaitReturned \<Rightarrow> None)"

text \<open>\<open>~ThreadPool\<close>.\<close>

definition ThreadPool_destroy :: "'t ThreadPool \<Rightarrow> 't ThreadPool option" where
  "ThreadPool_destroy p =
     (case tpOwner p of
        Alive \<Rightarrow> Some (p\<lparr>tpStop := True, tpOwner := ShutQueue\<rparr>)
      | ShutQueue \<Rightarrow> Some (p\<lparr>tpTasks := SQ_Shutdown (tpTasks p), tpOwner := JoinWorkers\<rparr>)
      | JoinWorkers \<Rightarrow> if list_all (\<lambda>w. case w of WEnd \<Rightarrow> True | _ \<Rightarrow> False) (tpWorkers p) then Some (p\<lparr>tpOwner := Destroyed\<rparr>) else None
      | Destroyed \<Rightarrow> None)"

datatype 't tp_event = TpSubmit 't | TpWork nat bool | TpWait | TpDestroy

definition tp_step :: "'t tp_event \<Rightarrow> 't ThreadPool \<Rightarrow> 't ThreadPool option" where
  "tp_step e p =
     (case e of
        TpSubmit t \<Rightarrow> Some (snd (Submit t p))
      | TpWork i expired \<Rightarrow>
          if i < length (tpWorkers p)
          then map_option (\<lambda>(w, p'). p'\<lparr>tpWorkers := (tpWorkers p')[i := w]\<rparr>) (WorkerThread (tpWorkers p ! i) expired p)
          else None
      | TpWait \<Rightarrow> WaitForAll p
      | TpDestroy \<Rightarrow> ThreadPool_destroy p)"

fun tp_run :: "'t tp_event list \<Rightarrow> 't ThreadPool \<Rightarrow> 't ThreadPool option" where
  "tp_run [] p = Some p"
| "tp_run (e # es) p = (case tp_step e p of None \<Rightarrow> None | Some p' \<Rightarrow> tp_run es p')"

inductive tp_reachable :: "nat \<Rightarrow> size_t \<Rightarrow> 't ThreadPool \<Rightarrow> bool" for n d where
  start: "tp_reachable n d (ThreadPool_new n d)"
| step: "tp_reachable n d p \<Longrightarrow> tp_step e p = Some p' \<Longrightarrow> tp_reachable n d p'"

lemma tp_run_reachable: "tp_run es p = Some q \<Longrightarrow> tp_reachable n d p \<Longrightarrow> tp_reachable n d q"
  by (induction es arbitrary: p) (auto split: option.splits intro: tp_reachable.step)

subsection \<open>Invariant\<close>

text \<open>The task a worker has taken and not run, and whether it is counted as active.\<close>

fun in_hand :: "'t tp_worker \<Rightarrow> 't multiset" where
  "in_hand (WInc t) = {#t#}"
| "in_hand (WRun t) = {#t#}"
| "in_hand _ = {#}"

fun counted :: "'t tp_worker \<Rightarrow> nat" where
  "counted (WRun t) = 1"
| "counted WDec = 1"
| "counted _ = 0"

definition tp_inv :: "'t ThreadPool \<Rightarrow> bool" where
  "tp_inv p \<longleftrightarrow> tpAccepted p = tpTaken p @ sqQueue (tpTasks p) \<and>
     mset (tpTaken p) = mset (tpExecuted p) + sum_list (map in_hand (tpWorkers p)) \<and>
     tpActiveTasks p = of_nat (sum_list (map counted (tpWorkers p)))"

lemma sum_list_upd:
  fixes f :: "'a \<Rightarrow> 'b::comm_monoid_add"
  assumes "i < length xs"
  shows "sum_list (map f (xs[i := y])) + f (xs ! i) = sum_list (map f xs) + f y"
  using assms
proof (induction xs arbitrary: i)
  case (Cons x xs)
  show ?case
  proof (cases i)
    case (Suc j)
    then have "sum_list (map f (xs[j := y])) + f (xs ! j) = sum_list (map f xs) + f y" using Cons by simp
    then show ?thesis using Suc by (simp add: add.assoc)
  qed (simp add: ac_simps)
qed simp

lemma tp_inv_work:
  assumes p: "tp_inv p" and i: "i < length (tpWorkers p)" and w: "WorkerThread (tpWorkers p ! i) expired p = Some (w, p')"
  shows "tp_inv (p'\<lparr>tpWorkers := (tpWorkers p')[i := w]\<rparr>)"
proof -
  have ws: "tpWorkers p' = tpWorkers p"
    using w by (cases "tpWorkers p ! i") (auto simp: WorkerThread_def split: prod.splits wait.splits option.splits)
  note H = sum_list_upd [OF i, of in_hand w] and C = sum_list_upd [OF i, of counted w]
  have "tpAccepted p' = tpTaken p' @ sqQueue (tpTasks p')"
    using w p by (cases "tpWorkers p ! i") (auto simp: WorkerThread_def SQ_Pop_cases tp_inv_def split: list.splits if_splits)
  moreover have "mset (tpTaken p') = mset (tpExecuted p') + sum_list (map in_hand ((tpWorkers p)[i := w]))"
    using w p H by (cases "tpWorkers p ! i") (auto simp: WorkerThread_def SQ_Pop_cases tp_inv_def split: list.splits if_splits)
  moreover have "tpActiveTasks p' = of_nat (sum_list (map counted ((tpWorkers p)[i := w])))"
  proof (cases "tpWorkers p ! i")
    case (WInc t)
    then have "sum_list (map counted ((tpWorkers p)[i := w])) = Suc (sum_list (map counted (tpWorkers p)))"
      using w C by (auto simp: WorkerThread_def)
    then show ?thesis using w p WInc by (auto simp: WorkerThread_def tp_inv_def)
  next
    case WDec
    then have "sum_list (map counted (tpWorkers p)) = Suc (sum_list (map counted ((tpWorkers p)[i := w])))"
      using w C by (auto simp: WorkerThread_def)
    then show ?thesis using w p WDec by (auto simp: WorkerThread_def tp_inv_def)
  qed (use w p C in \<open>auto simp: WorkerThread_def SQ_Pop_cases tp_inv_def split: list.splits if_splits\<close>)
  ultimately show ?thesis by (simp add: tp_inv_def ws)
qed

lemma tp_inv_reachable: "tp_reachable n d p \<Longrightarrow> tp_inv p"
proof (induction rule: tp_reachable.induct)
  case start
  then show ?case by (simp add: tp_inv_def ThreadPool_new_def SQ_new_def sum_list_replicate)
next
  case (step p e p')
  show ?case
  proof (cases e)
    case (TpSubmit t)
    then show ?thesis using step by (auto simp: tp_step_def tp_inv_def Submit_def SQ_Push_def split: if_splits)
  next
    case (TpWork i expired)
    then show ?thesis using step tp_inv_work [of p i expired] by (auto simp: tp_step_def split: if_splits)
  next
    case TpWait
    then show ?thesis using step by (auto simp: tp_step_def tp_inv_def WaitForAll_def split: tp_waiter.splits)
  next
    case TpDestroy
    then show ?thesis using step by (auto simp: tp_step_def tp_inv_def ThreadPool_destroy_def SQ_Shutdown_def split: tp_owner.splits if_splits)
  qed
qed

subsection \<open>Properties\<close>

text \<open>
  C32: tasks are taken in the order in which they were accepted, and none is run twice or invented: those executed and those
  in the hands of a worker are together those taken. When the queue is empty, the counter of active tasks is zero and no
  worker stands between taking a task and counting it, every accepted task has been executed.
\<close>

theorem tp_exactly_once:
  assumes "tp_reachable n d p"
  shows "tpAccepted p = tpTaken p @ sqQueue (tpTasks p) \<and> mset (tpExecuted p) \<subseteq># mset (tpTaken p) \<and>
    (SQ_Empty (tpTasks p) \<longrightarrow> length (tpWorkers p) < 2 ^ 64 \<longrightarrow> GetActiveTaskCount p = 0 \<longrightarrow> (\<forall>t. WInc t \<notin> set (tpWorkers p)) \<longrightarrow>
     mset (tpExecuted p) = mset (tpAccepted p))"
proof -
  have inv: "tp_inv p" using assms by (rule tp_inv_reachable)
  have "mset (tpExecuted p) = mset (tpAccepted p)" if e: "SQ_Empty (tpTasks p)" "length (tpWorkers p) < 2 ^ 64"
    "GetActiveTaskCount p = 0" "\<forall>t. WInc t \<notin> set (tpWorkers p)"
  proof -
    have "sum_list (map counted ws) \<le> length ws" for ws :: "'a tp_worker list"
    proof (induction ws)
      case (Cons w ws)
      then show ?case by (cases w) simp_all
    qed simp
    then have "sum_list (map counted (tpWorkers p)) < 2 ^ 64" using e(2) by (meson le_less_trans)
    then have "sum_list (map counted (tpWorkers p)) = 0"
      using inv e(3) of_nat_size_0_iff by (auto simp: tp_inv_def GetActiveTaskCount_def)
    then have "\<forall>w \<in> set (tpWorkers p). counted w = 0" by simp
    moreover have "in_hand w = {#}" if "counted w = 0" "\<forall>t. w \<noteq> WInc t" for w :: "'a tp_worker" using that by (cases w) simp_all
    ultimately have "\<forall>w \<in> set (tpWorkers p). in_hand w = {#}" using e(4) by metis
    then have "sum_list (map in_hand (tpWorkers p)) = {#}" by (intro sum_list_map_0) simp
    then show ?thesis using inv e(1) by (simp add: tp_inv_def SQ_Empty_def)
  qed
  moreover have "mset (tpExecuted p) \<subseteq># mset (tpTaken p)" using inv by (simp add: tp_inv_def)
  ultimately show ?thesis using inv by (simp add: tp_inv_def)
qed

abbreviation work :: "nat \<Rightarrow> 't tp_event list" where "work n \<equiv> replicate n (TpWork 0 False)"

lemmas tp_run_defs = tp_step_def Submit_def WorkerThread_def WaitForAll_def ThreadPool_destroy_def ThreadPool_new_def SQ_new_def
  SQ_Push_def SQ_Pop_cases SQ_Shutdown_def SQ_Empty_def numeral_eq_Suc

theorem tp_exactly_once_witness:
  "\<exists>p :: nat ThreadPool. tp_reachable 1 0 p \<and> tpAccepted p = [7] \<and> SQ_Empty (tpTasks p) \<and> mset (tpExecuted p) = mset (tpAccepted p)"
proof -
  let ?p = "(ThreadPool_new 1 0)\<lparr>tpWorkers := [WTest], tpAccepted := [7 :: nat], tpTaken := [7], tpExecuted := [7]\<rparr>"
  have "tp_run (TpSubmit 7 # work 6) (ThreadPool_new 1 0) = Some ?p" by (simp add: tp_run_defs)
  then have "tp_reachable 1 0 ?p" using tp_run_reachable tp_reachable.start by metis
  moreover have "SQ_Empty (tpTasks ?p)" "GetActiveTaskCount ?p = 0" "length (tpWorkers ?p) < 2 ^ 64" "\<forall>t. WInc t \<notin> set (tpWorkers ?p)" "tpAccepted ?p = [7]"
    by (simp_all add: ThreadPool_new_def SQ_new_def SQ_Empty_def GetActiveTaskCount_def)
  ultimately show ?thesis using tp_exactly_once [of 1 0 ?p] by blast
qed

text \<open>
  \<open>WaitForAll\<close> can return while an accepted task has not run. A worker has taken it and not yet counted it: the queue
  is empty and the counter is zero.
\<close>

theorem tp_wait_returns_early:
  "\<exists>p. tp_run (TpSubmit t # work 2 @ [TpWait, TpWait, TpWait]) (ThreadPool_new 1 0) = Some p \<and>
     tpWaiter p = WaitReturned \<and> tpAccepted p = [t] \<and> tpExecuted p = []"
  by (simp add: tp_run_defs)

text \<open>
  the notification of the last task is lost when it comes between the test of \<open>WaitForAll\<close> and its sleep: every task
  has run, nothing is active, and the thread sleeps until another task is submitted.
\<close>

theorem tp_lost_wakeup:
  "\<exists>p. tp_run (TpSubmit t # work 3 @ [TpWait, TpWait] @ work 3 @ [TpWait]) (ThreadPool_new 1 0) = Some p \<and>
     tpWaiter p = Asleep \<and> GetActiveTaskCount p = 0 \<and> SQ_Empty (tpTasks p) \<and> tpExecuted p = tpAccepted p \<and> tpWorkers p = [WTest]"
  by (simp add: tp_run_defs GetActiveTaskCount_def)

text \<open>the destructor does not run the tasks that are still queued.\<close>

theorem tp_destroy_drops:
  "\<exists>p. tp_run ([TpSubmit t] @ [TpDestroy, TpDestroy] @ work 1 @ [TpDestroy]) (ThreadPool_new 1 0) = Some p \<and>
     tpOwner p = Destroyed \<and> tpAccepted p = [t] \<and> tpExecuted p = []"
  by (simp add: tp_run_defs)

end
