(* ===== verification/Config.thy ===== *)
theory Config
  imports String_Util
begin

section \<open>ConfigManager\<close>

text \<open>
  \<open>Utils/ConfigManager.h\<close> and \<open>ConfigManager.cpp\<close> with the command line of the game server's \<open>main.cpp\<close>: the default
  values, those for containers, the environment and the options. The environment is a function; the build is the POSIX one,
  where \<open>unsigned long\<close> has 64 bits. An exception of \<open>std::stoi\<close> or \<open>std::stoul\<close> is not caught anywhere: it is the result
  \<open>Inl\<close>, and ends the process.
\<close>

subsection \<open>Settings\<close>

record NetworkConfig =
  ListenPort :: u16
  DBServerPort :: u16
  DBServerHost :: string
  EngineType :: string
  MaxConnections :: size_t
  SessionPoolCapacity :: size_t
  SendBufferSize :: size_t
  RecvBufferSize :: size_t
  MaxLogicQueueDepth :: size_t
  WorkerThreadCount :: u32
  AcceptThreadCount :: u32
  EnableNagle :: bool
  EnableKeepAlive :: bool
  KeepAliveIdleSec :: u32
  KeepAliveIntervalSec :: u32
  KeepAliveCount :: u32

definition NetworkConfig_new :: NetworkConfig where
  "NetworkConfig_new = \<lparr>ListenPort = 19010, DBServerPort = 18002, DBServerHost = ''127.0.0.1'', EngineType = ''auto'',
     MaxConnections = 1000, SessionPoolCapacity = 1000, SendBufferSize = 65536, RecvBufferSize = 65536,
     MaxLogicQueueDepth = 10000, WorkerThreadCount = 0, AcceptThreadCount = 1, EnableNagle = False, EnableKeepAlive = True,
     KeepAliveIdleSec = 60, KeepAliveIntervalSec = 10, KeepAliveCount = 3\<rparr>"

record TimeoutConfig =
  ConnectTimeoutMs :: u32
  RecvTimeoutMs :: u32
  SendTimeoutMs :: u32
  PingIntervalMs :: u32
  PingTimeoutMs :: u32
  ReconnectIntervalMs :: u32
  MaxReconnectIntervalMs :: u32
  GracefulShutdownTimeoutMs :: u32

definition TimeoutConfig_new :: TimeoutConfig where
  "TimeoutConfig_new = \<lparr>ConnectTimeoutMs = 5000, RecvTimeoutMs = 30000, SendTimeoutMs = 10000, PingIntervalMs = 5000,
     PingTimeoutMs = 10000, ReconnectIntervalMs = 1000, MaxReconnectIntervalMs = 30000, GracefulShutdownTimeoutMs = 8000\<rparr>"

record LogConfig =
  Level :: string
  LogDir :: string
  LogFilePrefix :: string
  EnableConsole :: bool
  EnableFile :: bool
  EnableTimestamp :: bool
  MaxFileSizeMB :: size_t
  MaxFileCount :: size_t

definition LogConfig_new :: LogConfig where
  "LogConfig_new = \<lparr>Level = ''INFO'', LogDir = ''./logs'', LogFilePrefix = ''netmod'', EnableConsole = True, EnableFile = False,
     EnableTimestamp = True, MaxFileSizeMB = 50, MaxFileCount = 5\<rparr>"

record DBConfig =
  dbConnectionString :: string
  dbDriver :: string
  dbHostName :: string
  dbPortNumber :: u16
  dbPoolSize :: u32
  dbQueryTimeoutMs :: u32
  dbReconnectIntervalMs :: u32
  dbEnableRetry :: bool
  dbMaxRetryCount :: size_t

definition DBConfig_new :: DBConfig where
  "DBConfig_new = \<lparr>dbConnectionString = '''', dbDriver = ''SQLite'', dbHostName = ''127.0.0.1'', dbPortNumber = 18002,
     dbPoolSize = 5, dbQueryTimeoutMs = 5000, dbReconnectIntervalMs = 3000, dbEnableRetry = True, dbMaxRetryCount = 3\<rparr>"

record ConfigManager =
  cmNetwork :: NetworkConfig
  cmTimeout :: TimeoutConfig
  cmLog :: LogConfig
  cmDB :: DBConfig

definition ConfigManager_new :: ConfigManager where
  "ConfigManager_new = \<lparr>cmNetwork = NetworkConfig_new, cmTimeout = TimeoutConfig_new, cmLog = LogConfig_new, cmDB = DBConfig_new\<rparr>"

subsection \<open>Loading\<close>

definition ApplyDockerDefaults :: "ConfigManager \<Rightarrow> ConfigManager" where
  "ApplyDockerDefaults c = c\<lparr>
     cmTimeout := (cmTimeout c)\<lparr>ConnectTimeoutMs := 3000, RecvTimeoutMs := 15000, SendTimeoutMs := 5000, PingIntervalMs := 3000,
       PingTimeoutMs := 5000, GracefulShutdownTimeoutMs := 5000\<rparr>,
     cmLog := (cmLog c)\<lparr>EnableFile := True, Level := ''DEBUG''\<rparr>\<rparr>"

type_synonym environment = "string \<Rightarrow> string option"

definition GetEnv :: "environment \<Rightarrow> string \<Rightarrow> string" where
  "GetEnv env name = (case env name of Some v \<Rightarrow> v | None \<Rightarrow> '''')"

text \<open>A variable that is set is stored as it is, or read as a number that is converted and stored.\<close>

definition load_text :: "environment \<Rightarrow> string \<Rightarrow> (string \<Rightarrow> 'c \<Rightarrow> 'c) \<Rightarrow> 'c \<Rightarrow> num_error + 'c" where
  "load_text env name store c = Inr (if GetEnv env name = '''' then c else store (GetEnv env name) c)"

definition load_number :: "(string \<Rightarrow> num_error + 'n) \<Rightarrow> environment \<Rightarrow> string \<Rightarrow> ('n \<Rightarrow> 'c \<Rightarrow> 'c) \<Rightarrow> 'c \<Rightarrow> num_error + 'c" where
  "load_number conv env name store c =
     (if GetEnv env name = '''' then Inr c
      else case conv (GetEnv env name) of Inl e \<Rightarrow> Inl e | Inr n \<Rightarrow> Inr (store n c))"

definition and_then :: "('c \<Rightarrow> num_error + 'c) \<Rightarrow> ('c \<Rightarrow> num_error + 'c) \<Rightarrow> 'c \<Rightarrow> num_error + 'c" where
  "and_then f g c = (case f c of Inl e \<Rightarrow> Inl e | Inr c' \<Rightarrow> g c')"

definition net :: "(NetworkConfig \<Rightarrow> NetworkConfig) \<Rightarrow> ConfigManager \<Rightarrow> ConfigManager" where "net f c = c\<lparr>cmNetwork := f (cmNetwork c)\<rparr>"
definition tmo :: "(TimeoutConfig \<Rightarrow> TimeoutConfig) \<Rightarrow> ConfigManager \<Rightarrow> ConfigManager" where "tmo f c = c\<lparr>cmTimeout := f (cmTimeout c)\<rparr>"
definition lg :: "(LogConfig \<Rightarrow> LogConfig) \<Rightarrow> ConfigManager \<Rightarrow> ConfigManager" where "lg f c = c\<lparr>cmLog := f (cmLog c)\<rparr>"
definition db :: "(DBConfig \<Rightarrow> DBConfig) \<Rightarrow> ConfigManager \<Rightarrow> ConfigManager" where "db f c = c\<lparr>cmDB := f (cmDB c)\<rparr>"

definition load_file :: "environment \<Rightarrow> ConfigManager \<Rightarrow> num_error + ConfigManager" where
  "load_file env c = Inr (let v = GetEnv env ''NETMOD_LOG_FILE'' in
     if v = ''1'' \<or> ToUpper v = ''TRUE'' then lg (\<lambda>l. l\<lparr>EnableFile := True\<rparr>) c else c)"

definition loaders :: "environment \<Rightarrow> (ConfigManager \<Rightarrow> num_error + ConfigManager) list" where
  "loaders env =
    [load_number stoi env ''NETMOD_LISTEN_PORT'' (\<lambda>n. net (\<lambda>c. c\<lparr>ListenPort := of_int n\<rparr>)),
     load_text env ''NETMOD_DB_HOST'' (\<lambda>v. net (\<lambda>c. c\<lparr>DBServerHost := v\<rparr>)),
     load_number stoi env ''NETMOD_DB_PORT'' (\<lambda>n. net (\<lambda>c. c\<lparr>DBServerPort := of_int n\<rparr>)),
     load_text env ''NETMOD_ENGINE'' (\<lambda>v. net (\<lambda>c. c\<lparr>EngineType := v\<rparr>)),
     load_number stoull env ''NETMOD_MAX_CONNECTIONS'' (\<lambda>n. net (\<lambda>c. c\<lparr>MaxConnections := n\<rparr>)),
     load_number stoull env ''NETMOD_WORKER_THREADS'' (\<lambda>n. net (\<lambda>c. c\<lparr>WorkerThreadCount := ucast n\<rparr>)),
     load_number stoull env ''NETMOD_GRACEFUL_TIMEOUT'' (\<lambda>n. tmo (\<lambda>c. c\<lparr>GracefulShutdownTimeoutMs := ucast (n * 1000)\<rparr>)),
     load_number stoull env ''NETMOD_PING_INTERVAL'' (\<lambda>n. tmo (\<lambda>c. c\<lparr>PingIntervalMs := ucast n\<rparr>)),
     load_text env ''NETMOD_LOG_LEVEL'' (\<lambda>v. lg (\<lambda>c. c\<lparr>Level := ToUpper v\<rparr>)),
     load_text env ''NETMOD_LOG_DIR'' (\<lambda>v. lg (\<lambda>c. c\<lparr>LogDir := v\<rparr>)),
     load_file env,
     load_text env ''NETMOD_DB_CONNECTION'' (\<lambda>v. db (\<lambda>c. c\<lparr>dbConnectionString := v\<rparr>)),
     load_number stoull env ''NETMOD_DB_POOL_SIZE'' (\<lambda>n. db (\<lambda>c. c\<lparr>dbPoolSize := ucast n\<rparr>))]"

definition LoadFromEnv :: "environment \<Rightarrow> ConfigManager \<Rightarrow> num_error + ConfigManager" where
  "LoadFromEnv env c = foldr and_then (loaders env) Inr c"

definition CM_Initialize :: "bool \<Rightarrow> environment \<Rightarrow> ConfigManager \<Rightarrow> num_error + ConfigManager" where
  "CM_Initialize isDocker env c = LoadFromEnv env (if isDocker then ApplyDockerDefaults c else c)"

subsection \<open>The command line of the game server\<close>

datatype LogLevel = LL_Debug | LL_Info | LL_Warn | LL_Err

definition ParseLogLevel :: "string \<Rightarrow> LogLevel" where
  "ParseLogLevel level =
     (let upper = ToUpper level
      in if upper = ''DEBUG'' then LL_Debug else if upper = ''WARN'' then LL_Warn else if upper = ''ERROR'' then LL_Err else LL_Info)"

record server_args =
  saPort :: u16
  saConnection :: string
  saLogLevel :: LogLevel
  saConnectDb :: bool
  saDbHost :: string
  saDbPort :: u16
  saEngine :: string

definition server_args_new :: "ConfigManager \<Rightarrow> server_args" where
  "server_args_new c = \<lparr>saPort = ListenPort (cmNetwork c), saConnection = '''', saLogLevel = LL_Info, saConnectDb = False,
     saDbHost = DBServerHost (cmNetwork c), saDbPort = DBServerPort (cmNetwork c), saEngine = EngineType (cmNetwork c)\<rparr>"

text \<open>The loop over the options. It ends with settings, with an exit code, or with an exception.\<close>

datatype arg_result = Settings server_args | Exit int | Uncaught num_error

fun parse_args :: "string list \<Rightarrow> server_args \<Rightarrow> arg_result" where
  "parse_args [] a = Settings a"
| "parse_args [x] a =
     (if x = ''-h'' \<or> x = ''--help'' then Exit 0
      else if x = ''--db'' then Settings (a\<lparr>saConnectDb := True\<rparr>)
      else Exit 1)"
| "parse_args (x # v # xs) a =
     (if x = ''-h'' \<or> x = ''--help'' then Exit 0
      else if x = ''-p'' then (case stoi v of Inl e \<Rightarrow> Uncaught e | Inr n \<Rightarrow> parse_args xs (a\<lparr>saPort := of_int n\<rparr>))
      else if x = ''-d'' then parse_args xs (a\<lparr>saConnection := v\<rparr>)
      else if x = ''-l'' then parse_args xs (a\<lparr>saLogLevel := ParseLogLevel v\<rparr>)
      else if x = ''--db'' then parse_args (v # xs) (a\<lparr>saConnectDb := True\<rparr>)
      else if x = ''--db-host'' then parse_args xs (a\<lparr>saDbHost := v, saConnectDb := True\<rparr>)
      else if x = ''--db-port'' then
        (case stoi v of Inl e \<Rightarrow> Uncaught e | Inr n \<Rightarrow> parse_args xs (a\<lparr>saDbPort := of_int n, saConnectDb := True\<rparr>))
      else if x = ''--engine'' then parse_args xs (a\<lparr>saEngine := v\<rparr>)
      else Exit 1)"

subsection \<open>Properties\<close>

text \<open>A variable that is set replaces the value, and a number that is set has to be one.\<close>

definition override :: "environment \<Rightarrow> string \<Rightarrow> 'v \<Rightarrow> 'v \<Rightarrow> 'v" where
  "override env name new old = (if GetEnv env name = '''' then old else new)"

fun parses :: "num_error + 'n \<Rightarrow> bool" where
  "parses (Inl e) = False"
| "parses (Inr n) = True"

definition int_ok :: "environment \<Rightarrow> string \<Rightarrow> bool" where
  "int_ok env name \<longleftrightarrow> GetEnv env name = '''' \<or> parses (stoi (GetEnv env name))"

definition nat_ok :: "environment \<Rightarrow> string \<Rightarrow> bool" where
  "nat_ok env name \<longleftrightarrow> GetEnv env name = '''' \<or> parses (stoull (GetEnv env name))"

definition numbers_ok :: "environment \<Rightarrow> bool" where
  "numbers_ok env \<longleftrightarrow> list_all (int_ok env) [''NETMOD_LISTEN_PORT'', ''NETMOD_DB_PORT''] \<and>
     list_all (nat_ok env) [''NETMOD_MAX_CONNECTIONS'', ''NETMOD_WORKER_THREADS'', ''NETMOD_GRACEFUL_TIMEOUT'', ''NETMOD_PING_INTERVAL'', ''NETMOD_DB_POOL_SIZE'']"

lemma parses_iff: "parses r \<longleftrightarrow> (\<exists>n. r = Inr n)"
  by (cases r) simp_all

lemma load_text_override:
  "load_text env name store c = Inr (override env name (store (GetEnv env name)) (\<lambda>c. c) c)"
  by (simp add: load_text_def override_def)

lemma load_number_override:
  "int_ok env name \<Longrightarrow> load_number stoi env name store c = Inr (override env name (store (projr (stoi (GetEnv env name)))) (\<lambda>c. c) c)"
  "nat_ok env name \<Longrightarrow> load_number stoull env name store' c = Inr (override env name (store' (projr (stoull (GetEnv env name)))) (\<lambda>c. c) c)"
  by (auto simp: int_ok_def nat_ok_def load_number_def override_def parses_iff)

lemma load_number_error:
  "\<not> int_ok env name \<Longrightarrow> \<exists>e. load_number stoi env name store c = Inl e"
  "\<not> nat_ok env name \<Longrightarrow> \<exists>e. load_number stoull env name store' c = Inl e"
  by (auto simp: int_ok_def nat_ok_def load_number_def parses_iff split: sum.splits)

lemma override_apply:
  "override env name (net (\<lambda>n. n\<lparr>ListenPort := p\<rparr>)) (\<lambda>c. c) c = net (\<lambda>n. n\<lparr>ListenPort := override env name p (ListenPort n)\<rparr>) c"
  "override env name (net (\<lambda>n. n\<lparr>DBServerHost := h\<rparr>)) (\<lambda>c. c) c = net (\<lambda>n. n\<lparr>DBServerHost := override env name h (DBServerHost n)\<rparr>) c"
  "override env name (net (\<lambda>n. n\<lparr>DBServerPort := p\<rparr>)) (\<lambda>c. c) c = net (\<lambda>n. n\<lparr>DBServerPort := override env name p (DBServerPort n)\<rparr>) c"
  "override env name (net (\<lambda>n. n\<lparr>EngineType := h\<rparr>)) (\<lambda>c. c) c = net (\<lambda>n. n\<lparr>EngineType := override env name h (EngineType n)\<rparr>) c"
  "override env name (net (\<lambda>n. n\<lparr>MaxConnections := z\<rparr>)) (\<lambda>c. c) c = net (\<lambda>n. n\<lparr>MaxConnections := override env name z (MaxConnections n)\<rparr>) c"
  "override env name (net (\<lambda>n. n\<lparr>WorkerThreadCount := w\<rparr>)) (\<lambda>c. c) c = net (\<lambda>n. n\<lparr>WorkerThreadCount := override env name w (WorkerThreadCount n)\<rparr>) c"
  "override env name (tmo (\<lambda>n. n\<lparr>GracefulShutdownTimeoutMs := w\<rparr>)) (\<lambda>c. c) c = tmo (\<lambda>n. n\<lparr>GracefulShutdownTimeoutMs := override env name w (GracefulShutdownTimeoutMs n)\<rparr>) c"
  "override env name (tmo (\<lambda>n. n\<lparr>PingIntervalMs := w\<rparr>)) (\<lambda>c. c) c = tmo (\<lambda>n. n\<lparr>PingIntervalMs := override env name w (PingIntervalMs n)\<rparr>) c"
  "override env name (lg (\<lambda>n. n\<lparr>Level := h\<rparr>)) (\<lambda>c. c) c = lg (\<lambda>n. n\<lparr>Level := override env name h (Level n)\<rparr>) c"
  "override env name (lg (\<lambda>n. n\<lparr>LogDir := h\<rparr>)) (\<lambda>c. c) c = lg (\<lambda>n. n\<lparr>LogDir := override env name h (LogDir n)\<rparr>) c"
  "override env name (db (\<lambda>n. n\<lparr>dbConnectionString := h\<rparr>)) (\<lambda>c. c) c = db (\<lambda>n. n\<lparr>dbConnectionString := override env name h (dbConnectionString n)\<rparr>) c"
  "override env name (db (\<lambda>n. n\<lparr>dbPoolSize := w\<rparr>)) (\<lambda>c. c) c = db (\<lambda>n. n\<lparr>dbPoolSize := override env name w (dbPoolSize n)\<rparr>) c"
  by (simp_all add: override_def net_def tmo_def lg_def db_def)

definition file_wanted :: "environment \<Rightarrow> bool" where
  "file_wanted env \<longleftrightarrow> GetEnv env ''NETMOD_LOG_FILE'' = ''1'' \<or> ToUpper (GetEnv env ''NETMOD_LOG_FILE'') = ''TRUE''"

lemma load_file_override: "load_file env c = Inr (lg (\<lambda>l. l\<lparr>EnableFile := (EnableFile l \<or> file_wanted env)\<rparr>) c)"
  by (simp add: load_file_def file_wanted_def lg_def Let_def)

text \<open>The settings after loading, as a table: the value of a variable that is set, and the value before of one that is not.\<close>

definition text_or :: "environment \<Rightarrow> string \<Rightarrow> string \<Rightarrow> string" where
  "text_or env name old = override env name (GetEnv env name) old"

definition port_or :: "environment \<Rightarrow> string \<Rightarrow> u16 \<Rightarrow> u16" where
  "port_or env name old = override env name (of_int (projr (stoi (GetEnv env name)))) old"

definition number_or :: "environment \<Rightarrow> string \<Rightarrow> u64 \<Rightarrow> 'a::len word \<Rightarrow> 'a word" where
  "number_or env name factor old = override env name (ucast (projr (stoull (GetEnv env name)) * factor)) old"

definition loaded :: "environment \<Rightarrow> ConfigManager \<Rightarrow> ConfigManager" where
  "loaded env c = c\<lparr>
     cmNetwork := (cmNetwork c)\<lparr>
       ListenPort := port_or env ''NETMOD_LISTEN_PORT'' (ListenPort (cmNetwork c)),
       DBServerPort := port_or env ''NETMOD_DB_PORT'' (DBServerPort (cmNetwork c)),
       DBServerHost := text_or env ''NETMOD_DB_HOST'' (DBServerHost (cmNetwork c)),
       EngineType := text_or env ''NETMOD_ENGINE'' (EngineType (cmNetwork c)),
       MaxConnections := number_or env ''NETMOD_MAX_CONNECTIONS'' 1 (MaxConnections (cmNetwork c)),
       WorkerThreadCount := number_or env ''NETMOD_WORKER_THREADS'' 1 (WorkerThreadCount (cmNetwork c))\<rparr>,
     cmTimeout := (cmTimeout c)\<lparr>
       PingIntervalMs := number_or env ''NETMOD_PING_INTERVAL'' 1 (PingIntervalMs (cmTimeout c)),
       GracefulShutdownTimeoutMs := number_or env ''NETMOD_GRACEFUL_TIMEOUT'' 1000 (GracefulShutdownTimeoutMs (cmTimeout c))\<rparr>,
     cmLog := (cmLog c)\<lparr>
       Level := override env ''NETMOD_LOG_LEVEL'' (ToUpper (GetEnv env ''NETMOD_LOG_LEVEL'')) (Level (cmLog c)),
       LogDir := text_or env ''NETMOD_LOG_DIR'' (LogDir (cmLog c)),
       EnableFile := (EnableFile (cmLog c) \<or> file_wanted env)\<rparr>,
     cmDB := (cmDB c)\<lparr>
       dbConnectionString := text_or env ''NETMOD_DB_CONNECTION'' (dbConnectionString (cmDB c)),
       dbPoolSize := number_or env ''NETMOD_DB_POOL_SIZE'' 1 (dbPoolSize (cmDB c))\<rparr>\<rparr>"

lemmas config_loads = load_text_override load_number_override override_apply load_file_override

lemma LoadFromEnv_ok: "numbers_ok env \<Longrightarrow> LoadFromEnv env c = Inr (loaded env c)"
  by (simp add: LoadFromEnv_def loaders_def and_then_def numbers_ok_def config_loads)
    (simp add: loaded_def text_or_def port_or_def number_or_def net_def tmo_def lg_def db_def)

lemma foldr_and_then: "foldr and_then fs Inr c = Inr d \<Longrightarrow> f \<in> set fs \<Longrightarrow> \<exists>a b. f a = Inr b"
  by (induction fs arbitrary: c) (auto simp: and_then_def split: sum.splits)

lemma load_number_good:
  "load_number stoi env name store c = Inr d \<Longrightarrow> int_ok env name"
  "load_number stoull env name store' c = Inr d \<Longrightarrow> nat_ok env name"
  by (auto simp: int_ok_def nat_ok_def load_number_def parses_iff split: sum.splits if_splits)

lemma LoadFromEnv_error:
  assumes "\<not> numbers_ok env"
  shows "\<exists>e. LoadFromEnv env c = Inl e"
proof (cases "LoadFromEnv env c")
  case (Inr d)
  note S = foldr_and_then [OF Inr [unfolded LoadFromEnv_def]]
  have "int_ok env ''NETMOD_LISTEN_PORT''" "int_ok env ''NETMOD_DB_PORT''"
    using S [of "loaders env ! 0"] S [of "loaders env ! 2"] load_number_good(1) by (auto simp: loaders_def simp flip: One_nat_def)
  moreover have "nat_ok env ''NETMOD_MAX_CONNECTIONS''" "nat_ok env ''NETMOD_WORKER_THREADS''" "nat_ok env ''NETMOD_GRACEFUL_TIMEOUT''"
    "nat_ok env ''NETMOD_PING_INTERVAL''" "nat_ok env ''NETMOD_DB_POOL_SIZE''"
    using S [of "loaders env ! 4"] S [of "loaders env ! 5"] S [of "loaders env ! 6"] S [of "loaders env ! 7"] S [of "loaders env ! 12"] load_number_good(2)
    by (auto simp: loaders_def simp flip: One_nat_def)
  ultimately show ?thesis using assms by (simp add: numbers_ok_def)
qed simp

lemma LoadFromEnv_loaded: "LoadFromEnv env c = Inr c' \<Longrightarrow> numbers_ok env \<and> c' = loaded env c"
  using LoadFromEnv_ok [of env c] LoadFromEnv_error [of env c] by (cases "numbers_ok env") auto

text \<open>
  C37: reading the environment succeeds exactly when every number that is set can be read; otherwise an exception leaves it
  that nothing catches. When it succeeds every setting has the value of its variable if that is set, else the one it had, and
  nothing else changes; reading it again changes nothing.
\<close>

theorem config_load_exact:
  "(case LoadFromEnv env c of Inl _ \<Rightarrow> \<not> numbers_ok env | Inr c' \<Rightarrow> numbers_ok env \<and> c' = loaded env c \<and> LoadFromEnv env c' = Inr c')"
proof (cases "numbers_ok env")
  case True
  have "loaded env (loaded env c) = loaded env c"
    by (simp add: loaded_def text_or_def port_or_def number_or_def override_def)
  then show ?thesis using True LoadFromEnv_ok by simp
next
  case False
  then show ?thesis using LoadFromEnv_error [of env c] by auto
qed

text \<open>
  numbers that are too large are not refused but cut: a port is taken modulo 2^16, and the time to shut down, which is
  given in seconds, modulo 2^32 milliseconds. A port below 2^16 is what was written.
\<close>

theorem config_numbers_wrap:
  assumes "LoadFromEnv env c = Inr c'" "env ''NETMOD_LISTEN_PORT'' = Some (dec n)" "n < 2 ^ 31"
    "env ''NETMOD_GRACEFUL_TIMEOUT'' = Some (dec s)" "s < 2 ^ 32"
  shows "unat (ListenPort (cmNetwork c')) = n mod 2 ^ 16 \<and> unat (GracefulShutdownTimeoutMs (cmTimeout c')) = 1000 * s mod 2 ^ 32"
proof -
  have "c' = loaded env c" using LoadFromEnv_loaded [OF assms(1)] by simp
  moreover have "stoull (dec s) = Inr (of_nat s)" using stoull_dec [of "of_nat s :: u64"] assms(5) by (simp add: unat_of_nat)
  ultimately show ?thesis using assms(2-5)
    by (simp add: loaded_def port_or_def number_or_def override_def GetEnv_def unsigned_ucast_eq take_bit_eq_mod unat_of_nat unat_word_ariths mult.commute)
qed

theorem config_numbers_wrap_witness:
  "\<exists>env c'. LoadFromEnv env ConfigManager_new = Inr c' \<and> env ''NETMOD_LISTEN_PORT'' = Some (dec 65537) \<and>
     unat (ListenPort (cmNetwork c')) = 1 \<and> unat (GracefulShutdownTimeoutMs (cmTimeout c')) = 704"
proof -
  define env :: environment where "env = [''NETMOD_LISTEN_PORT'' \<mapsto> dec 65537, ''NETMOD_GRACEFUL_TIMEOUT'' \<mapsto> dec 4294968]"
  have "stoull (dec 4294968) = Inr 4294968" using stoull_dec [of 4294968] by simp
  then have "numbers_ok env" by (simp add: numbers_ok_def int_ok_def nat_ok_def GetEnv_def env_def)
  then have L: "LoadFromEnv env ConfigManager_new = Inr (loaded env ConfigManager_new)" by (rule LoadFromEnv_ok)
  have E: "env ''NETMOD_LISTEN_PORT'' = Some (dec 65537)" "env ''NETMOD_GRACEFUL_TIMEOUT'' = Some (dec 4294968)" by (simp_all add: env_def)
  show ?thesis using config_numbers_wrap [OF L E(1) _ E(2)] L E(1) by (intro exI [of _ env] exI [of _ "loaded env ConfigManager_new"]) simp
qed

text \<open>
  the command line of the game server is read option by option: after a complete part of it the rest is read with the
  settings so far. Hence a later option replaces an earlier one, and the options replace what came from the environment.
\<close>

theorem args_compose:
  assumes "parse_args xs a = Settings b"
  shows "parse_args (xs @ ys) a = parse_args ys b"
  using assms
proof (induction xs a rule: parse_args.induct)
  case (2 x a)
  then show ?case by (cases ys) (auto split: if_splits)
next
  case (3 x v xs a)
  then show ?case by (auto split: if_splits sum.splits)
qed simp

theorem args_compose_witness:
  "parse_args ([''-p'', dec 80] @ [''-p'', dec 9000]) (server_args_new ConfigManager_new) =
     Settings ((server_args_new ConfigManager_new)\<lparr>saPort := 9000\<rparr>)"
proof -
  have "parse_args [''-p'', dec 80] (server_args_new ConfigManager_new) = Settings ((server_args_new ConfigManager_new)\<lparr>saPort := 80\<rparr>)" by simp
  from args_compose [OF this, of "[''-p'', dec 9000]"] show ?thesis by simp
qed

end
