(* ===== verification/Spec2Isabelle.thy ===== *)
theory Spec2Isabelle
  imports Keyed_Dispatcher Timer_Queue String_Util Session_Send Session_Pool Db_Task_Queue Db_Server_Tasks Connection_Pool Sql_Bootstrap Engine Epoll_Provider Message_Handler Db_Link Thread_Pool Config
begin

text \<open>
  Verification of NetworkModuleTest: a network engine in C++17 with a game server, a database server and a test client
  (\<open>src/NetworkModuleTest\<close>; paths below are relative to it, \<open>E/\<close> is \<open>Server/ServerEngine/\<close>).

  \<^bold>\<open>The program.\<close> Clients (\<open>Client/TestClient\<close>) hold one TCP connection each to the game server (\<open>Server/TestServer\<close>), which
  holds one to the database server (\<open>Server/DBServer\<close>). Both servers run the engine of \<open>E/\<close>: I/O threads report completed
  receives and sends of an asynchronous provider; \<open>BaseNetworkEngine\<close> hands received bytes to the session's dispatcher key,
  so that one worker at a time reassembles and handles the packets of a session; \<open>Session\<close> cuts the stream into packets and
  queues what is to be sent; sessions come from a pool and are registered in a manager. A packet handler per server reacts
  to the packets. The game server records connections through \<open>DBTaskQueue\<close>, with a write-ahead log, and sends requests to
  the database server through \<open>DBServerTaskQueue\<close> and its link; the database server orders its tasks per game server with
  \<open>OrderedTaskQueue\<close> and keeps statistics in \<open>ServerLatencyManager\<close>.

  \<^bold>\<open>How it is modelled.\<close> A class is a record with its members, an operation a function on it. Where threads meet, every
  thread has a program counter and a step is one atomic operation or one critical section, so that a run is an interleaving
  and the theorems hold for all of them; an event list makes the runs executable. Machine integers are words of their width.
  What the program does not contain (kernel, sockets, clocks, allocator, database, results of callbacks) is an argument of
  the steps. Exceptions, aborts and reads outside of the memory are values. History fields record what was accepted, sent or
  executed; no operation reads them.

  \<^bold>\<open>Theories.\<close>

  \<^item> \<open>Prelude\<close>: names of the integers, waiting on condition variables, little-endian layout, the queue contracts
  (locales \<open>fifo_machine\<close> and \<open>fifo\<close>) that the queues of \<open>Exec_Queue\<close> implement.

  \<^item> \<open>Exec_Queue\<close> (\<open>E/Concurrency/ExecutionQueue.h\<close>, \<open>Channel.h\<close>, \<open>E/Utils/SafeQueue.h\<close>): order, capacity, draining after
  shutdown. \<open>Keyed_Dispatcher\<close> (\<open>E/Concurrency/KeyedDispatcher.h\<close>): order and exclusion per key, statistics, what a shutdown
  executes and what it can lose. \<open>Async_Scope\<close> (\<open>AsyncScope.h\<close>): the count of tasks in flight, cancellation, a lost wake-up.
  \<open>Thread_Pool\<close> (\<open>E/Utils/ThreadPool.h\<close>): every accepted task at most once and in order; how \<open>WaitForAll\<close> can return early
  or never.

  \<^item> \<open>Std_Heap\<close>, \<open>Timer_Queue\<close> (\<open>E/Concurrency/TimerQueue.cpp\<close>): heap operations against the contract of the standard, timers in
  the order of their times, cancellation. \<open>Std_Text\<close>, \<open>String_Util\<close>, \<open>Key_Gen\<close> (\<open>E/Utils\<close>): conversions, bounded copies, keys.
  \<open>Config\<close> (\<open>E/Utils/ConfigManager.cpp\<close>, \<open>TestServer/main.cpp\<close>): the settings as a table, which numbers wrap, options.

  \<^item> \<open>Packet\<close> (\<open>E/Network/Core/PacketDefine.h\<close>, \<open>ServerPacketDefine.h\<close>): layout of every packet, each an interpretation of the
  locale \<open>wire_struct\<close>. \<open>Message_Handler\<close> (\<open>E/Implementations/Protocols\<close>): the other message format.

  \<^item> \<open>Session\<close>, \<open>Session_Send\<close> (\<open>E/Network/Core/Session.cpp\<close>): reassembly refines the cutting of the stream into packets,
  for all ways TCP divides it; the send path keeps the order, one send at a time, and forgets nothing. \<open>Buffer_Pool\<close>,
  \<open>Session_Pool\<close> (\<open>E/Core/Memory\<close>, \<open>SessionPool\<close>, \<open>SessionManager\<close>): a slot has one owner; the locale \<open>slot_pool\<close> is
  interpreted for all five pools.

  \<^item> \<open>Event_Bus\<close>, \<open>Engine\<close> (\<open>E/Network/Core/BaseNetworkEngine.cpp\<close>): from a receive completion to the handler: per session the
  packets of the stream, in order; time-outs. \<open>Epoll_Provider\<close> (\<open>E/Platforms/Linux/EpollAsyncIOProvider.cpp\<close>): sends arrive
  exactly, receives are not forgotten, two ways to stall; its invariants are instances of the locales \<open>ep_kept\<close> and
  \<open>ep_invariant\<close>.

  \<^item> \<open>Wal\<close>, \<open>Db_Task_Queue\<close> (\<open>TestServer/src/DBTaskQueue.cpp\<close>): the log (locale \<open>task_log\<close>) holds every accepted unfinished task at every moment a
  crash can fall on; recovery. \<open>Result_Code\<close>, \<open>Db_Server_Tasks\<close> (\<open>DBServerTaskQueue.cpp\<close>): every request is answered once.
  \<open>Connection_Pool\<close>, \<open>Sql_Script\<close>, \<open>Sql_Bootstrap\<close> (\<open>E/Database\<close>): exclusive connections; which script is used; one process
  creates the tables although several start and may die.

  \<^item> \<open>Client\<close> (\<open>Client/TestClient/src\<close>): the client's stream, statistics and life cycle. \<open>Latency\<close> (\<open>DBServer/src\<close>): statistics
  equal to a sequential recording. \<open>Packet_Handlers\<close> (\<open>ClientPacketHandler\<close>, \<open>DBServerPacketHandler\<close>, \<open>ServerPacketHandler\<close>):
  bounds (locale \<open>bounded_handler\<close>), replies, the conversations of client and game server from end to end. \<open>Db_Link\<close>
  (\<open>TestServer/src/TestServer.cpp\<close>): the link to the database server with its threads, reconnection and shutdown.

  This theory has the conversation of game server and database server, which spans \<open>Db_Link\<close>, \<open>Session\<close> and
  \<open>Packet_Handlers\<close>.

  \<^bold>\<open>Bounds and termination.\<close> No definition is cut off by fuel chosen by the development. Loops that parse are functions with
  a termination proof. Where a function takes the answers of system calls as a list, the theorems say how long a list is
  enough (\<open>send_rest\<close>: one answer per byte; \<open>recv_many\<close> of \<open>Client\<close>: the bytes that remain). Runs are finite prefixes; what is
  proved about progress is that a state without a next step has nothing left to do, or the run that stalls is given.

  \<^bold>\<open>Not modelled.\<close> The engines for Windows and macOS and the providers for IOCP, RIO, io_uring and kqueue, which are calls of
  other kernels (their buffer pools are modelled); the sockets and threads of \<open>LinuxNetworkEngine\<close>; the database drivers,
  which wrap client libraries; factories that choose by build flags; logging, crash dumps and lock profiling;
  \<open>ClientSession\<close>, \<open>TestMessageHandler\<close> and \<open>TestDatabaseManager\<close>, which the servers do not use; command line of client and database
  server; tests, examples, scripts and the vendored SQLite. Memory orders weaker than sequential consistency and data races
  on \<open>std::thread\<close> and \<open>std::vector\<close> members are outside of the interleaving model. Arithmetic on \<open>double\<close> is a parameter.
\<close>

section \<open>The ping conversation of game server and database server\<close>

text \<open>
  Five components together: the timer calls \<open>SendDBPing\<close> (\<open>Db_Link\<close>), the bytes reach a session of the database server's
  engine (\<open>Session\<close>), its handler answers (\<open>Packet_Handlers\<close>), the answers reach the receive loop of the game server
  (\<open>Db_Link\<close>), and its handler records them (\<open>Packet_Handlers\<close>, \<open>Session\<close>).
\<close>

text \<open>The packets of successive calls: each with the bytes its array held before and the times it reads.\<close>

fun timer_pings :: "(byte list \<times> Timestamp \<times> Timestamp) list \<Rightarrow> u32 \<Rightarrow> (u32 \<times> byte list list) option" where
  "timer_pings [] sq = Some (sq, [])"
| "timer_pings ((junk, now1, now2) # calls) sq =
     (case SendDBPing junk now1 now2 sq of
        None \<Rightarrow> None
      | Some (sq', ps) \<Rightarrow> map_option (\<lambda>(n, qs). (n, ps @ qs)) (timer_pings calls sq'))"

text \<open>The database server on a list of packets: the time of each and the memory behind it.\<close>

fun db_serve :: "ServerPacketHandler \<Rightarrow> (Timestamp \<times> byte list) list \<Rightarrow> byte list list \<Rightarrow> Session \<Rightarrow> byte list list option" where
  "db_serve g ((now, behind) # es) (p # ps) s =
     (case SPH_ProcessPacket g now (Some (p @ behind)) (length p) s of
        None \<Rightarrow> None
      | Some (out, tasks) \<Rightarrow> map_option ((@) out) (db_serve g es ps s))"
| "db_serve _ _ _ _ = Some []"

definition ping_of :: "u32 \<Rightarrow> Timestamp \<Rightarrow> byte list" where
  "ping_of sq t = PKT_ServerPingReq_bytes (PKT_ServerPingReq_new\<lparr>spq_sequence := sq, spq_timestamp := t\<rparr>)"

definition pong_of :: "u32 \<Rightarrow> Timestamp \<Rightarrow> Timestamp \<Rightarrow> byte list" where
  "pong_of sq t now = PKT_ServerPongRes_bytes
     (PKT_ServerPongRes_new\<lparr>sps_sequence := sq, sps_requestTimestamp := t, sps_responseTimestamp := now\<rparr>)"

fun pongs_of :: "u32 \<Rightarrow> Timestamp list \<Rightarrow> Timestamp list \<Rightarrow> byte list list" where
  "pongs_of sq (t # ts) (now # nows) = pong_of (sq + 1) t now # pongs_of (sq + 1) ts nows"
| "pongs_of _ _ _ = []"

lemma ping_of_valid: "valid_packet (ping_of sq t)" "length (ping_of sq t) = 20"
  by (simp_all add: ping_of_def packet_wf)

lemma serve_ping_of:
  assumes "shOrderedTaskQueue g" "shLatencyManager g"
  shows "\<exists>tasks. SPH_ProcessPacket g now (Some (ping_of sq t @ behind)) (length (ping_of sq t)) s = Some ([pong_of sq t now], tasks)"
proof -
  let ?p = "PKT_ServerPingReq_new\<lparr>spq_sequence := sq, spq_timestamp := t\<rparr>"
  have "PKT_ServerPingReq_read (PKT_ServerPingReq_bytes ?p @ behind) = ?p" by (rule ServerPingReq.decode_encode) simp
  moreover have "ServerPacketHeader_read (PKT_ServerPingReq_bytes ?p @ behind) = spq_header ?p" by (simp add: PKT_ServerPingReq_bytes_def)
  ultimately show ?thesis using assms ping_of_valid(2) [of sq t]
    by (simp add: ping_of_def pong_of_def SPH_ProcessPacket_def Let_def SPH_requiredSize_def InitPacket_def PKT_ServerPingReq_new_def HandleServerPingRequest_def)
qed

lemma pong_of_valid: "valid_spacket (pong_of sq t now)" "terminated_res (pong_of sq t now)" "length (pong_of sq t now) = 28"
  by (simp_all add: pong_of_def valid_spacket_def ssize_def sbad_def terminated_res_def PKT_ServerPongRes_new_def PKT_ServerPongRes_bytes_def InitPacket_def)

lemma handle_pong_of:
  assumes "IsConnected s"
  shows "DPH_ProcessPacket h (Some (pong_of sq t now)) (length (pong_of sq t now)) s = Some (SetLastPingTime now s, [])"
proof -
  let ?p = "PKT_ServerPongRes_new\<lparr>sps_sequence := sq, sps_requestTimestamp := t, sps_responseTimestamp := now\<rparr>"
  have "PKT_ServerPongRes_read (PKT_ServerPongRes_bytes ?p) = ?p" by (rule ServerPongRes.decode_exact) simp
  moreover have "ServerPacketHeader_read (PKT_ServerPongRes_bytes ?p) = sps_header ?p" by (simp add: PKT_ServerPongRes_bytes_def)
  ultimately show ?thesis using assms pong_of_valid(3) [of sq t now]
    by (simp add: pong_of_def DPH_ProcessPacket_def Let_def DPH_requiredSize_def InitPacket_def PKT_ServerPongRes_new_def HandleServerPongResponse_def)
qed

lemma handle_pongs_of:
  assumes "IsConnected s" "length nows = length ts"
  shows "\<exists>s'. link_handle h (map solo (pongs_of sq ts nows)) s = Some (s', []) \<and>
    mLastPingTime s' = (if nows = [] then mLastPingTime s else last nows) \<and> IsConnected s'"
  using assms(2,1)
proof (induction nows ts arbitrary: s sq rule: list_induct2)
  case (Cons now nows t ts)
  have "IsConnected (SetLastPingTime now s)" using Cons.prems by (simp add: IsConnected_def SetLastPingTime_def)
  from Cons.IH [OF this, of "sq + 1"] obtain s' where
    "link_handle h (map solo (pongs_of (sq + 1) ts nows)) (SetLastPingTime now s) = Some (s', [])"
    "mLastPingTime s' = (if nows = [] then now else last nows)" "IsConnected s'" by (auto simp: SetLastPingTime_def)
  moreover have "solo (pong_of (sq + 1) t now) = (pong_of (sq + 1) t now, length (pong_of (sq + 1) t now))" by (simp add: solo_def)
  ultimately show ?case using handle_pong_of [OF Cons.prems, of h "sq + 1" t now] by (intro exI [of _ s']) simp
qed simp

lemma SendDBPing_cases:
  assumes "length junk = 31"
  shows "\<exists>rest. SendDBPing junk now1 now2 sq = Some (sq + 1, ping_of (sq + 1) now1 # rest) \<and>
    (rest = [] \<or> (\<exists>b. rest = [b] \<and> RequestSavePingTime junk now2 1 (Some ''TestServer'') = Some [b]))"
proof -
  have "length (cstr ''TestServer'') \<le> INT_MAX" by (simp add: cstr_def NUL_def INT_MAX_def)
  from save_request_arrives [OF assms this, of "\<lparr>shLatencyManager = True, shOrderedTaskQueue = True\<rparr>" now2 1 Session_new]
  obtain b where b: "RequestSavePingTime junk now2 1 (Some ''TestServer'') = Some [b]" by auto
  show ?thesis
  proof (cases "(sq + 1) mod 5 = 0")
    case True
    then have "SendDBPing junk now1 now2 sq = Some (sq + 1, [ping_of (sq + 1) now1, b])"
      using b by (simp add: SendDBPing_def Let_def ping_of_def)
    then show ?thesis using b by (intro exI [of _ "[b]"]) blast
  next
    case False
    then show ?thesis by (intro exI [of _ "[]"]) (simp add: SendDBPing_def Let_def ping_of_def)
  qed
qed

lemma serve_calls:
  assumes g: "shOrderedTaskQueue g" "shLatencyManager g" and "list_all (\<lambda>(junk, _). length junk = 31) calls"
  shows "\<exists>ps. timer_pings calls sq = Some (sq + of_nat (length calls), ps) \<and> (\<forall>p \<in> set ps. valid_packet p) \<and>
    (\<forall>es s. length es = length ps \<longrightarrow> (\<exists>nows. length nows = length calls \<and> set nows \<subseteq> fst ` set es \<and>
       db_serve g es ps s = Some (pongs_of sq (map (\<lambda>(_, now1, _). now1) calls) nows)))"
  using assms(3)
proof (induction calls arbitrary: sq)
  case (Cons call calls)
  obtain junk now1 now2 where c: "call = (junk, now1, now2)" by (metis prod_cases3)
  then have j: "length junk = 31" using Cons.prems by simp
  have "length (cstr ''TestServer'') \<le> INT_MAX" by (simp add: cstr_def NUL_def INT_MAX_def)
  note save = save_request_arrives [OF j this g, of now2 1]
  obtain rest where r: "SendDBPing junk now1 now2 sq = Some (sq + 1, ping_of (sq + 1) now1 # rest)"
    "rest = [] \<or> (\<exists>b. rest = [b] \<and> valid_packet b \<and> (\<forall>t behind s. \<exists>ts. SPH_ProcessPacket g t (Some (b @ behind)) (length b) s = Some ([], ts)))"
  proof -
    obtain rest where R: "SendDBPing junk now1 now2 sq = Some (sq + 1, ping_of (sq + 1) now1 # rest)"
      "rest = [] \<or> (\<exists>b. rest = [b] \<and> RequestSavePingTime junk now2 1 (Some ''TestServer'') = Some [b])"
      using SendDBPing_cases [OF j] by blast
    have "valid_packet b \<and> (\<forall>t behind s. \<exists>ts. SPH_ProcessPacket g t (Some (b @ behind)) (length b) s = Some ([], ts))"
      if "RequestSavePingTime junk now2 1 (Some ''TestServer'') = Some [b]" for b
      using save that by (metis list.inject option.inject)
    with R that show thesis by blast
  qed
  obtain ps where ps: "timer_pings calls (sq + 1) = Some (sq + 1 + of_nat (length calls), ps)" "\<forall>p \<in> set ps. valid_packet p"
    "\<And>es s. length es = length ps \<Longrightarrow> \<exists>nows. length nows = length calls \<and> set nows \<subseteq> fst ` set es \<and>
       db_serve g es ps s = Some (pongs_of (sq + 1) (map (\<lambda>(_, now1, _). now1) calls) nows)"
    using Cons.IH [of "sq + 1"] Cons.prems by auto
  have "\<exists>nows. length nows = length (call # calls) \<and> set nows \<subseteq> fst ` set es \<and>
      db_serve g es (ping_of (sq + 1) now1 # rest @ ps) s = Some (pongs_of sq (map (\<lambda>(_, now1, _). now1) (call # calls)) nows)"
    if es: "length es = length (ping_of (sq + 1) now1 # rest @ ps)" for es s
  proof -
    obtain now behind es' where e: "es = (now, behind) # es'" "length es' = length (rest @ ps)" using es by (cases es) auto
    let ?fs = "drop (length rest) es'"
    have "length ?fs = length ps" using e(2) by simp
    then obtain nows where n: "length nows = length calls" "set nows \<subseteq> fst ` set ?fs"
      "db_serve g ?fs ps s = Some (pongs_of (sq + 1) (map (\<lambda>(_, now1, _). now1) calls) nows)" using ps(3) by blast
    have "db_serve g es' (rest @ ps) s = db_serve g ?fs ps s" using r(2) e(2)
    proof (elim disjE exE conjE)
      fix b
      assume b: "rest = [b]" "\<forall>t behind s. \<exists>ts. SPH_ProcessPacket g t (Some (b @ behind)) (length b) s = Some ([], ts)"
      obtain t behind' es'' where "es' = (t, behind') # es''" using e(2) b(1) by (cases es') auto
      moreover obtain ts where "SPH_ProcessPacket g t (Some (b @ behind')) (length b) s = Some ([], ts)" using b(2) by blast
      ultimately show ?thesis using b(1) by (cases "db_serve g es'' ps s") simp_all
    qed simp
    moreover obtain tasks where "SPH_ProcessPacket g now (Some (ping_of (sq + 1) now1 @ behind)) (length (ping_of (sq + 1) now1)) s = Some ([pong_of (sq + 1) now1 now], tasks)"
      using serve_ping_of [OF g] by blast
    moreover have "set nows \<subseteq> fst ` set es" using n(2) e(1) by (auto dest: in_set_dropD)
    ultimately show ?thesis using n(1,3) e(1) c by (intro exI [of _ "now # nows"]) simp
  qed
  moreover have "timer_pings (call # calls) sq = Some (sq + of_nat (length (call # calls)), ping_of (sq + 1) now1 # rest @ ps)"
    using r(1) ps(1) by (simp add: c)
  moreover have "\<forall>p \<in> set (ping_of (sq + 1) now1 # rest @ ps). valid_packet p" using ping_of_valid(1) r(2) ps(2) by auto
  ultimately show ?case by blast
qed simp

lemma pongs_of_valid: "list_all valid_spacket (pongs_of sq ts nows) \<and> list_all terminated_res (pongs_of sq ts nows)"
  by (induction sq ts nows rule: pongs_of.induct) (simp_all add: pong_of_valid)

lemma pongs_received:
  assumes "IsConnected s" "length nows = length ts" "nows \<noteq> []" "concat ds = concat (pongs_of sq ts nows)"
  shows "\<exists>s'. link_handle h (fst (link_recv_all ds ([], 0))) s = Some (s', []) \<and> mLastPingTime s' = last nows"
  using link_stream_handled [OF _ _ assms(4), of h s] pongs_of_valid handle_pongs_of [OF assms(1,2), of h sq] assms(3) by auto

text \<open>
  C6: the game server pings the database server. Every call of the timer sends one ping, and some a request to save; the
  database server reassembles them however they are cut and answers every ping once, in order, with its number and its
  time; the game server reassembles the answers however they are cut, and its record of the last ping is the time at which
  the database server got the last one. Nothing of this fails or reads outside of a buffer.
\<close>

theorem db_ping_conversation:
  assumes "shOrderedTaskQueue g" "shLatencyManager g" "list_all (\<lambda>(junk, _). length junk = 31) calls" "calls \<noteq> []"
    and "recv_inv d" "mOnRecvCb d" "unread d = []" "IsConnected s"
  shows "\<exists>ps. timer_pings calls sq = Some (sq + of_nat (length calls), ps) \<and>
    (\<forall>cs es. concat cs = concat ps \<longrightarrow> (\<forall>c \<in> set cs. length c \<le> unat RECV_BUFFER_SIZE) \<longrightarrow> length es = length ps \<longrightarrow>
      (\<exists>rs nows. db_serve g es (fst (recv_all cs d)) (snd (recv_all cs d)) = Some rs \<and>
        rs = pongs_of sq (map (\<lambda>(_, now1, _). now1) calls) nows \<and> length nows = length calls \<and> set nows \<subseteq> fst ` set es \<and>
        (\<forall>ds. concat ds = concat rs \<longrightarrow>
          (\<exists>s'. link_handle h (fst (link_recv_all ds ([], 0))) s = Some (s', []) \<and> mLastPingTime s' = last nows))))"
proof -
  obtain ps where ps: "timer_pings calls sq = Some (sq + of_nat (length calls), ps)" "\<forall>p \<in> set ps. valid_packet p"
    "\<And>es s. length es = length ps \<Longrightarrow> \<exists>nows. length nows = length calls \<and> set nows \<subseteq> fst ` set es \<and>
       db_serve g es ps s = Some (pongs_of sq (map (\<lambda>(_, now1, _). now1) calls) nows)"
    using serve_calls [OF assms(1-3), of sq] by blast
  have "\<exists>rs nows. db_serve g es (fst (recv_all cs d)) (snd (recv_all cs d)) = Some rs \<and>
      rs = pongs_of sq (map (\<lambda>(_, now1, _). now1) calls) nows \<and> length nows = length calls \<and> set nows \<subseteq> fst ` set es \<and>
      (\<forall>ds. concat ds = concat rs \<longrightarrow> (\<exists>s'. link_handle h (fst (link_recv_all ds ([], 0))) s = Some (s', []) \<and> mLastPingTime s' = last nows))"
    if cs: "concat cs = concat ps" "\<forall>c \<in> set cs. length c \<le> unat RECV_BUFFER_SIZE" "length es = length ps" for cs es
  proof -
    have "frames (unread d @ concat cs) = (ps, [], False)" using frames_packets [of ps] ps(2) cs(1) assms(7) by simp
    from recv_all_frames [OF assms(5,6) cs(2) this] have r: "fst (recv_all cs d) = ps" by auto
    obtain nows where n: "length nows = length calls" "set nows \<subseteq> fst ` set es"
      "db_serve g es ps (snd (recv_all cs d)) = Some (pongs_of sq (map (\<lambda>(_, now1, _). now1) calls) nows)" using ps(3) cs(3) by blast
    have l: "length nows = length (map (\<lambda>(_, now1, _). now1) calls)" "nows \<noteq> []" using n(1) assms(4) by auto
    show ?thesis using r n pongs_received [OF assms(8) l] by auto
  qed
  with ps(1) show ?thesis by blast
qed


theorem db_ping_conversation_witness:
  "\<exists>ps rs s'. timer_pings [(replicate 31 0, 10, 11)] 0 = Some (1, ps) \<and>
     db_serve \<lparr>shLatencyManager = True, shOrderedTaskQueue = True\<rparr> (map (\<lambda>_. (25, [])) ps)
       (fst (recv_all [concat ps] (SetOnRecv True (Session_Initialize 1 5 0 Session_new))))
       (snd (recv_all [concat ps] (SetOnRecv True (Session_Initialize 1 5 0 Session_new)))) = Some rs \<and>
     link_handle DPH_new (fst (link_recv_all [concat rs] ([], 0))) (Session_Initialize 7 8 0 Session_new) = Some (s', []) \<and> mLastPingTime s' = 25"
proof -
  let ?g = "\<lparr>shLatencyManager = True, shOrderedTaskQueue = True\<rparr>" and ?d = "SetOnRecv True (Session_Initialize 1 5 0 Session_new)"
    and ?s = "Session_Initialize 7 8 0 Session_new"
  have d: "recv_inv ?d" "mOnRecvCb ?d" "unread ?d = []" "IsConnected ?s"
    by (simp_all add: recv_inv_def unread_def SetOnRecv_def Session_Initialize_def IsConnected_def)
  have j: "list_all (\<lambda>(junk, _). length junk = 31) [(replicate 31 0 :: byte list, 10 :: Timestamp, 11 :: Timestamp)]" by simp
  have "shOrderedTaskQueue ?g" "shLatencyManager ?g" "[(replicate 31 0 :: byte list, 10 :: Timestamp, 11 :: Timestamp)] \<noteq> []" by simp_all
  note T = db_ping_conversation [OF this(1,2) j this(3) d, of 0 DPH_new]
  then obtain ps where p: "timer_pings [(replicate 31 0, 10, 11)] 0 = Some (1, ps)" by (elim exE conjE) simp
  then have ps: "ps = [ping_of 1 10]" by (simp add: SendDBPing_def ping_of_def Let_def)
  then have "length (concat ps) \<le> unat RECV_BUFFER_SIZE" by (simp add: ping_of_valid RECV_BUFFER_SIZE_def)
  then have c: "\<forall>c \<in> set [concat ps]. length c \<le> unat RECV_BUFFER_SIZE" "concat [concat ps] = concat ps" by simp_all
  obtain rs nows where r: "db_serve ?g (map (\<lambda>_. (25, [])) ps) (fst (recv_all [concat ps] ?d)) (snd (recv_all [concat ps] ?d)) = Some rs"
      "length nows = 1" "set nows \<subseteq> fst ` set (map (\<lambda>_. (25, [] :: byte list)) ps)"
      "\<forall>ds. concat ds = concat rs \<longrightarrow> (\<exists>s'. link_handle DPH_new (fst (link_recv_all ds ([], 0))) ?s = Some (s', []) \<and> mLastPingTime s' = last nows)"
  proof -
    obtain ps' where p': "timer_pings [(replicate 31 0, 10, 11)] 0 = Some (0 + of_nat (length [(replicate 31 0 :: byte list, 10 :: Timestamp, 11 :: Timestamp)]), ps')"
      and q: "\<forall>cs es. concat cs = concat ps' \<longrightarrow> (\<forall>c \<in> set cs. length c \<le> unat RECV_BUFFER_SIZE) \<longrightarrow> length es = length ps' \<longrightarrow>
        (\<exists>rs nows. db_serve ?g es (fst (recv_all cs ?d)) (snd (recv_all cs ?d)) = Some rs \<and>
          rs = pongs_of 0 (map (\<lambda>(_, now1, _). now1) [(replicate 31 0 :: byte list, 10 :: Timestamp, 11 :: Timestamp)]) nows \<and>
          length nows = length [(replicate 31 0 :: byte list, 10 :: Timestamp, 11 :: Timestamp)] \<and> set nows \<subseteq> fst ` set es \<and>
          (\<forall>ds. concat ds = concat rs \<longrightarrow>
            (\<exists>s'. link_handle DPH_new (fst (link_recv_all ds ([], 0))) ?s = Some (s', []) \<and> mLastPingTime s' = last nows)))"
      using T by (elim exE conjE) (rule that)
    have "ps' = ps" using p p' by simp
    note q' = q [unfolded this, THEN spec, THEN spec, of "[concat ps]" "map (\<lambda>_. (25, [])) ps", THEN mp, OF c(2), THEN mp, OF c(1), THEN mp, OF length_map]
    then show thesis by (elim exE conjE) (rule that, assumption, simp, assumption, assumption)
  qed
  have "nows = [25]" using r(2,3) ps by (cases nows) auto
  moreover obtain s' where "link_handle DPH_new (fst (link_recv_all [concat rs] ([], 0))) ?s = Some (s', [])" "mLastPingTime s' = last nows"
    using r(4) [THEN spec, of "[concat rs]"] by auto
  ultimately show ?thesis using p r(1) by auto
qed

end
